(* ===== verification/Prelude.thy ===== *)
theory Prelude
  imports Main "HOL-Library.Word" "HOL-Library.Monad_Syntax"
begin

text \<open>
  Shared vocabulary of the development.

  \<^item> The integer types of \<open>include/os/stdint.h\<close> are words of the same width; \<open>+\<close>, \<open>-\<close> and
    \<open>*\<close> wrap as the C operators do on unsigned operands, \<open>ucast\<close> is a C conversion.
  \<^item> A pointer is an address, a \<open>u32\<close>; \<open>NULL\<close> is 0. Raw memory is a function from addresses
    to bytes.
  \<^item> A C function that may fail to return is modelled by an \<open>option\<close>: \<open>None\<close> means that the
    call never returns. A failed \<open>ASSERT\<close> is such a case, because \<open>debug_out\<close> ends in
    \<open>while(1);\<close>, and so is a loop that does not end.
  \<^item> The collections \<open>kdefs\<close> (definitions of small helpers to unfold) and \<open>kframe\<close> (what an
    operation leaves alone) carry the component proofs.
\<close>

unbundle bit_operations_syntax

named_theorems kdefs
named_theorems kframe

type_synonym u8 = "8 word"
type_synonym u16 = "16 word"
type_synonym u32 = "32 word"
type_synonym u64 = "64 word"

type_synonym mem = "u32 \<Rightarrow> u8"

definition NULL :: u32 where
  "NULL = 0"

definition ASSERT :: "bool \<Rightarrow> unit option" where
  "ASSERT c = (if c then Some () else None)"

definition DIV_ROUND_UP :: "u32 \<Rightarrow> u32 \<Rightarrow> u32" where
  "DIV_ROUND_UP x step = (x + step - 1) div step"

text \<open>Reading and writing a 32 bit value in memory, low byte first.\<close>

definition read32 :: "mem \<Rightarrow> u32 \<Rightarrow> u32" where
  "read32 m p = ucast (m p) OR push_bit 8 (ucast (m (p + 1))) OR push_bit 16 (ucast (m (p + 2))) OR push_bit 24 (ucast (m (p + 3)))"

definition write32 :: "mem \<Rightarrow> u32 \<Rightarrow> u32 \<Rightarrow> mem" where
  "write32 m p v = m(p := ucast v, p + 1 := ucast (drop_bit 8 v), p + 2 := ucast (drop_bit 16 v), p + 3 := ucast (drop_bit 24 v))"

lemma ASSERT_True [simp]: "ASSERT True = Some ()"
  by (simp add: ASSERT_def)

lemma ASSERT_False [simp]: "ASSERT False = None"
  by (simp add: ASSERT_def)

lemma ASSERT_eq_Some [simp]: "ASSERT c = Some u \<longleftrightarrow> c"
  by (simp add: ASSERT_def)

lemma ASSERT_bind_eq_Some [simp]:
  "(ASSERT c \<bind> f) = Some y \<longleftrightarrow> c \<and> f () = Some y"
  by (cases c) simp_all

lemma ASSERT_bind: "c \<Longrightarrow> (ASSERT c \<bind> f) = f ()"
  by simp

lemma sint_eq_iff [simp]: "sint x = sint y \<longleftrightarrow> x = (y :: 'a :: len word)"
  by (auto intro: signed_word_eqI)

lemma sint_eq_0 [simp]: "sint x = 0 \<longleftrightarrow> x = (0 :: 'a :: len word)"
  by (rule signed_eq_0_iff)

text \<open>Arithmetic of words read as natural numbers.\<close>

lemma unat_lt_2p32: "unat (x :: u32) < 4294967296"
  using unsigned_less [of x] by simp

lemma unat_plus_one: "(x :: 'a :: len word) < y \<Longrightarrow> unat (x + 1) = Suc (unat x)"
proof -
  assume "x < y"
  then have "Suc (unat x) < 2 ^ LENGTH('a)"
    using unsigned_less [of y] by (auto simp: word_less_nat_alt intro: le_less_trans Suc_leI)
  then show ?thesis
    by (simp add: unat_word_ariths)
qed

lemma up_to_measure: "i + 1 < (n :: 'a :: len word) \<Longrightarrow> unat (n - i - 2) < unat (n - 1 - i)"
proof -
  assume "i + 1 < n"
  then have "n - 1 - i \<noteq> 0"
    by (auto simp: algebra_simps)
  moreover have "n - i - 2 = (n - 1 - i) - 1"
    by (simp add: algebra_simps)
  ultimately show ?thesis
    by (metis measure_unat)
qed

lemma unat_of_nat_u32 [simp]: "n < 4294967296 \<Longrightarrow> unat (of_nat n :: u32) = n"
  by (simp add: unat_of_nat)

lemma of_nat_inj_u32: "a < 4294967296 \<Longrightarrow> b < 4294967296 \<Longrightarrow> (of_nat a :: u32) = of_nat b \<longleftrightarrow> a = b"
  by (metis unat_of_nat_u32)

lemma sint_of_nat_u64: "n < 4294967296 \<Longrightarrow> sint (of_nat n :: u64) = int n"
  by (simp add: signed_of_nat signed_take_bit_int_eq_self)

lemma unat_of_nat_u64 [simp]: "n < 4294967296 \<Longrightarrow> unat (of_nat n :: u64) = n"
  by (simp add: unat_of_nat)

lemma ucast_of_nat_u64 [simp]: "(ucast (of_nat n :: u64) :: u32) = of_nat n"
  by (simp add: unsigned_of_nat word_of_nat_eq_iff take_bit_take_bit min_def)

text \<open>Memory read and written in 32 bit units at aligned addresses.\<close>

lemma read32_bytes:
  "ucast (ucast v :: u8) OR push_bit 8 (ucast (ucast (drop_bit 8 v) :: u8)) OR push_bit 16 (ucast (ucast (drop_bit 16 v) :: u8)) OR
   push_bit 24 (ucast (ucast (drop_bit 24 v) :: u8)) = (v :: u32)"
proof (rule bit_word_eqI)
  fix n assume "n < LENGTH(32)"
  then have "n < 8 \<or> 8 \<le> n \<and> n < 16 \<or> 16 \<le> n \<and> n < 24 \<or> 24 \<le> n \<and> n < 32"
    by auto
  then show "bit (ucast (ucast v :: u8) OR push_bit 8 (ucast (ucast (drop_bit 8 v) :: u8)) OR push_bit 16 (ucast (ucast (drop_bit 16 v) :: u8)) OR
      push_bit 24 (ucast (ucast (drop_bit 24 v) :: u8)) :: u32) n = bit v n"
    by (elim disjE) (auto simp: bit_simps)
qed

lemma read32_write32_same: "read32 (write32 m p v) p = v"
  unfolding read32_def write32_def by (simp add: read32_bytes)

lemma read32_write32:
  assumes "4 dvd a" and "4 dvd b" and "a < 4294967296" and "b < 4294967296"
  shows "read32 (write32 m (of_nat a) v) (of_nat b) = (if a = b then v else read32 m (of_nat b))"
proof (cases "a = b")
  case True
  then show ?thesis
    by (simp add: read32_write32_same)
next
  case False
  have apart: "(of_nat b + of_nat i :: u32) \<noteq> of_nat a + of_nat j" if "i < 4" "j < 4" for i j
  proof -
    obtain c d where cd: "a = 4 * c" "b = 4 * d"
      using assms(1,2) by (auto elim!: dvdE)
    then have "a + 3 < 4294967296" "b + 3 < 4294967296" and "b + i \<noteq> a + j"
      using False assms(3,4) that by presburger+
    then show ?thesis
      using of_nat_inj_u32 [of "b + i" "a + j"] that by simp
  qed
  have other: "write32 m (of_nat a) v (of_nat b + of_nat i) = m (of_nat b + of_nat i)" if "i < 4" for i
    using apart [OF that, of 0] apart [OF that, of 1] apart [OF that, of 2] apart [OF that, of 3] by (simp add: write32_def)
  from other [of 0] other [of 1] other [of 2] other [of 3] show ?thesis
    using False unfolding read32_def by simp
qed

end
