(* ===== verification/Cstring.thy ===== *)
theory Cstring
  imports Prelude
begin

text \<open>
  The memory and string routines of \<open>lib/string.c\<close> on raw memory. A \<open>char\<close> is signed, so the
  differences that \<open>memcmp\<close> and \<open>strcmp\<close> return are differences of \<open>sint\<close> values. The loops
  over a NUL-terminated string are partial functions: without a terminator they do not end.
  \<open>span p n\<close> is the set of the \<open>n\<close> addresses from \<open>p\<close> on, \<open>cstring m p cs\<close> says that \<open>m\<close>
  holds the string \<open>cs\<close> and its terminator at \<open>p\<close>.
\<close>

section \<open>Operations\<close>

primrec memset_loop :: "mem \<Rightarrow> u32 \<Rightarrow> u8 \<Rightarrow> nat \<Rightarrow> mem" where
  "memset_loop m dst ch 0 = m"
| "memset_loop m dst ch (Suc count) = memset_loop (m(dst := ch)) (dst + 1) ch count"

definition memset :: "mem \<Rightarrow> u32 \<Rightarrow> u8 \<Rightarrow> u32 \<Rightarrow> mem option" where
  "memset m dst ch count = do {
     ASSERT (dst \<noteq> NULL);
     Some (memset_loop m dst ch (unat count))
   }"

primrec memcpy_loop :: "mem \<Rightarrow> u32 \<Rightarrow> u32 \<Rightarrow> nat \<Rightarrow> mem" where
  "memcpy_loop m dst src 0 = m"
| "memcpy_loop m dst src (Suc count) = memcpy_loop (m(dst := m src)) (dst + 1) (src + 1) count"

definition memcpy :: "mem \<Rightarrow> u32 \<Rightarrow> u32 \<Rightarrow> u32 \<Rightarrow> mem option" where
  "memcpy m dst src count = do {
     ASSERT (dst \<noteq> NULL \<and> src \<noteq> NULL);
     Some (memcpy_loop m dst src (unat count))
   }"

primrec memcmp_loop :: "mem \<Rightarrow> u32 \<Rightarrow> u32 \<Rightarrow> nat \<Rightarrow> int \<Rightarrow> int" where
  "memcmp_loop m buf1 buf2 0 res = res"
| "memcmp_loop m buf1 buf2 (Suc count) res =
     (let res' = sint (m buf1) - sint (m buf2)
      in if res' \<noteq> 0 then res' else memcmp_loop m (buf1 + 1) (buf2 + 1) count res')"

definition memcmp :: "mem \<Rightarrow> u32 \<Rightarrow> u32 \<Rightarrow> u32 \<Rightarrow> int option" where
  "memcmp m buf1 buf2 count = do {
     ASSERT (buf1 \<noteq> NULL \<and> buf2 \<noteq> NULL);
     Some (memcmp_loop m buf1 buf2 (unat count) 0)
   }"

partial_function (option) strcpy_loop :: "mem \<Rightarrow> u32 \<Rightarrow> u32 \<Rightarrow> mem option" where
  "strcpy_loop m tmp src =
     (if m src \<noteq> 0 then strcpy_loop (m(tmp := m src)) (tmp + 1) (src + 1)
      else Some (m(tmp := m src)))"

definition strcpy :: "mem \<Rightarrow> u32 \<Rightarrow> u32 \<Rightarrow> mem option" where
  "strcpy m dst src = do {
     ASSERT (dst \<noteq> NULL \<and> src \<noteq> NULL);
     strcpy_loop m dst src
   }"

partial_function (option) strcmp_loop :: "mem \<Rightarrow> u32 \<Rightarrow> u32 \<Rightarrow> (u32 \<times> u32) option" where
  "strcmp_loop m str1 str2 =
     (if m str1 = m str2
      then if m str1 = 0 then Some (str1, str2) else strcmp_loop m (str1 + 1) (str2 + 1)
      else Some (str1, str2))"

definition strcmp :: "mem \<Rightarrow> u32 \<Rightarrow> u32 \<Rightarrow> int option" where
  "strcmp m str1 str2 = do {
     ASSERT (str1 \<noteq> NULL \<and> str2 \<noteq> NULL);
     (p, q) \<leftarrow> strcmp_loop m str1 str2;
     Some (sint (m p) - sint (m q))
   }"

partial_function (option) strlen_loop :: "mem \<Rightarrow> u32 \<Rightarrow> u32 \<Rightarrow> u32 option" where
  "strlen_loop m str count =
     (if m str \<noteq> 0 then strlen_loop m (str + 1) (count + 1) else Some count)"

definition strlen :: "mem \<Rightarrow> u32 \<Rightarrow> u32 option" where
  "strlen m str = do {
     ASSERT (str \<noteq> NULL);
     strlen_loop m str 0
   }"

partial_function (option) strchr_loop :: "mem \<Rightarrow> u32 \<Rightarrow> u8 \<Rightarrow> u32 option" where
  "strchr_loop m str ch =
     (if m str \<noteq> ch
      then if m str = 0 then Some NULL else strchr_loop m (str + 1) ch
      else Some str)"

definition strchr :: "mem \<Rightarrow> u32 \<Rightarrow> u8 \<Rightarrow> u32 option" where
  "strchr m str ch = do {
     ASSERT (str \<noteq> NULL);
     strchr_loop m str ch
   }"

partial_function (option) strrchr_loop :: "mem \<Rightarrow> u32 \<Rightarrow> u32 \<Rightarrow> u8 \<Rightarrow> u32 option" where
  "strrchr_loop m str p ch =
     (if m p = ch then Some p
      else if str \<le> p - 1 then strrchr_loop m str (p - 1) ch else Some NULL)"

definition strrchr :: "mem \<Rightarrow> u32 \<Rightarrow> u8 \<Rightarrow> u32 option" where
  "strrchr m str ch = do {
     ASSERT (str \<noteq> NULL);
     n \<leftarrow> strlen m str;
     strrchr_loop m str (str + n) ch
   }"

partial_function (option) str_end_loop :: "mem \<Rightarrow> u32 \<Rightarrow> u32 option" where
  "str_end_loop m p = (if m p \<noteq> 0 then str_end_loop m (p + 1) else Some p)"

definition strcat :: "mem \<Rightarrow> u32 \<Rightarrow> u32 \<Rightarrow> mem option" where
  "strcat m dst src = do {
     ASSERT (dst \<noteq> NULL \<and> src \<noteq> NULL);
     p \<leftarrow> str_end_loop m dst;
     strcpy_loop m p src
   }"

partial_function (option) strchrs_loop :: "mem \<Rightarrow> u32 \<Rightarrow> u8 \<Rightarrow> u32 \<Rightarrow> u32 option" where
  "strchrs_loop m str ch res =
     (if m str \<noteq> 0
      then strchrs_loop m (str + 1) ch (if m str = ch then res + 1 else res)
      else Some res)"

definition strchrs :: "mem \<Rightarrow> u32 \<Rightarrow> u8 \<Rightarrow> u32 option" where
  "strchrs m str ch = do {
     ASSERT (str \<noteq> NULL);
     strchrs_loop m str ch 0
   }"

section \<open>Specification vocabulary\<close>

definition span :: "u32 \<Rightarrow> nat \<Rightarrow> u32 set" where
  "span p n = (\<lambda>i. p + of_nat i) ` {..<n}"

fun cstring :: "mem \<Rightarrow> u32 \<Rightarrow> u8 list \<Rightarrow> bool" where
  "cstring m p [] \<longleftrightarrow> m p = 0"
| "cstring m p (c # cs) \<longleftrightarrow> c \<noteq> 0 \<and> m p = c \<and> cstring m (p + 1) cs"

definition bytes_at :: "mem \<Rightarrow> u32 \<Rightarrow> nat \<Rightarrow> u8 list" where
  "bytes_at m p n = map (\<lambda>i. m (p + of_nat i)) [0..<n]"

section \<open>Address ranges\<close>

lemma span_0 [simp]: "span p 0 = {}"
  by (simp add: span_def)

lemma span_Suc: "span p (Suc n) = insert p (span (p + 1) n)"
proof -
  have "span p (Suc n) = (\<lambda>i. p + of_nat i) ` insert 0 (Suc ` {..<n})"
    by (simp add: span_def lessThan_Suc_eq_insert_0)
  then show ?thesis
    by (simp add: span_def image_image add.assoc)
qed

lemma span_memI: "i < n \<Longrightarrow> p + of_nat i \<in> span p n"
  by (auto simp: span_def)

lemma start_in_span [simp]: "p \<in> span p (Suc n)"
  by (simp add: span_Suc)

lemma start_notin_span: "n < 4294967296 \<Longrightarrow> p \<notin> span (p + 1) n"
proof
  assume n: "n < 4294967296" and "p \<in> span (p + 1) n"
  then obtain i where "i < n" "p = p + 1 + of_nat i"
    by (auto simp: span_def)
  then have "(of_nat (Suc i) :: u32) = of_nat 0"
    by (simp add: add.assoc)
  with n \<open>i < n\<close> show False
    by (subst (asm) of_nat_inj_u32) auto
qed

lemma span_shift_subset: "k + n \<le> l \<Longrightarrow> span (p + of_nat k) n \<subseteq> span p l"
proof
  fix a assume "k + n \<le> l" and "a \<in> span (p + of_nat k) n"
  then obtain i where "i < n" "a = p + of_nat (k + i)"
    by (auto simp: span_def add.assoc)
  then show "a \<in> span p l"
    using \<open>k + n \<le> l\<close> by (simp only: span_memI)
qed

lemma below_notin_span:
  assumes "i < k" and "k + n \<le> 4294967296"
  shows "p + of_nat i \<notin> span (p + of_nat k) n"
proof
  assume "p + of_nat i \<in> span (p + of_nat k) n"
  then obtain j where "j < n" "(of_nat i :: u32) = of_nat (k + j)"
    by (auto simp: span_def add.assoc)
  with assms show False
    by (subst (asm) of_nat_inj_u32) auto
qed

lemma bytes_at_Suc: "bytes_at m p (Suc n) = m p # bytes_at m (p + 1) n"
proof -
  have "bytes_at m p (Suc n) = map (\<lambda>i. m (p + of_nat i)) (0 # map Suc [0..<n])"
    by (simp only: bytes_at_def upt_conv_Cons zero_less_Suc map_Suc_upt)
  then show ?thesis
    by (simp add: bytes_at_def add.assoc o_def)
qed

lemma bytes_at_0 [simp]: "bytes_at m p 0 = []"
  by (simp add: bytes_at_def)

lemma bytes_at_cong: "(\<And>a. a \<in> span p n \<Longrightarrow> m a = m' a) \<Longrightarrow> bytes_at m p n = bytes_at m' p n"
  by (simp add: bytes_at_def span_memI)

lemma cstring_cong: "(\<And>a. a \<in> span p (Suc (length cs)) \<Longrightarrow> m a = m' a) \<Longrightarrow> cstring m p cs = cstring m' p cs"
proof (induction cs arbitrary: p)
  case (Cons c cs)
  have "cstring m (p + 1) cs = cstring m' (p + 1) cs"
    by (rule Cons.IH) (simp add: Cons.prems span_Suc [of p])
  with Cons.prems [of p] show ?case by simp
qed simp

lemma cstring_upd_other:
  "a \<notin> span p (Suc (length cs)) \<Longrightarrow> cstring (m(a := v)) p cs = cstring m p cs"
  by (rule cstring_cong) auto

section \<open>Filling, copying, comparing memory\<close>

lemma memset_loop_eq: "memset_loop m p ch n = (\<lambda>a. if a \<in> span p n then ch else m a)"
proof (induction n arbitrary: m p)
  case (Suc n)
  show ?case
    by (rule ext) (simp add: Suc span_Suc [of p])
qed simp

lemma memset_eq:
  "p \<noteq> NULL \<Longrightarrow> memset m p ch n = Some (\<lambda>a. if a \<in> span p (unat n) then ch else m a)"
  by (simp add: memset_def memset_loop_eq)

lemma memcpy_loop_other: "a \<notin> span dst n \<Longrightarrow> memcpy_loop m dst src n a = m a"
  by (induction n arbitrary: m dst src) (auto simp: span_Suc [of _ "n"] span_Suc)

lemma memcpy_loop_bytes:
  assumes "span dst n \<inter> span src n = {}" and "n \<le> 4294967296"
  shows "bytes_at (memcpy_loop m dst src n) dst n = bytes_at m src n"
  using assms
proof (induction n arbitrary: m dst src)
  case (Suc n)
  let ?m = "m(dst := m src)"
  have "dst \<notin> span (dst + 1) n"
    using Suc.prems by (intro start_notin_span) simp
  then have "memcpy_loop ?m (dst + 1) (src + 1) n dst = m src"
    by (simp add: memcpy_loop_other)
  moreover have "bytes_at (memcpy_loop ?m (dst + 1) (src + 1) n) (dst + 1) n = bytes_at ?m (src + 1) n"
    using Suc.prems by (intro Suc.IH) (auto simp: span_Suc)
  moreover have "bytes_at ?m (src + 1) n = bytes_at m (src + 1) n"
    using Suc.prems by (intro bytes_at_cong) (auto simp: span_Suc)
  ultimately show ?case
    by (simp add: bytes_at_Suc)
qed simp

lemma memcmp_loop_0: "memcmp_loop m p q n 0 = 0 \<longleftrightarrow> bytes_at m p n = bytes_at m q n"
  by (induction n arbitrary: p q) (auto simp: bytes_at_Suc Let_def)

text \<open>The first position where two byte sequences differ decides the sign.\<close>

fun byte_diff :: "u8 list \<Rightarrow> u8 list \<Rightarrow> int" where
  "byte_diff (x # xs) (y # ys) = (if x = y then byte_diff xs ys else sint x - sint y)"
| "byte_diff _ _ = 0"

lemma memcmp_loop_eq: "memcmp_loop m p q n 0 = byte_diff (bytes_at m p n) (bytes_at m q n)"
  by (induction n arbitrary: p q) (auto simp: bytes_at_Suc Let_def)

section \<open>Strings\<close>

lemma strlen_loop_cstring: "cstring m p cs \<Longrightarrow> strlen_loop m p k = Some (k + of_nat (length cs))"
  by (induction cs arbitrary: p k) (auto simp: strlen_loop.simps add.assoc)

lemma strlen_cstring: "cstring m p cs \<Longrightarrow> p \<noteq> NULL \<Longrightarrow> strlen m p = Some (of_nat (length cs))"
  by (simp add: strlen_def strlen_loop_cstring)

lemma str_end_loop_cstring: "cstring m p cs \<Longrightarrow> str_end_loop m p = Some (p + of_nat (length cs))"
  by (induction cs arbitrary: p) (auto simp: str_end_loop.simps add.assoc)

lemma strcpy_loop_cstring:
  assumes "cstring m s cs" and "span d (Suc (length cs)) \<inter> span s (Suc (length cs)) = {}"
    and "length cs < 4294967296"
  shows "\<exists>m'. strcpy_loop m d s = Some m' \<and> cstring m' d cs \<and>
           (\<forall>a. a \<notin> span d (Suc (length cs)) \<longrightarrow> m' a = m a)"
  using assms
proof (induction cs arbitrary: m d s)
  case Nil
  then show ?case by (simp add: strcpy_loop.simps span_Suc)
next
  case (Cons c cs)
  let ?m = "m(d := c)" and ?n = "Suc (length cs)"
  have disj: "span (d + 1) ?n \<inter> span (s + 1) ?n = {}" and dn: "d \<notin> span (s + 1) ?n"
    using Cons.prems(2) by (auto simp: span_Suc [of d "Suc _"] span_Suc [of s "Suc _"])
  have "cstring ?m (s + 1) cs"
    using Cons.prems(1) dn by (simp add: cstring_upd_other)
  moreover have "length cs < 4294967296"
    using Cons.prems(3) by simp
  ultimately obtain m' where
    m': "strcpy_loop ?m (d + 1) (s + 1) = Some m'" "cstring m' (d + 1) cs"
      "\<forall>a. a \<notin> span (d + 1) ?n \<longrightarrow> m' a = ?m a"
    using Cons.IH [OF _ disj] by blast
  have "d \<notin> span (d + 1) ?n"
    using Cons.prems(3) by (intro start_notin_span) simp
  then have "cstring m' d (c # cs)"
    using m' Cons.prems(1) by simp
  moreover have "strcpy_loop m d s = Some m'"
    using m'(1) Cons.prems(1) by (simp add: strcpy_loop.simps [of m])
  moreover have "\<forall>a. a \<notin> span d (Suc ?n) \<longrightarrow> m' a = m a"
    using m'(3) by (simp add: span_Suc [of d ?n])
  ultimately show ?case by auto
qed

lemma cstring_append: "cstring m p (cs @ ds) \<longleftrightarrow>
    (\<forall>i < length cs. cs ! i \<noteq> 0 \<and> m (p + of_nat i) = cs ! i) \<and> cstring m (p + of_nat (length cs)) ds"
proof (induction cs arbitrary: p)
  case (Cons c cs)
  show ?case by (auto simp: Cons All_less_Suc2 add.assoc)
qed simp

lemma cstring_alt: "cstring m p cs \<longleftrightarrow>
    (\<forall>i < length cs. cs ! i \<noteq> 0 \<and> m (p + of_nat i) = cs ! i) \<and> m (p + of_nat (length cs)) = 0"
  using cstring_append [of m p cs "[]"] by simp

lemma cstring_nz: "cstring m p cs \<Longrightarrow> 0 \<notin> set cs"
  by (auto simp: cstring_alt in_set_conv_nth)

lemma strcmp_loop_cstring:
  assumes "cstring m p cs" and "cstring m q ds"
  shows "\<exists>a b. strcmp_loop m p q = Some (a, b) \<and> sint (m a) - sint (m b) = byte_diff (cs @ [0]) (ds @ [0])"
  using assms
proof (induction cs arbitrary: p q ds)
  case Nil
  then show ?case by (cases ds) (auto simp: strcmp_loop.simps [of m p q])
next
  case (Cons c cs)
  note IH = Cons.IH
  show ?case
  proof (cases ds)
    case Nil
    with Cons.prems show ?thesis by (auto simp: strcmp_loop.simps [of m p q])
  next
    case (Cons d ds')
    then show ?thesis
      using Cons.prems IH [of "p + 1" "q + 1" ds'] by (auto simp: strcmp_loop.simps [of m p q])
  qed
qed

lemma byte_diff_0: "0 \<notin> set cs \<Longrightarrow> 0 \<notin> set ds \<Longrightarrow> byte_diff (cs @ [0]) (ds @ [0]) = 0 \<longleftrightarrow> cs = ds"
proof (induction cs arbitrary: ds)
  case Nil
  then show ?case by (cases ds) auto
next
  case (Cons c cs)
  then show ?case by (cases ds) auto
qed

lemma strchr_loop_found:
  "cstring m p (cs @ ch # ds) \<Longrightarrow> ch \<notin> set cs \<Longrightarrow> strchr_loop m p ch = Some (p + of_nat (length cs))"
  by (induction cs arbitrary: p) (auto simp: strchr_loop.simps [of m] add.assoc)

lemma strchr_loop_absent:
  "cstring m p cs \<Longrightarrow> ch \<notin> set cs \<Longrightarrow> ch \<noteq> 0 \<Longrightarrow> strchr_loop m p ch = Some NULL"
  by (induction cs arbitrary: p) (auto simp: strchr_loop.simps [of m])

lemma strchrs_loop_cstring:
  "cstring m p cs \<Longrightarrow> ch \<noteq> 0 \<Longrightarrow> strchrs_loop m p ch k = Some (k + of_nat (count_list cs ch))"
  by (induction cs arbitrary: p k) (auto simp: strchrs_loop.simps [of m] add.assoc)

text \<open>
  \<open>strrchr\<close> walks down from the terminator. The scan is described on the bytes of the string
  with its terminator; \<open>str\<close> is not \<open>NULL\<close> and the string does not wrap around the address
  space, so that the comparison \<open>--p >= _str\<close> stops it.
\<close>

lemma strrchr_loop_down:
  assumes "unat str + n < 4294967296" and "str \<noteq> NULL"
  shows "strrchr_loop m str (str + of_nat n) ch =
     (if \<exists>i \<le> n. m (str + of_nat i) = ch
      then Some (str + of_nat (GREATEST i. i \<le> n \<and> m (str + of_nat i) = ch)) else Some NULL)"
  using assms
proof (induction n)
  case 0
  have "0 < unat str"
    using 0 by (simp add: NULL_def unat_gt_0)
  then have "\<not> str \<le> str - 1"
    by (simp add: word_le_nat_alt unat_sub_if')
  moreover have "m str = ch \<Longrightarrow> (GREATEST i. i = 0 \<and> m (str + of_nat i) = ch) = 0"
    by (rule Greatest_equality) auto
  ultimately show ?case by (simp add: strrchr_loop.simps [of m str str])
next
  case (Suc n)
  let ?P = "\<lambda>n i. i \<le> n \<and> m (str + of_nat i) = ch"
  show ?case
  proof (cases "m (str + of_nat (Suc n)) = ch")
    case True
    then have "(GREATEST i. ?P (Suc n) i) = Suc n"
      by (intro Greatest_equality) auto
    with True show ?thesis
      by (auto simp: strrchr_loop.simps [of m str "str + of_nat (Suc n)"] simp del: of_nat_Suc)
  next
    case False
    have "str \<le> str + of_nat n"
      using Suc.prems by (simp add: word_le_nat_alt unat_word_ariths)
    then have "strrchr_loop m str (str + of_nat (Suc n)) ch = strrchr_loop m str (str + of_nat n) ch"
      using False by (subst strrchr_loop.simps) simp
    moreover have "?P (Suc n) = ?P n"
      using False by (auto simp: le_Suc_eq simp del: of_nat_Suc)
    moreover have "(\<exists>i \<le> Suc n. m (str + of_nat i) = ch) = (\<exists>i \<le> n. m (str + of_nat i) = ch)"
      using False by (auto simp: le_Suc_eq simp del: of_nat_Suc)
    ultimately show ?thesis
      using Suc by (simp only: ) simp
  qed
qed

section \<open>Properties\<close>

text \<open>
  C40: \<open>strcat\<close> appends. If the destination holds the string \<open>as\<close>, the source holds \<open>bs\<close>, and the
  bytes the result needs neither wrap nor overlap the source string, then the call returns,
  the destination holds \<open>as @ bs\<close> afterwards, the source still holds \<open>bs\<close>, and no byte outside
  the destination has changed.
\<close>

theorem strcat_appends:
  assumes "cstring m dst as" and "cstring m src bs" and "dst \<noteq> NULL" and "src \<noteq> NULL"
    and "length as + length bs < 4294967296"
    and "span dst (Suc (length as + length bs)) \<inter> span src (Suc (length bs)) = {}"
  shows "\<exists>m'. strcat m dst src = Some m' \<and> cstring m' dst (as @ bs) \<and> cstring m' src bs \<and>
           (\<forall>a. a \<notin> span dst (Suc (length as + length bs)) \<longrightarrow> m' a = m a)"
proof -
  let ?e = "dst + of_nat (length as)"
  have sub: "span ?e (Suc (length bs)) \<subseteq> span dst (Suc (length as + length bs))"
    by (rule span_shift_subset) simp
  then obtain m' where m': "strcpy_loop m ?e src = Some m'" "cstring m' ?e bs"
      "\<forall>a. a \<notin> span ?e (Suc (length bs)) \<longrightarrow> m' a = m a"
    using strcpy_loop_cstring [OF assms(2), of ?e] assms(5,6) by fastforce
  have "\<forall>i < length as. dst + of_nat i \<notin> span ?e (Suc (length bs))"
    using assms(5) below_notin_span [of _ "length as" "Suc (length bs)" dst] by auto
  then have "cstring m' dst (as @ bs)"
    using assms(1) m'(2,3) by (simp add: cstring_append cstring_alt [of m dst])
  moreover have "cstring m' src bs = cstring m src bs"
    using m'(3) sub assms(6) by (intro cstring_cong) blast
  moreover have "strcat m dst src = Some m'"
    using assms m'(1) by (simp add: strcat_def str_end_loop_cstring)
  ultimately show ?thesis
    using m'(3) sub assms(2) by blast
qed

theorem strcat_appends_witness:
  "\<exists>m'. strcat ((\<lambda>a. 0)(16 := 104, 32 := 105)) 16 32 = Some m' \<and> cstring m' 16 [104, 105]"
proof -
  have "span 16 (Suc (Suc (Suc 0))) \<inter> span 32 (Suc (Suc 0)) = {}"
    by (simp add: span_Suc)
  then show ?thesis
    using strcat_appends [of "(\<lambda>a. 0)(16 := 104, 32 := 105)" 16 "[104]" 32 "[105]"]
    by (auto simp: NULL_def)
qed

text \<open>
  \<open>strcmp\<close> on two strings returns, and what it returns is the difference of the first
  characters (as signed bytes, terminators included) in which the strings differ; it is 0
  exactly when the strings are equal.
\<close>

theorem strcmp_compares:
  assumes "cstring m p as" and "cstring m q bs" and "p \<noteq> NULL" and "q \<noteq> NULL"
  shows "\<exists>r. strcmp m p q = Some r \<and> r = byte_diff (as @ [0]) (bs @ [0]) \<and> (r = 0 \<longleftrightarrow> as = bs)"
proof -
  obtain a b where "strcmp_loop m p q = Some (a, b)"
      "sint (m a) - sint (m b) = byte_diff (as @ [0]) (bs @ [0])"
    using strcmp_loop_cstring [OF assms(1,2)] by blast
  moreover have "byte_diff (as @ [0]) (bs @ [0]) = 0 \<longleftrightarrow> as = bs"
    using assms(1,2) by (intro byte_diff_0) (auto dest: cstring_nz)
  ultimately show ?thesis
    using assms(3,4) by (simp add: strcmp_def)
qed

theorem strcmp_compares_witness:
  "\<exists>r. strcmp ((\<lambda>a. 0)(16 := 104, 32 := 200)) 16 32 = Some r \<and> r = 160"
proof -
  have "sint (104 :: u8) - sint (200 :: u8) = 160"
    by simp
  then show ?thesis
    using strcmp_compares [of "(\<lambda>a. 0)(16 := 104, 32 := 200)" 16 "[104]" 32 "[200]"]
    by (simp add: NULL_def)
qed

text \<open>
  \<open>strrchr\<close> returns the address of the last occurrence of the character in the string or
  its terminator, and \<open>NULL\<close> when the character does not occur.
\<close>

theorem strrchr_last:
  assumes "cstring m str cs" and "str \<noteq> NULL" and "unat str + length cs < 4294967296"
  shows "strrchr m str ch =
     (if ch \<in> set (cs @ [0])
      then Some (str + of_nat (GREATEST i. i \<le> length cs \<and> (cs @ [0]) ! i = ch)) else Some NULL)"
proof -
  have at: "m (str + of_nat i) = (cs @ [0]) ! i" if "i \<le> length cs" for i
    using assms(1) that by (cases "i = length cs") (auto simp: cstring_alt nth_append)
  have "ch \<in> set (cs @ [0]) \<longleftrightarrow> (\<exists>i \<le> length cs. (cs @ [0]) ! i = ch)"
    by (auto simp: in_set_conv_nth nth_append less_Suc_eq_le [symmetric] simp del: set_append)
  then have "(\<exists>i \<le> length cs. m (str + of_nat i) = ch) \<longleftrightarrow> ch \<in> set (cs @ [0])"
    using at by auto
  moreover have "(\<lambda>i. i \<le> length cs \<and> m (str + of_nat i) = ch) = (\<lambda>i. i \<le> length cs \<and> (cs @ [0]) ! i = ch)"
    using at by auto
  ultimately show ?thesis
    using strrchr_loop_down [OF assms(3,2), of m ch] strlen_cstring [OF assms(1,2)] assms(2)
    by (simp add: strrchr_def)
qed

theorem strrchr_last_witness:
  "strrchr ((\<lambda>a. 0)(16 := 47, 17 := 98, 18 := 47, 19 := 99)) 16 47 = Some 18"
proof -
  have "(GREATEST i. i \<le> Suc (Suc (Suc (Suc 0))) \<and> ([47, 98, 47, 99, 0] :: u8 list) ! i = 47) = 2"
  proof (rule Greatest_equality)
    fix i assume "i \<le> Suc (Suc (Suc (Suc 0))) \<and> ([47, 98, 47, 99, 0] :: u8 list) ! i = 47"
    moreover from this have "i = 0 \<or> i = 1 \<or> i = 2 \<or> i = 3 \<or> i = 4" by arith
    ultimately show "i \<le> 2" by auto
  qed simp
  then show ?thesis
    using strrchr_last [of "(\<lambda>a. 0)(16 := 47, 17 := 98, 18 := 47, 19 := 99)" 16 "[47, 98, 47, 99]" 47]
    by (simp add: NULL_def)
qed

end
