(* ===== verification/Bitmap.thy ===== *)
theory Bitmap
  imports Cstring
begin

text \<open>
  The bitmap of \<open>lib/kernel/bitmap.c\<close> and \<open>include/os/bitmap.h\<close>: a length in bytes and a
  pointer into raw memory. Every operation takes the memory and, where it writes, returns the
  new one; the struct itself is only read, so it is passed by value (the pointer to it is the
  address of a variable at every call, and the checks \<open>bitmap != NULL\<close> of it hold).
  \<open>find_next_zero_bit\<close> and \<open>find_next_bit\<close> are total functions (their loops end); the loop of
  \<open>bitmap_apply\<close> need not end and is a partial function. \<open>bm_bit\<close> reads a bitmap as the
  sequence of bits that its users think of, \<open>bm_bits\<close> is the number of bits.
\<close>

section \<open>Data\<close>

record bitmap =
  bitmap_bytes_len :: u32
  bitmap :: u32

datatype bit_status = bit_clear | bit_set

definition BIT_PER_LONG :: u32 where
  "BIT_PER_LONG = 8"

definition BITMAP_MASK :: u8 where
  "BITMAP_MASK = 1"

definition BITS_TO_INDEX :: "u32 \<Rightarrow> u32" where
  "BITS_TO_INDEX nbits = nbits div BIT_PER_LONG"

definition BITS_IN_INDEX :: "u32 \<Rightarrow> u32" where
  "BITS_IN_INDEX nbits = nbits mod 8"

section \<open>Operations\<close>

definition bitmap_zero :: "mem \<Rightarrow> bitmap \<Rightarrow> mem option" where
  "bitmap_zero m b = do {
     ASSERT (bitmap b \<noteq> NULL);
     if bitmap_bytes_len b = 0 then Some (m(bitmap b := 0))
     else memset m (bitmap b) 0 (bitmap_bytes_len b)
   }"

definition bitmap_test_bit :: "mem \<Rightarrow> bitmap \<Rightarrow> u32 \<Rightarrow> bool option" where
  "bitmap_test_bit m b bit_idx = do {
     ASSERT (bitmap b \<noteq> NULL);
     ASSERT (bit_idx < bitmap_bytes_len b * BIT_PER_LONG);
     Some (m (bitmap b + BITS_TO_INDEX bit_idx)
             AND push_bit (unat (BITS_IN_INDEX bit_idx)) BITMAP_MASK \<noteq> 0)
   }"

definition bitmap_set_bit :: "mem \<Rightarrow> bitmap \<Rightarrow> u32 \<Rightarrow> bit_status \<Rightarrow> mem option" where
  "bitmap_set_bit m b bit_idx bst = do {
     ASSERT (bitmap b \<noteq> NULL);
     ASSERT (bit_idx < bitmap_bytes_len b * BIT_PER_LONG);
     let a = bitmap b + BITS_TO_INDEX bit_idx;
         k = push_bit (unat (BITS_IN_INDEX bit_idx)) BITMAP_MASK
     in case bst of
          bit_set \<Rightarrow> Some (m(a := m a OR k))
        | bit_clear \<Rightarrow> Some (m(a := m a AND NOT k))
   }"

definition test_bit :: "mem \<Rightarrow> bitmap \<Rightarrow> u32 \<Rightarrow> bool" where
  "test_bit m b bit_idx =
     (m (bitmap b + BITS_TO_INDEX bit_idx)
        AND push_bit (unat (BITS_IN_INDEX bit_idx)) BITMAP_MASK \<noteq> 0)"

text \<open>
  \<open>do { if (!test_bit) return offest; } while (++offest < bits)\<close>: the condition makes the
  distance from \<open>offest\<close> to the last bit shrink, so both scans end. The result is an
  \<open>int64_t\<close>; \<open>-1\<close> is the word of all ones.
\<close>

function find_next_zero_bit_loop :: "mem \<Rightarrow> bitmap \<Rightarrow> u32 \<Rightarrow> u64" where
  "find_next_zero_bit_loop m b offest =
     (if \<not> test_bit m b offest then ucast offest
      else if offest + 1 < bitmap_bytes_len b * BIT_PER_LONG
           then find_next_zero_bit_loop m b (offest + 1)
           else - 1)"
  by pat_completeness auto
termination
  by (relation "measure (\<lambda>(m, b, offest). unat (bitmap_bytes_len b * BIT_PER_LONG - 1 - offest))")
    (simp_all add: up_to_measure)

definition find_next_zero_bit :: "mem \<Rightarrow> bitmap \<Rightarrow> u32 \<Rightarrow> u64 option" where
  "find_next_zero_bit m b offest = do {
     ASSERT (bitmap b \<noteq> NULL);
     ASSERT (offest < bitmap_bytes_len b * BIT_PER_LONG);
     Some (find_next_zero_bit_loop m b offest)
   }"

function find_next_bit_loop :: "mem \<Rightarrow> bitmap \<Rightarrow> u32 \<Rightarrow> u32 \<Rightarrow> u32 \<Rightarrow> u64" where
  "find_next_bit_loop m b offest max_offest count =
     (if test_bit m b offest then ucast offest
      else if offest + 1 < bitmap_bytes_len b * BIT_PER_LONG \<and> count + 1 < max_offest
           then find_next_bit_loop m b (offest + 1) max_offest (count + 1)
           else - 1)"
  by pat_completeness auto
termination
  by (relation "measure (\<lambda>(m, b, offest, x, c). unat (bitmap_bytes_len b * BIT_PER_LONG - 1 - offest))")
    (simp_all add: up_to_measure)

definition find_next_bit :: "mem \<Rightarrow> bitmap \<Rightarrow> u32 \<Rightarrow> u32 \<Rightarrow> u64 option" where
  "find_next_bit m b offest max_offest = do {
     ASSERT (bitmap b \<noteq> NULL);
     ASSERT (offest < bitmap_bytes_len b * BIT_PER_LONG);
     Some (find_next_bit_loop m b offest max_offest 0)
   }"

text \<open>
  The loop of \<open>bitmap_apply\<close> with its conversions: \<open>__base_idx < __btmp_bits\<close> compares an
  \<open>int64_t\<close> with a \<open>uint64_t\<close> and so is unsigned, \<open>__top_idx - __base_idx >= nbits\<close> is signed,
  the arguments of the scans are cut down to \<open>uint32_t\<close>.
\<close>

partial_function (option) bitmap_apply_loop ::
  "mem \<Rightarrow> bitmap \<Rightarrow> u32 \<Rightarrow> u64 \<Rightarrow> u64 \<Rightarrow> u64 \<Rightarrow> u64 option" where
  "bitmap_apply_loop m b nbits btmp_bits base_idx top_idx =
     (if base_idx < btmp_bits \<or> top_idx < btmp_bits
      then do {
        top_idx \<leftarrow> find_next_bit m b (ucast (base_idx + 1)) (nbits - 1);
        if top_idx = - 1
        then (if ucast nbits \<le> btmp_bits - 1 - base_idx then Some base_idx else Some (- 1))
        else if ucast nbits \<le>s top_idx - base_idx then Some base_idx
        else do {
          base_idx \<leftarrow> find_next_zero_bit m b (ucast (top_idx + 1));
          bitmap_apply_loop m b nbits btmp_bits base_idx top_idx
        }
      }
      else Some (- 1))"

definition bitmap_apply :: "mem \<Rightarrow> bitmap \<Rightarrow> u32 \<Rightarrow> u64 option" where
  "bitmap_apply m b nbits = do {
     ASSERT (bitmap b \<noteq> NULL);
     base_idx \<leftarrow> find_next_zero_bit m b 0;
     if base_idx = - 1 then Some (- 1)
     else bitmap_apply_loop m b nbits (ucast (bitmap_bytes_len b * BIT_PER_LONG)) base_idx 0
   }"

text \<open>
  \<open>int i = bit_idx; for (; i < bit_idx + nbits; i++) bitmap_set_bit(bitmap, bit_idx, bit);\<close> The
  comparison is unsigned; the body does not mention \<open>i\<close>.
\<close>

function bitmap_set_bits_loop :: "mem \<Rightarrow> bitmap \<Rightarrow> u32 \<Rightarrow> u32 \<Rightarrow> bit_status \<Rightarrow> u32 \<Rightarrow> mem option" where
  "bitmap_set_bits_loop m b bit_idx nbits bst i =
     (if i < bit_idx + nbits
      then do {
        m \<leftarrow> bitmap_set_bit m b bit_idx bst;
        bitmap_set_bits_loop m b bit_idx nbits bst (i + 1)
      }
      else Some m)"
  by pat_completeness auto
termination
proof (relation "measure (\<lambda>(m, b, bit_idx, nbits, bst, i). unat (bit_idx + nbits) - unat i)")
  fix m b and bit_idx nbits i :: u32 and bst m'
  assume "i < bit_idx + nbits"
  then show "((m', b, bit_idx, nbits, bst, i + 1), m, b, bit_idx, nbits, bst, i)
      \<in> measure (\<lambda>(m, b, bit_idx, nbits, bst, i). unat (bit_idx + nbits) - unat i)"
    using unat_plus_one [of i "bit_idx + nbits"] by (simp add: word_less_nat_alt)
qed simp

definition bitmap_set_bits :: "mem \<Rightarrow> bitmap \<Rightarrow> u32 \<Rightarrow> u32 \<Rightarrow> bit_status \<Rightarrow> mem option" where
  "bitmap_set_bits m b bit_idx nbits bst = bitmap_set_bits_loop m b bit_idx nbits bst bit_idx"

section \<open>Specification vocabulary\<close>

definition bm_bits :: "bitmap \<Rightarrow> nat" where
  "bm_bits b = unat (bitmap_bytes_len b * BIT_PER_LONG)"

definition bm_bit :: "mem \<Rightarrow> bitmap \<Rightarrow> nat \<Rightarrow> bool" where
  "bm_bit m b i = bit (m (bitmap b + of_nat (i div 8))) (i mod 8)"

definition bm_free :: "mem \<Rightarrow> bitmap \<Rightarrow> nat \<Rightarrow> nat \<Rightarrow> bool" where
  "bm_free m b i n \<longleftrightarrow> (\<forall>j < n. \<not> bm_bit m b (i + j))"

text \<open>\<open>first_at P lo hi r\<close>: the scan result \<open>r\<close> is the least position in \<open>[lo, hi)\<close> with \<open>P\<close>, or \<open>-1\<close>.\<close>

definition first_at :: "(nat \<Rightarrow> bool) \<Rightarrow> nat \<Rightarrow> nat \<Rightarrow> u64 \<Rightarrow> bool" where
  "first_at P lo hi r \<longleftrightarrow>
     (\<exists>k. r = of_nat k \<and> lo \<le> k \<and> k < hi \<and> P k \<and> (\<forall>j. lo \<le> j \<and> j < k \<longrightarrow> \<not> P j))
     \<or> (r = - 1 \<and> (\<forall>j. lo \<le> j \<and> j < hi \<longrightarrow> \<not> P j))"

text \<open>
  What a base index can be inside the loop: a clear bit of the bitmap or \<open>-1\<close>.
\<close>

definition base_ok :: "mem \<Rightarrow> bitmap \<Rightarrow> u64 \<Rightarrow> bool" where
  "base_ok m b base \<longleftrightarrow> base = - 1 \<or> (\<exists>i < bm_bits b. base = of_nat i \<and> \<not> bm_bit m b i)"

section \<open>Bits\<close>

declare find_next_zero_bit_loop.simps [simp del]
declare find_next_bit_loop.simps [simp del]
declare bitmap_set_bits_loop.simps [simp del]

lemmas bm_consts [kdefs] = BIT_PER_LONG_def BITMAP_MASK_def BITS_TO_INDEX_def BITS_IN_INDEX_def

lemma BITS_TO_INDEX_of_nat: "BITS_TO_INDEX i = of_nat (unat i div 8)"
  by (simp add: kdefs word_unat_eq_iff unat_div unat_lt_2p32 less_imp_diff_less div_less_dividend order_le_less_trans [OF div_le_dividend])

lemma unat_BITS_IN_INDEX: "unat (BITS_IN_INDEX i) = unat i mod 8"
  by (simp add: kdefs unat_mod)

lemma test_bit_bm: "test_bit m b i = bm_bit m b (unat i)"
  by (simp add: test_bit_def bm_bit_def BITS_TO_INDEX_of_nat unat_BITS_IN_INDEX BITMAP_MASK_def
      bit_iff_and_push_bit_not_eq_0)

lemma bitmap_test_bit_eq:
  "bitmap b \<noteq> NULL \<Longrightarrow> unat i < bm_bits b \<Longrightarrow> bitmap_test_bit m b i = Some (bm_bit m b (unat i))"
  using test_bit_bm [of m b i]
  by (simp add: bitmap_test_bit_def bm_bits_def test_bit_def word_less_nat_alt)

lemma bm_bits_less: "bm_bits b < 4294967296"
  by (simp add: bm_bits_def unat_lt_2p32)

lemma bm_addr_inj:
  assumes "i < 4294967296" and "j < 4294967296"
  shows "(of_nat (i div 8) :: u32) = of_nat (j div 8) \<longleftrightarrow> i div 8 = j div 8"
  using assms by (simp add: of_nat_inj_u32 order_le_less_trans [OF div_le_dividend])

lemma same_byte_same_bit: "(i :: nat) div 8 = j div 8 \<Longrightarrow> i mod 8 = j mod 8 \<longleftrightarrow> i = j"
  by (metis div_mult_mod_eq)

lemma bitmap_set_bit_eq:
  assumes "bitmap b \<noteq> NULL" and "unat i < bm_bits b"
  shows "\<exists>m'. bitmap_set_bit m b i v = Some m' \<and>
     (\<forall>j < 4294967296. bm_bit m' b j = (if j = unat i then v = bit_set else bm_bit m b j)) \<and>
     (\<forall>a. a \<noteq> bitmap b + BITS_TO_INDEX i \<longrightarrow> m' a = m a)"
proof -
  let ?a = "bitmap b + BITS_TO_INDEX i" and ?k = "push_bit (unat (BITS_IN_INDEX i)) BITMAP_MASK"
  let ?m = "case v of bit_set \<Rightarrow> m(?a := m ?a OR ?k) | bit_clear \<Rightarrow> m(?a := m ?a AND NOT ?k)"
  have "bitmap_set_bit m b i v = Some ?m"
    using assms by (simp add: bitmap_set_bit_def bm_bits_def word_less_nat_alt Let_def split: bit_status.split)
  moreover have "bm_bit ?m b j = (if j = unat i then v = bit_set else bm_bit m b j)"
    if "j < 4294967296" for j
    using that same_byte_same_bit [of j "unat i"]
    by (auto simp: bm_bit_def BITS_TO_INDEX_of_nat bm_addr_inj unat_lt_2p32 unat_BITS_IN_INDEX
        BITMAP_MASK_def bit_simps split: bit_status.split)
  moreover have "\<forall>a. a \<noteq> ?a \<longrightarrow> ?m a = m a"
    by (simp split: bit_status.split)
  ultimately show ?thesis by blast
qed

section \<open>The scans\<close>

lemma of_nat_u64_not_minus_1: "n < 4294967296 \<Longrightarrow> (of_nat n :: u64) \<noteq> - 1"
proof
  assume "n < 4294967296" and "(of_nat n :: u64) = - 1"
  then have "unat (of_nat (Suc n) :: u64) = 0"
    by simp
  with \<open>n < 4294967296\<close> show False
    by (simp add: unat_of_nat del: of_nat_Suc)
qed

lemma first_at_here: "P lo \<Longrightarrow> lo < hi \<Longrightarrow> first_at P lo hi (of_nat lo)"
  by (auto simp: first_at_def)

lemma first_at_end: "\<not> P lo \<Longrightarrow> first_at P lo (Suc lo) (- 1)"
  by (auto simp: first_at_def less_Suc_eq)

lemma first_at_none:
  assumes "first_at P lo hi (- 1)" and "hi \<le> 4294967296" and "lo \<le> j" and "j < hi"
  shows "\<not> P j"
  using assms of_nat_u64_not_minus_1 unfolding first_at_def by (metis order_less_le_trans)

lemma first_at_step: "\<not> P lo \<Longrightarrow> first_at P (Suc lo) hi r \<Longrightarrow> first_at P lo hi r"
proof -
  assume lo: "\<not> P lo" and fst: "first_at P (Suc lo) hi r"
  have "\<forall>j. lo \<le> j \<and> j < k \<longrightarrow> \<not> P j" if "\<forall>j. Suc lo \<le> j \<and> j < k \<longrightarrow> \<not> P j" for k
    using lo that by (metis Suc_leI le_neq_implies_less)
  with fst show ?thesis
    unfolding first_at_def by (auto dest: Suc_leD)
qed

lemma find_next_zero_bit_loop_first:
  "unat off < bm_bits b \<Longrightarrow>
   first_at (\<lambda>i. \<not> bm_bit m b i) (unat off) (bm_bits b) (find_next_zero_bit_loop m b off)"
proof (induction m b off rule: find_next_zero_bit_loop.induct)
  case (1 m b off)
  let ?P = "\<lambda>i. \<not> bm_bit m b i"
  consider (here) "\<not> test_bit m b off"
    | (more) "test_bit m b off" "off + 1 < bitmap_bytes_len b * BIT_PER_LONG"
    | (last) "test_bit m b off" "\<not> off + 1 < bitmap_bytes_len b * BIT_PER_LONG"
    by blast
  then show ?case
  proof cases
    case here
    then show ?thesis
      using "1.prems" first_at_here [of ?P "unat off" "bm_bits b"]
      by (simp add: find_next_zero_bit_loop.simps [of m b off] test_bit_bm)
  next
    case more
    have suc: "unat (off + 1) = Suc (unat off)"
      using "1.prems" by (intro unat_plus_one) (simp add: bm_bits_def word_less_nat_alt)
    have "first_at ?P (unat (off + 1)) (bm_bits b) (find_next_zero_bit_loop m b (off + 1))"
      using more by (intro "1.IH") (simp_all add: bm_bits_def word_less_nat_alt)
    with more suc show ?thesis
      by (simp add: find_next_zero_bit_loop.simps [of m b off] test_bit_bm first_at_step)
  next
    case last
    then have "bm_bits b = Suc (unat off)"
      using "1.prems" unat_plus_one [of off "bitmap_bytes_len b * BIT_PER_LONG"]
      by (simp add: bm_bits_def word_less_nat_alt)
    with last show ?thesis
      by (simp add: find_next_zero_bit_loop.simps [of m b off] test_bit_bm first_at_end)
  qed
qed

lemma find_next_zero_bit_first:
  assumes "bitmap b \<noteq> NULL" and "unat off < bm_bits b"
  obtains r where "find_next_zero_bit m b off = Some r"
    and "first_at (\<lambda>i. \<not> bm_bit m b i) (unat off) (bm_bits b) r"
  using assms find_next_zero_bit_loop_first [of off b m]
  by (auto simp: find_next_zero_bit_def bm_bits_def word_less_nat_alt)

text \<open>\<open>find_next_bit\<close> looks at \<open>max_offest\<close> positions, at one if \<open>max_offest\<close> is 0.\<close>

lemma find_next_bit_loop_first:
  "unat off < bm_bits b \<Longrightarrow> count < mx \<or> (mx = 0 \<and> count = 0) \<Longrightarrow>
   first_at (bm_bit m b) (unat off) (min (bm_bits b) (unat off + max 1 (unat mx - unat count)))
     (find_next_bit_loop m b off mx count)"
proof (induction m b off mx count rule: find_next_bit_loop.induct)
  case (1 m b off mx count)
  let ?hi = "min (bm_bits b) (unat off + max 1 (unat mx - unat count))"
  consider (here) "test_bit m b off"
    | (more) "\<not> test_bit m b off" "off + 1 < bitmap_bytes_len b * BIT_PER_LONG" "count + 1 < mx"
    | (last) "\<not> test_bit m b off" "\<not> (off + 1 < bitmap_bytes_len b * BIT_PER_LONG \<and> count + 1 < mx)"
    by blast
  then show ?case
  proof cases
    case here
    then show ?thesis
      using "1.prems" first_at_here [of "bm_bit m b" "unat off" ?hi]
      by (simp add: find_next_bit_loop.simps [of m b off] test_bit_bm)
  next
    case more
    have suc: "unat (off + 1) = Suc (unat off)"
      using "1.prems" by (intro unat_plus_one) (simp add: bm_bits_def word_less_nat_alt)
    have cnt: "unat (count + 1) = Suc (unat count)" "count < mx"
      using more(3) "1.prems"(2) unat_plus_one [of count mx] by auto
    have "Suc (unat count) < unat mx"
      using more(3) cnt(1) by (simp add: word_less_nat_alt)
    then have hi: "min (bm_bits b) (unat (off + 1) + max 1 (unat mx - unat (count + 1))) = ?hi"
      using suc cnt by simp
    have "first_at (bm_bit m b) (unat (off + 1)) ?hi (find_next_bit_loop m b (off + 1) mx (count + 1))"
      using more "1.IH" hi by (simp add: bm_bits_def word_less_nat_alt)
    with more suc show ?thesis
      by (simp add: find_next_bit_loop.simps [of m b off] test_bit_bm first_at_step)
  next
    case last
    have "?hi = Suc (unat off)"
    proof (cases "off + 1 < bitmap_bytes_len b * BIT_PER_LONG")
      case True
      with last have "\<not> count + 1 < mx" by simp
      then have "unat mx - unat count \<le> 1"
        using "1.prems"(2) unat_plus_one [of count mx] by (auto simp: word_less_nat_alt)
      with "1.prems"(1) show ?thesis by simp
    next
      case False
      then have "bm_bits b = Suc (unat off)"
        using "1.prems"(1) unat_plus_one [of off "bitmap_bytes_len b * BIT_PER_LONG"]
        by (simp add: bm_bits_def word_less_nat_alt)
      then show ?thesis by simp
    qed
    then show ?thesis
      using last first_at_end [of "bm_bit m b" "unat off"]
      by (simp only: find_next_bit_loop.simps [of m b off] test_bit_bm if_False simp_thms)
  qed
qed

lemma find_next_bit_first:
  assumes "bitmap b \<noteq> NULL" and "unat off < bm_bits b"
  obtains r where "find_next_bit m b off mx = Some r"
    and "first_at (bm_bit m b) (unat off) (min (bm_bits b) (unat off + max 1 (unat mx))) r"
proof (rule that)
  show "find_next_bit m b off mx = Some (find_next_bit_loop m b off mx 0)"
    using assms by (simp add: find_next_bit_def bm_bits_def word_less_nat_alt)
  have "0 < mx \<or> (mx = 0 \<and> (0 :: u32) = 0)"
    by (simp add: word_gt_0)
  then show "first_at (bm_bit m b) (unat off) (min (bm_bits b) (unat off + max 1 (unat mx)))
      (find_next_bit_loop m b off mx 0)"
    using find_next_bit_loop_first [OF assms(2), of 0 mx m] by simp
qed

section \<open>First fit\<close>

text \<open>One round of the loop of \<open>bitmap_apply\<close>, started at a clear bit \<open>i\<close>.\<close>

lemma sle_distance:
  assumes "i < k" and "k < 4294967296"
  shows "ucast (nbits :: u32) \<le>s (of_nat k - of_nat i :: u64) \<longleftrightarrow> unat nbits \<le> k - i"
proof -
  have "sint (of_nat k - of_nat i :: u64) = int (k - i)"
    using assms sint_of_nat_u64 [of "k - i"] by (simp add: of_nat_diff)
  moreover have "sint (ucast nbits :: u64) = int (unat nbits)"
    using sint_of_nat_u64 [of "unat nbits"] unat_lt_2p32 [of nbits] by simp
  ultimately show ?thesis
    by (simp only: word_sle_eq of_nat_le_iff)
qed

lemma room_check:
  assumes "i < n" and "n < 4294967296"
  shows "ucast (nbits :: u32) \<le> (of_nat n - 1 - of_nat i :: u64) \<longleftrightarrow> unat nbits \<le> n - 1 - i"
proof -
  have "(of_nat n - 1 - of_nat i :: u64) = of_nat (n - 1 - i)"
    using assms by (simp add: of_nat_diff)
  moreover have "unat (of_nat (n - 1 - i) :: u64) = n - 1 - i"
    using assms by (intro unat_of_nat_u64) simp
  moreover have "unat (ucast nbits :: u64) = unat nbits"
    using unat_of_nat_u64 [of "unat nbits"] unat_lt_2p32 [of nbits] by simp
  ultimately show ?thesis
    by (simp only: word_le_nat_alt)
qed

lemma bitmap_apply_round:
  assumes "bitmap b \<noteq> NULL" and "Suc i < bm_bits b"
  obtains top where "first_at (bm_bit m b) (Suc i) (min (bm_bits b) (Suc i + max 1 (unat (nbits - 1)))) top"
    and "bitmap_apply_loop m b nbits (of_nat (bm_bits b)) (of_nat i) t =
       (if top = - 1
        then (if unat nbits \<le> bm_bits b - 1 - i then Some (of_nat i) else Some (- 1))
        else if ucast nbits \<le>s top - of_nat i then Some (of_nat i)
        else find_next_zero_bit m b (ucast (top + 1)) \<bind>
               (\<lambda>base. bitmap_apply_loop m b nbits (of_nat (bm_bits b)) base top))"
proof -
  have off: "unat (ucast (of_nat i + 1 :: u64) :: u32) = Suc i"
    using assms(2) bm_bits_less [of b] unat_of_nat_u32 [of "Suc i"] ucast_of_nat_u64 [of "Suc i"]
    by (simp add: add.commute)
  obtain top where top: "find_next_bit m b (ucast (of_nat i + 1 :: u64)) (nbits - 1) = Some top"
      "first_at (bm_bit m b) (Suc i) (min (bm_bits b) (Suc i + max 1 (unat (nbits - 1)))) top"
    using find_next_bit_first [OF assms(1), of "ucast (of_nat i + 1 :: u64)" m "nbits - 1"] off assms(2)
    by metis
  have "(of_nat i :: u64) < of_nat (bm_bits b)"
    using assms(2) bm_bits_less [of b] by (simp add: word_less_nat_alt)
  then show ?thesis
    using top(1) assms(2) bm_bits_less [of b] room_check [of i "bm_bits b" nbits]
    by (intro that [OF top(2)]) (simp add: bitmap_apply_loop.simps [of m b nbits _ "of_nat i"])
qed

lemma bitmap_apply_loop_fit:
  assumes "bitmap b \<noteq> NULL" and "1 \<le> unat nbits"
    and "bm_free m b w (unat nbits)" and "w + unat nbits < bm_bits b"
    and "\<And>j. j < w \<Longrightarrow> \<not> bm_free m b j (unat nbits)"
    and "i \<le> w" and "\<not> bm_bit m b i"
  shows "bitmap_apply_loop m b nbits (of_nat (bm_bits b)) (of_nat i) t = Some (of_nat w)"
  using assms(6,7)
proof (induction "w - i" arbitrary: i t rule: less_induct)
  case less
  let ?n = "unat nbits"
  have n1: "unat (nbits - 1) = ?n - 1"
    using assms(2) by (simp add: unat_sub_if')
  obtain top where top: "first_at (bm_bit m b) (Suc i) (min (bm_bits b) (Suc i + max 1 (?n - 1))) top"
    and loop: "bitmap_apply_loop m b nbits (of_nat (bm_bits b)) (of_nat i) t =
       (if top = - 1
        then (if ?n \<le> bm_bits b - 1 - i then Some (of_nat i) else Some (- 1))
        else if ucast nbits \<le>s top - of_nat i then Some (of_nat i)
        else find_next_zero_bit m b (ucast (top + 1)) \<bind>
               (\<lambda>base. bitmap_apply_loop m b nbits (of_nat (bm_bits b)) base top))"
    using bitmap_apply_round [OF assms(1), of i m nbits t] less.prems(1) assms(2,4) n1 by auto
  show ?case
  proof (cases "i = w")
    case True
    have "?n \<le> bm_bits b - 1 - w"
      using assms(4) by simp
    moreover have "ucast nbits \<le>s top - of_nat i" if "top \<noteq> - 1"
    proof -
      from top that obtain k where k: "top = of_nat k" "Suc i \<le> k" "k < bm_bits b"
          "k < Suc i + max 1 (?n - 1)" "bm_bit m b k"
        by (auto simp: first_at_def)
      have "\<not> k < w + ?n"
        using k(2,5) True assms(3) unfolding bm_free_def by (metis Suc_leD add.commute less_diff_conv2 le_add_diff_inverse)
      then have "?n \<le> k - i" by (simp add: True)
      then show ?thesis
        using k sle_distance [of i k nbits] bm_bits_less [of b] by simp
    qed
    ultimately show ?thesis
      using loop True by auto
  next
    case False
    then have "i < w" using less.prems by simp
    obtain j where j: "j < ?n" "bm_bit m b (i + j)"
      using assms(5) [OF \<open>i < w\<close>] by (auto simp: bm_free_def)
    then have "j \<noteq> 0" using less.prems(2) by (metis add_0_right)
    then have hit: "Suc i \<le> i + j" "i + j < min (bm_bits b) (Suc i + max 1 (?n - 1))"
      using j(1) \<open>i < w\<close> assms(4) by auto
    then obtain k where k: "top = of_nat k" "Suc i \<le> k" "k \<le> i + j" "bm_bit m b k"
      using top j(2) unfolding first_at_def by (metis linorder_not_less)
    have "k < w"
    proof (rule ccontr)
      assume "\<not> k < w"
      then have "k - w < ?n" "w + (k - w) = k"
        using k(3) j(1) \<open>i < w\<close> by auto
      with assms(3) k(4) show False
        unfolding bm_free_def by metis
    qed
    have wb: "w < bm_bits b" "k < 4294967296" "Suc k < 4294967296"
      using assms(4) \<open>k < w\<close> bm_bits_less [of b] by auto
    have ntop: "top \<noteq> - 1" "\<not> ucast nbits \<le>s top - of_nat i"
      using k j(1) wb of_nat_u64_not_minus_1 [of k] sle_distance [of i k nbits] by auto
    have off: "unat (ucast (top + 1) :: u32) = Suc k"
      using k(1) wb unat_of_nat_u32 [of "Suc k"] ucast_of_nat_u64 [of "Suc k"] by (simp add: add.commute)
    obtain base where base: "find_next_zero_bit m b (ucast (top + 1)) = Some base"
        "first_at (\<lambda>i. \<not> bm_bit m b i) (Suc k) (bm_bits b) base"
      using find_next_zero_bit_first [OF assms(1), of "ucast (top + 1)" m] off \<open>k < w\<close> wb(1) by auto
    have "\<not> bm_bit m b w"
      using assms(2,3) unfolding bm_free_def by (metis add_0_right less_le_trans zero_less_one)
    then obtain i' where i': "base = of_nat i'" "Suc k \<le> i'" "i' \<le> w" "\<not> bm_bit m b i'"
      using base(2) \<open>k < w\<close> wb(1) unfolding first_at_def by (metis Suc_leI linorder_not_less)
    then have "bitmap_apply_loop m b nbits (of_nat (bm_bits b)) base top = Some (of_nat w)"
      using k(2) \<open>i < w\<close> less.hyps [of i' top] by simp
    then show ?thesis
      using loop ntop base(1) by simp
  qed
qed

lemma find_next_zero_bit_base_ok: "find_next_zero_bit m b off = Some r \<Longrightarrow> base_ok m b r"
  by (auto simp: find_next_zero_bit_def bm_bits_def word_less_nat_alt first_at_def base_ok_def
      dest!: find_next_zero_bit_loop_first [of off b m, unfolded bm_bits_def])

lemma find_next_bit_SomeD:
  assumes "find_next_bit m b off mx = Some r"
  shows "bitmap b \<noteq> NULL" and "unat off < bm_bits b"
    and "first_at (bm_bit m b) (unat off) (min (bm_bits b) (unat off + max 1 (unat mx))) r"
proof -
  show "bitmap b \<noteq> NULL" and "unat off < bm_bits b"
    using assms by (auto simp: find_next_bit_def bm_bits_def word_less_nat_alt)
  then show "first_at (bm_bit m b) (unat off) (min (bm_bits b) (unat off + max 1 (unat mx))) r"
    using find_next_bit_first [of b off m mx] assms by (metis option.inject)
qed

lemma apply_round_fits:
  assumes "find_next_bit m b (ucast (of_nat i + 1 :: u64)) (nbits - 1) = Some nx"
    and "i < bm_bits b" and "\<not> bm_bit m b i" and "1 \<le> unat nbits"
    and "if nx = - 1 then unat nbits \<le> bm_bits b - 1 - i else ucast nbits \<le>s nx - of_nat i"
  shows "i + unat nbits < bm_bits b \<and> bm_free m b i (unat nbits)"
proof -
  let ?n = "unat nbits"
  have n1: "unat (nbits - 1) = ?n - 1"
    using assms(4) by (simp add: unat_sub_if')
  have "unat (ucast (of_nat i + 1 :: u64) :: u32) = Suc i"
    using assms(2) bm_bits_less [of b] unat_of_nat_u32 [of "Suc i"] ucast_of_nat_u64 [of "Suc i"]
    by (simp add: add.commute)
  with find_next_bit_SomeD [OF assms(1)] n1 have
    nx: "first_at (bm_bit m b) (Suc i) (min (bm_bits b) (Suc i + max 1 (?n - 1))) nx"
    by simp
  have clear: "bm_free m b i ?n" if "\<forall>j. Suc i \<le> j \<and> j < i + ?n \<longrightarrow> \<not> bm_bit m b j"
    unfolding bm_free_def
  proof (intro allI impI)
    fix j assume "j < ?n"
    with that assms(3) show "\<not> bm_bit m b (i + j)" by (cases j) auto
  qed
  show ?thesis
  proof (cases "nx = - 1")
    case True
    then have "\<forall>j. Suc i \<le> j \<and> j < min (bm_bits b) (Suc i + max 1 (?n - 1)) \<longrightarrow> \<not> bm_bit m b j"
      using first_at_none [of "bm_bit m b" "Suc i" "min (bm_bits b) (Suc i + max 1 (?n - 1))"]
        nx bm_bits_less [of b] by auto
    moreover have "i + ?n < bm_bits b"
      using True assms(2,4,5) by simp
    ultimately have "\<forall>j. Suc i \<le> j \<and> j < i + ?n \<longrightarrow> \<not> bm_bit m b j"
      by auto
    with \<open>i + ?n < bm_bits b\<close> show ?thesis
      using clear by blast
  next
    case False
    with nx obtain k where k: "nx = of_nat k" "Suc i \<le> k" "k < bm_bits b"
        "\<forall>j. Suc i \<le> j \<and> j < k \<longrightarrow> \<not> bm_bit m b j"
      by (auto simp: first_at_def)
    then have "?n \<le> k - i"
      using False assms(5) sle_distance [of i k nbits] bm_bits_less [of b] by simp
    then have "i + ?n < bm_bits b" "\<forall>j. Suc i \<le> j \<and> j < i + ?n \<longrightarrow> \<not> bm_bit m b j"
      using k(2-4) by auto
    then show ?thesis
      using clear by blast
  qed
qed

lemma bitmap_apply_loop_sound:
  assumes "bitmap_apply_loop m b nbits bits base t = Some r"
    and "bits = of_nat (bm_bits b)" and "base_ok m b base" and "1 \<le> unat nbits"
  shows "r = - 1 \<or> (\<exists>i. r = of_nat i \<and> i + unat nbits < bm_bits b \<and> bm_free m b i (unat nbits))"
proof -
  have "bits = of_nat (bm_bits b) \<longrightarrow> base_ok m b base \<longrightarrow> 1 \<le> unat nbits \<longrightarrow>
     (r = - 1 \<or> (\<exists>i. r = of_nat i \<and> i + unat nbits < bm_bits b \<and> bm_free m b i (unat nbits)))"
  proof (rule bitmap_apply_loop.raw_induct [where P = "\<lambda>m b nbits bits base t r.
      bits = of_nat (bm_bits b) \<longrightarrow> base_ok m b base \<longrightarrow> 1 \<le> unat nbits \<longrightarrow>
      (r = - 1 \<or> (\<exists>i. r = of_nat i \<and> i + unat nbits < bm_bits b \<and> bm_free m b i (unat nbits)))",
      OF _ assms(1)], intro impI)
    fix loop m b nbits bits base t r
    assume IH: "\<And>m b nbits bits base t r. loop m b nbits bits base t = Some r \<Longrightarrow>
      bits = of_nat (bm_bits b) \<longrightarrow> base_ok m b base \<longrightarrow> 1 \<le> unat nbits \<longrightarrow>
      (r = - 1 \<or> (\<exists>i. r = of_nat i \<and> i + unat nbits < bm_bits b \<and> bm_free m b i (unat nbits)))"
      and step: "(if base < bits \<or> t < bits
      then do {
        top_idx \<leftarrow> find_next_bit m b (ucast (base + 1)) (nbits - 1);
        if top_idx = - 1
        then (if ucast nbits \<le> bits - 1 - base then Some base else Some (- 1))
        else if ucast nbits \<le>s top_idx - base then Some base
        else do {
          base_idx \<leftarrow> find_next_zero_bit m b (ucast (top_idx + 1));
          loop m b nbits bits base_idx top_idx
        }
      }
      else Some (- 1)) = Some r"
      and bits: "bits = of_nat (bm_bits b)" and base: "base_ok m b base" and n: "1 \<le> unat nbits"
    show "r = - 1 \<or> (\<exists>i. r = of_nat i \<and> i + unat nbits < bm_bits b \<and> bm_free m b i (unat nbits))"
    proof (cases "base < bits \<or> t < bits")
      case True
      then obtain top where top: "find_next_bit m b (ucast (base + 1)) (nbits - 1) = Some top"
        using step by (auto split: bind_splits)
      consider (again) base' where "find_next_zero_bit m b (ucast (top + 1)) = Some base'"
          "loop m b nbits bits base' top = Some r"
        | (none) "r = - 1"
        | (found) "r = base" "if top = - 1 then ucast nbits \<le> bits - 1 - base else ucast nbits \<le>s top - base"
        using step True top by (auto split: if_splits bind_splits)
      then show ?thesis
      proof cases
        case again
        then show ?thesis
          using IH again bits n find_next_zero_bit_base_ok by blast
      next
        case found
        show ?thesis
        proof (cases "base = - 1")
          case False
          then obtain i where i: "i < bm_bits b" "base = of_nat i" "\<not> bm_bit m b i"
            using base by (auto simp: base_ok_def)
          then have "if top = - 1 then unat nbits \<le> bm_bits b - 1 - i else ucast nbits \<le>s top - of_nat i"
            using found(2) bits room_check [of i "bm_bits b" nbits] bm_bits_less [of b]
            by (simp split: if_splits)
          then show ?thesis
            using apply_round_fits [OF _ i(1,3) n] top i(2) found(1) by auto
        qed (use found in simp)
      qed simp
    qed (use step in simp)
  qed
  with assms(2-4) show ?thesis by blast
qed

lemma bitmap_apply_sound_aux:
  assumes "bitmap_apply m b nbits = Some r" and "r \<noteq> - 1" and "1 \<le> unat nbits"
  obtains i where "r = of_nat i" and "i + unat nbits < bm_bits b" and "bm_free m b i (unat nbits)"
proof -
  obtain base where base: "find_next_zero_bit m b 0 = Some base"
      "(if base = - 1 then Some (- 1)
        else bitmap_apply_loop m b nbits (ucast (bitmap_bytes_len b * BIT_PER_LONG)) base 0) = Some r"
    using assms(1) by (auto simp: bitmap_apply_def split: bind_splits)
  then have "bitmap_apply_loop m b nbits (of_nat (bm_bits b)) base 0 = Some r"
    using assms(2) by (simp add: bm_bits_def split: if_splits)
  from bitmap_apply_loop_sound [OF this refl find_next_zero_bit_base_ok [OF base(1)] assms(3)]
  show ?thesis
    using assms(2) that by blast
qed

lemma bitmap_apply_fit_aux:
  assumes "bitmap b \<noteq> NULL" and "1 \<le> unat nbits"
    and "bm_free m b w (unat nbits)" and "w + unat nbits < bm_bits b"
    and "\<And>j. j < w \<Longrightarrow> \<not> bm_free m b j (unat nbits)"
  shows "bitmap_apply m b nbits = Some (of_nat w)"
proof -
  have w: "\<not> bm_bit m b w"
    using assms(2,3) unfolding bm_free_def by (metis add_0_right less_le_trans zero_less_one)
  obtain base where base: "find_next_zero_bit m b 0 = Some base"
      "first_at (\<lambda>i. \<not> bm_bit m b i) 0 (bm_bits b) base"
    using find_next_zero_bit_first [OF assms(1), of 0 m] assms(4) by auto
  then obtain i where i: "base = of_nat i" "i \<le> w" "\<not> bm_bit m b i" "i < bm_bits b"
    using w assms(4) unfolding first_at_def by (metis add_lessD1 linorder_not_less zero_le)
  then have "base \<noteq> - 1"
    using of_nat_u64_not_minus_1 [of i] bm_bits_less [of b] by simp
  then show ?thesis
    using bitmap_apply_loop_fit [OF assms(1-5) i(2,3), of 0] assms(1) base(1) i(1)
    by (simp add: bitmap_apply_def bm_bits_def)
qed

lemma bitmap_apply_least:
  assumes "bitmap b \<noteq> NULL" and "1 \<le> unat nbits"
    and "bm_free m b w (unat nbits)" and "w + unat nbits < bm_bits b"
  shows "bitmap_apply m b nbits = Some (of_nat (LEAST i. bm_free m b i (unat nbits)))"
proof (rule bitmap_apply_fit_aux [OF assms(1,2)])
  show "bm_free m b (LEAST i. bm_free m b i (unat nbits)) (unat nbits)"
    using assms(3) by (rule LeastI)
  show "(LEAST i. bm_free m b i (unat nbits)) + unat nbits < bm_bits b"
    using assms(4) Least_le [of "\<lambda>i. bm_free m b i (unat nbits)", OF assms(3)] by simp
qed (rule not_less_Least)

lemma bitmap_set_bits_once:
  assumes "bitmap b \<noteq> NULL" and "unat idx < bm_bits b"
  shows "bitmap_set_bit m b idx v \<bind> (\<lambda>m'. bitmap_set_bit m' b idx v) = bitmap_set_bit m b idx v"
  using assms
  by (auto simp: bitmap_set_bit_def bm_bits_def word_less_nat_alt Let_def split: bit_status.split)

lemma bitmap_set_bits_loop_once:
  "bitmap b \<noteq> NULL \<Longrightarrow> unat idx < bm_bits b \<Longrightarrow> i < idx + nbits \<Longrightarrow>
   bitmap_set_bits_loop m b idx nbits v i = bitmap_set_bit m b idx v"
proof (induction m b idx nbits v i rule: bitmap_set_bits_loop.induct)
  case (1 m b idx nbits v i)
  have unfold: "bitmap_set_bits_loop m b idx nbits v i =
      bitmap_set_bit m b idx v \<bind> (\<lambda>m'. bitmap_set_bits_loop m' b idx nbits v (i + 1))"
    using "1.prems" by (simp add: bitmap_set_bits_loop.simps [of m])
  show ?case
  proof (cases "i + 1 < idx + nbits")
    case True
    then have "bitmap_set_bits_loop m' b idx nbits v (i + 1) = bitmap_set_bit m' b idx v"
      if "bitmap_set_bit m b idx v = Some m'" for m'
      using 1 that by blast
    then show ?thesis
      using unfold bitmap_set_bits_once [OF "1.prems"(1,2), of m v]
      by (cases "bitmap_set_bit m b idx v") auto
  next
    case False
    then have "bitmap_set_bits_loop m' b idx nbits v (i + 1) = Some m'" for m'
      by (simp add: bitmap_set_bits_loop.simps [of m'])
    then show ?thesis
      using unfold by simp
  qed
qed

text \<open>
  With the first and the last bit set and no run long enough, no round of the loop returns:
  a round at a clear bit stops at a set bit too close to it, and a round at \<open>-1\<close> stops at bit 0.
\<close>

lemma apply_round_misses:
  assumes "find_next_bit m b (ucast (base + 1)) (nbits - 1) = Some nx" and "base_ok m b base"
    and "2 \<le> unat nbits" and "bm_bit m b 0" and "bm_bit m b (bm_bits b - 1)"
    and "\<forall>i. i + unat nbits \<le> bm_bits b \<longrightarrow> \<not> bm_free m b i (unat nbits)"
  shows "nx < of_nat (bm_bits b) \<and> nx \<noteq> - 1 \<and> \<not> ucast nbits \<le>s nx - base"
proof -
  let ?n = "unat nbits" and ?off = "unat (ucast (base + 1) :: u32)"
  have n1: "max 1 (unat (nbits - 1)) = ?n - 1"
    using assms(3) by (simp add: unat_sub_if')
  note nx = find_next_bit_SomeD(2,3) [OF assms(1), unfolded n1]
  show ?thesis
  proof (cases "base = - 1")
    case True
    then obtain k where "nx = of_nat k" "\<forall>j < k. \<not> bm_bit m b j"
      using nx assms(3,4) bm_bits_less [of b] by (auto simp: first_at_def)
    then have "nx = 0"
      using assms(4) by (cases k) auto
    moreover have "\<not> ucast nbits \<le>s (1 :: u64)"
      using sle_distance [of 0 1 nbits] assms(3) by simp
    ultimately show ?thesis
      using True nx(1) bm_bits_less [of b] by (simp add: word_less_nat_alt)
  next
    case False
    then obtain i where i: "i < bm_bits b" "base = of_nat i" "\<not> bm_bit m b i"
      using assms(2) by (auto simp: base_ok_def)
    have off: "?off = Suc i"
      using i(1,2) bm_bits_less [of b] unat_of_nat_u32 [of "Suc i"] ucast_of_nat_u64 [of "Suc i"]
      by (simp add: add.commute)
    have "\<exists>j. Suc i \<le> j \<and> j < min (bm_bits b) (i + ?n) \<and> bm_bit m b j"
    proof (cases "i + ?n \<le> bm_bits b")
      case True
      then obtain j where "j < ?n" "bm_bit m b (i + j)"
        using assms(6) by (auto simp: bm_free_def)
      moreover from this have "j \<noteq> 0"
        using i(3) by (metis add_0_right)
      ultimately show ?thesis
        using True by (intro exI [of _ "i + j"]) auto
    next
      case False
      moreover have "Suc i \<noteq> bm_bits b"
        using nx(1) off by simp
      ultimately show ?thesis
        using i(1) assms(5) by (intro exI [of _ "bm_bits b - 1"]) auto
    qed
    moreover have "first_at (bm_bit m b) (Suc i) (min (bm_bits b) (i + ?n)) nx"
      using nx(2) off assms(3) by simp
    ultimately obtain k where k: "nx = of_nat k" "Suc i \<le> k" "k < min (bm_bits b) (i + ?n)"
      by (auto simp: first_at_def)
    then show ?thesis
      using i(2) bm_bits_less [of b] sle_distance [of i k nbits] of_nat_u64_not_minus_1 [of k]
      by (auto simp: word_less_nat_alt)
  qed
qed

lemma bitmap_apply_loop_stuck:
  assumes "bitmap_apply_loop m b nbits bits base t = Some r"
    and "bits = of_nat (bm_bits b)" and "base_ok m b base" and "t < bits"
    and "2 \<le> unat nbits" and "bm_bit m b 0" and "bm_bit m b (bm_bits b - 1)"
    and "\<forall>i. i + unat nbits \<le> bm_bits b \<longrightarrow> \<not> bm_free m b i (unat nbits)"
  shows False
proof -
  let ?hyp = "\<lambda>m b nbits bits base t. bits = of_nat (bm_bits b) \<and> base_ok m b base \<and> t < bits \<and>
     2 \<le> unat nbits \<and> bm_bit m b 0 \<and> bm_bit m b (bm_bits b - 1) \<and>
     (\<forall>i. i + unat nbits \<le> bm_bits b \<longrightarrow> \<not> bm_free m b i (unat nbits))"
  have "\<not> ?hyp m b nbits bits base t"
  proof (rule bitmap_apply_loop.raw_induct [where P = "\<lambda>m b nbits bits base t r. \<not> ?hyp m b nbits bits base t",
        OF _ assms(1)], rule notI)
    fix loop m b nbits bits base t r
    assume IH: "\<And>m b nbits bits base t r. loop m b nbits bits base t = Some r \<Longrightarrow> \<not> ?hyp m b nbits bits base t"
      and step: "(if base < bits \<or> t < bits
      then do {
        top_idx \<leftarrow> find_next_bit m b (ucast (base + 1)) (nbits - 1);
        if top_idx = - 1
        then (if ucast nbits \<le> bits - 1 - base then Some base else Some (- 1))
        else if ucast nbits \<le>s top_idx - base then Some base
        else do {
          base_idx \<leftarrow> find_next_zero_bit m b (ucast (top_idx + 1));
          loop m b nbits bits base_idx top_idx
        }
      }
      else Some (- 1)) = Some r"
      and hyp: "?hyp m b nbits bits base t"
    then obtain nx where nx: "find_next_bit m b (ucast (base + 1)) (nbits - 1) = Some nx"
      by (auto split: bind_splits)
    then have miss: "nx < of_nat (bm_bits b) \<and> nx \<noteq> - 1 \<and> \<not> ucast nbits \<le>s nx - base"
      using hyp by (intro apply_round_misses) auto
    then obtain base' where "find_next_zero_bit m b (ucast (nx + 1)) = Some base'"
        "loop m b nbits bits base' nx = Some r"
      using step nx hyp by (auto split: bind_splits)
    then show False
      using IH [of m b nbits bits base' nx r] find_next_zero_bit_base_ok [of m b "ucast (nx + 1)"] miss hyp
      by simp
  qed
  with assms(2-) show False by blast
qed

section \<open>Properties\<close>

text \<open>
  Setting and testing. For an index inside the bitmap, \<open>bitmap_set_bit\<close> returns; afterwards
  \<open>bitmap_test_bit\<close> finds the status that was stored at that index and the old status at every
  other index, and only the byte that holds the bit has changed.
\<close>

theorem bitmap_set_test:
  assumes "bitmap b \<noteq> NULL" and "i < bitmap_bytes_len b * BIT_PER_LONG"
    and "j < bitmap_bytes_len b * BIT_PER_LONG"
  shows "\<exists>m'. bitmap_set_bit m b i v = Some m' \<and>
     bitmap_test_bit m' b j = (if j = i then Some (v = bit_set) else bitmap_test_bit m b j) \<and>
     (\<forall>a. a \<noteq> bitmap b + i div 8 \<longrightarrow> m' a = m a)"
proof -
  have lt: "unat i < bm_bits b" "unat j < bm_bits b"
    using assms by (simp_all add: bm_bits_def word_less_nat_alt)
  obtain m' where m': "bitmap_set_bit m b i v = Some m'"
      "\<forall>j < 4294967296. bm_bit m' b j = (if j = unat i then v = bit_set else bm_bit m b j)"
      "\<forall>a. a \<noteq> bitmap b + BITS_TO_INDEX i \<longrightarrow> m' a = m a"
    using bitmap_set_bit_eq [OF assms(1) lt(1)] by blast
  then show ?thesis
    using lt assms(1) unat_lt_2p32 [of j]
    by (auto simp: bitmap_test_bit_eq word_unat_eq_iff BITS_TO_INDEX_def BIT_PER_LONG_def)
qed

theorem bitmap_set_test_witness:
  "\<exists>m'. bitmap_set_bit (\<lambda>a. 0) \<lparr>bitmap_bytes_len = 2, bitmap = 4096\<rparr> 11 bit_set = Some m' \<and>
        bitmap_test_bit m' \<lparr>bitmap_bytes_len = 2, bitmap = 4096\<rparr> 11 = Some True"
  using bitmap_set_test [of "\<lparr>bitmap_bytes_len = 2, bitmap = 4096\<rparr>" 11 11 "\<lambda>a. 0" bit_set]
  by (auto simp: NULL_def BIT_PER_LONG_def)

text \<open>
  C8: first fit. If some run of \<open>nbits\<close> clear bits ends before the last bit of the bitmap, then
  \<open>bitmap_apply\<close> returns, and it returns the least index at which such a run starts.
\<close>

theorem bitmap_apply_first_fit:
  assumes "bitmap b \<noteq> NULL" and "nbits \<noteq> 0"
    and "bm_free m b w (unat nbits)" and "w + unat nbits < bm_bits b"
  shows "bitmap_apply m b nbits = Some (of_nat (LEAST i. bm_free m b i (unat nbits)))"
proof -
  have "1 \<le> unat nbits"
    using assms(2) by (simp add: Suc_le_eq unat_gt_0)
  then show ?thesis
    by (rule bitmap_apply_least [OF assms(1) _ assms(3,4)])
qed

theorem bitmap_apply_first_fit_witness:
  "bitmap_apply (\<lambda>a. 5) \<lparr>bitmap_bytes_len = 1, bitmap = 4096\<rparr> 2 = Some 3"
proof -
  let ?free = "\<lambda>i. bm_free (\<lambda>a. 5) \<lparr>bitmap_bytes_len = 1, bitmap = 4096\<rparr> i 2"
  let ?bit = "bm_bit (\<lambda>a. 5) \<lparr>bitmap_bytes_len = 1, bitmap = 4096\<rparr>"
  have free3: "?free 3"
    by (auto simp: bm_free_def bm_bit_def less_Suc_eq numeral_2_eq_2 bit_numeral_rec)
  moreover have "(LEAST i. ?free i) = 3"
    using free3
  proof (rule Least_equality)
    fix i assume "?free i"
    then have free: "\<not> ?bit (i + 0)" "\<not> ?bit (i + 1)"
      unfolding bm_free_def by (metis zero_less_numeral, metis one_less_numeral_iff semiring_norm(76))
    have "?bit 0" "?bit 2"
      by (simp_all add: bm_bit_def)
    with free have "i \<noteq> 0" "i \<noteq> 1" "i \<noteq> 2"
      by (metis add_0_right, metis one_add_one, metis add_0_right)
    then show "3 \<le> i" by simp
  qed
  ultimately show ?thesis
    using bitmap_apply_first_fit [of "\<lparr>bitmap_bytes_len = 1, bitmap = 4096\<rparr>" 2 "\<lambda>a. 5" 3]
    by (simp add: NULL_def bm_bits_def BIT_PER_LONG_def)
qed

text \<open>
  What \<open>bitmap_apply\<close> hands out. If it returns an index other than \<open>-1\<close>, then the \<open>nbits\<close>
  bits from that index on lie inside the bitmap and are all clear, and no run of \<open>nbits\<close> clear
  bits starts earlier.
\<close>

theorem bitmap_apply_free:
  assumes "bitmap_apply m b nbits = Some r" and "r \<noteq> - 1" and "nbits \<noteq> 0"
  shows "\<exists>i. r = of_nat i \<and> i + unat nbits < bm_bits b \<and> bm_free m b i (unat nbits) \<and>
             (\<forall>j < i. \<not> bm_free m b j (unat nbits))"
proof -
  have n: "1 \<le> unat nbits"
    using assms(3) by (simp add: Suc_le_eq unat_gt_0)
  obtain i where i: "r = of_nat i" "i + unat nbits < bm_bits b" "bm_free m b i (unat nbits)"
    using bitmap_apply_sound_aux [OF assms(1,2) n] by blast
  have nn: "bitmap b \<noteq> NULL"
    using assms(1) by (auto simp: bitmap_apply_def)
  let ?w = "LEAST i. bm_free m b i (unat nbits)"
  have "bm_free m b ?w (unat nbits)"
    using i(3) by (rule LeastI)
  moreover have "?w + unat nbits < bm_bits b"
    using Least_le [of "\<lambda>i. bm_free m b i (unat nbits)", OF i(3)] i(2) by linarith
  moreover have "r = of_nat ?w"
    using bitmap_apply_least [OF nn n i(3,2)] assms(1) by (simp only: option.inject)
  moreover have "\<not> bm_free m b j (unat nbits)" if "j < ?w" for j
    using that by (rule not_less_Least)
  ultimately show ?thesis
    by (intro exI [of _ ?w] conjI allI impI)
qed

theorem bitmap_apply_free_witness:
  "\<exists>i. (3 :: u64) = of_nat i \<and> i + 2 < bm_bits \<lparr>bitmap_bytes_len = 1, bitmap = 4096\<rparr> \<and>
       bm_free (\<lambda>a. 5) \<lparr>bitmap_bytes_len = 1, bitmap = 4096\<rparr> i 2"
proof -
  have "bitmap_apply (\<lambda>a. 5) \<lparr>bitmap_bytes_len = 1, bitmap = 4096\<rparr> 2 = Some 3"
    by (simp add: bitmap_apply_def bitmap_apply_loop.simps find_next_zero_bit_def find_next_bit_def
        find_next_zero_bit_loop.simps find_next_bit_loop.simps test_bit_def kdefs NULL_def word_sle_eq)
  from bitmap_apply_free [OF this] show ?thesis by auto
qed

text \<open>
  \<open>bitmap_set_bits\<close> does not set a range. For any count from 1 on, the call does what a
  single \<open>bitmap_set_bit\<close> at the start index does: every round writes the same bit.
\<close>

theorem bitmap_set_bits_sets_one:
  assumes "bitmap b \<noteq> NULL" and "unat idx < bm_bits b" and "nbits \<noteq> 0"
    and "unat idx + unat nbits < 4294967296"
  shows "bitmap_set_bits m b idx nbits v = bitmap_set_bit m b idx v"
proof -
  have lim: "unat (idx + nbits) = unat idx + unat nbits"
    using assms(4) by (simp add: unat_word_ariths)
  then have "idx < idx + nbits"
    using assms(3) by (simp add: word_less_nat_alt unat_gt_0)
  then show ?thesis
    unfolding bitmap_set_bits_def by (rule bitmap_set_bits_loop_once [OF assms(1,2)])
qed

theorem bitmap_set_bits_sets_one_witness:
  "bitmap_set_bits (\<lambda>a. 0) \<lparr>bitmap_bytes_len = 1, bitmap = 4096\<rparr> 2 3 bit_set =
   bitmap_set_bit (\<lambda>a. 0) \<lparr>bitmap_bytes_len = 1, bitmap = 4096\<rparr> 2 bit_set"
  by (rule bitmap_set_bits_sets_one) (simp_all add: NULL_def bm_bits_def BIT_PER_LONG_def)

text \<open>The test at the start of \<open>bitmap_apply\<close>: on a bitmap with no clear bit it does return \<open>-1\<close>.\<close>

lemma bitmap_apply_full:
  assumes "bitmap b \<noteq> NULL" and "0 < bm_bits b" and "\<forall>i < bm_bits b. bm_bit m b i"
  shows "bitmap_apply m b nbits = Some (- 1)"
proof -
  obtain base where base: "find_next_zero_bit m b 0 = Some base" "first_at (\<lambda>i. \<not> bm_bit m b i) 0 (bm_bits b) base"
    using find_next_zero_bit_first [OF assms(1), of 0 m] assms(2) by auto
  then have "base = - 1"
    using assms(3) unfolding first_at_def by (metis zero_le)
  then show ?thesis
    using base(1) assms(1) by (simp add: bitmap_apply_def)
qed

text \<open>
  C37: a search in which no run fits goes on for ever. If the first and the last bit of the bitmap are set, some bit
  between them is clear, and there is no run of \<open>nbits\<close> clear bits (\<open>nbits\<close> at least 2), \<open>bitmap_apply\<close> does not return
  \<open>-1\<close>: its search starts over for ever, or runs into an \<open>ASSERT\<close>. (On a full bitmap it returns \<open>-1\<close>, \<open>bitmap_apply_full\<close>.)
\<close>

theorem bitmap_apply_no_fit_hangs:
  assumes "2 \<le> unat nbits" and "bm_bit m b 0" and "bm_bit m b (bm_bits b - 1)"
    and "c < bm_bits b" and "\<not> bm_bit m b c"
    and "\<forall>i. i + unat nbits \<le> bm_bits b \<longrightarrow> \<not> bm_free m b i (unat nbits)"
  shows "bitmap_apply m b nbits = None"
proof (cases "bitmap b = NULL")
  case False
  obtain base where base: "find_next_zero_bit m b 0 = Some base"
      "first_at (\<lambda>i. \<not> bm_bit m b i) 0 (bm_bits b) base"
    using find_next_zero_bit_first [OF False, of 0 m] assms(4) by auto
  have "base \<noteq> - 1"
    using first_at_none [of "\<lambda>i. \<not> bm_bit m b i" 0 "bm_bits b" c] base(2) assms(4,5) bm_bits_less [of b] by auto
  moreover have "bitmap_apply_loop m b nbits (of_nat (bm_bits b)) base 0 \<noteq> Some r" for r
    using bitmap_apply_loop_stuck [of m b nbits "of_nat (bm_bits b)" base 0 r]
      find_next_zero_bit_base_ok [OF base(1)] assms by (auto simp: word_less_nat_alt bm_bits_less)
  ultimately show ?thesis
    using base(1) False by (auto simp: bitmap_apply_def bm_bits_def)
qed (simp add: bitmap_apply_def)

theorem bitmap_apply_no_fit_hangs_witness:
  "bitmap_apply (\<lambda>a. 213) \<lparr>bitmap_bytes_len = 1, bitmap = 4096\<rparr> 2 = None"
proof (rule bitmap_apply_no_fit_hangs [where c = 1])
  let ?b = "\<lparr>bitmap_bytes_len = 1, bitmap = 4096\<rparr>"
  let ?bit = "bm_bit (\<lambda>a. 213) ?b"
  have bits: "bm_bits ?b = 8"
    by (simp add: bm_bits_def BIT_PER_LONG_def)
  have set: "?bit 0" "?bit 2" "?bit 4" "?bit 6" "?bit 7"
    by (simp_all add: bm_bit_def)
  show "?bit 0" "?bit (bm_bits ?b - 1)" "1 < bm_bits ?b" "\<not> ?bit 1"
    using set by (simp_all add: bits) (simp add: bm_bit_def)
  show "\<forall>i. i + unat (2 :: u32) \<le> bm_bits ?b \<longrightarrow> \<not> bm_free (\<lambda>a. 213) ?b i (unat (2 :: u32))"
  proof (intro allI impI notI)
    fix i assume "i + unat (2 :: u32) \<le> bm_bits ?b" and free: "bm_free (\<lambda>a. 213) ?b i (unat (2 :: u32))"
    then have "i = 0 \<or> i = 1 \<or> i = 2 \<or> i = 3 \<or> i = 4 \<or> i = 5 \<or> i = 6"
      using bits by auto
    moreover have "\<not> ?bit i" "\<not> ?bit (Suc i)"
      using free unfolding bm_free_def by (auto dest: spec [of _ 0] spec [of _ 1])
    ultimately show False
      using set by (elim disjE) (auto simp: eval_nat_numeral)
  qed
qed simp

end
