(* ===== verification/Klist.thy ===== *)
theory Klist
  imports Prelude
begin

text \<open>
  The doubly linked lists and queues of \<open>lib/kernel/list.c\<close> and \<open>include/os/list.h\<close>. The
  \<open>struct kernel_list\<close> cells live in a typed heap from addresses to cells; every operation is
  the sequence of pointer writes of the source. A list is a ring through its cells:
  \<open>ring h xs\<close> says that the distinct cells \<open>xs\<close> are linked in this order, forwards and
  backwards, and closed. A list with a head cell is a ring that starts with the head, a
  \<open>general_queue\<close> is a ring without a head cell whose first cell is \<open>front\<close> (\<open>queue_rep\<close>).
  The traversals are partial functions: on cells that form no ring they need not end.
  \<open>node_queue\<close> is the interface the scheduler and the semaphores use.
\<close>

section \<open>Data\<close>

text \<open>The fields \<open>prev\<close> and \<open>next\<close> of a cell.\<close>

record kernel_list =
  l_prev :: u32
  l_next :: u32

type_synonym lheap = "u32 \<Rightarrow> kernel_list"

record general_queue =
  front :: u32
  queue_len :: u32

section \<open>Lists\<close>

definition set_prev :: "lheap \<Rightarrow> u32 \<Rightarrow> u32 \<Rightarrow> lheap" where
  "set_prev h p v = h(p := (h p)\<lparr>l_prev := v\<rparr>)"

definition set_next :: "lheap \<Rightarrow> u32 \<Rightarrow> u32 \<Rightarrow> lheap" where
  "set_next h p v = h(p := (h p)\<lparr>l_next := v\<rparr>)"

definition list_init :: "lheap \<Rightarrow> u32 \<Rightarrow> lheap" where
  "list_init h l =
     (let h = set_next h l l;
          h = set_prev h l l
      in h)"

definition list_add_between :: "lheap \<Rightarrow> u32 \<Rightarrow> u32 \<Rightarrow> u32 \<Rightarrow> lheap" where
  "list_add_between h new prv nxt =
     (let h = set_next h prv new;
          h = set_next h new nxt;
          h = set_prev h nxt new;
          h = set_prev h new prv
      in h)"

definition list_add :: "lheap \<Rightarrow> u32 \<Rightarrow> u32 \<Rightarrow> lheap" where
  "list_add h head new = list_add_between h new head (l_next (h head))"

definition list_add_prev :: "lheap \<Rightarrow> u32 \<Rightarrow> u32 \<Rightarrow> lheap" where
  "list_add_prev h head new = list_add_between h new (l_prev (h head)) head"

definition list_del_between :: "lheap \<Rightarrow> u32 \<Rightarrow> u32 \<Rightarrow> lheap" where
  "list_del_between h prv nxt =
     (let h = set_prev h nxt prv;
          h = set_next h prv nxt
      in h)"

definition list_del :: "lheap \<Rightarrow> u32 \<Rightarrow> lheap" where
  "list_del h node =
     (let h = list_del_between h (l_prev (h node)) (l_next (h node));
          h = set_next h node NULL;
          h = set_prev h node NULL
      in h)"

definition list_del_safe :: "lheap \<Rightarrow> u32 \<Rightarrow> lheap" where
  "list_del_safe h node =
     (let h = list_del_between h (l_prev (h node)) (l_next (h node))
      in list_init h node)"

text \<open>\<open>list_pop\<close> returns the removed cell; the new heap comes with it.\<close>

definition list_pop :: "lheap \<Rightarrow> u32 \<Rightarrow> u32 \<times> lheap" where
  "list_pop h l = (l_next (h l), list_del h (l_next (h l)))"

partial_function (option) list_len_loop :: "lheap \<Rightarrow> u32 \<Rightarrow> u32 \<Rightarrow> u32 \<Rightarrow> u32 option" where
  "list_len_loop h node p len =
     (if l_next (h p) \<noteq> node then list_len_loop h node (l_next (h p)) (len + 1) else Some len)"

definition list_len :: "lheap \<Rightarrow> u32 \<Rightarrow> u32 option" where
  "list_len h node = list_len_loop h node node 0"

definition list_empty :: "lheap \<Rightarrow> u32 \<Rightarrow> bool option" where
  "list_empty h l = do {
     n \<leftarrow> list_len h l;
     Some (if n > 0 then False else True)
   }"

partial_function (option) list_find_item_loop :: "lheap \<Rightarrow> u32 \<Rightarrow> u32 \<Rightarrow> u32 \<Rightarrow> bool option" where
  "list_find_item_loop h l node p =
     (if l_next (h p) \<noteq> l
      then if p = node then Some True else list_find_item_loop h l node (l_next (h p))
      else Some False)"

definition list_find_item :: "lheap \<Rightarrow> u32 \<Rightarrow> u32 \<Rightarrow> bool option" where
  "list_find_item h l node =
     (if l = NULL \<or> node = NULL then Some False else list_find_item_loop h l node l)"

text \<open>\<open>list_for_each\<close> only walks the list; the value \<open>()\<close> stands for its return.\<close>

partial_function (option) list_for_each_loop :: "lheap \<Rightarrow> u32 \<Rightarrow> u32 \<Rightarrow> unit option" where
  "list_for_each_loop h l p =
     (let p = l_next (h p)
      in if l_next (h p) \<noteq> l then list_for_each_loop h l p else Some ())"

definition list_for_each :: "lheap \<Rightarrow> u32 \<Rightarrow> unit option" where
  "list_for_each h l = (if l = NULL then Some () else list_for_each_loop h l l)"

section \<open>Queues\<close>

text \<open>
  The queue struct is passed and returned by value (it is a variable of the caller, so the
  checks \<open>queue != NULL\<close> hold).
\<close>

definition queue_empty :: "general_queue \<Rightarrow> bool" where
  "queue_empty q = (queue_len q = 0)"

definition queue_in :: "lheap \<Rightarrow> general_queue \<Rightarrow> u32 \<Rightarrow> (lheap \<times> general_queue) option" where
  "queue_in h q node = do {
     ASSERT (node \<noteq> NULL);
     if queue_len q = 0
     then let q = q\<lparr>front := node\<rparr>;
              h = set_next h node node;
              h = set_prev h node node
          in Some (h, q\<lparr>queue_len := queue_len q + 1\<rparr>)
     else let h = list_add_prev h (front q) node
          in Some (h, q\<lparr>queue_len := queue_len q + 1\<rparr>)
   }"

definition queue_out :: "lheap \<Rightarrow> general_queue \<Rightarrow> u32 \<times> lheap \<times> general_queue" where
  "queue_out h q =
     (if queue_len q = 0 then (NULL, h, q)
      else let p = front q;
               q = (if queue_len q = 1 then q\<lparr>front := NULL\<rparr>
                    else q\<lparr>front := l_next (h (front q))\<rparr>);
               h = list_del h p
           in (p, h, q\<lparr>queue_len := queue_len q - 1\<rparr>))"

definition queue_push :: "lheap \<Rightarrow> general_queue \<Rightarrow> u32 \<Rightarrow> (lheap \<times> general_queue) option" where
  "queue_push h q node = do {
     ASSERT (node \<noteq> NULL);
     if queue_len q = 0
     then let q = q\<lparr>front := node\<rparr>;
              h = set_next h node node;
              h = set_prev h node node
          in Some (h, q\<lparr>queue_len := queue_len q + 1\<rparr>)
     else let h = list_add_prev h (front q) node;
              q = q\<lparr>front := node\<rparr>
          in Some (h, q\<lparr>queue_len := queue_len q + 1\<rparr>)
   }"

definition queue_init :: general_queue where
  "queue_init = \<lparr>front = NULL, queue_len = 0\<rparr>"

section \<open>Specification vocabulary\<close>

text \<open>\<open>links h a xs b\<close>: following \<open>next\<close> from \<open>a\<close> visits \<open>xs\<close> and then \<open>b\<close>; \<open>prev\<close> goes back.\<close>

fun links :: "lheap \<Rightarrow> u32 \<Rightarrow> u32 list \<Rightarrow> u32 \<Rightarrow> bool" where
  "links h a [] b \<longleftrightarrow> l_next (h a) = b \<and> l_prev (h b) = a"
| "links h a (x # xs) b \<longleftrightarrow> l_next (h a) = x \<and> l_prev (h x) = a \<and> links h x xs b"

fun ring :: "lheap \<Rightarrow> u32 list \<Rightarrow> bool" where
  "ring h [] \<longleftrightarrow> False"
| "ring h (x # xs) \<longleftrightarrow> distinct (x # xs) \<and> links h x xs x"

definition queue_rep :: "lheap \<Rightarrow> general_queue \<Rightarrow> u32 list \<Rightarrow> bool" where
  "queue_rep h q xs \<longleftrightarrow>
     NULL \<notin> set xs \<and> length xs < 4294967296 \<and> queue_len q = of_nat (length xs) \<and>
     (if xs = [] then front q = NULL else ring h xs \<and> front q = hd xs)"

definition queue_fits :: "u32 \<Rightarrow> u32 list \<Rightarrow> bool" where
  "queue_fits x xs \<longleftrightarrow> x \<noteq> NULL \<and> x \<notin> set xs \<and> length xs < 4294967295"

section \<open>Heap updates\<close>

lemma l_next_set_next [simp]: "l_next (set_next h p v q) = (if q = p then v else l_next (h q))"
  by (simp add: set_next_def)

lemma l_prev_set_next [simp]: "l_prev (set_next h p v q) = l_prev (h q)"
  by (simp add: set_next_def)

lemma l_next_set_prev [simp]: "l_next (set_prev h p v q) = l_next (h q)"
  by (simp add: set_prev_def)

lemma l_prev_set_prev [simp]: "l_prev (set_prev h p v q) = (if q = p then v else l_prev (h q))"
  by (simp add: set_prev_def)

lemma set_next_other [kframe]: "q \<noteq> p \<Longrightarrow> set_next h p v q = h q"
  by (simp add: set_next_def)

lemma set_prev_other [kframe]: "q \<noteq> p \<Longrightarrow> set_prev h p v q = h q"
  by (simp add: set_prev_def)

lemma links_append: "links h a (xs @ y # ys) b \<longleftrightarrow> links h a xs y \<and> links h y ys b"
  by (induction xs arbitrary: a) auto

lemma links_cong:
  "(\<And>p. p \<in> set (a # xs) \<Longrightarrow> l_next (h p) = l_next (h' p)) \<Longrightarrow>
   (\<And>p. p \<in> set (xs @ [b]) \<Longrightarrow> l_prev (h p) = l_prev (h' p)) \<Longrightarrow> links h a xs b = links h' a xs b"
  by (induction xs arbitrary: a) auto

lemma links_last: "links h a xs b \<Longrightarrow> l_prev (h b) = last (a # xs)"
  by (induction xs arbitrary: a) auto

lemma ring_cong: "ring h xs \<Longrightarrow> (\<And>p. p \<in> set xs \<Longrightarrow> h' p = h p) \<Longrightarrow> ring h' xs"
proof (cases xs)
  case (Cons x ys)
  assume "ring h xs" and "\<And>p. p \<in> set xs \<Longrightarrow> h' p = h p"
  then show ?thesis
    using Cons links_cong [of x ys h h' x] by auto
qed simp

lemma ring_distinct: "ring h xs \<Longrightarrow> distinct xs"
  by (cases xs) auto

lemma ring_rotate: "ring h (xs @ ys) \<Longrightarrow> ring h (ys @ xs)"
proof (cases xs; cases ys)
  fix x xs' y ys'
  assume "ring h (xs @ ys)" and "xs = x # xs'" and "ys = y # ys'"
  then show ?thesis
    using links_append [of h x xs' y ys' x] links_append [of h y ys' x xs' y] by auto
qed auto

section \<open>What the list operations do to a ring\<close>

lemma list_init_ring: "ring (list_init h l) [l]"
  by (simp add: list_init_def)

lemma list_init_other [kframe]: "p \<noteq> l \<Longrightarrow> list_init h l p = h p"
  by (simp add: list_init_def kframe)

lemma list_add_between_other [kframe]:
  "p \<notin> {new, prv, nxt} \<Longrightarrow> list_add_between h new prv nxt p = h p"
  by (simp add: list_add_between_def kframe)

text \<open>Inserting before the first cell of a ring appends to it.\<close>

lemma list_add_prev_ring:
  assumes "ring h (x # xs)" and "new \<notin> set (x # xs)"
  shows "ring (list_add_prev h x new) (x # xs @ [new])"
proof (cases xs rule: rev_cases)
  case Nil
  then show ?thesis
    using assms by (auto simp: list_add_prev_def list_add_between_def)
next
  case (snoc ys z)
  have lnk: "links h x ys z" "l_prev (h x) = z"
    using assms(1) snoc links_append [of h x ys z "[]" x] by auto
  then have "links (list_add_prev h x new) x ys z"
    using assms snoc by (subst links_cong [where h' = h]) (auto simp: list_add_prev_def list_add_between_def)
  moreover have "links (list_add_prev h x new) z [new] x"
    using assms snoc lnk by (auto simp: list_add_prev_def list_add_between_def)
  ultimately show ?thesis
    using assms snoc links_append [of "list_add_prev h x new" x ys z "[new]" x] by auto
qed

text \<open>\<open>list_add\<close> after \<open>x\<close> is \<open>list_add_prev\<close> before its successor.\<close>

lemma list_add_ring:
  assumes "ring h (x # xs)" and "new \<notin> set (x # xs)"
  shows "ring (list_add h x new) (x # new # xs)"
proof (cases xs)
  case Nil
  then show ?thesis
    using assms by (auto simp: list_add_def list_add_between_def)
next
  case (Cons y ys)
  have "list_add h x new = list_add_prev h y new"
    using assms(1) Cons by (simp add: list_add_def list_add_prev_def)
  moreover have "ring h (y # ys @ [x])"
    using ring_rotate [of h "[x]" "y # ys"] assms(1) Cons by simp
  ultimately have "ring (list_add h x new) ((y # ys) @ [x, new])"
    using list_add_prev_ring [of h y "ys @ [x]" new] assms(2) Cons by auto
  from ring_rotate [OF this] show ?thesis
    using Cons by simp
qed

lemma ring_ends: "ring h (x # xs) \<Longrightarrow> l_next (h x) \<in> set (x # xs) \<and> l_prev (h x) \<in> set (x # xs)"
  using links_last [of h x xs x] by (cases xs) auto

lemma list_add_other [kframe]:
  assumes "ring h (x # xs)" and "p \<notin> set (new # x # xs)"
  shows "list_add h x new p = h p" and "list_add_prev h x new p = h p"
  using assms ring_ends [OF assms(1)]
  by (auto simp: list_add_def list_add_prev_def intro!: list_add_between_other)

lemma list_del_between_ring:
  assumes "ring h (x # xs)" and "xs \<noteq> []"
  shows "ring (list_del_between h (l_prev (h x)) (l_next (h x))) xs"
proof (cases xs rule: rev_cases)
  case (snoc ys z)
  show ?thesis
  proof (cases ys)
    case Nil
    then show ?thesis
      using assms snoc by (auto simp: list_del_between_def)
  next
    case (Cons y ys')
    then have "links h y ys' z" "l_prev (h x) = z" "l_next (h x) = y"
      using assms(1) snoc links_append [of h x ys z "[]" x] by auto
    moreover from this have "links (list_del_between h z y) y ys' z"
      using assms(1) snoc Cons by (subst links_cong [where h' = h]) (auto simp: list_del_between_def)
    ultimately show ?thesis
      using assms(1) snoc Cons links_append [of "list_del_between h z y" y ys' z "[]" y]
      by (auto simp: list_del_between_def)
  qed
qed (use assms in simp)

lemma list_del_ring:
  assumes "ring h (x # xs)" and "xs \<noteq> []"
  shows "ring (list_del h x) xs"
proof (rule ring_cong [OF list_del_between_ring [OF assms]])
  fix p assume "p \<in> set xs"
  then have "p \<noteq> x" using assms(1) by auto
  then show "list_del h x p = list_del_between h (l_prev (h x)) (l_next (h x)) p"
    by (simp add: list_del_def kframe)
qed

lemma list_del_safe_ring:
  assumes "ring h (x # xs)" and "xs \<noteq> []"
  shows "ring (list_del_safe h x) xs" and "ring (list_del_safe h x) [x]"
proof -
  show "ring (list_del_safe h x) xs"
  proof (rule ring_cong [OF list_del_between_ring [OF assms]])
    fix p assume "p \<in> set xs"
    then have "p \<noteq> x" using assms(1) by auto
    then show "list_del_safe h x p = list_del_between h (l_prev (h x)) (l_next (h x)) p"
      by (simp add: list_del_safe_def kframe)
  qed
  show "ring (list_del_safe h x) [x]"
    by (simp add: list_del_safe_def list_init_ring del: ring.simps)
qed

lemma list_del_between_other [kframe]:
  assumes "ring h (x # xs)" and "p \<notin> set (x # xs)"
  shows "list_del_between h (l_prev (h x)) (l_next (h x)) p = h p"
proof -
  have "p \<noteq> l_next (h x)" "p \<noteq> l_prev (h x)"
    using assms(2) ring_ends [OF assms(1)] by auto
  then show ?thesis
    by (simp add: list_del_between_def kframe)
qed

lemma list_del_other [kframe]:
  assumes "ring h (x # xs)" and "p \<notin> set (x # xs)"
  shows "list_del h x p = h p" and "list_del_safe h x p = h p"
  using assms by (auto simp: list_del_def list_del_safe_def kframe list_del_between_other [OF assms])

text \<open>The cell that was taken out points to \<open>NULL\<close>.\<close>

lemma list_del_cell: "list_del h x x = \<lparr>l_prev = NULL, l_next = NULL\<rparr>"
  by (simp add: list_del_def)

text \<open>Deleting any cell of a list with head \<open>l\<close>.\<close>

lemma list_del_member:
  assumes "ring h (l # xs)" and "x \<in> set xs"
  shows "ring (list_del h x) (l # remove1 x xs)" and "ring (list_del_safe h x) (l # remove1 x xs)"
proof -
  obtain ys zs where xs: "xs = ys @ x # zs" "x \<notin> set ys"
    using split_list_first [OF assms(2)] by blast
  then have rm: "remove1 x xs = ys @ zs"
    by (simp add: remove1_append)
  have "ring h ((x # zs) @ (l # ys))"
    using ring_rotate [of h "l # ys" "x # zs"] assms(1) xs by simp
  then have "ring (list_del h x) (zs @ (l # ys))" "ring (list_del_safe h x) (zs @ (l # ys))"
    using list_del_ring [of h x "zs @ l # ys"] list_del_safe_ring(1) [of h x "zs @ l # ys"] by auto
  then show "ring (list_del h x) (l # remove1 x xs)" "ring (list_del_safe h x) (l # remove1 x xs)"
    using ring_rotate [of _ zs "l # ys"] rm by auto
qed

section \<open>Traversals\<close>

lemma list_len_loop_links:
  "links h p ys node \<Longrightarrow> node \<notin> set ys \<Longrightarrow> list_len_loop h node p k = Some (k + of_nat (length ys))"
  by (induction ys arbitrary: p k) (auto simp: list_len_loop.simps [of h] add.assoc)

lemma list_len_ring: "ring h (x # xs) \<Longrightarrow> list_len h x = Some (of_nat (length xs))"
  using list_len_loop_links [of h x xs x 0] by (simp add: list_len_def)

lemma list_empty_ring:
  "ring h (x # xs) \<Longrightarrow> length xs < 4294967296 \<Longrightarrow> list_empty h x = Some (xs = [])"
  using of_nat_inj_u32 [of "length xs" 0] by (simp add: list_empty_def list_len_ring word_gt_0)

text \<open>\<open>list_find_item\<close> stops before it looks at the last cell.\<close>

lemma list_find_item_loop_links:
  "links h p ys l \<Longrightarrow> l \<notin> set ys \<Longrightarrow> list_find_item_loop h l node p = Some (node \<in> set (butlast (p # ys)))"
proof (induction ys arbitrary: p)
  case Nil
  then show ?case by (simp add: list_find_item_loop.simps [of h l])
next
  case (Cons y ys)
  then show ?case by (auto simp: list_find_item_loop.simps [of h l node p])
qed

lemma list_find_item_ring:
  "ring h (x # xs) \<Longrightarrow> x \<noteq> NULL \<Longrightarrow> node \<noteq> NULL \<Longrightarrow>
   list_find_item h x node = Some (node \<in> set (butlast (x # xs)))"
  by (simp add: list_find_item_def list_find_item_loop_links del: butlast.simps)

lemma list_for_each_loop_links:
  "links h p ys l \<Longrightarrow> l \<notin> set ys \<Longrightarrow> ys \<noteq> [] \<Longrightarrow> list_for_each_loop h l p = Some ()"
proof (induction ys arbitrary: p)
  case (Cons y ys)
  then show ?case
    by (cases ys) (auto simp: list_for_each_loop.simps [of h l p] Let_def)
qed simp

lemma list_for_each_ring: "ring h (x # xs) \<Longrightarrow> list_for_each h x = Some ()"
  using list_for_each_loop_links [of h x xs x]
  by (cases xs) (auto simp: list_for_each_def list_for_each_loop.simps [of h x x] Let_def)

section \<open>Queues as sequences\<close>

lemma queue_rep_Nil: "queue_rep h q [] \<longleftrightarrow> q = queue_init"
  by (auto simp: queue_rep_def queue_init_def)

lemma queue_rep_cong: "queue_rep h q xs \<Longrightarrow> (\<And>p. p \<in> set xs \<Longrightarrow> h' p = h p) \<Longrightarrow> queue_rep h' q xs"
  unfolding queue_rep_def using ring_cong [of h xs h'] by metis

lemma queue_rep_len: "queue_rep h q xs \<Longrightarrow> queue_len q = 0 \<longleftrightarrow> xs = []"
  using of_nat_inj_u32 [of "length xs" 0] by (auto simp: queue_rep_def)

lemma queue_rep_distinct: "queue_rep h q xs \<Longrightarrow> distinct xs"
  by (auto simp: queue_rep_def ring_distinct split: if_splits)

lemma queue_in_rep:
  assumes "queue_rep h q xs" and "queue_fits x xs"
  obtains h' q' where "queue_in h q x = Some (h', q')" and "queue_rep h' q' (xs @ [x])"
    and "\<And>p. p \<notin> set (x # xs) \<Longrightarrow> h' p = h p"
proof (cases xs)
  case Nil
  then show ?thesis
    using assms queue_rep_len [OF assms(1)]
    by (intro that [of "set_prev (set_next h x x) x x" "\<lparr>front = x, queue_len = 1\<rparr>"])
      (auto simp: queue_in_def queue_fits_def queue_rep_def queue_rep_Nil queue_init_def kframe)
next
  case (Cons y ys)
  then have "ring h (y # ys)" "front q = y"
    using assms(1) by (auto simp: queue_rep_def)
  then show ?thesis
    using assms Cons queue_rep_len [OF assms(1)] list_add_prev_ring [of h y ys x]
    by (intro that [of "list_add_prev h y x" "\<lparr>front = y, queue_len = queue_len q + 1\<rparr>"])
      (auto simp: queue_in_def queue_fits_def queue_rep_def list_add_other simp del: ring.simps)
qed

lemma queue_push_rep:
  assumes "queue_rep h q xs" and "queue_fits x xs"
  obtains h' q' where "queue_push h q x = Some (h', q')" and "queue_rep h' q' (x # xs)"
    and "\<And>p. p \<notin> set (x # xs) \<Longrightarrow> h' p = h p"
proof (cases xs)
  case Nil
  then show ?thesis
    using assms queue_rep_len [OF assms(1)]
    by (intro that [of "set_prev (set_next h x x) x x" "\<lparr>front = x, queue_len = 1\<rparr>"])
      (auto simp: queue_push_def queue_fits_def queue_rep_def queue_rep_Nil queue_init_def kframe)
next
  case (Cons y ys)
  then have "ring h (y # ys)" "front q = y"
    using assms(1) by (auto simp: queue_rep_def)
  moreover from this have "ring (list_add_prev h y x) (x # y # ys)"
    using ring_rotate [of _ "y # ys" "[x]"] list_add_prev_ring [of h y ys x] assms(2) Cons
    by (auto simp: queue_fits_def simp del: ring.simps)
  ultimately show ?thesis
    using assms Cons queue_rep_len [OF assms(1)]
    by (intro that [of "list_add_prev h y x" "\<lparr>front = x, queue_len = queue_len q + 1\<rparr>"])
      (auto simp: queue_push_def queue_fits_def queue_rep_def list_add_other simp del: ring.simps)
qed

lemma queue_out_rep:
  assumes "queue_rep h q (x # xs)"
  obtains h' q' where "queue_out h q = (x, h', q')" and "queue_rep h' q' xs"
    and "\<And>p. p \<notin> set (x # xs) \<Longrightarrow> h' p = h p"
proof -
  have r: "ring h (x # xs)" "front q = x" "queue_len q = of_nat (Suc (length xs))"
      "NULL \<notin> set (x # xs)" "Suc (length xs) < 4294967296"
    using assms by (auto simp: queue_rep_def simp del: of_nat_Suc)
  have one: "queue_len q = 1 \<longleftrightarrow> xs = []"
    using r(3,5) of_nat_inj_u32 [of "Suc (length xs)" 1] by auto
  let ?q = "\<lparr>front = (if xs = [] then NULL else hd xs), queue_len = of_nat (length xs)\<rparr>"
  have "l_next (h x) = hd xs" if "xs \<noteq> []"
    using r(1) that by (cases xs) auto
  then have "queue_out h q = (x, list_del h x, ?q)"
    using one r(2,3) queue_rep_len [OF assms] by (auto simp: queue_out_def Let_def)
  moreover have "queue_rep (list_del h x) ?q xs"
    using list_del_ring [OF r(1)] r(4,5) by (auto simp: queue_rep_def)
  ultimately show ?thesis
    using that list_del_other(1) [OF r(1)] by blast
qed

section \<open>The interface of a queue of cells\<close>

text \<open>
  What a client of the queues relies on: each operation acts on the sequence a queue stands for,
  returns, and writes no cell outside the queue and its argument. \<open>fits\<close> is the condition under
  which a cell may be put into a queue. From these laws follow the facts the scheduler and the
  semaphores need when several queues share one heap: operations on one queue keep the others,
  a cell can be moved from one queue to another, and taking out and putting back rotates.
\<close>

locale node_queue =
  fixes rep :: "('a \<Rightarrow> 'n) \<Rightarrow> 'q \<Rightarrow> 'a list \<Rightarrow> bool"
    and fits :: "'a \<Rightarrow> 'a list \<Rightarrow> bool"
    and q_in :: "('a \<Rightarrow> 'n) \<Rightarrow> 'q \<Rightarrow> 'a \<Rightarrow> (('a \<Rightarrow> 'n) \<times> 'q) option"
    and q_push :: "('a \<Rightarrow> 'n) \<Rightarrow> 'q \<Rightarrow> 'a \<Rightarrow> (('a \<Rightarrow> 'n) \<times> 'q) option"
    and q_out :: "('a \<Rightarrow> 'n) \<Rightarrow> 'q \<Rightarrow> 'a \<times> ('a \<Rightarrow> 'n) \<times> 'q"
  assumes rep_local: "rep h q xs \<Longrightarrow> (\<And>p. p \<in> set xs \<Longrightarrow> h' p = h p) \<Longrightarrow> rep h' q xs"
    and rep_distinct: "rep h q xs \<Longrightarrow> distinct xs"
    and in_law: "rep h q xs \<Longrightarrow> fits x xs \<Longrightarrow> \<exists>h' q'. q_in h q x = Some (h', q') \<and>
        rep h' q' (xs @ [x]) \<and> (\<forall>p. p \<notin> set (x # xs) \<longrightarrow> h' p = h p)"
    and push_law: "rep h q xs \<Longrightarrow> fits x xs \<Longrightarrow> \<exists>h' q'. q_push h q x = Some (h', q') \<and>
        rep h' q' (x # xs) \<and> (\<forall>p. p \<notin> set (x # xs) \<longrightarrow> h' p = h p)"
    and out_law: "rep h q (x # xs) \<Longrightarrow> \<exists>h' q'. q_out h q = (x, h', q') \<and>
        rep h' q' xs \<and> (\<forall>p. p \<notin> set (x # xs) \<longrightarrow> h' p = h p)"
    and out_fits: "rep h q (x # xs) \<Longrightarrow> fits x xs"
begin

lemma in_keeps:
  assumes "rep h q xs" and "fits x xs" and "rep h r ys" and "set (x # xs) \<inter> set ys = {}"
  obtains h' q' where "q_in h q x = Some (h', q')" and "rep h' q' (xs @ [x])" and "rep h' r ys"
  using in_law [OF assms(1,2)] rep_local [OF assms(3)] assms(4) by (metis disjoint_iff)

lemma push_keeps:
  assumes "rep h q xs" and "fits x xs" and "rep h r ys" and "set (x # xs) \<inter> set ys = {}"
  obtains h' q' where "q_push h q x = Some (h', q')" and "rep h' q' (x # xs)" and "rep h' r ys"
  using push_law [OF assms(1,2)] rep_local [OF assms(3)] assms(4) by (metis disjoint_iff)

lemma out_keeps:
  assumes "rep h q (x # xs)" and "rep h r ys" and "set (x # xs) \<inter> set ys = {}"
  obtains h' q' where "q_out h q = (x, h', q')" and "rep h' q' xs" and "rep h' r ys"
  using out_law [OF assms(1)] rep_local [OF assms(2)] assms(3) by (metis disjoint_iff)

lemma rotate:
  assumes "rep h q (x # xs)"
  shows "\<exists>h1 q1 h2 q2. q_out h q = (x, h1, q1) \<and> q_in h1 q1 x = Some (h2, q2) \<and> rep h2 q2 (xs @ [x])"
  using out_law [OF assms] in_law out_fits [OF assms] by metis

lemma move:
  assumes "rep h q (x # xs)" and "rep h r ys" and "set (x # xs) \<inter> set ys = {}" and "fits x ys"
  shows "\<exists>h1 q1 h2 r2. q_out h q = (x, h1, q1) \<and> q_push h1 r x = Some (h2, r2) \<and>
           rep h2 q1 xs \<and> rep h2 r2 (x # ys)"
proof -
  obtain h1 q1 where 1: "q_out h q = (x, h1, q1)" "rep h1 q1 xs" "rep h1 r ys"
    using out_keeps [OF assms(1-3)] by blast
  have "set (x # ys) \<inter> set xs = {}"
    using assms(3) rep_distinct [OF assms(1)] by auto
  then obtain h2 r2 where "q_push h1 r x = Some (h2, r2)" "rep h2 r2 (x # ys)" "rep h2 q1 xs"
    using push_keeps [OF 1(3) assms(4) 1(2)] by blast
  with 1 show ?thesis by blast
qed

end

interpretation kq: node_queue queue_rep queue_fits queue_in queue_push queue_out
proof unfold_locales
  fix h q xs x
  assume rep: "queue_rep h q xs" and fits: "queue_fits x xs"
  show "\<exists>h' q'. queue_in h q x = Some (h', q') \<and> queue_rep h' q' (xs @ [x]) \<and>
          (\<forall>p. p \<notin> set (x # xs) \<longrightarrow> h' p = h p)"
    by (rule queue_in_rep [OF rep fits]) blast
  show "\<exists>h' q'. queue_push h q x = Some (h', q') \<and> queue_rep h' q' (x # xs) \<and>
          (\<forall>p. p \<notin> set (x # xs) \<longrightarrow> h' p = h p)"
    by (rule queue_push_rep [OF rep fits]) blast
next
  fix h q x xs
  assume rep: "queue_rep h q (x # xs)"
  show "\<exists>h' q'. queue_out h q = (x, h', q') \<and> queue_rep h' q' xs \<and>
          (\<forall>p. p \<notin> set (x # xs) \<longrightarrow> h' p = h p)"
    by (rule queue_out_rep [OF rep]) blast
  show "queue_fits x xs"
    using rep queue_rep_distinct [OF rep] by (auto simp: queue_rep_def queue_fits_def)
qed (auto intro: queue_rep_cong queue_rep_distinct)

section \<open>Properties\<close>

text \<open>
  C9: a queue is a double-ended sequence. \<open>queue_in\<close> appends a cell to the sequence a queue
  stands for, \<open>queue_push\<close> puts it in front, both return, and neither writes a cell outside the
  queue. \<open>queue_out\<close> returns the first cell of the sequence and leaves a queue for the others, writing
  no cell outside the queue; on an empty queue it returns \<open>NULL\<close> and changes nothing. So what was put
  in is taken out in that order, or first when it was pushed.
\<close>

theorem queue_refines_sequence:
  assumes "queue_rep h q xs" and "x \<noteq> NULL" and "x \<notin> set xs" and "length xs < 4294967295"
  shows "(\<exists>h' q'. queue_in h q x = Some (h', q') \<and> queue_rep h' q' (xs @ [x]) \<and>
             (\<forall>p. p \<notin> set (x # xs) \<longrightarrow> h' p = h p) \<and> fst (queue_out h' q') = hd (xs @ [x])) \<and>
         (\<exists>h' q'. queue_push h q x = Some (h', q') \<and> queue_rep h' q' (x # xs) \<and>
             (\<forall>p. p \<notin> set (x # xs) \<longrightarrow> h' p = h p) \<and> fst (queue_out h' q') = x) \<and>
         (case xs of
            [] \<Rightarrow> queue_out h q = (NULL, h, q)
          | y # ys \<Rightarrow> (\<exists>h' q'. queue_out h q = (y, h', q') \<and> queue_rep h' q' ys \<and> queue_len q' = queue_len q - 1 \<and>
             (\<forall>p. p \<notin> set xs \<longrightarrow> h' p = h p)))"
proof (intro conjI)
  have fits: "queue_fits x xs"
    using assms by (simp add: queue_fits_def)
  have hd: "fst (queue_out h' q') = hd ys" if "queue_rep h' q' ys" "ys \<noteq> []" for h' q' ys
    using kq.out_law [of h' q' "hd ys" "tl ys"] that by auto
  show "\<exists>h' q'. queue_in h q x = Some (h', q') \<and> queue_rep h' q' (xs @ [x]) \<and>
      (\<forall>p. p \<notin> set (x # xs) \<longrightarrow> h' p = h p) \<and> fst (queue_out h' q') = hd (xs @ [x])"
    using kq.in_law [OF assms(1) fits] hd by blast
  show "\<exists>h' q'. queue_push h q x = Some (h', q') \<and> queue_rep h' q' (x # xs) \<and>
      (\<forall>p. p \<notin> set (x # xs) \<longrightarrow> h' p = h p) \<and> fst (queue_out h' q') = x"
    using kq.push_law [OF assms(1) fits] hd by force
  show "case xs of [] \<Rightarrow> queue_out h q = (NULL, h, q)
      | y # ys \<Rightarrow> (\<exists>h' q'. queue_out h q = (y, h', q') \<and> queue_rep h' q' ys \<and> queue_len q' = queue_len q - 1 \<and>
          (\<forall>p. p \<notin> set xs \<longrightarrow> h' p = h p))"
  proof (cases xs)
    case (Cons y ys)
    obtain h' q' where out: "queue_out h q = (y, h', q')" "queue_rep h' q' ys" "\<forall>p. p \<notin> set xs \<longrightarrow> h' p = h p"
      using kq.out_law [of h q y ys] assms(1) unfolding Cons by blast
    then show ?thesis
      using assms(1) by (auto simp: Cons queue_rep_def)
  qed (use assms(1) in \<open>simp add: queue_rep_Nil queue_init_def queue_out_def\<close>)
qed

theorem queue_refines_sequence_witness:
  "(\<exists>h' q'. queue_in (\<lambda>p. \<lparr>l_prev = 64, l_next = 64\<rparr>) \<lparr>front = 64, queue_len = 1\<rparr> 128 = Some (h', q') \<and>
           queue_rep h' q' [64, 128] \<and> fst (queue_out h' q') = 64) \<and>
   (\<exists>h' q'. queue_out (\<lambda>p. \<lparr>l_prev = 64, l_next = 64\<rparr>) \<lparr>front = 64, queue_len = 1\<rparr> = (64, h', q') \<and> queue_rep h' q' [])"
  using queue_refines_sequence [of "\<lambda>p. \<lparr>l_prev = 64, l_next = 64\<rparr>" "\<lparr>front = 64, queue_len = 1\<rparr>" "[64]" 128]
  by (auto simp: queue_rep_def NULL_def)

text \<open>
  C32: a list with a head cell is a sequence. On a ring that starts with the head \<open>l\<close>,
  \<open>list_add\<close> prepends a new cell, \<open>list_add_prev\<close> appends it, \<open>list_del_safe\<close> takes any one cell
  out, \<open>list_pop\<close> takes the first one out and returns it, and \<open>list_len\<close> returns the number of
  cells.
\<close>

theorem list_refines_sequence:
  assumes "ring h (l # xs)" and "new \<notin> set (l # xs)"
  shows "ring (list_add h l new) (l # new # xs) \<and>
         ring (list_add_prev h l new) (l # xs @ [new]) \<and>
         (\<forall>x \<in> set xs. ring (list_del_safe h x) (l # remove1 x xs)) \<and>
         (xs \<noteq> [] \<longrightarrow> fst (list_pop h l) = hd xs \<and> ring (snd (list_pop h l)) (l # tl xs)) \<and>
         list_len h l = Some (of_nat (length xs))"
proof -
  have "fst (list_pop h l) = hd xs \<and> ring (snd (list_pop h l)) (l # tl xs)" if "xs \<noteq> []"
  proof -
    have "l_next (h l) = hd xs"
      using assms(1) that by (cases xs) auto
    moreover have "remove1 (hd xs) xs = tl xs"
      using that by (cases xs) auto
    ultimately show ?thesis
      using list_del_member(1) [OF assms(1), of "hd xs"] that by (simp add: list_pop_def)
  qed
  then show ?thesis
    using list_add_ring [OF assms] list_add_prev_ring [OF assms] list_del_member(2) [OF assms(1)]
      list_len_ring [OF assms(1)] by blast
qed

theorem list_refines_sequence_witness:
  "ring (list_add_prev (list_init (\<lambda>p. \<lparr>l_prev = 0, l_next = 0\<rparr>) 64) 64 128) [64, 128]"
  using list_refines_sequence [OF list_init_ring, of 128 64 "\<lambda>p. \<lparr>l_prev = 0, l_next = 0\<rparr>"]
  by (simp del: ring.simps)

text \<open>
  \<open>list_find_item\<close> never finds the last cell. On a ring it answers whether the cell is one of
  the cells before the last one; asked for the last cell it answers \<open>FALSE\<close>.
\<close>

theorem list_find_item_skips_last:
  assumes "ring h (x # xs)" and "NULL \<notin> set (x # xs)" and "node \<noteq> NULL"
  shows "list_find_item h x node = Some (node \<in> set (butlast (x # xs))) \<and>
         list_find_item h x (last (x # xs)) = Some False"
proof -
  have "last (x # xs) \<notin> set (butlast (x # xs))"
    using ring_distinct [OF assms(1)] by (metis append_butlast_last_id distinct_append
        disjoint_insert(1) list.simps(15) list.distinct(1))
  moreover have "last (x # xs) \<noteq> NULL" "x \<noteq> NULL"
    using assms(2) last_in_set [of "x # xs"] by auto
  ultimately show ?thesis
    using list_find_item_ring [OF assms(1)] assms(3) by (simp del: butlast.simps last.simps)
qed

theorem list_find_item_skips_last_witness:
  "list_find_item (\<lambda>p. \<lparr>l_prev = 64, l_next = 64\<rparr>) 64 64 = Some False"
  using list_find_item_skips_last [of "\<lambda>p. \<lparr>l_prev = 64, l_next = 64\<rparr>" 64 "[]" 64]
  by (simp add: NULL_def)

end
