(* ===== verification/Print.thy ===== *)
theory Print
  imports Prelude
begin

text \<open>
  Output on the screen (\<open>lib/kernel/print.S\<close>). The screen is the sequence of characters handed to \<open>put_char\<close>; the
  routines are modelled by what they hand over, not by the video memory and the cursor. \<open>put_lit\<close> is \<open>put_str\<close> of a
  string literal of the source; \<open>put_str\<close> of a string in memory is in \<open>Console\<close>.
\<close>

section \<open>Operations\<close>

record screen_state =
  screen :: "u8 list"

definition put_char :: "u8 \<Rightarrow> 'a screen_state_scheme \<Rightarrow> 'a screen_state_scheme" where
  "put_char ch s = (if ch = 0 then s else s\<lparr>screen := screen s @ [ch]\<rparr>)"

text \<open>\<open>put_hex\<close> fills a buffer with eight digits from the last to the first and skips the leading zeros.\<close>

definition hex_digit :: "u32 \<Rightarrow> u8" where
  "hex_digit d = (if d \<le> 9 then ucast d + 48 else ucast (d - 10) + 65)"

definition put_hex :: "u32 \<Rightarrow> 'a screen_state_scheme \<Rightarrow> 'a screen_state_scheme" where
  "put_hex n s =
     (let buf = map (\<lambda>i. hex_digit (drop_bit (4 * (7 - i)) n AND 0xf)) [0 ..< 8];
          ds = dropWhile (\<lambda>c. c = 48) buf
      in fold put_char (if ds = [] then [48] else ds) s)"

definition put_lit :: "string \<Rightarrow> 'a screen_state_scheme \<Rightarrow> 'a screen_state_scheme" where
  "put_lit cs s = fold put_char (map of_char cs) s"

section \<open>What is printed\<close>

lemma put_char_eq: "put_char ch s = s\<lparr>screen := screen s @ (if ch = 0 then [] else [ch])\<rparr>"
  by (simp add: put_char_def)

lemma fold_put_char: "0 \<notin> set cs \<Longrightarrow> fold put_char cs s = s\<lparr>screen := screen s @ cs\<rparr>"
  by (induction cs arbitrary: s) (simp_all add: put_char_def)

lemma fold_put_char_any: "fold put_char cs s = s\<lparr>screen := screen s @ filter (\<lambda>c. c \<noteq> 0) cs\<rparr>"
  by (induction cs arbitrary: s) (simp_all add: put_char_def)

lemma put_lit_eq: "put_lit cs s = s\<lparr>screen := screen s @ filter (\<lambda>c. c \<noteq> 0) (map of_char cs)\<rparr>"
  by (simp add: put_lit_def fold_put_char_any)

definition lit_text :: "string \<Rightarrow> u8 list" where
  "lit_text cs = filter (\<lambda>c. c \<noteq> 0) (map of_char cs)"

lemma put_lit_text: "put_lit cs s = s\<lparr>screen := screen s @ lit_text cs\<rparr>"
  by (simp add: lit_text_def put_lit_eq)

text \<open>Output changes the screen only.\<close>

definition only_screen :: "'a screen_state_scheme \<Rightarrow> 'a screen_state_scheme \<Rightarrow> bool" where
  "only_screen s t \<longleftrightarrow> (\<exists>x. t = s\<lparr>screen := x\<rparr>)"

lemma only_screen_intros:
  "only_screen s s" "only_screen s t \<Longrightarrow> only_screen s (put_lit cs t)" "only_screen s t \<Longrightarrow> only_screen s (put_hex n t)"
  "only_screen s t \<Longrightarrow> only_screen s (put_char c t)"
proof -
  have "s = s\<lparr>screen := screen s\<rparr>"
    by simp
  then show "only_screen s s"
    unfolding only_screen_def by blast
qed (auto simp: only_screen_def put_lit_eq put_hex_def Let_def fold_put_char_any put_char_def)

end
