(* ===== verification/Interrupt.thy ===== *)
theory Interrupt
  imports Print
begin

text \<open>
  Interrupt control and the interrupt tables of \<open>kernel/interrupt.c\<close> and
  \<open>include/os/interrupt.h\<close>. The processor state is the register \<open>eflags\<close>, whose bit \<open>IF\<close> the
  instructions \<open>sti\<close> and \<open>cli\<close> set and clear. The tables \<open>idt\<close>, \<open>irqaction_t\<close> and \<open>trap_name\<close>
  are lists of \<open>IDT_DESC_CNT\<close> entries; a handler is the address of its code. The writes to the
  ports of the two 8259A are the list of \<open>outb\<close> calls in order. What the routines here
  print is added where they are composed, in \<open>Boot\<close>.
\<close>

section \<open>Interrupt control\<close>

record cpu_state = screen_state +
  eflags :: u32

datatype intr_status = INTR_OFF | INTR_ON

definition EFLAGS_IF :: u32 where
  "EFLAGS_IF = 0x00000200"

definition sti :: "'a cpu_state_scheme \<Rightarrow> 'a cpu_state_scheme" where
  "sti s = s\<lparr>eflags := eflags s OR EFLAGS_IF\<rparr>"

definition cli :: "'a cpu_state_scheme \<Rightarrow> 'a cpu_state_scheme" where
  "cli s = s\<lparr>eflags := eflags s AND NOT EFLAGS_IF\<rparr>"

definition get_intr_status :: "'a cpu_state_scheme \<Rightarrow> intr_status" where
  "get_intr_status s = (if eflags s AND EFLAGS_IF \<noteq> 0 then INTR_ON else INTR_OFF)"

definition local_irq_enable :: "'a cpu_state_scheme \<Rightarrow> intr_status \<times> 'a cpu_state_scheme" where
  "local_irq_enable s =
     (let old_status = get_intr_status s
      in (old_status, if INTR_OFF = old_status then sti s else s))"

definition local_irq_disable :: "'a cpu_state_scheme \<Rightarrow> intr_status \<times> 'a cpu_state_scheme" where
  "local_irq_disable s =
     (let old_status = get_intr_status s
      in (old_status, if INTR_ON = old_status then cli s else s))"

definition set_intr_status :: "intr_status \<Rightarrow> 'a cpu_state_scheme \<Rightarrow> 'a cpu_state_scheme" where
  "set_intr_status st s =
     (if st = INTR_ON then snd (local_irq_enable s) else snd (local_irq_disable s))"

text \<open>
  \<open>raw_local_irq_save\<close> gets a pointer \<open>f\<close>, but the flags are popped into \<open>f\<close> itself: the result is the new value of the
  parameter, and the variable the caller meant is not written. \<open>raw_local_irq_restore\<close> loads the flags it is given.
\<close>

definition raw_local_irq_save :: "u32 \<Rightarrow> 'a cpu_state_scheme \<Rightarrow> u32 \<times> 'a cpu_state_scheme" where
  "raw_local_irq_save f s = (let f = eflags s in (f, cli s))"

definition raw_local_irq_restore :: "u32 \<Rightarrow> 'a cpu_state_scheme \<Rightarrow> 'a cpu_state_scheme" where
  "raw_local_irq_restore f s = (let s = sti s in s\<lparr>eflags := f\<rparr>)"

section \<open>Tables\<close>

record gate_descr =
  func_offest_low_word :: u16
  selector :: u16
  dcount :: u8
  attribute :: u8
  func_offest_high_word :: u16

definition IDT_DESC_CNT :: nat where
  "IDT_DESC_CNT = 0x81"

definition SYSCALL_NUMBER :: nat where
  "SYSCALL_NUMBER = 0x80"

definition SELECTOR_K_CODE :: u16 where
  "SELECTOR_K_CODE = push_bit 3 1 + push_bit 2 0 + 0"

definition IDT_ATTR_DPL0 :: u8 where
  "IDT_ATTR_DPL0 = push_bit 7 1 + push_bit 5 0 + push_bit 4 0 + 0xE"

definition IDT_ATTR_DPL3 :: u8 where
  "IDT_ATTR_DPL3 = push_bit 7 1 + push_bit 5 3 + push_bit 4 0 + 0xE"

definition create_idt_desc :: "u8 \<Rightarrow> u32 \<Rightarrow> gate_descr" where
  "create_idt_desc attr intr_func =
     \<lparr>func_offest_low_word = ucast (intr_func AND 0x0000FFFF),
      selector = SELECTOR_K_CODE,
      dcount = 0,
      attribute = attr,
      func_offest_high_word = ucast (drop_bit 16 (intr_func AND 0xFFFF0000))\<rparr>"

text \<open>
  \<open>intr_entry_table\<close> is memory written by the assembler; it is read at the indices \<open>0\<close> to
  \<open>IDT_DESC_CNT - 1\<close>.
\<close>

definition idt_init :: "(nat \<Rightarrow> u32) \<Rightarrow> u32 \<Rightarrow> gate_descr list" where
  "idt_init intr_entry_table syscall_handler =
     (map (\<lambda>i. create_idt_desc IDT_ATTR_DPL0 (intr_entry_table i)) [0..<IDT_DESC_CNT])
       [SYSCALL_NUMBER := create_idt_desc IDT_ATTR_DPL3 syscall_handler]"

definition trap_init_actions :: "u32 \<Rightarrow> u32 list" where
  "trap_init_actions ignore_intr_handler = replicate IDT_DESC_CNT ignore_intr_handler"

definition trap_init_names :: "string list" where
  "trap_init_names =
     (replicate IDT_DESC_CNT ''Unknow interrupt'')
       [0 := ''#DE Divide Error'', 1 := ''#DB Debug Exception'', 2 := ''NMI Interrupt'',
        3 := ''#BP Breakpoint Exception'', 4 := ''#OF Overflow Exception'',
        5 := ''#BR BOUND Range Exceeded Exception'', 6 := ''#UD Invalid Opcode Exception'',
        7 := ''#NM Device Not Available Exception'', 8 := ''#DF Double Fault Exception'',
        9 := ''Coprocessor Segment Overrun'', 10 := ''#TS Invalid TSS Exception'',
        11 := ''#NP Segment Not Present'', 12 := ''#SS Stack Fault Exception'',
        13 := ''#GP General Protection Exception'', 14 := ''#PF Page-Fault Exception'',
        16 := ''#MF x87 FPU Floating-Point Error'', 17 := ''#AC Alignment Check Exception'',
        18 := ''#MC Machine-Check Exception'', 19 := ''#XF SIMD Floating-Point Exception'',
        0x20 := ''clock Interrupt'', 0x21 := ''keyboard Interrupt'']"

text \<open>A write outside the table is undefined behaviour; it has no result in the model.\<close>

definition register_irq_handler :: "u32 list \<Rightarrow> u8 \<Rightarrow> u32 \<Rightarrow> u32 list option" where
  "register_irq_handler irqaction_t vector_no handler = do {
     ASSERT (handler \<noteq> NULL);
     if unat vector_no < length irqaction_t
     then Some (irqaction_t[unat vector_no := handler]) else None
   }"

text \<open>\<open>ignore_intr_handler\<close> returns on the two spurious vectors and halts in a loop otherwise.\<close>

definition ignore_intr_handler :: "u8 \<Rightarrow> unit option" where
  "ignore_intr_handler ver_n = (if ver_n = 0x27 \<or> ver_n = 0x2f then Some () else None)"

definition pic_8259A_init :: "(u16 \<times> u8) list" where
  "pic_8259A_init =
     [(0x20, 0x11), (0x21, 0x20), (0x21, 0x04), (0x21, 0x01),
      (0xa0, 0x11), (0xa1, 0x28), (0xa1, 0x02), (0xa1, 0x01),
      (0x21, 0xf8), (0xa1, 0xbf)]"

definition idt_addr :: "u32 \<Rightarrow> u64" where
  "idt_addr idt = (of_nat (8 * IDT_DESC_CNT) - 1) OR push_bit 16 (ucast idt)"

section \<open>Interrupt control\<close>

lemma get_intr_status_bit: "get_intr_status s = INTR_ON \<longleftrightarrow> bit (eflags s) 9"
  by (simp add: get_intr_status_def EFLAGS_IF_def bit_iff_and_push_bit_not_eq_0)

lemma get_intr_status_cli [simp]: "get_intr_status (cli s) = INTR_OFF"
  by (simp add: get_intr_status_def cli_def and.assoc)

lemma get_intr_status_sti [simp]: "get_intr_status (sti s) = INTR_ON"
  by (simp add: get_intr_status_def sti_def EFLAGS_IF_def bit.conj_disj_distrib2)

lemma get_intr_status_disable [simp]: "get_intr_status (snd (local_irq_disable s)) = INTR_OFF"
  by (cases "get_intr_status s") (auto simp: local_irq_disable_def)

lemma get_intr_status_set [simp]: "get_intr_status (set_intr_status st s) = st"
  by (cases st; cases "get_intr_status s") (auto simp: set_intr_status_def local_irq_enable_def local_irq_disable_def)

lemma bit_EFLAGS_IF: "bit EFLAGS_IF n \<longleftrightarrow> n = 9"
proof -
  have "EFLAGS_IF = 2 ^ 9"
    by (simp add: EFLAGS_IF_def)
  then have "bit EFLAGS_IF n = bit (2 ^ 9 :: u32) n"
    by (simp only:)
  also have "\<dots> \<longleftrightarrow> n = 9"
    unfolding bit_exp_iff by auto
  finally show ?thesis .
qed

lemma cli_idem: "get_intr_status s = INTR_OFF \<Longrightarrow> cli s = s"
proof -
  assume "get_intr_status s = INTR_OFF"
  then have "\<not> bit (eflags s) 9"
    using get_intr_status_bit [of s] by auto
  then have "eflags s AND NOT EFLAGS_IF = eflags s"
    by (intro bit_word_eqI) (auto simp: bit_simps bit_EFLAGS_IF)
  then show ?thesis
    by (simp add: cli_def)
qed

text \<open>Disabling is \<open>cli\<close> whatever the old state was; restoring undoes it.\<close>

lemma local_irq_disable_eq: "local_irq_disable s = (get_intr_status s, cli s)"
  by (cases "get_intr_status s") (auto simp: local_irq_disable_def cli_idem)

lemma set_intr_status_off: "set_intr_status INTR_OFF s = cli s"
  by (simp add: set_intr_status_def local_irq_disable_eq)

lemma irq_restore: "set_intr_status (get_intr_status s) (cli s) = s"
proof (cases "get_intr_status s")
  case INTR_ON
  then have "bit (eflags s) 9"
    using get_intr_status_bit [of s] by simp
  then have "(eflags s AND NOT EFLAGS_IF) OR EFLAGS_IF = eflags s"
    by (intro bit_word_eqI) (auto simp: bit_simps bit_EFLAGS_IF)
  then have "sti (cli s) = s"
    by (simp add: sti_def cli_def)
  moreover have "set_intr_status INTR_ON (cli s) = sti (cli s)"
    by (simp add: set_intr_status_def local_irq_enable_def)
  ultimately show ?thesis
    using INTR_ON by simp
qed (simp add: set_intr_status_off cli_idem)

text \<open>The same when other fields changed between the two calls.\<close>

lemma irq_restore_eflags:
  assumes "eflags t = eflags (cli s)"
  shows "set_intr_status (get_intr_status s) t = t\<lparr>eflags := eflags s\<rparr>"
proof -
  have "eflags (set_intr_status (get_intr_status s) (cli s)) = eflags s"
    by (simp add: irq_restore)
  moreover have "set_intr_status st t = t\<lparr>eflags := eflags (set_intr_status st (cli s))\<rparr>" for st
    using assms by (cases st; cases t) (auto simp: set_intr_status_def local_irq_enable_def local_irq_disable_def
      get_intr_status_def sti_def cli_def)
  ultimately show ?thesis
    by simp
qed

lemma get_intr_status_eflags: "get_intr_status s = INTR_OFF \<longleftrightarrow> eflags s = eflags (cli s)"
proof
  assume "eflags s = eflags (cli s)"
  then show "get_intr_status s = INTR_OFF"
    using get_intr_status_cli [of s] by (simp add: get_intr_status_def)
qed (simp add: cli_idem)

lemma offset_words:
  fixes f :: u32
  shows "push_bit 16 (ucast (ucast (drop_bit 16 (f AND 0xFFFF0000)) :: u16)) OR ucast (ucast (f AND 0x0000FFFF) :: u16) = f"
proof (rule bit_word_eqI)
  fix n assume "n < LENGTH(32)"
  have lo: "0x0000FFFF = (mask 16 :: u32)" and hi: "0xFFFF0000 = (push_bit 16 (mask 16) :: u32)"
    by (simp_all add: mask_eq_exp_minus_1 push_bit_eq_mult)
  show "bit (push_bit 16 (ucast (ucast (drop_bit 16 (f AND 0xFFFF0000)) :: u16)) OR
             ucast (ucast (f AND 0x0000FFFF) :: u16) :: u32) n = bit f n"
    unfolding lo hi using \<open>n < LENGTH(32)\<close> by (cases "n < 16") (auto simp: bit_simps)
qed

lemma create_idt_desc_offset:
  "push_bit 16 (ucast (func_offest_high_word (create_idt_desc a f))) OR ucast (func_offest_low_word (create_idt_desc a f)) = f"
  by (simp only: create_idt_desc_def gate_descr.simps offset_words)

lemma create_idt_desc_fields:
  "selector (create_idt_desc a f) = 8" "dcount (create_idt_desc a f) = 0" "attribute (create_idt_desc a f) = a"
  by (simp_all add: create_idt_desc_def SELECTOR_K_CODE_def)

section \<open>Properties\<close>

text \<open>
  C35: \<open>local_irq_disable\<close> turns interrupts off, and \<open>set_intr_status\<close> with the status it returned gives
  back the exact processor state, also for sections that nest: the inner section leaves interrupts off.
\<close>

theorem irq_section_restores:
  "get_intr_status (snd (local_irq_disable s)) = INTR_OFF \<and>
   set_intr_status (fst (local_irq_disable s)) (snd (local_irq_disable s)) = s \<and>
   (let (outer, s1) = local_irq_disable s; (inner, s2) = local_irq_disable s1
    in set_intr_status inner s2 = s1 \<and> set_intr_status outer (set_intr_status inner s2) = s)"
  by (simp add: local_irq_disable_eq irq_restore set_intr_status_off cli_idem)

text \<open>The flags that the first routine reads are the ones the second one needs to undo it.\<close>

theorem raw_irq_restores: "raw_local_irq_restore (fst (raw_local_irq_save f s)) (snd (raw_local_irq_save f s)) = s \<and>
    get_intr_status (snd (raw_local_irq_save f s)) = INTR_OFF"
proof -
  have "(sti (cli s))\<lparr>eflags := eflags s\<rparr> = s"
    by (simp add: sti_def cli_def)
  then show ?thesis
    by (simp add: raw_local_irq_save_def raw_local_irq_restore_def Let_def)
qed

text \<open>
  \<open>idt_init\<close> fills the table with \<open>IDT_DESC_CNT\<close> gates. The two halves of a gate's offset give the
  address of its entry, every gate is a present 32 bit interrupt gate in the kernel code segment, and
  the only one that user code may call is the one of the system call.
\<close>

theorem idt_init_gates:
  assumes "i < IDT_DESC_CNT"
  shows "length (idt_init tab sys) = IDT_DESC_CNT \<and>
         (let g = idt_init tab sys ! i
          in push_bit 16 (ucast (func_offest_high_word g)) OR ucast (func_offest_low_word g) =
               (if i = SYSCALL_NUMBER then sys else tab i) \<and>
             selector g = 8 \<and> dcount g = 0 \<and> bit (attribute g) 7 \<and> attribute g AND 0x0F = 0x0E \<and>
             drop_bit 5 (attribute g) AND 3 = (if i = SYSCALL_NUMBER then 3 else 0))"
proof -
  have g: "idt_init tab sys ! i =
      (if i = SYSCALL_NUMBER then create_idt_desc IDT_ATTR_DPL3 sys else create_idt_desc IDT_ATTR_DPL0 (tab i))"
    using assms by (simp add: idt_init_def)
  have a: "IDT_ATTR_DPL0 = 0x8E" "IDT_ATTR_DPL3 = 0xEE"
    by (simp_all add: IDT_ATTR_DPL0_def IDT_ATTR_DPL3_def)
  have b: "bit (0x8E :: u8) 7" "bit (0xEE :: u8) 7" "drop_bit 5 (0x8E :: u8) AND 3 = 0" "drop_bit 5 (0xEE :: u8) AND 3 = 3"
    by code_simp+
  show ?thesis
    unfolding g by (simp add: create_idt_desc_offset create_idt_desc_fields Let_def a b) (simp add: idt_init_def)
qed

theorem idt_init_gates_witness:
  "func_offest_high_word (idt_init (\<lambda>i. 0xc0001500) 0xc0002600 ! 0x80) = 0xc000 \<and>
   drop_bit 5 (attribute (idt_init (\<lambda>i. 0xc0001500) 0xc0002600 ! 0x80)) AND 3 = 3"
proof -
  have "drop_bit 5 (attribute (idt_init (\<lambda>i. 0xc0001500) 0xc0002600 ! 0x80)) AND 3 = 3"
    using idt_init_gates [of "0x80" "\<lambda>i. 0xc0001500" "0xc0002600"] by (simp add: IDT_DESC_CNT_def SYSCALL_NUMBER_def Let_def)
  moreover have "func_offest_high_word (idt_init (\<lambda>i. 0xc0001500) 0xc0002600 ! 0x80) = 0xc000"
    by (simp add: idt_init_def IDT_DESC_CNT_def SYSCALL_NUMBER_def create_idt_desc_def)
  ultimately show ?thesis
    by blast
qed

end
