(* ===== verification/Sched.thy ===== *)
theory Sched
  imports Bitmap Klist Interrupt
begin

text \<open>
  The scheduler of \<open>thread/thread.c\<close> with the task structure of \<open>include/os/thread.h\<close>. Tasks are
  a typed heap from addresses to \<open>struct task_struct\<close>; the two list cells of a task are cells of
  the list heap at their offsets in the struct. \<open>schedule\<close> is the source up to and including the
  context switch: \<open>switch_to\<close> (\<open>thread/switch.S\<close>) saves the registers of the old task on its
  stack and continues the new one, so after it the code of \<open>current_task\<close> runs. A function that
  switches in the middle (\<open>thread_block\<close>, \<open>thread_yield\<close>) is modelled in two parts: the part up to
  the switch, which returns the interrupt state saved in its frame, and the part that runs when
  the task is continued (\<open>..._resume\<close>).
  \<open>sched_ok s rq\<close> is the invariant: the ready queue stands for the tasks \<open>rq\<close>, which are all
  ready, and the current task is not among them.
\<close>

section \<open>Data\<close>

datatype task_status =
  TASK_RUNNING | TASK_READY | TASK_BLOCKED | TASK_WAITING | TASK_HANGING | TASK_DIED

record virtual_mem_pool =
  vm_bitmap :: bitmap
  vm_start :: u32

record task_struct =
  self_kernel_stack :: u32
  status :: task_status
  priority :: u16
  pid :: u16
  ticks :: u8
  elapsed_ticks :: u32
  tname :: "u8 list"
  pde_addr :: u32
  userprog_vaddr :: virtual_mem_pool
  stack_boundary :: u32

record sched_state = cpu_state +
  nodes :: lheap
  tasks :: "u32 \<Rightarrow> task_struct"
  main_thread :: u32
  idle_thread :: u32
  thread_ready_queue :: general_queue
  thread_total_list :: u32
  current_task :: u32

text \<open>The addresses \<open>&task->thread_dispatch_queue\<close> and \<open>&task->thread_list\<close>, and \<open>list_entry\<close> back.\<close>

definition thread_dispatch_queue :: "u32 \<Rightarrow> u32" where
  "thread_dispatch_queue t = t + 52"

definition thread_list :: "u32 \<Rightarrow> u32" where
  "thread_list t = t + 60"

definition list_entry_dispatch :: "u32 \<Rightarrow> u32" where
  "list_entry_dispatch p = p - 52"

section \<open>Operations\<close>

definition get_cur_task :: "'a sched_state_scheme \<Rightarrow> u32" where
  "get_cur_task s = current_task s"

definition upd_task :: "u32 \<Rightarrow> (task_struct \<Rightarrow> task_struct) \<Rightarrow> 'a sched_state_scheme \<Rightarrow> 'a sched_state_scheme" where
  "upd_task t f s = s\<lparr>tasks := (tasks s)(t := f (tasks s t))\<rparr>"

definition thread_unblock :: "u32 \<Rightarrow> 'a sched_state_scheme \<Rightarrow> 'a sched_state_scheme option" where
  "thread_unblock wake_task s = do {
     let (old_status, s) = local_irq_disable s;
     let st = status (tasks s wake_task);
     ASSERT (st = TASK_BLOCKED \<or> st = TASK_WAITING \<or> st = TASK_HANGING);
     s \<leftarrow> (if status (tasks s wake_task) \<noteq> TASK_READY
           then do {
             found \<leftarrow> list_find_item (nodes s) (front (thread_ready_queue s)) (thread_dispatch_queue wake_task);
             ASSERT (\<not> found);
             (h, q) \<leftarrow> queue_push (nodes s) (thread_ready_queue s) (thread_dispatch_queue wake_task);
             Some (upd_task wake_task (status_update (\<lambda>_. TASK_READY)) (s\<lparr>nodes := h, thread_ready_queue := q\<rparr>))
           }
           else Some s);
     Some (set_intr_status old_status s)
   }"

definition schedule :: "'a sched_state_scheme \<Rightarrow> 'a sched_state_scheme option" where
  "schedule s = do {
     let s = snd (local_irq_disable s);
     ASSERT (get_intr_status s = INTR_OFF);
     let cur_task = get_cur_task s;
     s \<leftarrow> (if status (tasks s cur_task) = TASK_RUNNING
           then do {
             found \<leftarrow> list_find_item (nodes s) (front (thread_ready_queue s)) (thread_dispatch_queue cur_task);
             ASSERT (\<not> found);
             (h, q) \<leftarrow> queue_in (nodes s) (thread_ready_queue s) (thread_dispatch_queue cur_task);
             let s = s\<lparr>nodes := h, thread_ready_queue := q\<rparr>;
             let s = upd_task cur_task (\<lambda>t. t\<lparr>ticks := ucast (priority t)\<rparr>) s;
             Some (upd_task cur_task (status_update (\<lambda>_. TASK_READY)) s)
           }
           else Some s);
     s \<leftarrow> (if queue_len (thread_ready_queue s) = 0 then thread_unblock (idle_thread s) s else Some s);
     let (nxt, h, q) = queue_out (nodes s) (thread_ready_queue s);
     let s = s\<lparr>nodes := h, thread_ready_queue := q\<rparr>;
     ASSERT (nxt \<noteq> NULL);
     let next_task = list_entry_dispatch nxt;
     let s = upd_task next_task (status_update (\<lambda>_. TASK_RUNNING)) s;
     Some (s\<lparr>current_task := next_task\<rparr>)
   }"

text \<open>\<open>thread_block\<close> up to the switch; its frame keeps \<open>old_status\<close>.\<close>

definition thread_block :: "task_status \<Rightarrow> 'a sched_state_scheme \<Rightarrow> (intr_status \<times> 'a sched_state_scheme) option" where
  "thread_block st s = do {
     ASSERT (st = TASK_BLOCKED \<or> st = TASK_WAITING \<or> st = TASK_HANGING);
     let (old_status, s) = local_irq_disable s;
     let cur_task = get_cur_task s;
     let s = upd_task cur_task (status_update (\<lambda>_. st)) s;
     s \<leftarrow> schedule s;
     Some (old_status, s)
   }"

definition thread_block_resume :: "intr_status \<Rightarrow> 'a sched_state_scheme \<Rightarrow> 'a sched_state_scheme" where
  "thread_block_resume old_status s = set_intr_status old_status s"

definition thread_yield :: "'a sched_state_scheme \<Rightarrow> (intr_status \<times> 'a sched_state_scheme) option" where
  "thread_yield s = do {
     let cur_task = get_cur_task s;
     let (old_status, s) = local_irq_disable s;
     found \<leftarrow> list_find_item (nodes s) (front (thread_ready_queue s)) (thread_dispatch_queue cur_task);
     ASSERT (\<not> found);
     (h, q) \<leftarrow> queue_in (nodes s) (thread_ready_queue s) (thread_dispatch_queue cur_task);
     let s = upd_task cur_task (status_update (\<lambda>_. TASK_READY)) (s\<lparr>nodes := h, thread_ready_queue := q\<rparr>);
     s \<leftarrow> schedule s;
     Some (old_status, s)
   }"

definition thread_yield_resume :: "intr_status \<Rightarrow> 'a sched_state_scheme \<Rightarrow> 'a sched_state_scheme" where
  "thread_yield_resume old_status s = set_intr_status old_status s"

section \<open>Specification vocabulary\<close>

definition waiting_status :: "task_status \<Rightarrow> bool" where
  "waiting_status st \<longleftrightarrow> st = TASK_BLOCKED \<or> st = TASK_WAITING \<or> st = TASK_HANGING"

definition sched_ok :: "'a sched_state_scheme \<Rightarrow> u32 list \<Rightarrow> bool" where
  "sched_ok s rq \<longleftrightarrow>
     queue_rep (nodes s) (thread_ready_queue s) (map thread_dispatch_queue rq) \<and>
     (\<forall>t \<in> set rq. status (tasks s t) = TASK_READY) \<and>
     current_task s \<notin> set rq \<and> length rq < 4294967294 \<and> thread_dispatch_queue (current_task s) \<noteq> NULL"

text \<open>\<open>n\<close> timer preemptions in a row.\<close>

primrec schedule_n :: "nat \<Rightarrow> 'a sched_state_scheme \<Rightarrow> 'a sched_state_scheme option" where
  "schedule_n 0 s = Some s"
| "schedule_n (Suc n) s = schedule s \<bind> schedule_n n"

section \<open>The ready queue\<close>

lemma inj_thread_dispatch_queue: "inj thread_dispatch_queue"
  by (rule injI) (simp add: thread_dispatch_queue_def)

lemma dispatch_mem [simp]: "thread_dispatch_queue t \<in> thread_dispatch_queue ` T \<longleftrightarrow> t \<in> T"
  by (rule inj_image_mem_iff [OF inj_thread_dispatch_queue])

lemma dispatch_eq [simp]: "thread_dispatch_queue t = thread_dispatch_queue u \<longleftrightarrow> t = u"
  by (simp add: inj_eq [OF inj_thread_dispatch_queue])

lemma list_entry_dispatch [simp]: "list_entry_dispatch (thread_dispatch_queue t) = t"
  by (simp add: list_entry_dispatch_def thread_dispatch_queue_def)

lemma queue_rep_find:
  assumes "queue_rep h q xs" and "x \<notin> set xs"
  shows "list_find_item h (front q) x = Some False"
proof (cases xs)
  case Nil
  with assms show ?thesis
    by (simp add: queue_rep_def list_find_item_def)
next
  case (Cons y ys)
  with assms have r: "ring h (y # ys)" "front q = y" "y \<noteq> NULL"
    by (auto simp: queue_rep_def)
  show ?thesis
  proof (cases "x = NULL")
    case False
    with r Cons assms(2) show ?thesis
      by (auto simp: list_find_item_ring dest: in_set_butlastD)
  qed (simp add: list_find_item_def)
qed

lemma cli_sched [simp]:
  "nodes (cli s) = nodes s" "tasks (cli s) = tasks s" "thread_ready_queue (cli s) = thread_ready_queue s"
  "current_task (cli s) = current_task s" "idle_thread (cli s) = idle_thread s" "main_thread (cli s) = main_thread s"
  "thread_total_list (cli s) = thread_total_list s" "sched_state.more (cli s) = sched_state.more s"
  by (simp_all add: cli_def)

lemma upd_task_sched [simp]:
  "nodes (upd_task t f s) = nodes s" "thread_ready_queue (upd_task t f s) = thread_ready_queue s"
  "current_task (upd_task t f s) = current_task s" "idle_thread (upd_task t f s) = idle_thread s"
  "main_thread (upd_task t f s) = main_thread s" "thread_total_list (upd_task t f s) = thread_total_list s"
  "eflags (upd_task t f s) = eflags s" "sched_state.more (upd_task t f s) = sched_state.more s"
  "tasks (upd_task t f s) u = (if u = t then f (tasks s t) else tasks s u)"
  by (simp_all add: upd_task_def)

text \<open>Waking a task puts it first in the ready queue and leaves the interrupt state as it was.\<close>

lemma thread_unblock_eq:
  assumes "queue_rep (nodes s) (thread_ready_queue s) (map thread_dispatch_queue rq)"
    and "waiting_status (status (tasks s w))" and "w \<notin> set rq"
    and "thread_dispatch_queue w \<noteq> NULL" and "length rq < 4294967295"
  obtains h q where
    "thread_unblock w s = Some (upd_task w (status_update (\<lambda>_. TASK_READY)) (s\<lparr>nodes := h, thread_ready_queue := q\<rparr>))"
    and "queue_rep h q (map thread_dispatch_queue (w # rq))"
    and "\<And>p. p \<notin> thread_dispatch_queue ` set (w # rq) \<Longrightarrow> h p = nodes s p"
proof -
  have new: "thread_dispatch_queue w \<notin> set (map thread_dispatch_queue rq)"
    using assms(3) by simp
  moreover have "queue_fits (thread_dispatch_queue w) (map thread_dispatch_queue rq)"
    using new assms(4, 5) by (simp add: queue_fits_def)
  ultimately obtain h q where hq: "queue_push (nodes s) (thread_ready_queue s) (thread_dispatch_queue w) = Some (h, q)"
      "queue_rep h q (map thread_dispatch_queue (w # rq))"
      "\<And>p. p \<notin> set (thread_dispatch_queue w # map thread_dispatch_queue rq) \<Longrightarrow> h p = nodes s p"
    using queue_push_rep [OF assms(1)] by (metis list.simps(9))
  let ?t = "upd_task w (status_update (\<lambda>_. TASK_READY)) ((cli s)\<lparr>nodes := h, thread_ready_queue := q\<rparr>)"
  have "set_intr_status (get_intr_status s) ?t = ?t\<lparr>eflags := eflags s\<rparr>"
    by (rule irq_restore_eflags) (simp add: cli_def)
  also have "\<dots> = upd_task w (status_update (\<lambda>_. TASK_READY)) (s\<lparr>nodes := h, thread_ready_queue := q\<rparr>)"
    by (simp add: upd_task_def cli_def)
  finally have "thread_unblock w s = Some (upd_task w (status_update (\<lambda>_. TASK_READY)) (s\<lparr>nodes := h, thread_ready_queue := q\<rparr>))"
    using assms(2) hq(1) queue_rep_find [OF assms(1) new]
    by (auto simp: thread_unblock_def local_irq_disable_eq ASSERT_def waiting_status_def Let_def)
  then show thesis
    using that hq by simp
qed

lemma ready_queue_in:
  assumes "queue_rep h q (map thread_dispatch_queue rq)" and "t \<notin> set rq"
    and "thread_dispatch_queue t \<noteq> NULL" and "length rq < 4294967295"
  obtains h' q' where "queue_in h q (thread_dispatch_queue t) = Some (h', q')"
    and "queue_rep h' q' (map thread_dispatch_queue (rq @ [t]))"
    and "\<And>p. p \<notin> thread_dispatch_queue ` set (t # rq) \<Longrightarrow> h' p = h p"
proof -
  have "queue_fits (thread_dispatch_queue t) (map thread_dispatch_queue rq)"
    using assms by (simp add: queue_fits_def)
  then obtain h' q' where "queue_in h q (thread_dispatch_queue t) = Some (h', q')"
      "queue_rep h' q' (map thread_dispatch_queue rq @ [thread_dispatch_queue t])"
      "\<And>p. p \<notin> set (thread_dispatch_queue t # map thread_dispatch_queue rq) \<Longrightarrow> h' p = h p"
    using queue_in_rep [OF assms(1)] by metis
  then show thesis
    using that by simp
qed

lemma ready_queue_out:
  assumes "queue_rep h q (map thread_dispatch_queue (t # rq))"
  obtains h' q' where "queue_out h q = (thread_dispatch_queue t, h', q')"
    and "queue_rep h' q' (map thread_dispatch_queue rq)"
    and "\<And>p. p \<notin> thread_dispatch_queue ` set (t # rq) \<Longrightarrow> h' p = h p"
proof -
  have "queue_rep h q (thread_dispatch_queue t # map thread_dispatch_queue rq)"
    using assms by simp
  then obtain h' q' where "queue_out h q = (thread_dispatch_queue t, h', q')"
      "queue_rep h' q' (map thread_dispatch_queue rq)"
      "\<And>p. p \<notin> set (thread_dispatch_queue t # map thread_dispatch_queue rq) \<Longrightarrow> h' p = h p"
    using queue_out_rep by metis
  then show thesis
    using that by simp
qed

section \<open>Scheduling\<close>

text \<open>The end of the time slice: the current task goes to the tail, the head of the queue runs.\<close>

lemma schedule_running:
  assumes rep: "queue_rep (nodes s) (thread_ready_queue s) (map thread_dispatch_queue rq)"
    and cur: "current_task s = c" "c \<notin> set rq" "thread_dispatch_queue c \<noteq> NULL"
    and len: "length rq < 4294967295"
    and run: "status (tasks s c) = TASK_RUNNING"
    and nxt: "rq @ [c] = n # rq'"
  obtains h q where
    "schedule s = Some (upd_task n (status_update (\<lambda>_. TASK_RUNNING))
       (upd_task c (\<lambda>t. t\<lparr>ticks := ucast (priority t), status := TASK_READY\<rparr>)
         ((cli s)\<lparr>nodes := h, thread_ready_queue := q, current_task := n\<rparr>)))"
    and "queue_rep h q (map thread_dispatch_queue rq')"
    and "\<And>p. p \<notin> thread_dispatch_queue ` set (c # rq) \<Longrightarrow> h p = nodes s p"
proof -
  obtain h1 q1 where 1: "queue_in (nodes s) (thread_ready_queue s) (thread_dispatch_queue c) = Some (h1, q1)"
      "queue_rep h1 q1 (map thread_dispatch_queue (n # rq'))"
      "\<And>p. p \<notin> thread_dispatch_queue ` set (c # rq) \<Longrightarrow> h1 p = nodes s p"
    using ready_queue_in [OF rep cur(2,3) len] unfolding nxt by blast
  obtain h2 q2 where 2: "queue_out h1 q1 = (thread_dispatch_queue n, h2, q2)"
      "queue_rep h2 q2 (map thread_dispatch_queue rq')"
      "\<And>p. p \<notin> thread_dispatch_queue ` set (n # rq') \<Longrightarrow> h2 p = h1 p"
    using ready_queue_out [OF 1(2)] by blast
  have sets: "set (n # rq') = set (c # rq)"
    unfolding nxt [symmetric] by auto
  have "queue_len q1 \<noteq> 0" "thread_dispatch_queue n \<noteq> NULL"
    using queue_rep_len [OF 1(2)] 1(2) by (auto simp: queue_rep_def)
  moreover have "list_find_item (nodes s) (front (thread_ready_queue s)) (thread_dispatch_queue c) = Some False"
    by (rule queue_rep_find [OF rep]) (simp add: cur(2))
  ultimately have "schedule s = Some (upd_task n (status_update (\<lambda>_. TASK_RUNNING))
       (upd_task c (\<lambda>t. t\<lparr>ticks := ucast (priority t), status := TASK_READY\<rparr>)
         ((cli s)\<lparr>nodes := h2, thread_ready_queue := q2, current_task := n\<rparr>)))"
    using run cur(1) 1(1) 2(1)
    by (simp add: schedule_def local_irq_disable_eq get_cur_task_def Let_def upd_task_def)
  moreover have "h2 p = nodes s p" if "p \<notin> thread_dispatch_queue ` set (c # rq)" for p
    using 1(3) [OF that] 2(3) [of p] that unfolding sets by simp
  ultimately show thesis
    using that [OF _ 2(2)] by simp
qed

text \<open>The current task gave up the processor: it is not put back, the head of the queue runs.\<close>

lemma schedule_switch:
  assumes rep: "queue_rep (nodes s) (thread_ready_queue s) (map thread_dispatch_queue (n # rq))"
    and st: "status (tasks s (current_task s)) \<noteq> TASK_RUNNING"
  obtains h q where
    "schedule s = Some (upd_task n (status_update (\<lambda>_. TASK_RUNNING))
       ((cli s)\<lparr>nodes := h, thread_ready_queue := q, current_task := n\<rparr>))"
    and "queue_rep h q (map thread_dispatch_queue rq)"
    and "\<And>p. p \<notin> thread_dispatch_queue ` set (n # rq) \<Longrightarrow> h p = nodes s p"
proof -
  obtain h q where 2: "queue_out (nodes s) (thread_ready_queue s) = (thread_dispatch_queue n, h, q)"
      "queue_rep h q (map thread_dispatch_queue rq)"
      "\<And>p. p \<notin> thread_dispatch_queue ` set (n # rq) \<Longrightarrow> h p = nodes s p"
    using ready_queue_out [OF rep] by blast
  have "queue_len (thread_ready_queue s) \<noteq> 0" "thread_dispatch_queue n \<noteq> NULL"
    using queue_rep_len [OF rep] rep by (auto simp: queue_rep_def)
  then have "schedule s = Some (upd_task n (status_update (\<lambda>_. TASK_RUNNING))
       ((cli s)\<lparr>nodes := h, thread_ready_queue := q, current_task := n\<rparr>))"
    using st 2(1) by (simp add: schedule_def local_irq_disable_eq get_cur_task_def Let_def upd_task_def)
  then show thesis
    using that [OF _ 2(2,3)] by simp
qed

text \<open>With an empty ready queue the idle thread is woken and runs.\<close>

lemma schedule_idle:
  assumes rep: "queue_rep (nodes s) (thread_ready_queue s) []"
    and st: "status (tasks s (current_task s)) \<noteq> TASK_RUNNING"
    and idle: "idle_thread s = i" "waiting_status (status (tasks s i))" "thread_dispatch_queue i \<noteq> NULL"
  obtains h q where
    "schedule s = Some (upd_task i (status_update (\<lambda>_. TASK_RUNNING))
       ((cli s)\<lparr>nodes := h, thread_ready_queue := q, current_task := i\<rparr>))"
    and "queue_rep h q []"
    and "\<And>p. p \<noteq> thread_dispatch_queue i \<Longrightarrow> h p = nodes s p"
proof -
  obtain h1 q1 where 1: "thread_unblock i (cli s) =
        Some (upd_task i (status_update (\<lambda>_. TASK_READY)) ((cli s)\<lparr>nodes := h1, thread_ready_queue := q1\<rparr>))"
      "queue_rep h1 q1 (map thread_dispatch_queue [i])"
      "\<And>p. p \<notin> thread_dispatch_queue ` set [i] \<Longrightarrow> h1 p = nodes s p"
    using thread_unblock_eq [of "cli s" "[]" i] rep idle by simp blast
  obtain h2 q2 where 2: "queue_out h1 q1 = (thread_dispatch_queue i, h2, q2)"
      "queue_rep h2 q2 (map thread_dispatch_queue [])"
      "\<And>p. p \<notin> thread_dispatch_queue ` set [i] \<Longrightarrow> h2 p = h1 p"
    using ready_queue_out [OF 1(2)] by blast
  have "schedule s = Some (upd_task i (status_update (\<lambda>_. TASK_RUNNING))
       ((cli s)\<lparr>nodes := h2, thread_ready_queue := q2, current_task := i\<rparr>))"
    using st 1(1) 2(1) idle queue_rep_len [OF rep]
    by (simp add: schedule_def local_irq_disable_eq get_cur_task_def Let_def upd_task_def)
  then show thesis
    using that 1(3) 2(2,3) by simp
qed

section \<open>Round robin\<close>

lemma sched_okD:
  assumes "sched_ok s rq"
  shows "queue_rep (nodes s) (thread_ready_queue s) (map thread_dispatch_queue rq)"
    and "\<And>t. t \<in> set rq \<Longrightarrow> status (tasks s t) = TASK_READY"
    and "current_task s \<notin> set rq"
    and "thread_dispatch_queue (current_task s) \<noteq> NULL"
    and "length rq < 4294967295"
    and "distinct rq"
    and "\<And>t. t \<in> set rq \<Longrightarrow> thread_dispatch_queue t \<noteq> NULL"
proof -
  show rep: "queue_rep (nodes s) (thread_ready_queue s) (map thread_dispatch_queue rq)"
    using assms by (simp add: sched_ok_def)
  show "distinct rq"
    using queue_rep_distinct [OF rep] by (simp add: distinct_map)
  show "thread_dispatch_queue t \<noteq> NULL" if "t \<in> set rq" for t
  proof -
    have "thread_dispatch_queue t \<in> set (map thread_dispatch_queue rq)"
      using that by simp
    moreover have "NULL \<notin> set (map thread_dispatch_queue rq)"
      using rep by (simp add: queue_rep_def)
    ultimately show ?thesis
      by metis
  qed
qed (use assms in \<open>auto simp: sched_ok_def\<close>)

text \<open>\<open>sched_ok\<close> is kept by a preemption, and the queue is the old one turned by one place.\<close>

lemma schedule_rotates:
  assumes ok: "sched_ok s rq" and run: "status (tasks s (current_task s)) = TASK_RUNNING"
  shows "\<exists>s'. schedule s = Some s' \<and> current_task s' = hd (rq @ [current_task s]) \<and>
           sched_ok s' (tl (rq @ [current_task s])) \<and> status (tasks s' (current_task s')) = TASK_RUNNING \<and>
           ticks (tasks s' (current_task s)) = ucast (priority (tasks s (current_task s))) \<and>
           get_intr_status s' = INTR_OFF \<and> idle_thread s' = idle_thread s \<and>
           sched_state.more s' = sched_state.more s \<and>
           (\<forall>p. p \<notin> thread_dispatch_queue ` set (current_task s # rq) \<longrightarrow> nodes s' p = nodes s p) \<and>
           (\<forall>t. t \<notin> set (current_task s # rq) \<longrightarrow> tasks s' t = tasks s t)"
proof -
  let ?c = "current_task s"
  obtain n rq' where nxt: "rq @ [?c] = n # rq'"
    by (cases "rq @ [?c]") auto
  have d: "distinct (n # rq')"
    using sched_okD(3,6) [OF ok] unfolding nxt [symmetric] by simp
  have sets: "set (n # rq') = set (?c # rq)" "length (n # rq') = Suc (length rq)"
    unfolding nxt [symmetric] by auto
  obtain h q where s': "schedule s = Some (upd_task n (status_update (\<lambda>_. TASK_RUNNING))
       (upd_task ?c (\<lambda>t. t\<lparr>ticks := ucast (priority t), status := TASK_READY\<rparr>)
         ((cli s)\<lparr>nodes := h, thread_ready_queue := q, current_task := n\<rparr>)))" (is "_ = Some ?s'")
      and rep: "queue_rep h q (map thread_dispatch_queue rq')"
      and fr: "\<And>p. p \<notin> thread_dispatch_queue ` set (?c # rq) \<Longrightarrow> h p = nodes s p"
    using schedule_running [OF sched_okD(1) [OF ok] refl sched_okD(3,4,5) [OF ok] run nxt] by blast
  have tn: "thread_dispatch_queue n \<noteq> NULL"
    using sched_okD(4,7) [OF ok] sets(1) by (metis insert_iff list.simps(15))
  have "status (tasks ?s' t) = TASK_READY" if "t \<in> set rq'" for t
  proof -
    have "t \<noteq> n" "t = ?c \<or> t \<in> set rq"
      using that d sets(1) by auto
    then show ?thesis
      using sched_okD(2) [OF ok] by auto
  qed
  then have "sched_ok ?s' rq'"
    using rep tn d sets(2) ok by (simp add: sched_ok_def)
  moreover have "get_intr_status ?s' = INTR_OFF"
    by (simp add: get_intr_status_eflags) (simp add: cli_def upd_task_def)
  moreover have "tasks ?s' t = tasks s t" if "t \<notin> set (?c # rq)" for t
    using that unfolding sets(1) [symmetric] using sets(1) by auto
  ultimately show ?thesis
    unfolding s' nxt using fr by (simp add: upd_task_def)
qed

lemma schedule_n_nth:
  assumes "sched_ok s rq" and "status (tasks s (current_task s)) = TASK_RUNNING" and "k \<le> length rq"
  shows "\<exists>s'. schedule_n k s = Some s' \<and> current_task s' = (current_task s # rq) ! k \<and>
           sched_ok s' (drop k rq @ take k (current_task s # rq)) \<and>
           status (tasks s' (current_task s')) = TASK_RUNNING"
  using assms
proof (induction k arbitrary: s rq)
  case (Suc k)
  then obtain t ts where rq: "rq = t # ts" "k \<le> length ts"
    by (cases rq) auto
  obtain s1 where s1: "schedule s = Some s1" "current_task s1 = t" "sched_ok s1 (ts @ [current_task s])"
      "status (tasks s1 (current_task s1)) = TASK_RUNNING"
    using schedule_rotates [OF Suc.prems(1,2)] rq by auto
  have "k \<le> length (ts @ [current_task s])"
    using rq by simp
  then obtain s' where "schedule_n k s1 = Some s'" "current_task s' = (t # ts @ [current_task s]) ! k"
      "sched_ok s' (drop k (ts @ [current_task s]) @ take k (t # ts @ [current_task s]))"
      "status (tasks s' (current_task s')) = TASK_RUNNING"
    using Suc.IH [OF s1(3,4)] s1(2) by auto
  moreover have "(t # ts @ [current_task s]) ! k = (t # ts) ! k"
    using rq(2) by (cases k) (auto simp: nth_append)
  moreover have "take k (t # ts @ [current_task s]) = take k (t # ts)"
    using rq(2) by (cases k) auto
  ultimately show ?case
    using s1(1) rq by auto
qed simp

lemma schedule_n_add: "schedule_n (m + n) s = schedule_n m s \<bind> schedule_n n"
  by (induction m arbitrary: s) (auto split: Option.bind_split)

text \<open>After one preemption more than there are ready tasks everything is as before.\<close>

lemma schedule_n_cycle:
  assumes "sched_ok s rq" and "status (tasks s (current_task s)) = TASK_RUNNING"
  shows "\<exists>s'. schedule_n (Suc (length rq)) s = Some s' \<and> current_task s' = current_task s \<and> sched_ok s' rq"
proof -
  obtain s1 where s1: "schedule_n (length rq) s = Some s1" "current_task s1 = (current_task s # rq) ! length rq"
      "sched_ok s1 (take (length rq) (current_task s # rq))" "status (tasks s1 (current_task s1)) = TASK_RUNNING"
    using schedule_n_nth [OF assms, of "length rq"] by auto
  have split: "take (length rq) (current_task s # rq) @ [current_task s1] = current_task s # rq"
    using s1(2) take_Suc_conv_app_nth [of "length rq" "current_task s # rq"] by simp
  obtain s' where "schedule s1 = Some s'" "current_task s' = current_task s" "sched_ok s' rq"
    using schedule_rotates [OF s1(3,4)] unfolding split by auto
  then show ?thesis
    using schedule_n_add [of "length rq" 1 s] s1(1) by auto
qed

section \<open>Blocking, waking and yielding\<close>

lemma thread_block_eq:
  assumes "waiting_status st"
  shows "thread_block st s = schedule (upd_task (current_task s) (status_update (\<lambda>_. st)) (cli s)) \<bind>
           (\<lambda>s'. Some (get_intr_status s, s'))"
  using assms by (simp add: thread_block_def local_irq_disable_eq get_cur_task_def waiting_status_def ASSERT_bind)

lemma thread_block_next:
  assumes ok: "sched_ok s (n # rq)" and st: "waiting_status st"
  obtains s' where "thread_block st s = Some (get_intr_status s, s')" and "current_task s' = n"
    and "sched_ok s' rq"
    and "tasks s' = (tasks s)(current_task s := (tasks s (current_task s))\<lparr>status := st\<rparr>,
                              n := (tasks s n)\<lparr>status := TASK_RUNNING\<rparr>)"
    and "get_intr_status s' = INTR_OFF" and "idle_thread s' = idle_thread s"
    and "sched_state.more s' = sched_state.more s"
    and "\<And>p. p \<notin> thread_dispatch_queue ` set (n # rq) \<Longrightarrow> nodes s' p = nodes s p"
proof -
  let ?s = "upd_task (current_task s) (status_update (\<lambda>_. st)) (cli s)"
  have nc: "n \<noteq> current_task s" "n \<notin> set rq" "current_task s \<notin> set rq"
    using sched_okD(3,6) [OF ok] by auto
  have 1: "status (tasks ?s (current_task ?s)) \<noteq> TASK_RUNNING"
    using st by (auto simp: waiting_status_def)
  have 2: "queue_rep (nodes ?s) (thread_ready_queue ?s) (map thread_dispatch_queue (n # rq))"
    using sched_okD(1) [OF ok] by simp
  obtain h q where s': "schedule ?s = Some (upd_task n (status_update (\<lambda>_. TASK_RUNNING))
       ((cli ?s)\<lparr>nodes := h, thread_ready_queue := q, current_task := n\<rparr>))" (is "_ = Some ?s'")
      and rep: "queue_rep h q (map thread_dispatch_queue rq)"
      and fr: "\<And>p. p \<notin> thread_dispatch_queue ` set (n # rq) \<Longrightarrow> h p = nodes ?s p"
    using schedule_switch [OF 2 1] by blast
  have ts: "tasks ?s' = (tasks s)(current_task s := (tasks s (current_task s))\<lparr>status := st\<rparr>,
                              n := (tasks s n)\<lparr>status := TASK_RUNNING\<rparr>)"
    using nc by (auto simp: upd_task_def)
  have "status (tasks ?s' t) = TASK_READY" if "t \<in> set rq" for t
    using that nc sched_okD(2) [OF ok, of t] by auto
  then have "sched_ok ?s' rq"
    using rep nc sched_okD(7) [OF ok, of n] ok by (simp add: sched_ok_def)
  moreover have "get_intr_status ?s' = INTR_OFF"
    by (simp add: get_intr_status_eflags) (simp add: cli_def upd_task_def)
  moreover have "thread_block st s = Some (get_intr_status s, ?s')"
    by (simp add: thread_block_eq [OF st] s')
  moreover have "\<And>p. p \<notin> thread_dispatch_queue ` set (n # rq) \<Longrightarrow> nodes ?s' p = nodes s p"
    using fr by simp
  ultimately show thesis
    by (intro that [of ?s']) (simp_all only: ts, simp_all)
qed

lemma thread_block_idle:
  assumes ok: "sched_ok s []" and st: "waiting_status st"
    and idle: "idle_thread s = current_task s \<or> waiting_status (status (tasks s (idle_thread s)))"
      "thread_dispatch_queue (idle_thread s) \<noteq> NULL"
  obtains s' where "thread_block st s = Some (get_intr_status s, s')" and "current_task s' = idle_thread s"
    and "sched_ok s' []"
    and "tasks s' = (tasks s)(current_task s := (tasks s (current_task s))\<lparr>status := st\<rparr>,
           idle_thread s := (tasks s (idle_thread s))\<lparr>status := TASK_RUNNING\<rparr>)"
    and "get_intr_status s' = INTR_OFF" and "idle_thread s' = idle_thread s"
    and "sched_state.more s' = sched_state.more s"
    and "\<And>p. p \<noteq> thread_dispatch_queue (idle_thread s) \<Longrightarrow> nodes s' p = nodes s p"
proof -
  let ?s = "upd_task (current_task s) (status_update (\<lambda>_. st)) (cli s)" and ?i = "idle_thread s"
  have 1: "status (tasks ?s (current_task ?s)) \<noteq> TASK_RUNNING"
    using st by (auto simp: waiting_status_def)
  have 2: "queue_rep (nodes ?s) (thread_ready_queue ?s) []"
    using sched_okD(1) [OF ok] by simp
  have 3: "waiting_status (status (tasks ?s ?i))" and 4: "idle_thread ?s = ?i"
    using idle(1) st by auto
  obtain h q where s': "schedule ?s = Some (upd_task ?i (status_update (\<lambda>_. TASK_RUNNING))
       ((cli ?s)\<lparr>nodes := h, thread_ready_queue := q, current_task := ?i\<rparr>))" (is "_ = Some ?s'")
      and rep: "queue_rep h q []" and fr: "\<And>p. p \<noteq> thread_dispatch_queue ?i \<Longrightarrow> h p = nodes ?s p"
    using schedule_idle [OF 2 1 4 3 idle(2)] by blast
  have ts: "tasks ?s' = (tasks s)(current_task s := (tasks s (current_task s))\<lparr>status := st\<rparr>,
                              ?i := (tasks s ?i)\<lparr>status := TASK_RUNNING\<rparr>)"
    by (auto simp: upd_task_def)
  have "sched_ok ?s' []"
    using rep idle(2) by (simp add: sched_ok_def)
  moreover have "get_intr_status ?s' = INTR_OFF"
    by (simp add: get_intr_status_eflags) (simp add: cli_def upd_task_def)
  moreover have "thread_block st s = Some (get_intr_status s, ?s')"
    by (simp add: thread_block_eq [OF st] s')
  ultimately show thesis
    using that ts fr by simp
qed

lemma thread_unblock_ok:
  assumes ok: "sched_ok s rq" and w: "waiting_status (status (tasks s w))" "w \<noteq> current_task s"
    "thread_dispatch_queue w \<noteq> NULL" and len: "length rq < 4294967293"
  obtains s' where "thread_unblock w s = Some s'" and "sched_ok s' (w # rq)"
    and "tasks s' = (tasks s)(w := (tasks s w)\<lparr>status := TASK_READY\<rparr>)"
    and "current_task s' = current_task s" and "eflags s' = eflags s" and "idle_thread s' = idle_thread s"
    and "sched_state.more s' = sched_state.more s"
    and "\<And>p. p \<notin> thread_dispatch_queue ` set (w # rq) \<Longrightarrow> nodes s' p = nodes s p"
proof -
  have "w \<notin> set rq"
    using sched_okD(2) [OF ok, of w] w(1) by (auto simp: waiting_status_def)
  then obtain h q where s': "thread_unblock w s = Some (upd_task w (status_update (\<lambda>_. TASK_READY))
         (s\<lparr>nodes := h, thread_ready_queue := q\<rparr>))" (is "_ = Some ?s'")
      and rep: "queue_rep h q (map thread_dispatch_queue (w # rq))"
      and fr: "\<And>p. p \<notin> thread_dispatch_queue ` set (w # rq) \<Longrightarrow> h p = nodes s p"
    using thread_unblock_eq [OF sched_okD(1) [OF ok] w(1) _ w(3) sched_okD(5) [OF ok]] by blast
  have "sched_ok ?s' (w # rq)"
    using rep w(2) len ok unfolding sched_ok_def by auto
  then show thesis
    using that s' fr by (simp add: upd_task_def)
qed

lemma thread_yield_tail:
  assumes ok: "sched_ok s rq" and nxt: "rq @ [current_task s] = n # rq'"
  obtains s' where "thread_yield s = Some (get_intr_status s, s')" and "current_task s' = n"
    and "sched_ok s' rq'"
    and "tasks s' = (let ts = (tasks s)(current_task s := (tasks s (current_task s))\<lparr>status := TASK_READY\<rparr>)
                     in ts(n := (ts n)\<lparr>status := TASK_RUNNING\<rparr>))"
    and "get_intr_status s' = INTR_OFF" and "idle_thread s' = idle_thread s"
    and "sched_state.more s' = sched_state.more s"
    and "\<And>p. p \<notin> thread_dispatch_queue ` set (current_task s # rq) \<Longrightarrow> nodes s' p = nodes s p"
proof -
  let ?c = "current_task s"
  obtain h q where 1: "queue_in (nodes s) (thread_ready_queue s) (thread_dispatch_queue ?c) = Some (h, q)"
      "queue_rep h q (map thread_dispatch_queue (n # rq'))"
      "\<And>p. p \<notin> thread_dispatch_queue ` set (?c # rq) \<Longrightarrow> h p = nodes s p"
    using ready_queue_in [OF sched_okD(1,3,4,5) [OF ok]] unfolding nxt by blast
  let ?s = "upd_task ?c (status_update (\<lambda>_. TASK_READY)) ((cli s)\<lparr>nodes := h, thread_ready_queue := q\<rparr>)"
  have 2: "queue_rep (nodes ?s) (thread_ready_queue ?s) (map thread_dispatch_queue (n # rq'))"
    using 1(2) by simp
  have 3: "status (tasks ?s (current_task ?s)) \<noteq> TASK_RUNNING"
    by simp
  obtain h' q' where s': "schedule ?s = Some (upd_task n (status_update (\<lambda>_. TASK_RUNNING))
       ((cli ?s)\<lparr>nodes := h', thread_ready_queue := q', current_task := n\<rparr>))" (is "_ = Some ?s'")
      and rep: "queue_rep h' q' (map thread_dispatch_queue rq')"
      and fr: "\<And>p. p \<notin> thread_dispatch_queue ` set (n # rq') \<Longrightarrow> h' p = nodes ?s p"
    using schedule_switch [OF 2 3] by blast
  have sets: "set (n # rq') = set (?c # rq)" "length (n # rq') = Suc (length rq)" "distinct (n # rq')"
    using sched_okD(3,6) [OF ok] unfolding nxt [symmetric] by auto
  have "status (tasks ?s' t) = TASK_READY" if "t \<in> set rq'" for t
  proof -
    have "t \<noteq> n" "t = ?c \<or> t \<in> set rq"
      using that sets(1,3) by auto
    then show ?thesis
      using sched_okD(2) [OF ok] by auto
  qed
  moreover have "thread_dispatch_queue n \<noteq> NULL"
    using sched_okD(4,7) [OF ok] sets(1) by (metis insert_iff list.simps(15))
  ultimately have "sched_ok ?s' rq'"
    using rep sets(2,3) ok by (simp add: sched_ok_def)
  moreover have "get_intr_status ?s' = INTR_OFF"
    by (simp add: get_intr_status_eflags) (simp add: cli_def upd_task_def)
  moreover have "list_find_item (nodes s) (front (thread_ready_queue s)) (thread_dispatch_queue ?c) = Some False"
    by (rule queue_rep_find [OF sched_okD(1) [OF ok]]) (simp add: sched_okD(3) [OF ok])
  then have "thread_yield s = Some (get_intr_status s, ?s')"
    using 1(1) s' by (simp add: thread_yield_def local_irq_disable_eq get_cur_task_def)
  moreover have "nodes ?s' p = nodes s p" if "p \<notin> thread_dispatch_queue ` set (?c # rq)" for p
    using that fr [of p] 1(3) [OF that] unfolding sets(1) by simp
  ultimately show thesis
    by (intro that [of ?s']) (auto simp: upd_task_def Let_def)
qed

section \<open>The task state machine\<close>

text \<open>
  The scheduler calls a running system makes: the timer preempts, the current task blocks or
  yields, a waiting task of \<open>T\<close> is woken.
\<close>

inductive sched_step :: "u32 set \<Rightarrow> 'a sched_state_scheme \<Rightarrow> 'a sched_state_scheme \<Rightarrow> bool" for T where
  preempt: "schedule s = Some s' \<Longrightarrow> sched_step T s s'"
| block: "waiting_status st \<Longrightarrow> thread_block st s = Some (i, s') \<Longrightarrow> sched_step T s s'"
| yield: "thread_yield s = Some (i, s') \<Longrightarrow> sched_step T s s'"
| wake: "w \<in> T \<Longrightarrow> waiting_status (status (tasks s w)) \<Longrightarrow> thread_unblock w s = Some s' \<Longrightarrow> sched_step T s s'"

text \<open>Every task is the running one, or queued and ready, or waiting.\<close>

definition tasks_inv :: "u32 set \<Rightarrow> 'a sched_state_scheme \<Rightarrow> u32 list \<Rightarrow> bool" where
  "tasks_inv T s rq \<longleftrightarrow>
     sched_ok s rq \<and> set rq \<subseteq> T \<and> current_task s \<in> T \<and> idle_thread s \<in> T \<and>
     status (tasks s (current_task s)) = TASK_RUNNING \<and>
     (\<forall>t \<in> T. t = current_task s \<or> t \<in> set rq \<or> waiting_status (status (tasks s t))) \<and>
     NULL \<notin> thread_dispatch_queue ` T \<and> card T < 4294967293"

lemma tasks_invD:
  assumes "tasks_inv T s rq"
  shows "sched_ok s rq" and "length rq < 4294967293" and "current_task s \<in> T" and "idle_thread s \<in> T"
    and "status (tasks s (current_task s)) = TASK_RUNNING"
    and "\<And>t. t \<in> T \<Longrightarrow> t \<noteq> current_task s \<Longrightarrow> t \<notin> set rq \<Longrightarrow> waiting_status (status (tasks s t))"
    and "\<And>t. t \<in> T \<Longrightarrow> thread_dispatch_queue t \<noteq> NULL"
proof -
  show ok: "sched_ok s rq"
    using assms by (simp add: tasks_inv_def)
  have "card (set rq) \<le> card T"
    using assms by (intro card_mono) (auto simp: tasks_inv_def)
  then show "length rq < 4294967293"
    using assms distinct_card [OF sched_okD(6) [OF ok]] by (simp add: tasks_inv_def)
  show "thread_dispatch_queue t \<noteq> NULL" if "t \<in> T" for t
    using assms that by (metis image_eqI tasks_inv_def)
qed (use assms in \<open>auto simp: tasks_inv_def\<close>)

lemma tasks_inv_next:
  assumes "tasks_inv T s rq" and "sched_ok s' rq'" and "idle_thread s' = idle_thread s"
    and "set (current_task s' # rq') \<subseteq> T" and "status (tasks s' (current_task s')) = TASK_RUNNING"
    and "\<And>t. t \<in> T \<Longrightarrow> t \<notin> set (current_task s' # rq') \<Longrightarrow> waiting_status (status (tasks s' t))"
  shows "tasks_inv T s' rq'"
  using assms unfolding tasks_inv_def by (metis insert_iff insert_subset list.simps(15))

text \<open>
  What a change of the processor leaves alone: everything but the list cells and the task structures
  of the tasks in \<open>A\<close>, the ready queue, the current task and the flags.
\<close>

definition switch_frame :: "u32 set \<Rightarrow> 'a sched_state_scheme \<Rightarrow> 'a sched_state_scheme \<Rightarrow> bool" where
  "switch_frame A s s' \<longleftrightarrow>
     idle_thread s' = idle_thread s \<and> sched_state.more s' = sched_state.more s \<and>
     (\<forall>p. p \<notin> thread_dispatch_queue ` A \<longrightarrow> nodes s' p = nodes s p) \<and>
     (\<forall>t. t \<notin> A \<longrightarrow> tasks s' t = tasks s t)"

lemma preempt_inv:
  assumes "tasks_inv T s rq"
  shows "\<exists>s' rq'. schedule s = Some s' \<and> tasks_inv T s' rq' \<and>
           set (current_task s' # rq') = set (current_task s # rq) \<and> switch_frame (set (current_task s # rq)) s s'"
proof -
  let ?rq = "rq @ [current_task s]"
  obtain s' where s': "schedule s = Some s'" "current_task s' = hd ?rq" "sched_ok s' (tl ?rq)"
      "status (tasks s' (current_task s')) = TASK_RUNNING" "idle_thread s' = idle_thread s"
      "\<forall>t. t \<notin> set (current_task s # rq) \<longrightarrow> tasks s' t = tasks s t"
      and fr: "switch_frame (set (current_task s # rq)) s s'"
    using schedule_rotates [OF tasks_invD(1,5) [OF assms]] unfolding switch_frame_def by blast
  have sets: "set (current_task s' # tl ?rq) = set (current_task s # rq)"
    unfolding s'(2) by (cases rq) auto
  have "tasks_inv T s' (tl ?rq)"
  proof (rule tasks_inv_next [OF assms s'(3,5) _ s'(4)])
    show "set (current_task s' # tl ?rq) \<subseteq> T"
      unfolding sets using assms by (simp add: tasks_inv_def)
    show "waiting_status (status (tasks s' t))" if "t \<in> T" "t \<notin> set (current_task s' # tl ?rq)" for t
      using that(2) s'(6) tasks_invD(6) [OF assms that(1)] unfolding sets by simp
  qed
  with s'(1) fr sets show ?thesis
    by blast
qed

lemma block_inv:
  assumes inv: "tasks_inv T s rq" and st: "waiting_status st"
  shows "\<exists>s' rq'. thread_block st s = Some (get_intr_status s, s') \<and> tasks_inv T s' rq' \<and>
           set rq \<subseteq> set (current_task s' # rq') \<and> switch_frame (insert (idle_thread s) (set (current_task s # rq))) s s' \<and>
           (current_task s \<noteq> idle_thread s \<longrightarrow> status (tasks s' (current_task s)) = st \<and>
             nodes s' (thread_dispatch_queue (current_task s)) = nodes s (thread_dispatch_queue (current_task s))) \<and> get_intr_status s' = INTR_OFF"
proof (cases rq)
  case Nil
  have idle: "idle_thread s = current_task s \<or> waiting_status (status (tasks s (idle_thread s)))"
    using tasks_invD(6) [OF inv tasks_invD(4) [OF inv]] Nil by auto
  obtain s' where s': "thread_block st s = Some (get_intr_status s, s')" "current_task s' = idle_thread s"
      "sched_ok s' []" "tasks s' = (tasks s)(current_task s := (tasks s (current_task s))\<lparr>status := st\<rparr>,
           idle_thread s := (tasks s (idle_thread s))\<lparr>status := TASK_RUNNING\<rparr>)" "idle_thread s' = idle_thread s"
      "sched_state.more s' = sched_state.more s" "get_intr_status s' = INTR_OFF"
      "\<And>p. p \<noteq> thread_dispatch_queue (idle_thread s) \<Longrightarrow> nodes s' p = nodes s p"
    using thread_block_idle [OF tasks_invD(1) [OF inv, unfolded Nil] st idle tasks_invD(7) [OF inv tasks_invD(4) [OF inv]]]
    by metis
  have "tasks_inv T s' []"
    by (rule tasks_inv_next [OF inv s'(3,5)])
      (use tasks_invD(4,6) [OF inv] st Nil in \<open>auto simp: s'(2,4)\<close>)
  moreover have "switch_frame (insert (idle_thread s) (set (current_task s # rq))) s s'"
    by (simp add: switch_frame_def s'(4-6,8))
  moreover have "current_task s \<noteq> idle_thread s \<longrightarrow> status (tasks s' (current_task s)) = st \<and>
      nodes s' (thread_dispatch_queue (current_task s)) = nodes s (thread_dispatch_queue (current_task s))"
    using s'(8) by (simp add: s'(4))
  ultimately show ?thesis
    using s'(1,7) Nil by (metis empty_set empty_subsetI)
next
  case (Cons n rq')
  obtain s' where s': "thread_block st s = Some (get_intr_status s, s')" "current_task s' = n"
      "sched_ok s' rq'" "tasks s' = (tasks s)(current_task s := (tasks s (current_task s))\<lparr>status := st\<rparr>,
           n := (tasks s n)\<lparr>status := TASK_RUNNING\<rparr>)" "idle_thread s' = idle_thread s"
      "sched_state.more s' = sched_state.more s" "get_intr_status s' = INTR_OFF"
      "\<And>p. p \<notin> thread_dispatch_queue ` set (n # rq') \<Longrightarrow> nodes s' p = nodes s p"
    using thread_block_next [OF tasks_invD(1) [OF inv, unfolded Cons] st] by metis
  have "set rq \<subseteq> T" "n \<noteq> current_task s"
    using inv sched_okD(3) [OF tasks_invD(1) [OF inv]] Cons by (auto simp: tasks_inv_def)
  then have "tasks_inv T s' rq'"
    by (intro tasks_inv_next [OF inv s'(3,5)])
      (use tasks_invD(6) [OF inv] st Cons in \<open>auto simp: s'(2,4)\<close>)
  moreover have "switch_frame (insert (idle_thread s) (set (current_task s # rq))) s s'"
    using s'(8) Cons by (simp add: switch_frame_def s'(4-6))
  moreover have "status (tasks s' (current_task s)) = st"
    using \<open>n \<noteq> current_task s\<close> by (simp add: s'(4))
  moreover have "nodes s' (thread_dispatch_queue (current_task s)) = nodes s (thread_dispatch_queue (current_task s))"
    using s'(8) sched_okD(3) [OF tasks_invD(1) [OF inv]] unfolding Cons by (metis dispatch_mem)
  moreover have "set rq \<subseteq> set (current_task s' # rq')"
    by (simp add: s'(2) Cons)
  ultimately show ?thesis
    using s'(1,7) by blast
qed

lemma yield_inv:
  assumes inv: "tasks_inv T s rq"
  shows "\<exists>s' rq'. thread_yield s = Some (get_intr_status s, s') \<and> tasks_inv T s' rq' \<and>
           set (current_task s' # rq') = set (current_task s # rq) \<and> switch_frame (set (current_task s # rq)) s s'"
proof -
  obtain n rq' where nxt: "rq @ [current_task s] = n # rq'"
    by (cases "rq @ [current_task s]") auto
  have sets: "set (n # rq') = set (current_task s # rq)"
    unfolding nxt [symmetric] by auto
  obtain s' where s': "thread_yield s = Some (get_intr_status s, s')" "current_task s' = n" "sched_ok s' rq'"
      "tasks s' = (let ts = (tasks s)(current_task s := (tasks s (current_task s))\<lparr>status := TASK_READY\<rparr>)
                     in ts(n := (ts n)\<lparr>status := TASK_RUNNING\<rparr>))" "idle_thread s' = idle_thread s"
      "sched_state.more s' = sched_state.more s"
      "\<And>p. p \<notin> thread_dispatch_queue ` set (current_task s # rq) \<Longrightarrow> nodes s' p = nodes s p"
    using thread_yield_tail [OF tasks_invD(1) [OF inv] nxt] by metis
  have "tasks_inv T s' rq'"
  proof (rule tasks_inv_next [OF inv s'(3,5)])
    show "set (current_task s' # rq') \<subseteq> T"
      unfolding s'(2) sets using inv by (simp add: tasks_inv_def)
    show "status (tasks s' (current_task s')) = TASK_RUNNING"
      by (simp add: s'(2,4) Let_def)
    show "waiting_status (status (tasks s' t))" if "t \<in> T" "t \<notin> set (current_task s' # rq')" for t
      using that(2) tasks_invD(6) [OF inv that(1)] sets unfolding s'(2) by (auto simp: s'(4) Let_def)
  qed
  moreover have "switch_frame (set (current_task s # rq)) s s'"
    using s'(7) sets by (auto simp: switch_frame_def s'(4-6) Let_def)
  ultimately show ?thesis
    using s'(1,2) sets by blast
qed

lemma wake_inv:
  assumes inv: "tasks_inv T s rq" and w: "w \<in> T" "waiting_status (status (tasks s w))"
  shows "\<exists>s'. thread_unblock w s = Some s' \<and> tasks_inv T s' (w # rq) \<and> switch_frame (set (w # rq)) s s' \<and>
           current_task s' = current_task s \<and> eflags s' = eflags s"
proof -
  have wc: "w \<noteq> current_task s"
    using tasks_invD(5) [OF inv] w(2) by (auto simp: waiting_status_def)
  obtain s' where s': "thread_unblock w s = Some s'" "sched_ok s' (w # rq)"
      "tasks s' = (tasks s)(w := (tasks s w)\<lparr>status := TASK_READY\<rparr>)"
      "current_task s' = current_task s" "idle_thread s' = idle_thread s" "eflags s' = eflags s"
      "sched_state.more s' = sched_state.more s"
      "\<And>p. p \<notin> thread_dispatch_queue ` set (w # rq) \<Longrightarrow> nodes s' p = nodes s p"
    using thread_unblock_ok [OF tasks_invD(1) [OF inv] w(2) wc tasks_invD(7) [OF inv w(1)] tasks_invD(2) [OF inv]]
    by metis
  have "set rq \<subseteq> T"
    using inv by (simp add: tasks_inv_def)
  then have "tasks_inv T s' (w # rq)"
    by (intro tasks_inv_next [OF inv s'(2,5)])
      (use tasks_invD(3,5,6) [OF inv] w(1) wc in \<open>auto simp: s'(3,4)\<close>)
  moreover have "switch_frame (set (w # rq)) s s'"
    using s'(8) by (simp add: switch_frame_def s'(3,5,7))
  ultimately show ?thesis
    using s'(1,4,6) by blast
qed

lemma sched_step_inv: "sched_step T s s' \<Longrightarrow> tasks_inv T s rq \<Longrightarrow> \<exists>rq'. tasks_inv T s' rq'"
proof (induction rule: sched_step.induct)
  case (preempt s s')
  then show ?case
    using preempt_inv by fastforce
next
  case (block st s i s')
  then show ?case
    using block_inv by fastforce
next
  case (yield s i s')
  then show ?case
    using yield_inv by fastforce
next
  case (wake w s s')
  then show ?case
    using wake_inv by fastforce
qed

lemma sched_steps_inv: "(sched_step T)\<^sup>*\<^sup>* s s' \<Longrightarrow> tasks_inv T s rq \<Longrightarrow> \<exists>rq'. tasks_inv T s' rq'"
  by (induction arbitrary: rq rule: rtranclp_induct) (use sched_step_inv in blast)+

section \<open>Properties\<close>

text \<open>
  C10: Round robin. From a state with the running task \<open>c\<close> and the ready queue \<open>rq\<close>, the \<open>k\<close>-th task of
  the queue is the running one after \<open>k\<close> preemptions, with the queue turned accordingly, and after
  \<open>length rq + 1\<close> preemptions \<open>c\<close> runs again in front of the same queue. Each call of \<open>schedule\<close>
  returns, resets the slice of the preempted task to its priority and leaves interrupts off.
\<close>

theorem schedule_round_robin:
  assumes "sched_ok s rq" and "status (tasks s (current_task s)) = TASK_RUNNING"
  shows "(\<forall>k \<le> length rq. \<exists>s'. schedule_n k s = Some s' \<and> current_task s' = (current_task s # rq) ! k \<and>
            sched_ok s' (drop k rq @ take k (current_task s # rq))) \<and>
         (\<exists>s'. schedule_n (Suc (length rq)) s = Some s' \<and> current_task s' = current_task s \<and> sched_ok s' rq) \<and>
         (\<exists>s'. schedule s = Some s' \<and> get_intr_status s' = INTR_OFF \<and>
            ticks (tasks s' (current_task s)) = ucast (priority (tasks s (current_task s))))"
proof (intro conjI allI impI)
  show "\<exists>s'. schedule_n k s = Some s' \<and> current_task s' = (current_task s # rq) ! k \<and>
          sched_ok s' (drop k rq @ take k (current_task s # rq))" if "k \<le> length rq" for k
    using schedule_n_nth [OF assms that] by blast
qed (use schedule_n_cycle [OF assms] schedule_rotates [OF assms] in blast)+

text \<open>
  C2: In every state the system reaches from one that satisfies the task invariant, each task is
  exactly one of running (the current task), queued and ready, or waiting, and the scheduler cannot
  get stuck: no assertion fails and every call of \<open>schedule\<close>, \<open>thread_yield\<close> and \<open>thread_block\<close>
  returns, also when the ready queue is empty, because the idle thread is then waiting.
\<close>

theorem scheduler_never_stuck:
  assumes "tasks_inv T s rq" and "(sched_step T)\<^sup>*\<^sup>* s s'"
  shows "\<exists>rq'. tasks_inv T s' rq' \<and> distinct (current_task s' # rq') \<and>
           (\<exists>s''. schedule s' = Some s'') \<and> (\<exists>s''. thread_yield s' = Some (get_intr_status s', s'')) \<and>
           (\<forall>st. waiting_status st \<longrightarrow> (\<exists>s''. thread_block st s' = Some (get_intr_status s', s''))) \<and>
           (\<forall>w \<in> T. waiting_status (status (tasks s' w)) \<longrightarrow> (\<exists>s''. thread_unblock w s' = Some s''))"
proof -
  obtain rq' where inv: "tasks_inv T s' rq'"
    using sched_steps_inv [OF assms(2,1)] by blast
  moreover have "distinct (current_task s' # rq')"
    using sched_okD(3,6) [OF tasks_invD(1) [OF inv]] by simp
  ultimately show ?thesis
    using preempt_inv [OF inv] yield_inv [OF inv] block_inv [OF inv] wake_inv [OF inv] by blast
qed

text \<open>
  A blocked task leaves the processor to the head of the ready queue and is not queued; waking
  it puts it first in the queue, ahead of every ready task, so it is the next task to run.
\<close>

theorem block_then_unblock:
  assumes "sched_ok s (n # rq)" and "waiting_status st"
  shows "\<exists>s1 s2 s3. thread_block st s = Some (get_intr_status s, s1) \<and> current_task s1 = n \<and>
           sched_ok s1 rq \<and> status (tasks s1 (current_task s)) = st \<and>
           thread_unblock (current_task s) s1 = Some s2 \<and> sched_ok s2 (current_task s # rq) \<and>
           schedule s2 = Some s3 \<and> current_task s3 = current_task s \<and> sched_ok s3 (rq @ [n])"
proof -
  let ?c = "current_task s"
  have nc: "?c \<noteq> n"
    using sched_okD(3) [OF assms(1)] by auto
  obtain s1 where s1: "thread_block st s = Some (get_intr_status s, s1)" "current_task s1 = n" "sched_ok s1 rq"
      "tasks s1 = (tasks s)(?c := (tasks s ?c)\<lparr>status := st\<rparr>, n := (tasks s n)\<lparr>status := TASK_RUNNING\<rparr>)"
    using thread_block_next [OF assms] by blast
  have st: "status (tasks s1 ?c) = st" "waiting_status (status (tasks s1 ?c))" "?c \<noteq> current_task s1"
    "length rq < 4294967293"
    using assms nc s1(2) by (auto simp: s1(4) sched_ok_def)
  obtain s2 where s2: "thread_unblock ?c s1 = Some s2" "sched_ok s2 (?c # rq)"
      "tasks s2 = (tasks s1)(?c := (tasks s1 ?c)\<lparr>status := TASK_READY\<rparr>)" "current_task s2 = n"
    using thread_unblock_ok [OF s1(3) st(2,3) sched_okD(4) [OF assms(1)] st(4)] s1(2) by auto
  have "status (tasks s2 (current_task s2)) = TASK_RUNNING"
    using nc by (auto simp: s2(3,4) s1(4))
  then show ?thesis
    using schedule_rotates [OF s2(2)] s1 s2 st(1) by auto
qed

text \<open>
  \<open>thread_unblock\<close> of a task that is not waiting and \<open>thread_block\<close> with a status that is not a
  waiting one stop in their assertion; neither returns.
\<close>

theorem wrong_status_asserts:
  "(\<not> waiting_status (status (tasks s w)) \<longrightarrow> thread_unblock w s = None) \<and>
   (\<not> waiting_status st \<longrightarrow> thread_block st s = None)"
  by (auto simp: thread_unblock_def thread_block_def waiting_status_def local_irq_disable_eq ASSERT_def Let_def)

text \<open>A state with three tasks, the second and the third in the ready queue.\<close>

definition demo_task :: "task_status \<Rightarrow> task_struct" where
  "demo_task st = \<lparr>self_kernel_stack = 0, status = st, priority = 31, pid = 1, ticks = 0, elapsed_ticks = 0,
     tname = [], pde_addr = NULL,
     userprog_vaddr = \<lparr>vm_bitmap = \<lparr>bitmap_bytes_len = 0, bitmap = NULL\<rparr>, vm_start = 0\<rparr>, stack_boundary = 0x20130901\<rparr>"

definition demo_sched :: sched_state where
  "demo_sched = \<lparr>screen = [], eflags = 0x202,
     nodes = (\<lambda>_. \<lparr>l_prev = 0, l_next = 0\<rparr>)(0x2034 := \<lparr>l_prev = 0x3034, l_next = 0x3034\<rparr>,
                                       0x3034 := \<lparr>l_prev = 0x2034, l_next = 0x2034\<rparr>),
     tasks = (\<lambda>_. demo_task TASK_READY)(0x1000 := demo_task TASK_RUNNING),
     main_thread = 0x1000, idle_thread = 0x3000,
     thread_ready_queue = \<lparr>front = 0x2034, queue_len = 2\<rparr>, thread_total_list = 0x500, current_task = 0x1000\<rparr>"

lemma demo_sched_ok: "sched_ok demo_sched [0x2000, 0x3000]"
  by (simp add: sched_ok_def demo_sched_def demo_task_def queue_rep_def thread_dispatch_queue_def NULL_def)

lemma demo_sched_inv: "tasks_inv {0x1000, 0x2000, 0x3000} demo_sched [0x2000, 0x3000]"
  using demo_sched_ok by (simp add: tasks_inv_def) (simp add: demo_sched_def demo_task_def thread_dispatch_queue_def NULL_def)

theorem schedule_round_robin_witness:
  "\<exists>s'. schedule_n 2 demo_sched = Some s' \<and> current_task s' = 0x3000 \<and> sched_ok s' [0x1000, 0x2000]"
proof -
  have "status (tasks demo_sched (current_task demo_sched)) = TASK_RUNNING"
    by (simp add: demo_sched_def demo_task_def)
  from schedule_round_robin [OF demo_sched_ok this]
  have "\<forall>k \<le> length [0x2000, 0x3000 :: u32]. \<exists>s'. schedule_n k demo_sched = Some s' \<and>
      current_task s' = (current_task demo_sched # [0x2000, 0x3000]) ! k \<and>
      sched_ok s' (drop k [0x2000, 0x3000] @ take k (current_task demo_sched # [0x2000, 0x3000]))"
    by (rule conjunct1)
  from this [rule_format, of 2] show ?thesis
    by (simp add: numeral_2_eq_2) (simp add: demo_sched_def)
qed

theorem scheduler_never_stuck_witness:
  "\<exists>rq'. tasks_inv {0x1000, 0x2000, 0x3000} demo_sched rq' \<and> (\<exists>s''. schedule demo_sched = Some s'')"
  using scheduler_never_stuck [OF demo_sched_inv rtranclp.rtrancl_refl] by blast

theorem block_then_unblock_witness:
  "\<exists>s1 s2. thread_block TASK_BLOCKED demo_sched = Some (INTR_ON, s1) \<and> current_task s1 = 0x2000 \<and>
     thread_unblock 0x1000 s1 = Some s2 \<and> sched_ok s2 [0x1000, 0x3000]"
proof -
  have "get_intr_status demo_sched = INTR_ON" "current_task demo_sched = 0x1000"
    by (simp_all add: demo_sched_def get_intr_status_def EFLAGS_IF_def)
  then show ?thesis
    using block_then_unblock [OF demo_sched_ok, of TASK_BLOCKED] by (auto simp: waiting_status_def)
qed

theorem wrong_status_asserts_witness:
  "thread_unblock 0x2000 demo_sched = None \<and> thread_block TASK_DIED demo_sched = None"
proof -
  have "\<not> waiting_status (status (tasks demo_sched 0x2000))"
    by (simp add: demo_sched_def demo_task_def waiting_status_def)
  moreover have "\<not> waiting_status TASK_DIED"
    by (simp add: waiting_status_def)
  ultimately show ?thesis
    using wrong_status_asserts by blast
qed

end
