(* ===== verification/Timer.thy ===== *)
theory Timer
  imports Sched
begin

text \<open>
  The clock of \<open>device/timer.c\<close>: the service routine that counts the ticks of the system and of the
  current task and ends the time slice, the programming of counter 0 of the 8253, and sleeping in
  milliseconds. The counter \<open>ticks\<close> of the file is the field \<open>global_ticks\<close>. \<open>ticks_to_sleep\<close> gives up
  the processor in its loop, so one round of the loop is modelled: it either returns or yields.
\<close>

record timer_state = sched_state +
  global_ticks :: u32

definition IRQ0_FREQUENCY :: u32 where "IRQ0_FREQUENCY = 100"
definition INPUT_FREQUENCY :: u32 where "INPUT_FREQUENCY = 1193180"
definition COUNTER0_VALUE :: u32 where "COUNTER0_VALUE = INPUT_FREQUENCY div IRQ0_FREQUENCY"
definition CONTRER0_PORT :: u8 where "CONTRER0_PORT = 0x40"
definition COUNTER0_NO :: u8 where "COUNTER0_NO = 0"
definition COUNTER_MODE :: u8 where "COUNTER_MODE = 2"
definition READ_WRITE_LATCH :: u8 where "READ_WRITE_LATCH = 3"
definition PIT_CONTROL_PORT :: u16 where "PIT_CONTROL_PORT = 0x43"
definition CLOCK_VECTOR :: u8 where "CLOCK_VECTOR = 0x20"
definition millisecond_per_intr :: u32 where "millisecond_per_intr = 1000 div IRQ0_FREQUENCY"

definition clock_service :: "'a timer_state_scheme \<Rightarrow> 'a timer_state_scheme option" where
  "clock_service s = do {
     let cur_thread = get_cur_task s;
     ASSERT (stack_boundary (tasks s cur_thread) = 0x20130901);
     let s = upd_task cur_thread (\<lambda>t. t\<lparr>elapsed_ticks := elapsed_ticks t + 1\<rparr>) s;
     let s = s\<lparr>global_ticks := global_ticks s + 1\<rparr>;
     if ticks (tasks s cur_thread) = 0
     then schedule s
     else Some (upd_task cur_thread (\<lambda>t. t\<lparr>ticks := ticks t - 1\<rparr>) s)
   }"

text \<open>
  The \<open>outb\<close> calls of \<open>frequency_set\<close>. The operands of \<open>counter_no << 6 | rwl << 4 | counter_mode << 1\<close>
  are promoted to \<open>int\<close>; the cast \<open>(uint8_t)counter_value >> 8\<close> binds tighter than the shift.
\<close>

definition frequency_set :: "u8 \<Rightarrow> u8 \<Rightarrow> u8 \<Rightarrow> u8 \<Rightarrow> u16 \<Rightarrow> (u16 \<times> u8) list" where
  "frequency_set counter_port counter_no rwl counter_mode counter_value =
     [(PIT_CONTROL_PORT, ucast (push_bit 6 (ucast counter_no) OR push_bit 4 (ucast rwl) OR
                                push_bit 1 (ucast counter_mode) :: u32)),
      (ucast counter_port, ucast counter_value),
      (ucast counter_port, ucast (drop_bit 8 (ucast (ucast counter_value :: u8) :: u32)))]"

text \<open>One round of the loop of \<open>ticks_to_sleep\<close>: \<open>None\<close> inside when it returns.\<close>

definition ticks_to_sleep_round ::
  "u32 \<Rightarrow> u32 \<Rightarrow> 'a timer_state_scheme \<Rightarrow> (intr_status \<times> 'a timer_state_scheme) option option" where
  "ticks_to_sleep_round start_ticks sleep_ticks s =
     (if global_ticks s - start_ticks < sleep_ticks then map_option Some (thread_yield s) else Some None)"

definition mil_sleep_ticks :: "u32 \<Rightarrow> u32 option" where
  "mil_sleep_ticks m_second = do {
     let sleep_ticks = DIV_ROUND_UP (m_second * 100) millisecond_per_intr;
     ASSERT (sleep_ticks > 0);
     Some sleep_ticks
   }"

definition mil_sleep ::
  "u32 \<Rightarrow> 'a timer_state_scheme \<Rightarrow> (u32 \<times> u32 \<times> (intr_status \<times> 'a timer_state_scheme) option) option" where
  "mil_sleep m_second s = do {
     sleep_ticks \<leftarrow> mil_sleep_ticks m_second;
     let start_ticks = global_ticks s;
     r \<leftarrow> ticks_to_sleep_round start_ticks sleep_ticks s;
     Some (start_ticks, sleep_ticks, r)
   }"

definition timer_init :: "u32 \<Rightarrow> u32 list \<Rightarrow> ((u16 \<times> u8) list \<times> u32 list) option" where
  "timer_init clock_service_addr irqaction_t = do {
     let io = frequency_set CONTRER0_PORT COUNTER0_NO READ_WRITE_LATCH COUNTER_MODE (ucast COUNTER0_VALUE);
     irqaction_t \<leftarrow> register_irq_handler irqaction_t CLOCK_VECTOR clock_service_addr;
     Some (io, irqaction_t)
   }"

lemmas [kdefs] = IRQ0_FREQUENCY_def INPUT_FREQUENCY_def COUNTER0_VALUE_def CONTRER0_PORT_def COUNTER0_NO_def
  COUNTER_MODE_def READ_WRITE_LATCH_def PIT_CONTROL_PORT_def CLOCK_VECTOR_def millisecond_per_intr_def

text \<open>\<open>n\<close> clock interrupts in a row.\<close>

primrec clock_n :: "nat \<Rightarrow> 'a timer_state_scheme \<Rightarrow> 'a timer_state_scheme option" where
  "clock_n 0 s = Some s"
| "clock_n (Suc n) s = clock_service s \<bind> clock_n n"

section \<open>The time slice\<close>

lemma sched_ok_cong:
  "sched_ok s rq \<Longrightarrow> nodes s' = nodes s \<Longrightarrow> thread_ready_queue s' = thread_ready_queue s \<Longrightarrow>
   current_task s' = current_task s \<Longrightarrow> (\<And>t. status (tasks s' t) = status (tasks s t)) \<Longrightarrow> sched_ok s' rq"
  by (simp add: sched_ok_def)

definition tick_task :: "'a timer_state_scheme \<Rightarrow> 'a timer_state_scheme" where
  "tick_task s = (upd_task (current_task s) (\<lambda>t. t\<lparr>elapsed_ticks := elapsed_ticks t + 1\<rparr>) s)\<lparr>global_ticks := global_ticks s + 1\<rparr>"

lemma tick_task_simps [simp]:
  "nodes (tick_task s) = nodes s" "thread_ready_queue (tick_task s) = thread_ready_queue s"
  "current_task (tick_task s) = current_task s" "idle_thread (tick_task s) = idle_thread s"
  "status (tasks (tick_task s) t) = status (tasks s t)"
  "ticks (tasks (tick_task s) t) = ticks (tasks s t)"
  "priority (tasks (tick_task s) t) = priority (tasks s t)"
  "stack_boundary (tasks (tick_task s) t) = stack_boundary (tasks s t)"
  "elapsed_ticks (tasks (tick_task s) (current_task s)) = elapsed_ticks (tasks s (current_task s)) + 1"
  "global_ticks (tick_task s) = global_ticks s + 1"
  by (auto simp: tick_task_def upd_task_def)

lemma clock_service_eq:
  assumes "stack_boundary (tasks s (current_task s)) = 0x20130901"
  shows "clock_service s =
    (if ticks (tasks s (current_task s)) = 0 then schedule (tick_task s)
     else Some (upd_task (current_task s) (\<lambda>t. t\<lparr>ticks := ticks t - 1\<rparr>) (tick_task s)))"
  using assms by (simp add: clock_service_def get_cur_task_def tick_task_def upd_task_def ASSERT_bind Let_def)

lemma clock_n_slice:
  assumes "sched_ok s rq" and "stack_boundary (tasks s (current_task s)) = 0x20130901"
    and "n \<le> unat (ticks (tasks s (current_task s)))"
  shows "\<exists>s'. clock_n n s = Some s' \<and> sched_ok s' rq \<and> current_task s' = current_task s \<and>
    stack_boundary (tasks s' (current_task s)) = 0x20130901 \<and>
    (\<forall>t. status (tasks s' t) = status (tasks s t)) \<and>
    ticks (tasks s' (current_task s)) = ticks (tasks s (current_task s)) - of_nat n \<and>
    priority (tasks s' (current_task s)) = priority (tasks s (current_task s)) \<and>
    elapsed_ticks (tasks s' (current_task s)) = elapsed_ticks (tasks s (current_task s)) + of_nat n \<and>
    global_ticks s' = global_ticks s + of_nat n"
  using assms
proof (induction n arbitrary: s)
  case (Suc n)
  let ?c = "current_task s"
  let ?s = "upd_task ?c (\<lambda>t. t\<lparr>ticks := ticks t - 1\<rparr>) (tick_task s)"
  have t0: "ticks (tasks s ?c) \<noteq> 0"
    using Suc.prems(3) by auto
  then have step: "clock_service s = Some ?s"
    using clock_service_eq [OF Suc.prems(2)] by simp
  have "sched_ok ?s rq"
    by (rule sched_ok_cong [OF Suc.prems(1)]) auto
  moreover have "n \<le> unat (ticks (tasks ?s (current_task ?s)))"
    using Suc.prems(3) t0 by (simp add: unat_minus_one)
  ultimately obtain s' where "clock_n n ?s = Some s'" "sched_ok s' rq" "current_task s' = ?c"
      "stack_boundary (tasks s' ?c) = 0x20130901" "\<forall>t. status (tasks s' t) = status (tasks ?s t)"
      "ticks (tasks s' ?c) = ticks (tasks ?s ?c) - of_nat n"
      "priority (tasks s' ?c) = priority (tasks ?s ?c)"
      "elapsed_ticks (tasks s' ?c) = elapsed_ticks (tasks ?s ?c) + of_nat n"
      "global_ticks s' = global_ticks ?s + of_nat n"
    using Suc.IH [of ?s] Suc.prems(2) by auto
  moreover have "global_ticks ?s = global_ticks s + 1"
    by (simp add: upd_task_def)
  ultimately show ?case
    using step by (auto simp: algebra_simps)
qed simp

lemma clock_n_add: "clock_n (m + n) s = clock_n m s \<bind> clock_n n"
  by (induction m arbitrary: s) (auto split: Option.bind_split)

lemma unat_mul_100:
  assumes "100 * unat (m :: u32) + 9 < 2 ^ 32"
  shows "unat (m * 100) = 100 * unat m" and "unat (10 * m) = 10 * unat m"
  using assms by (simp_all add: unat_word_ariths)

lemma mul_100_div_10:
  assumes "100 * unat (m :: u32) + 9 < 2 ^ 32"
  shows "DIV_ROUND_UP (m * 100) 10 = 10 * m" and "10 * m = 0 \<longleftrightarrow> m = 0"
proof -
  have "unat (m * 100 + 9) = unat (m * 100) + 9"
    using assms unat_mul_100(1) [OF assms] unat_add_lem [of "m * 100" 9] by simp
  moreover have "m * 100 + 10 - 1 = m * 100 + 9"
    by simp
  ultimately have "unat (m * 100 + 10 - 1) = 100 * unat m + 9"
    using unat_mul_100(1) [OF assms] by (simp only:)
  then have "unat ((m * 100 + 10 - 1) div 10) = unat (10 * m)"
    unfolding unat_div unat_mul_100(2) [OF assms] by simp
  then show "DIV_ROUND_UP (m * 100) 10 = 10 * m"
    by (simp only: DIV_ROUND_UP_def word_unat_eq_iff)
  show "10 * m = 0 \<longleftrightarrow> m = 0"
    using unat_mul_100(2) [OF assms] by (simp only: word_unat_eq_iff) simp
qed

section \<open>Properties\<close>

text \<open>
  C28: The time slice. A running task whose counter is \<open>n\<close> keeps the processor for \<open>n\<close> clock
  interrupts, each of which is counted in the task and in the system; the next interrupt hands the
  processor to the head of the ready queue, puts the task at its tail and gives it a new slice of as
  many ticks as its priority (cut to 8 bits).
\<close>

theorem clock_time_slice:
  fixes s :: "'a timer_state_scheme"
  defines "c \<equiv> current_task s"
  assumes "sched_ok s rq" and "status (tasks s c) = TASK_RUNNING"
    and "stack_boundary (tasks s c) = 0x20130901" and "n = unat (ticks (tasks s c))"
  shows "(\<forall>k \<le> n. \<exists>s'. clock_n k s = Some s' \<and> current_task s' = c \<and> sched_ok s' rq \<and>
            elapsed_ticks (tasks s' c) = elapsed_ticks (tasks s c) + of_nat k \<and>
            global_ticks s' = global_ticks s + of_nat k) \<and>
         (\<exists>s'. clock_n (Suc n) s = Some s' \<and> current_task s' = hd (rq @ [c]) \<and>
            sched_ok s' (tl (rq @ [c])) \<and> ticks (tasks s' c) = ucast (priority (tasks s c)))"
proof
  show "\<forall>k \<le> n. \<exists>s'. clock_n k s = Some s' \<and> current_task s' = c \<and> sched_ok s' rq \<and>
            elapsed_ticks (tasks s' c) = elapsed_ticks (tasks s c) + of_nat k \<and>
            global_ticks s' = global_ticks s + of_nat k"
    using clock_n_slice [OF assms(2), folded c_def, OF assms(4)] assms(5) by blast
  obtain s1 where s1: "clock_n n s = Some s1" "sched_ok s1 rq" "current_task s1 = c"
      "stack_boundary (tasks s1 c) = 0x20130901" "status (tasks s1 c) = TASK_RUNNING"
      "ticks (tasks s1 c) = ticks (tasks s c) - of_nat n" "priority (tasks s1 c) = priority (tasks s c)"
    using clock_n_slice [OF assms(2), folded c_def, OF assms(4), of n] assms(3,5) by auto
  have "clock_service s1 = schedule (tick_task s1)"
    using clock_service_eq [of s1] s1(3,4,6) assms(5) by simp
  moreover have "sched_ok (tick_task s1) rq"
    by (rule sched_ok_cong [OF s1(2)]) auto
  ultimately show "\<exists>s'. clock_n (Suc n) s = Some s' \<and> current_task s' = hd (rq @ [c]) \<and>
            sched_ok s' (tl (rq @ [c])) \<and> ticks (tasks s' c) = ucast (priority (tasks s c))"
    using schedule_rotates [of "tick_task s1" rq] clock_n_add [of n 1 s] s1(1,3,5,7) by auto
qed

text \<open>
  The sleeping loop measures elapsed time modulo \<open>2^32\<close>: when \<open>n < 2^32\<close> ticks passed since the
  start, it yields again exactly when \<open>n\<close> is below the number of ticks to sleep, also when the
  counter wrapped around in between.
\<close>

theorem sleep_wrap_safe:
  assumes "n < 2 ^ 32" and "global_ticks s = start + of_nat n"
  shows "ticks_to_sleep_round start d s = (if n < unat d then map_option Some (thread_yield s) else Some None)"
proof -
  have "global_ticks s - start = of_nat n"
    using assms(2) by simp
  moreover have "(of_nat n :: u32) < d \<longleftrightarrow> n < unat d"
    using assms(1) by (simp add: word_less_nat_alt)
  ultimately show ?thesis
    by (simp add: ticks_to_sleep_round_def)
qed

text \<open>
  \<open>mil_sleep\<close> sleeps \<open>10 * m\<close> ticks, as long as \<open>100 * m + 9\<close> fits in 32 bits: ten ticks for each
  millisecond, where an interrupt is meant to last \<open>millisecond_per_intr = 10\<close> of them. A sleep of
  \<open>0\<close> fails the assertion.
\<close>

theorem mil_sleep_amount:
  assumes "100 * unat m + 9 < 2 ^ 32"
  shows "mil_sleep_ticks m = (if m = 0 then None else Some (10 * m)) \<and> millisecond_per_intr = 10"
proof -
  have ms: "millisecond_per_intr = 10"
    by (simp add: kdefs)
  show ?thesis
    using mul_100_div_10 [OF assms] by (simp add: mil_sleep_ticks_def ms word_gt_0)
qed

text \<open>
  The divisor the 8253 gets. \<open>timer_init\<close> computes \<open>0x2E9B\<close> for 100 interrupts per second, but the
  second byte it writes is always \<open>0\<close>, whatever the counter value: the cast to 8 bits comes before the
  shift. The programmed divisor is \<open>0x9B\<close>, which gives about 7698 interrupts per second.
\<close>

theorem timer_divisor_truncated:
  assumes "timer_init a tab = Some (io, tab')"
  shows "io = [(0x43, 0x34), (0x40, 0x9B), (0x40, 0)] \<and> COUNTER0_VALUE = 0x2E9B \<and>
         INPUT_FREQUENCY div 0x9B = 7697 \<and> tab' = tab[0x20 := a] \<and>
         (\<forall>p n r m v. frequency_set p n r m v ! 2 = (ucast p, 0))"
proof -
  have hi: "drop_bit 8 (ucast (b :: u8) :: u32) = 0" for b
    by (rule bit_word_eqI) (auto simp: bit_simps dest: bit_imp_le_length)
  then have "frequency_set p n r m v ! 2 = (ucast p, 0)" for p n r m v
    by (simp add: frequency_set_def numeral_2_eq_2)
  moreover have "COUNTER0_VALUE = 0x2E9B" "INPUT_FREQUENCY div 0x9B = 7697"
    by (simp_all add: kdefs)
  moreover have "frequency_set CONTRER0_PORT COUNTER0_NO READ_WRITE_LATCH COUNTER_MODE (ucast COUNTER0_VALUE) =
      [(0x43, 0x34), (0x40, 0x9B), (0x40, 0)]"
    by code_simp
  ultimately show ?thesis
    using assms by (auto simp: timer_init_def register_irq_handler_def CLOCK_VECTOR_def Let_def ASSERT_def
      split: if_splits Option.bind_splits)
qed

definition demo_timer :: timer_state where
  "demo_timer = sched_state.extend (demo_sched\<lparr>tasks := (tasks demo_sched)(0x1000 := (demo_task TASK_RUNNING)\<lparr>ticks := 2\<rparr>)\<rparr>)
     \<lparr>global_ticks = 0xFFFFFFFE\<rparr>"

lemma demo_timer_simps:
  "current_task demo_timer = 0x1000" "status (tasks demo_timer 0x1000) = TASK_RUNNING"
  "stack_boundary (tasks demo_timer 0x1000) = 0x20130901" "ticks (tasks demo_timer 0x1000) = 2"
  "priority (tasks demo_timer 0x1000) = 31" "global_ticks demo_timer = 0xFFFFFFFE"
  by (simp_all add: demo_timer_def demo_sched_def sched_state.extend_def demo_task_def)

lemma demo_timer_ok: "sched_ok demo_timer [0x2000, 0x3000]"
  by (simp add: demo_timer_def demo_sched_def sched_state.extend_def sched_ok_def demo_task_def queue_rep_def
      thread_dispatch_queue_def NULL_def)

theorem clock_time_slice_witness:
  "\<exists>s'. clock_n 3 demo_timer = Some s' \<and> current_task s' = 0x2000 \<and> ticks (tasks s' 0x1000) = 31"
proof -
  have "(2 :: nat) = unat (ticks (tasks demo_timer (current_task demo_timer)))"
    by (simp add: demo_timer_simps)
  then have "\<exists>s'. clock_n (Suc 2) demo_timer = Some s' \<and>
      current_task s' = hd ([0x2000, 0x3000] @ [current_task demo_timer]) \<and>
      sched_ok s' (tl ([0x2000, 0x3000] @ [current_task demo_timer])) \<and>
      ticks (tasks s' (current_task demo_timer)) = ucast (priority (tasks demo_timer (current_task demo_timer)))"
    by (intro conjunct2 [OF clock_time_slice [OF demo_timer_ok]]) (simp_all add: demo_timer_simps)
  then show ?thesis
    by (simp only: demo_timer_simps Suc_numeral semiring_norm) auto
qed

theorem sleep_wrap_safe_witness:
  "ticks_to_sleep_round 0xFFFFFFFD 1 demo_timer = Some None \<and>
   ticks_to_sleep_round 0xFFFFFFFD 2 demo_timer = map_option Some (thread_yield demo_timer)"
  using sleep_wrap_safe [of 1 demo_timer "0xFFFFFFFD" 1] sleep_wrap_safe [of 1 demo_timer "0xFFFFFFFD" 2]
  by (simp add: demo_timer_simps)

theorem mil_sleep_amount_witness: "mil_sleep_ticks 5 = Some 50 \<and> mil_sleep_ticks 0 = None"
  using conjunct1 [OF mil_sleep_amount [of 5]] conjunct1 [OF mil_sleep_amount [of 0]] by simp

theorem timer_divisor_truncated_witness:
  "timer_init 0xc0001000 (replicate 0x81 0) =
     Some ([(0x43, 0x34), (0x40, 0x9B), (0x40, 0)], (replicate 0x81 0)[0x20 := 0xc0001000])"
proof -
  obtain io tab where t: "timer_init 0xc0001000 (replicate 0x81 0) = Some (io, tab)"
    by (auto simp: timer_init_def register_irq_handler_def CLOCK_VECTOR_def NULL_def)
  show ?thesis
    using t timer_divisor_truncated [OF t] by simp
qed

end
