(* ===== verification/Sync.thy ===== *)
theory Sync
  imports Timer
begin

text \<open>
  Semaphores and locks of \<open>thread/sync.c\<close>. Both are typed heaps; the semaphore of a lock is the one at
  the address \<open>&plock->semaphore\<close>. A call that has to wait gives up the processor inside, so
  \<open>sema_down\<close> and \<open>lock_acquire\<close> are modelled up to the point where they return or the processor is
  switched, with the interrupt states their frames keep; \<open>sema_down_resume\<close> is the rest of the loop
  when the task is continued. \<open>lock_step\<close> is the interleaving of these atomic parts with preemption,
  over an explicit position of each task inside the lock operations.
\<close>

section \<open>Data\<close>

record semaphore =
  sem_value :: u8
  waiter_queue :: general_queue

record lock =
  holder :: u32
  holder_repeat_cnt :: u32

record sync_state = timer_state +
  semas :: "u32 \<Rightarrow> semaphore"
  locks :: "u32 \<Rightarrow> lock"

text \<open>The address \<open>&plock->semaphore\<close>.\<close>

definition lock_semaphore :: "u32 \<Rightarrow> u32" where
  "lock_semaphore plock = plock + 4"

definition upd_sema :: "u32 \<Rightarrow> (semaphore \<Rightarrow> semaphore) \<Rightarrow> 'a sync_state_scheme \<Rightarrow> 'a sync_state_scheme" where
  "upd_sema p f s = s\<lparr>semas := (semas s)(p := f (semas s p))\<rparr>"

definition upd_lock :: "u32 \<Rightarrow> (lock \<Rightarrow> lock) \<Rightarrow> 'a sync_state_scheme \<Rightarrow> 'a sync_state_scheme" where
  "upd_lock p f s = s\<lparr>locks := (locks s)(p := f (locks s p))\<rparr>"

section \<open>Semaphores\<close>

definition sema_init :: "u32 \<Rightarrow> u8 \<Rightarrow> 'a sync_state_scheme \<Rightarrow> 'a sync_state_scheme" where
  "sema_init psema values s =
     (let s = upd_sema psema (sem_value_update (\<lambda>_. values)) s
      in upd_sema psema (waiter_queue_update (\<lambda>_. queue_init)) s)"

datatype down_result = Acquired | Waiting intr_status

text \<open>
  One round of the loop of \<open>sema_down\<close>: the test, then either the end of the function or one more
  wait. The second call of \<open>list_find_item\<close> in the source repeats the assertion above it.
\<close>

definition sema_down_round ::
  "u32 \<Rightarrow> 'a sync_state_scheme \<Rightarrow> (down_result \<times> 'a sync_state_scheme) option" where
  "sema_down_round pseam s =
     (if sem_value (semas s pseam) = 0
      then do {
        found \<leftarrow> list_find_item (nodes s) (front (waiter_queue (semas s pseam))) (thread_dispatch_queue (get_cur_task s));
        ASSERT (\<not> found);
        (h, q) \<leftarrow> queue_in (nodes s) (waiter_queue (semas s pseam)) (thread_dispatch_queue (get_cur_task s));
        let s = upd_sema pseam (waiter_queue_update (\<lambda>_. q)) (s\<lparr>nodes := h\<rparr>);
        (i, s) \<leftarrow> thread_block TASK_BLOCKED s;
        Some (Waiting i, s)
      }
      else do {
        let s = upd_sema pseam (\<lambda>m. m\<lparr>sem_value := sem_value m - 1\<rparr>) s;
        ASSERT (sem_value (semas s pseam) = 0);
        Some (Acquired, s)
      })"

definition sema_down ::
  "u32 \<Rightarrow> 'a sync_state_scheme \<Rightarrow> (intr_status \<times> down_result \<times> 'a sync_state_scheme) option" where
  "sema_down pseam s = do {
     let (old_status, s) = local_irq_disable s;
     (r, s) \<leftarrow> sema_down_round pseam s;
     Some (old_status, r, if r = Acquired then set_intr_status old_status s else s)
   }"

definition sema_down_resume ::
  "u32 \<Rightarrow> intr_status \<Rightarrow> intr_status \<Rightarrow> 'a sync_state_scheme \<Rightarrow> (down_result \<times> 'a sync_state_scheme) option" where
  "sema_down_resume pseam old_status i s = do {
     let s = thread_block_resume i s;
     (r, s) \<leftarrow> sema_down_round pseam s;
     Some (r, if r = Acquired then set_intr_status old_status s else s)
   }"

definition sema_up :: "u32 \<Rightarrow> 'a sync_state_scheme \<Rightarrow> 'a sync_state_scheme option" where
  "sema_up psema s = do {
     let (old_status, s) = local_irq_disable s;
     ASSERT (sem_value (semas s psema) = 0);
     s \<leftarrow> (if \<not> queue_empty (waiter_queue (semas s psema))
           then do {
             let (p, h, q) = queue_out (nodes s) (waiter_queue (semas s psema));
             let s = upd_sema psema (waiter_queue_update (\<lambda>_. q)) (s\<lparr>nodes := h\<rparr>);
             let blocked_task = list_entry_dispatch p;
             thread_unblock blocked_task s
           }
           else Some s);
     let s = upd_sema psema (\<lambda>m. m\<lparr>sem_value := sem_value m + 1\<rparr>) s;
     ASSERT (sem_value (semas s psema) = 1);
     Some (set_intr_status old_status s)
   }"

section \<open>Locks\<close>

definition lock_init :: "u32 \<Rightarrow> 'a sync_state_scheme \<Rightarrow> 'a sync_state_scheme" where
  "lock_init plock s =
     (let s = upd_lock plock (holder_update (\<lambda>_. NULL)) s;
          s = upd_lock plock (holder_repeat_cnt_update (\<lambda>_. 0)) s
      in sema_init (lock_semaphore plock) 1 s)"

text \<open>
  \<open>lock_acquire\<close> is the nested case or \<open>sema_down\<close> (\<open>lock_acquire_down\<close>), then the statements after
  \<open>sema_down\<close> returned (\<open>lock_acquire_take\<close>). The result \<open>None\<close> of the first part is the nested case.
\<close>

definition lock_acquire_down ::
  "u32 \<Rightarrow> 'a sync_state_scheme \<Rightarrow> ((intr_status \<times> down_result) option \<times> 'a sync_state_scheme) option" where
  "lock_acquire_down plock s =
     (if holder (locks s plock) \<noteq> get_cur_task s
      then do {
        (old, r, s) \<leftarrow> sema_down (lock_semaphore plock) s;
        Some (Some (old, r), s)
      }
      else Some (None, upd_lock plock (\<lambda>l. l\<lparr>holder_repeat_cnt := holder_repeat_cnt l + 1\<rparr>) s))"

definition lock_acquire_take :: "u32 \<Rightarrow> 'a sync_state_scheme \<Rightarrow> 'a sync_state_scheme option" where
  "lock_acquire_take plock s = do {
     let s = upd_lock plock (holder_update (\<lambda>_. get_cur_task s)) s;
     ASSERT (holder_repeat_cnt (locks s plock) = 0);
     Some (upd_lock plock (holder_repeat_cnt_update (\<lambda>_. 1)) s)
   }"

definition lock_acquire ::
  "u32 \<Rightarrow> 'a sync_state_scheme \<Rightarrow> ((intr_status \<times> intr_status) option \<times> 'a sync_state_scheme) option" where
  "lock_acquire plock s = do {
     (r, s) \<leftarrow> lock_acquire_down plock s;
     case r of
       None \<Rightarrow> Some (None, s)
     | Some (old, Acquired) \<Rightarrow> do { s \<leftarrow> lock_acquire_take plock s; Some (None, s) }
     | Some (old, Waiting i) \<Rightarrow> Some (Some (old, i), s)
   }"

text \<open>\<open>lock_release\<close> up to the call of \<open>sema_up\<close>; the flag says that it returned before.\<close>

definition lock_release_begin :: "u32 \<Rightarrow> 'a sync_state_scheme \<Rightarrow> (bool \<times> 'a sync_state_scheme) option" where
  "lock_release_begin plock s = do {
     ASSERT (holder (locks s plock) = get_cur_task s);
     if holder_repeat_cnt (locks s plock) > 1
     then Some (True, upd_lock plock (\<lambda>l. l\<lparr>holder_repeat_cnt := holder_repeat_cnt l - 1\<rparr>) s)
     else do {
       ASSERT (holder_repeat_cnt (locks s plock) = 1);
       let s = upd_lock plock (holder_update (\<lambda>_. NULL)) s;
       Some (False, upd_lock plock (holder_repeat_cnt_update (\<lambda>_. 0)) s)
     }
   }"

definition lock_release :: "u32 \<Rightarrow> 'a sync_state_scheme \<Rightarrow> 'a sync_state_scheme option" where
  "lock_release plock s = do {
     (fin, s) \<leftarrow> lock_release_begin plock s;
     if fin then Some s else sema_up (lock_semaphore plock) s
   }"

section \<open>Interleaving\<close>

text \<open>
  Where a task is: outside the lock operations, blocked inside \<open>sema_down\<close> of a lock, between the end
  of \<open>sema_down\<close> and the write of the holder, or between the reset of the holder and \<open>sema_up\<close>.
\<close>

datatype position = Outside | In_down u32 intr_status intr_status | Got u32 | Releasing u32

definition in_down :: "(u32 \<Rightarrow> position) \<Rightarrow> u32 \<Rightarrow> u32 \<Rightarrow> bool" where
  "in_down pc l t \<longleftrightarrow> (case pc t of In_down l' _ _ \<Rightarrow> l' = l | _ \<Rightarrow> False)"

fun after_down :: "u32 \<Rightarrow> (intr_status \<times> down_result) option \<Rightarrow> position" where
  "after_down l None = Outside"
| "after_down l (Some (old, Acquired)) = Got l"
| "after_down l (Some (old, Waiting i)) = In_down l old i"

text \<open>
  A step is an atomic part of a lock operation of the current task, a preemption or a yield outside
  the sections that run with interrupts off, or the idle thread blocking itself in its loop.
\<close>

inductive lock_step :: "u32 set \<Rightarrow> ('a sync_state_scheme \<times> (u32 \<Rightarrow> position)) \<Rightarrow>
    ('a sync_state_scheme \<times> (u32 \<Rightarrow> position)) \<Rightarrow> bool" for L where
  acquire: "l \<in> L \<Longrightarrow> current_task s \<noteq> idle_thread s \<Longrightarrow> pc (current_task s) = Outside \<Longrightarrow>
    holder_repeat_cnt (locks s l) < 0xFFFFFFFF \<Longrightarrow> lock_acquire_down l s = Some (r, s') \<Longrightarrow>
    lock_step L (s, pc) (s', pc(current_task s := after_down l r))"
| resume: "l \<in> L \<Longrightarrow> pc (current_task s) = In_down l old i \<Longrightarrow>
    sema_down_resume (lock_semaphore l) old i s = Some (r, s') \<Longrightarrow>
    lock_step L (s, pc) (s', pc(current_task s := after_down l (Some (old, r))))"
| take: "l \<in> L \<Longrightarrow> pc (current_task s) = Got l \<Longrightarrow> lock_acquire_take l s = Some s' \<Longrightarrow>
    lock_step L (s, pc) (s', pc(current_task s := Outside))"
| release: "l \<in> L \<Longrightarrow> current_task s \<noteq> idle_thread s \<Longrightarrow> pc (current_task s) = Outside \<Longrightarrow> lock_release_begin l s = Some (fin, s') \<Longrightarrow>
    lock_step L (s, pc) (s', pc(current_task s := (if fin then Outside else Releasing l)))"
| up: "l \<in> L \<Longrightarrow> pc (current_task s) = Releasing l \<Longrightarrow> sema_up (lock_semaphore l) s = Some s' \<Longrightarrow>
    lock_step L (s, pc) (s', pc(current_task s := Outside))"
| preempt: "(\<forall>l. \<not> in_down pc l (current_task s)) \<Longrightarrow> schedule s = Some s' \<Longrightarrow> lock_step L (s, pc) (s', pc)"
| yield: "(\<forall>l. \<not> in_down pc l (current_task s)) \<Longrightarrow> thread_yield s = Some (i, s') \<Longrightarrow> lock_step L (s, pc) (s', pc)"
| idle: "current_task s = idle_thread s \<Longrightarrow> thread_block TASK_BLOCKED s = Some (i, s') \<Longrightarrow> lock_step L (s, pc) (s', pc)"

section \<open>The invariant\<close>

definition owns :: "'a sync_state_scheme \<Rightarrow> (u32 \<Rightarrow> position) \<Rightarrow> u32 \<Rightarrow> u32 \<Rightarrow> bool" where
  "owns s pc l t \<longleftrightarrow> holder (locks s l) = t \<or> pc t = Got l \<or> pc t = Releasing l"

text \<open>
  The waiters of a lock are blocked inside its \<open>sema_down\<close>; the value of the semaphore says whether
  the lock has an owner, and there is one at most; the holder field is set only while the count is
  positive; and a lock with waiters has an owner or a woken task that will look at it.
\<close>

definition lock_inv :: "u32 set \<Rightarrow> 'a sync_state_scheme \<Rightarrow> (u32 \<Rightarrow> position) \<Rightarrow> u32 list \<Rightarrow> u32 list \<Rightarrow> u32 \<Rightarrow> bool" where
  "lock_inv T s pc rq w l \<longleftrightarrow>
     queue_rep (nodes s) (waiter_queue (semas s (lock_semaphore l))) (map thread_dispatch_queue w) \<and>
     (\<forall>t \<in> set w. t \<in> T \<and> in_down pc l t \<and> status (tasks s t) = TASK_BLOCKED) \<and>
     (if sem_value (semas s (lock_semaphore l)) = 0
      then \<exists>t \<in> T. \<forall>u \<in> T. owns s pc l u \<longleftrightarrow> u = t
      else sem_value (semas s (lock_semaphore l)) = 1 \<and> (\<forall>u \<in> T. \<not> owns s pc l u)) \<and>
     (holder (locks s l) = NULL \<longleftrightarrow> holder_repeat_cnt (locks s l) = 0) \<and>
     (holder (locks s l) \<noteq> NULL \<longrightarrow> holder (locks s l) \<in> T) \<and>
     (\<forall>t \<in> T. pc t = Got l \<or> pc t = Releasing l \<longrightarrow> holder (locks s l) = NULL) \<and>
     (w \<noteq> [] \<longrightarrow> sem_value (semas s (lock_semaphore l)) = 0 \<or> (\<exists>t \<in> set (current_task s # rq). in_down pc l t))"

definition sync_inv ::
  "u32 set \<Rightarrow> u32 set \<Rightarrow> 'a sync_state_scheme \<Rightarrow> (u32 \<Rightarrow> position) \<Rightarrow> u32 list \<Rightarrow> (u32 \<Rightarrow> u32 list) \<Rightarrow> bool" where
  "sync_inv T L s pc rq wq \<longleftrightarrow>
     tasks_inv T s rq \<and> NULL \<notin> T \<and> pc (idle_thread s) = Outside \<and> (\<forall>l \<in> L. lock_inv T s pc rq (wq l) l)"

section \<open>Frames\<close>

lemma lock_semaphore_eq [simp]: "lock_semaphore l = lock_semaphore l' \<longleftrightarrow> l = l'"
  by (simp add: lock_semaphore_def)

lemma upd_sema_simps [simp]:
  "nodes (upd_sema p f s) = nodes s" "tasks (upd_sema p f s) = tasks s" "locks (upd_sema p f s) = locks s"
  "current_task (upd_sema p f s) = current_task s" "idle_thread (upd_sema p f s) = idle_thread s"
  "thread_ready_queue (upd_sema p f s) = thread_ready_queue s" "eflags (upd_sema p f s) = eflags s"
  "semas (upd_sema p f s) = (semas s)(p := f (semas s p))"
  by (simp_all add: upd_sema_def)

lemma upd_lock_simps [simp]:
  "nodes (upd_lock p f s) = nodes s" "tasks (upd_lock p f s) = tasks s" "semas (upd_lock p f s) = semas s"
  "current_task (upd_lock p f s) = current_task s" "idle_thread (upd_lock p f s) = idle_thread s"
  "thread_ready_queue (upd_lock p f s) = thread_ready_queue s" "eflags (upd_lock p f s) = eflags s"
  "locks (upd_lock p f s) = (locks s)(p := f (locks s p))"
  by (simp_all add: upd_lock_def)

lemma cli_sync [simp]: "semas (cli s) = semas s" "locks (cli s) = locks s"
  by (simp_all add: cli_def)

fun mentions :: "position \<Rightarrow> u32 \<Rightarrow> bool" where
  "mentions Outside l \<longleftrightarrow> False"
| "mentions (In_down l' _ _) l \<longleftrightarrow> l' = l"
| "mentions (Got l') l \<longleftrightarrow> l' = l"
| "mentions (Releasing l') l \<longleftrightarrow> l' = l"

lemma mentions_in_down: "in_down pc l t \<Longrightarrow> mentions (pc t) l"
  by (auto simp: in_down_def split: position.splits)

lemma tasks_inv_cong:
  assumes "tasks_inv T s rq" and "\<And>t. t \<in> T \<Longrightarrow> t \<in> set rq \<Longrightarrow> nodes s' (thread_dispatch_queue t) = nodes s (thread_dispatch_queue t)"
    and "thread_ready_queue s' = thread_ready_queue s" and "current_task s' = current_task s"
    and "idle_thread s' = idle_thread s" and "\<And>t. status (tasks s' t) = status (tasks s t)"
  shows "tasks_inv T s' rq"
proof -
  have "set rq \<subseteq> T"
    using assms(1) by (simp add: tasks_inv_def)
  then have "queue_rep (nodes s') (thread_ready_queue s) (map thread_dispatch_queue rq)"
    by (intro queue_rep_cong [OF sched_okD(1) [OF tasks_invD(1) [OF assms(1)]]]) (use assms(2) in auto)
  then have "sched_ok s' rq"
    using tasks_invD(1) [OF assms(1)] assms(3,4,6) by (simp add: sched_ok_def)
  with assms show ?thesis
    by (simp add: tasks_inv_def)
qed

lemma lock_inv_frame:
  assumes inv: "lock_inv T s pc rq w l"
    and heap: "semas s' (lock_semaphore l) = semas s (lock_semaphore l)" "locks s' l = locks s l"
      "\<And>t. t \<in> set w \<Longrightarrow> nodes s' (thread_dispatch_queue t) = nodes s (thread_dispatch_queue t)"
      "\<And>t. t \<in> set w \<Longrightarrow> status (tasks s' t) = status (tasks s t)"
    and pc: "\<And>t. pc' t = pc t \<or> \<not> mentions (pc t) l \<and> \<not> mentions (pc' t) l"
    and run: "\<And>t. t \<in> set (current_task s # rq) \<Longrightarrow> in_down pc l t \<Longrightarrow> t \<in> set (current_task s' # rq')"
  shows "lock_inv T s' pc' rq' w l"
proof -
  have got: "pc' t = Got l \<longleftrightarrow> pc t = Got l" "pc' t = Releasing l \<longleftrightarrow> pc t = Releasing l" for t
    using pc [of t] by auto
  then have own: "owns s' pc' l t \<longleftrightarrow> owns s pc l t" for t
    by (simp add: owns_def heap(2))
  have dn: "in_down pc' l t \<longleftrightarrow> in_down pc l t" for t
    using pc [of t] mentions_in_down [of pc l t] mentions_in_down [of pc' l t] by (auto simp: in_down_def)
  have rep: "queue_rep (nodes s') (waiter_queue (semas s (lock_semaphore l))) (map thread_dispatch_queue w)"
    by (rule queue_rep_cong [of "nodes s"]) (use inv heap(3) in \<open>auto simp: lock_inv_def\<close>)
  have "\<exists>t \<in> set (current_task s' # rq'). in_down pc l t" if "\<exists>t \<in> set (current_task s # rq). in_down pc l t"
    using that run by blast
  then show ?thesis
    using inv rep heap(4) unfolding lock_inv_def heap(1,2) own dn got by (auto simp del: list.set)
qed

lemma switch_frame_sync:
  assumes "switch_frame A s s'"
  shows "semas s' = semas s" and "locks s' = locks s"
proof -
  have "sched_state.more s' = sched_state.more s"
    using assms by (simp add: switch_frame_def)
  then show "semas s' = semas s" "locks s' = locks s"
    by (cases s; cases s'; simp)+
qed

lemma sync_invD:
  assumes "sync_inv T L s pc rq wq"
  shows "tasks_inv T s rq" and "NULL \<notin> T" and "pc (idle_thread s) = Outside"
    and "\<And>l. l \<in> L \<Longrightarrow> lock_inv T s pc rq (wq l) l"
  using assms by (auto simp: sync_inv_def)

lemma waiter_not_ready:
  assumes "sync_inv T L s pc rq wq" and "l \<in> L" and "t \<in> set (wq l)"
  shows "t \<notin> insert (idle_thread s) (set (current_task s # rq))" and "t \<in> T" and "in_down pc l t"
    and "status (tasks s t) = TASK_BLOCKED"
proof -
  show b: "status (tasks s t) = TASK_BLOCKED" "t \<in> T" "in_down pc l t"
    using sync_invD(4) [OF assms(1,2)] assms(3) by (auto simp: lock_inv_def)
  moreover have "t \<noteq> idle_thread s"
    using b(3) sync_invD(3) [OF assms(1)] by (auto simp: in_down_def)
  ultimately show "t \<notin> insert (idle_thread s) (set (current_task s # rq))"
    using sched_okD(2) [OF tasks_invD(1) [OF sync_invD(1) [OF assms(1)]], of t]
      tasks_invD(5) [OF sync_invD(1) [OF assms(1)]] by auto
qed

lemma sync_inv_switch:
  assumes inv: "sync_inv T L s pc rq wq" and tasks: "tasks_inv T s' rq'"
    and fr: "switch_frame A s s'" "A \<subseteq> insert (idle_thread s) (set (current_task s # rq))"
    and run: "\<And>l t. t \<in> set (current_task s # rq) \<Longrightarrow> in_down pc l t \<Longrightarrow> t \<in> set (current_task s' # rq')"
  shows "sync_inv T L s' pc rq' wq"
proof -
  have "lock_inv T s' pc rq' (wq l) l" if l: "l \<in> L" for l
  proof (rule lock_inv_frame [OF sync_invD(4) [OF inv l]])
    fix t assume "t \<in> set (wq l)"
    then have "t \<notin> A"
      using waiter_not_ready(1) [OF inv l] fr(2) by blast
    then show "nodes s' (thread_dispatch_queue t) = nodes s (thread_dispatch_queue t)"
      "status (tasks s' t) = status (tasks s t)"
      using fr(1) by (auto simp: switch_frame_def)
  qed (use switch_frame_sync [OF fr(1)] run in auto)
  then show ?thesis
    using sync_invD(2,3) [OF inv] tasks fr(1) by (simp add: sync_inv_def switch_frame_def)
qed

lemma set_intr_status_eq: "\<exists>e. set_intr_status st s = s\<lparr>eflags := e\<rparr>"
proof -
  have "\<exists>e. s = s\<lparr>eflags := e\<rparr>"
    by (rule exI [of _ "eflags s"]) simp
  then show ?thesis
    by (auto simp: set_intr_status_def local_irq_enable_def local_irq_disable_eq sti_def cli_def Let_def)
qed

lemma sync_inv_eflags: "sync_inv T L (s\<lparr>eflags := e\<rparr>) pc rq wq \<longleftrightarrow> sync_inv T L s pc rq wq"
  by (simp add: sync_inv_def tasks_inv_def sched_ok_def lock_inv_def owns_def)

lemma sync_inv_set_intr [simp]: "sync_inv T L (set_intr_status st s) pc rq wq \<longleftrightarrow> sync_inv T L s pc rq wq"
  using set_intr_status_eq [of st s] sync_inv_eflags by metis

lemma sync_inv_cli [simp]: "sync_inv T L (cli s) pc rq wq \<longleftrightarrow> sync_inv T L s pc rq wq"
  using sync_inv_set_intr [of T L INTR_OFF] by (simp add: set_intr_status_off)

section \<open>Steps keep the invariant\<close>

lemma waiter_find:
  assumes "sync_inv T L s pc rq wq" and "l \<in> L"
  shows "list_find_item (nodes s) (front (waiter_queue (semas s (lock_semaphore l)))) (thread_dispatch_queue (current_task s)) = Some False"
proof -
  have "current_task s \<notin> set (wq l)"
    using waiter_not_ready(1) [OF assms] by auto
  then show ?thesis
    using sync_invD(4) [OF assms] by (intro queue_rep_find [where xs = "map thread_dispatch_queue (wq l)"]) (auto simp: lock_inv_def)
qed

text \<open>Putting the current task into the waiter queue of \<open>l\<close>.\<close>

lemma waiter_in:
  assumes inv: "sync_inv T L s pc rq wq" and l: "l \<in> L"
  obtains h q where "queue_in (nodes s) (waiter_queue (semas s (lock_semaphore l))) (thread_dispatch_queue (current_task s)) = Some (h, q)"
    and "queue_rep h q (map thread_dispatch_queue (wq l @ [current_task s]))"
    and "\<And>t. t \<notin> set (current_task s # wq l) \<Longrightarrow> h (thread_dispatch_queue t) = nodes s (thread_dispatch_queue t)"
proof -
  let ?c = "current_task s"
  have rep: "queue_rep (nodes s) (waiter_queue (semas s (lock_semaphore l))) (map thread_dispatch_queue (wq l))"
    using sync_invD(4) [OF inv l] by (simp add: lock_inv_def)
  have T: "set (wq l) \<subseteq> T" "?c \<notin> set (wq l)"
    using waiter_not_ready [OF inv l] by auto
  have "distinct (wq l)"
    using queue_rep_distinct [OF rep] by (simp add: distinct_map)
  then have "length (wq l) \<le> card T"
    using T(1) by (metis card_mono distinct_card finite)
  then have len: "length (wq l) < 4294967295"
    using sync_invD(1) [OF inv] by (simp add: tasks_inv_def)
  have "thread_dispatch_queue ?c \<noteq> NULL"
    using tasks_invD(3,7) [OF sync_invD(1) [OF inv]] by blast
  then show thesis
    using ready_queue_in [OF rep T(2) _ len] that by (metis dispatch_mem)
qed

lemma in_down_upd: "in_down (pc(c := p)) l t \<longleftrightarrow> (if t = c then (case p of In_down l' _ _ \<Rightarrow> l' = l | _ \<Rightarrow> False) else in_down pc l t)"
  by (simp add: in_down_def)

lemma lock_value_0:
  assumes "lock_inv T s pc rq w l" and "sem_value (semas s (lock_semaphore l)) = 0"
  obtains t where "t \<in> T" and "\<And>u. u \<in> T \<Longrightarrow> owns s pc l u \<longleftrightarrow> u = t"
  using assms by (simp add: lock_inv_def) blast

lemma lock_value_1:
  assumes "lock_inv T s pc rq w l" and "sem_value (semas s (lock_semaphore l)) \<noteq> 0"
  shows "sem_value (semas s (lock_semaphore l)) = 1" and "\<And>u. u \<in> T \<Longrightarrow> \<not> owns s pc l u" and "holder (locks s l) = NULL"
proof -
  show 1: "sem_value (semas s (lock_semaphore l)) = 1" "\<And>u. u \<in> T \<Longrightarrow> \<not> owns s pc l u"
    using assms by (simp_all add: lock_inv_def)
  have "holder (locks s l) \<noteq> NULL \<longrightarrow> holder (locks s l) \<in> T"
    using assms(1) by (simp add: lock_inv_def)
  then show "holder (locks s l) = NULL"
    using 1(2) [of "holder (locks s l)"] by (auto simp: owns_def)
qed

lemma sema_down_acquires:
  assumes inv: "sync_inv T L s pc rq wq" and l: "l \<in> L"
    and val: "sem_value (semas s (lock_semaphore l)) \<noteq> 0"
    and pc: "pc (current_task s) = Outside \<or> in_down pc l (current_task s)"
    and cur: "current_task s \<noteq> idle_thread s"
  shows "\<exists>s'. sema_down_round (lock_semaphore l) s = Some (Acquired, s') \<and>
    current_task s' = current_task s \<and> locks s' = locks s \<and> sync_inv T L s' (pc(current_task s := Got l)) rq wq"
proof -
  let ?c = "current_task s" and ?p = "lock_semaphore l" and ?pc = "pc(current_task s := Got l)"
  let ?s = "upd_sema ?p (\<lambda>m. m\<lparr>sem_value := sem_value m - 1\<rparr>) s"
  note li = sync_invD(4) [OF inv l] and v = lock_value_1 [OF sync_invD(4) [OF inv l] val]
  have run: "sema_down_round ?p s = Some (Acquired, ?s)"
    using val v(1) by (simp add: sema_down_round_def)
  have t: "tasks_inv T ?s rq"
    by (rule tasks_inv_cong [OF sync_invD(1) [OF inv]]) auto
  have cT: "?c \<in> T" "?c \<noteq> NULL"
    using tasks_invD(3) [OF sync_invD(1) [OF inv]] sync_invD(2) [OF inv] by auto
  have own: "owns ?s ?pc l u \<longleftrightarrow> u = ?c" if "u \<in> T" for u
    using v(2) [OF that] v(3) cT(2) by (auto simp: owns_def)
  have "?c \<notin> set (wq l)"
    using waiter_not_ready(1) [OF inv l] by auto
  then have "lock_inv T ?s ?pc rq (wq l) l"
    using li v cT own unfolding lock_inv_def in_down_upd by auto
  moreover have "lock_inv T ?s ?pc rq (wq l') l'" if "l' \<in> L" "l' \<noteq> l" for l'
    by (rule lock_inv_frame [OF sync_invD(4) [OF inv that(1)]])
      (use that(2) pc in \<open>auto simp: in_down_def split: position.splits\<close>)
  ultimately show ?thesis
    using run t sync_invD(2,3) [OF inv] cur by (auto simp: sync_inv_def)
qed

lemma sema_down_waits:
  assumes inv: "sync_inv T L s pc rq wq" and l: "l \<in> L"
    and val: "sem_value (semas s (lock_semaphore l)) = 0"
    and pc: "pc (current_task s) = Outside \<or> in_down pc l (current_task s)"
    and cur: "current_task s \<noteq> idle_thread s"
  shows "\<exists>s' rq'. sema_down_round (lock_semaphore l) s = Some (Waiting (get_intr_status s), s') \<and>
    sync_inv T L s' (pc(current_task s := In_down l old (get_intr_status s))) rq' (wq(l := wq l @ [current_task s]))"
proof -
  let ?c = "current_task s" and ?p = "lock_semaphore l" and ?i = "get_intr_status s"
  let ?pc = "pc(?c := In_down l old ?i)" and ?A = "insert (idle_thread s) (set (?c # rq))"
  obtain h q where hq: "queue_in (nodes s) (waiter_queue (semas s ?p)) (thread_dispatch_queue ?c) = Some (h, q)"
      "queue_rep h q (map thread_dispatch_queue (wq l @ [?c]))"
      "\<And>t. t \<notin> set (?c # wq l) \<Longrightarrow> h (thread_dispatch_queue t) = nodes s (thread_dispatch_queue t)"
    using waiter_in [OF inv l] by blast
  let ?s = "upd_sema ?p (waiter_queue_update (\<lambda>_. q)) (s\<lparr>nodes := h\<rparr>)"
  have cT: "?c \<in> T" "?c \<notin> set rq"
    using tasks_invD(3) [OF sync_invD(1) [OF inv]] sched_okD(3) [OF tasks_invD(1) [OF sync_invD(1) [OF inv]]] by auto
  have w: "t \<notin> ?A" "t \<in> T" "in_down pc k t" "status (tasks s t) = TASK_BLOCKED" if "k \<in> L" "t \<in> set (wq k)" for k t
    using waiter_not_ready [OF inv that] by auto
  have "tasks_inv T ?s rq"
  proof (rule tasks_inv_cong [OF sync_invD(1) [OF inv]])
    fix t assume "t \<in> set rq"
    then have "t \<notin> set (?c # wq l)"
      using cT(2) w(1) [OF l] by auto
    then show "nodes ?s (thread_dispatch_queue t) = nodes s (thread_dispatch_queue t)"
      using hq(3) by simp
  qed auto
  then obtain s' rq' where s': "thread_block TASK_BLOCKED ?s = Some (?i, s')" "tasks_inv T s' rq'"
      "set rq \<subseteq> set (current_task s' # rq')" "switch_frame ?A ?s s'" "status (tasks s' ?c) = TASK_BLOCKED"
      "nodes s' (thread_dispatch_queue ?c) = h (thread_dispatch_queue ?c)"
    using block_inv [of T ?s rq TASK_BLOCKED] cur by (auto simp: waiting_status_def get_intr_status_def)
  have run: "sema_down_round ?p s = Some (Waiting ?i, s')"
    using val hq(1) s'(1) waiter_find [OF inv l] by (simp add: sema_down_round_def get_cur_task_def)
  have sem: "semas s' = (semas s)(?p := (semas s ?p)\<lparr>waiter_queue := q\<rparr>)" "locks s' = locks s"
    using switch_frame_sync [OF s'(4)] by simp_all
  have nodes: "nodes s' (thread_dispatch_queue t) = h (thread_dispatch_queue t)" "tasks s' t = tasks s t"
      if "t \<notin> ?A" for t
    using that s'(4) by (auto simp: switch_frame_def)
  have "lock_inv T s' ?pc rq' (wq l @ [?c]) l"
  proof -
    have rep: "queue_rep (nodes s') q (map thread_dispatch_queue (wq l @ [?c]))"
      by (rule queue_rep_cong [OF hq(2)]) (use nodes(1) w(1) [OF l] s'(6) in auto)
    have st: "t \<in> T \<and> in_down ?pc l t \<and> status (tasks s' t) = TASK_BLOCKED" if "t \<in> set (wq l @ [?c])" for t
      using that w [OF l] nodes(2) s'(5) cT(1) by (auto simp: in_down_upd)
    have own: "owns s' ?pc l u \<longleftrightarrow> owns s pc l u" for u
      using pc by (auto simp: owns_def sem in_down_def)
    show ?thesis
      using sync_invD(4) [OF inv l] rep st val unfolding lock_inv_def own by (auto simp: sem)
  qed
  moreover have "lock_inv T s' ?pc rq' (wq k) k" if k: "k \<in> L" "k \<noteq> l" for k
  proof (rule lock_inv_frame [OF sync_invD(4) [OF inv k(1)]])
    fix t assume t: "t \<in> set (wq k)"
    have "t \<notin> set (wq l)"
      using w(3) [OF l, of t] w(3) [OF k(1) t] k(2) by (auto simp: in_down_def split: position.splits)
    then show "nodes s' (thread_dispatch_queue t) = nodes s (thread_dispatch_queue t)"
      using hq(3) [of t] nodes(1) w(1) [OF k(1) t] by auto
    show "status (tasks s' t) = status (tasks s t)"
      using nodes(2) w(1) [OF k(1) t] by simp
  next
    fix t assume "t \<in> set (?c # rq)" "in_down pc k t"
    moreover have "\<not> in_down pc k ?c"
      using pc k(2) by (auto simp: in_down_def split: position.splits)
    ultimately show "t \<in> set (current_task s' # rq')"
      using s'(3) by auto
  qed (use k pc in \<open>auto simp: sem in_down_def split: position.splits\<close>)
  moreover have "idle_thread s' = idle_thread s"
    using s'(4) by (simp add: switch_frame_def)
  ultimately show ?thesis
    using run s'(2) sync_invD(2,3) [OF inv] cur by (auto simp: sync_inv_def)
qed

text \<open>Both cases of a round together.\<close>

lemma sema_down_round_inv:
  assumes "sync_inv T L s pc rq wq" and "l \<in> L"
    and "pc (current_task s) = Outside \<or> in_down pc l (current_task s)"
    and "current_task s \<noteq> idle_thread s"
  shows "\<exists>r s' rq' wq'. sema_down_round (lock_semaphore l) s = Some (r, s') \<and>
    sync_inv T L s' (pc(current_task s := after_down l (Some (old, r)))) rq' wq'"
proof (cases "sem_value (semas s (lock_semaphore l)) = 0")
  case True
  then show ?thesis
    using sema_down_waits [OF assms(1,2) True assms(3,4), of old] by fastforce
next
  case False
  then show ?thesis
    using sema_down_acquires [OF assms(1,2) False assms(3,4)] by fastforce
qed

text \<open>Taking the first waiter of \<open>l\<close> out of its queue and waking it.\<close>

lemma waiter_out:
  assumes inv: "sync_inv T L s pc rq wq" and l: "l \<in> L" and w: "wq l = b # w"
  obtains h q where "queue_out (nodes s) (waiter_queue (semas s (lock_semaphore l))) = (thread_dispatch_queue b, h, q)"
    and "queue_rep h q (map thread_dispatch_queue w)" and "b \<notin> set w"
    and "\<And>t. t \<notin> set (b # w) \<Longrightarrow> h (thread_dispatch_queue t) = nodes s (thread_dispatch_queue t)"
proof -
  have rep: "queue_rep (nodes s) (waiter_queue (semas s (lock_semaphore l))) (map thread_dispatch_queue (b # w))"
    using sync_invD(4) [OF inv l] w by (simp add: lock_inv_def)
  then have "b \<notin> set w"
    using queue_rep_distinct by fastforce
  then show thesis
    using ready_queue_out [OF rep] that by (metis dispatch_mem)
qed

lemma releasing_owner:
  assumes inv: "sync_inv T L s pc rq wq" and l: "l \<in> L" and pc: "pc (current_task s) = Releasing l"
  shows "sem_value (semas s (lock_semaphore l)) = 0" and "holder (locks s l) = NULL"
    and "\<And>u. u \<in> T \<Longrightarrow> \<not> owns s (pc(current_task s := Outside)) l u"
proof -
  let ?c = "current_task s"
  note li = sync_invD(4) [OF inv l]
  have cT: "?c \<in> T"
    using tasks_invD(3) [OF sync_invD(1) [OF inv]] .
  have own: "owns s pc l ?c"
    using pc by (simp add: owns_def)
  show v: "sem_value (semas s (lock_semaphore l)) = 0"
    using lock_value_1(2) [OF li _ cT] own by blast
  show hN: "holder (locks s l) = NULL"
    using li cT pc by (simp add: lock_inv_def)
  fix u assume "u \<in> T"
  obtain t where "\<And>u. u \<in> T \<Longrightarrow> owns s pc l u \<longleftrightarrow> u = t"
    using lock_value_0 [OF li v] by blast
  then have "owns s pc l u \<longleftrightarrow> u = ?c"
    using own cT \<open>u \<in> T\<close> by metis
  then show "\<not> owns s (pc(?c := Outside)) l u"
    using hN \<open>u \<in> T\<close> sync_invD(2) [OF inv] by (auto simp: owns_def)
qed

lemma sema_up_empty:
  assumes inv: "sync_inv T L s pc rq wq" and l: "l \<in> L" and pc: "pc (current_task s) = Releasing l" and w: "wq l = []"
  shows "sync_inv T L (upd_sema (lock_semaphore l) (\<lambda>m. m\<lparr>sem_value := sem_value m + 1\<rparr>) s) (pc(current_task s := Outside)) rq wq"
    (is "sync_inv T L ?s ?pc rq wq")
proof -
  note r = releasing_owner [OF inv l pc]
  have own: "owns ?s ?pc l u \<longleftrightarrow> owns s ?pc l u" for u
    by (simp add: owns_def)
  have "\<forall>t \<in> T. ?pc t = Got l \<or> ?pc t = Releasing l \<longrightarrow> holder (locks s l) = NULL"
    using r(2) by simp
  then have "lock_inv T ?s ?pc rq (wq l) l"
    using sync_invD(4) [OF inv l] r w unfolding lock_inv_def own by simp
  moreover have "lock_inv T ?s ?pc rq (wq k) k" if "k \<in> L" "k \<noteq> l" for k
    by (rule lock_inv_frame [OF sync_invD(4) [OF inv that(1)]]) (use that(2) pc in auto)
  moreover have "tasks_inv T ?s rq"
    by (rule tasks_inv_cong [OF sync_invD(1) [OF inv]]) auto
  ultimately show ?thesis
    using sync_invD(2,3) [OF inv] by (auto simp: sync_inv_def)
qed

lemma sema_up_wakes:
  assumes inv: "sync_inv T L s pc rq wq" and l: "l \<in> L" and pc: "pc (current_task s) = Releasing l" and w: "wq l = b # w"
    and out: "queue_out (nodes s) (waiter_queue (semas s (lock_semaphore l))) = (x, h, q)"
  shows "\<exists>s'. x = thread_dispatch_queue b \<and>
    thread_unblock b (upd_sema (lock_semaphore l) (waiter_queue_update (\<lambda>_. q)) (s\<lparr>nodes := h\<rparr>)) = Some s' \<and>
    eflags s' = eflags s \<and> sem_value (semas s' (lock_semaphore l)) = 0 \<and>
    sync_inv T L (upd_sema (lock_semaphore l) (\<lambda>m. m\<lparr>sem_value := sem_value m + 1\<rparr>) s')
      (pc(current_task s := Outside)) (b # rq) (wq(l := w))"
proof -
  let ?c = "current_task s" and ?p = "lock_semaphore l" and ?pc = "pc(current_task s := Outside)"
  let ?s = "upd_sema ?p (waiter_queue_update (\<lambda>_. q)) (s\<lparr>nodes := h\<rparr>)"
  note r = releasing_owner [OF inv l pc]
  have hq: "x = thread_dispatch_queue b" "queue_rep h q (map thread_dispatch_queue w)" "b \<notin> set w"
      "\<And>t. t \<notin> set (b # w) \<Longrightarrow> h (thread_dispatch_queue t) = nodes s (thread_dispatch_queue t)"
    using waiter_out [OF inv l w] out by (metis prod.inject)+
  have nr: "t \<notin> insert (idle_thread s) (set (?c # rq))" "t \<in> T" "in_down pc k t" "status (tasks s t) = TASK_BLOCKED"
    if "k \<in> L" "t \<in> set (wq k)" for k t
    using waiter_not_ready [OF inv that] by auto
  have "tasks_inv T ?s rq"
  proof (rule tasks_inv_cong [OF sync_invD(1) [OF inv]])
    fix t assume "t \<in> set rq"
    then have "t \<notin> set (b # w)"
      using nr(1) [OF l, unfolded w] by auto
    then show "nodes ?s (thread_dispatch_queue t) = nodes s (thread_dispatch_queue t)"
      using hq(4) by simp
  qed auto
  moreover have b: "b \<in> T" "waiting_status (status (tasks s b))" "in_down pc l b" "b \<noteq> ?c" "b \<notin> set rq"
    using nr [OF l, unfolded w, of b] by (auto simp: waiting_status_def)
  ultimately obtain s' where s': "thread_unblock b ?s = Some s'" "tasks_inv T s' (b # rq)" "switch_frame (set (b # rq)) ?s s'"
      "current_task s' = ?c" "eflags s' = eflags s"
    using wake_inv [of T ?s rq b] by auto
  have sem: "semas s' = (semas s)(?p := (semas s ?p)\<lparr>waiter_queue := q\<rparr>)" "locks s' = locks s"
    using switch_frame_sync [OF s'(3)] by simp_all
  have frame: "nodes s' (thread_dispatch_queue t) = h (thread_dispatch_queue t)" "tasks s' t = tasks s t"
    if "t \<notin> set (b # rq)" for t
    using that s'(3) by (auto simp: switch_frame_def)
  let ?t = "upd_sema ?p (\<lambda>m. m\<lparr>sem_value := sem_value m + 1\<rparr>) s'"
  have "lock_inv T ?t ?pc (b # rq) w l"
  proof -
    have nb: "t \<notin> set (b # rq)" if "t \<in> set w" for t
      using that nr(1) [OF l, unfolded w, of t] hq(3) by auto
    have rep: "queue_rep (nodes s') q (map thread_dispatch_queue w)"
      by (rule queue_rep_cong [OF hq(2)]) (use frame(1) [OF nb] in auto)
    have wt: "t \<noteq> ?c \<and> t \<in> T \<and> in_down pc l t \<and> status (tasks s' t) = TASK_BLOCKED" if "t \<in> set w" for t
      using frame(2) [OF nb [OF that]] that nr [OF l, unfolded w, of t] by auto
    have own: "owns ?t ?pc l u \<longleftrightarrow> owns s ?pc l u" for u
      by (simp add: owns_def sem)
    have "\<forall>t \<in> T. ?pc t = Got l \<or> ?pc t = Releasing l \<longrightarrow> holder (locks s l) = NULL"
      using r(2) by simp
    then show ?thesis
      using sync_invD(4) [OF inv l] r rep wt b(3,4) unfolding lock_inv_def own by (simp add: sem in_down_upd)
  qed
  moreover have "lock_inv T ?t ?pc (b # rq) (wq k) k" if k: "k \<in> L" "k \<noteq> l" for k
  proof (rule lock_inv_frame [OF sync_invD(4) [OF inv k(1)]])
    fix t assume t: "t \<in> set (wq k)"
    have "t \<notin> set (b # w)"
      using nr(3) [OF l, of t] nr(3) [OF k(1) t] k(2) unfolding w by (auto simp: in_down_def split: position.splits)
    then show "nodes ?t (thread_dispatch_queue t) = nodes s (thread_dispatch_queue t)"
        "status (tasks ?t t) = status (tasks s t)"
      using hq(4) [of t] frame [of t] nr(1) [OF k(1) t] by auto
  qed (use k pc s'(4) in \<open>auto simp: sem\<close>)
  moreover have "tasks_inv T ?t (b # rq)"
    by (rule tasks_inv_cong [OF s'(2)]) auto
  moreover have "idle_thread s' = idle_thread s"
    using s'(3) by (simp add: switch_frame_def)
  ultimately have "sync_inv T L ?t ?pc (b # rq) (wq(l := w))"
    using sync_invD(2,3) [OF inv] by (auto simp: sync_inv_def)
  then show ?thesis
    using hq(1) s'(1,5) r(1) sem by simp
qed

lemma sema_up_inv:
  assumes inv: "sync_inv T L s pc rq wq" and l: "l \<in> L" and pc: "pc (current_task s) = Releasing l"
  shows "\<exists>s' rq' wq'. sema_up (lock_semaphore l) s = Some s' \<and> eflags s' = eflags s \<and>
    rq' = take 1 (wq l) @ rq \<and> wq' = wq(l := drop 1 (wq l)) \<and>
    sync_inv T L s' (pc(current_task s := Outside)) rq' wq'"
proof -
  let ?p = "lock_semaphore l" and ?pc = "pc(current_task s := Outside)"
  have inv': "sync_inv T L (cli s) pc rq wq" and pc': "pc (current_task (cli s)) = Releasing l"
    using inv pc by simp_all
  have v: "sem_value (semas s ?p) = 0"
    using releasing_owner(1) [OF inv l pc] .
  have qe: "queue_empty (waiter_queue (semas s ?p)) \<longleftrightarrow> wq l = []"
    using sync_invD(4) [OF inv l] queue_rep_len [of "nodes s" "waiter_queue (semas s ?p)" "map thread_dispatch_queue (wq l)"]
    by (simp add: lock_inv_def queue_empty_def)
  show ?thesis
  proof (cases "wq l")
    case Nil
    let ?s = "upd_sema ?p (\<lambda>m. m\<lparr>sem_value := sem_value m + 1\<rparr>) (cli s)"
    have "sema_up ?p s = Some (set_intr_status (get_intr_status s) ?s)"
      using v qe Nil by (simp add: sema_up_def local_irq_disable_eq)
    moreover have "eflags (set_intr_status (get_intr_status s) ?s) = eflags s"
      by (simp add: irq_restore_eflags)
    moreover have "wq = wq(l := drop 1 (wq l))"
      using Nil by auto
    ultimately show ?thesis
      using sema_up_empty [OF inv' l pc' Nil] Nil by fastforce
  next
    case (Cons b w)
    obtain x h q where out: "queue_out (nodes s) (waiter_queue (semas s ?p)) = (x, h, q)"
      by (cases "queue_out (nodes s) (waiter_queue (semas s ?p))")
    obtain s' where s': "x = thread_dispatch_queue b"
        "thread_unblock b (upd_sema ?p (waiter_queue_update (\<lambda>_. q)) ((cli s)\<lparr>nodes := h\<rparr>)) = Some s'"
        "eflags s' = eflags (cli s)" "sem_value (semas s' ?p) = 0"
        "sync_inv T L (upd_sema ?p (\<lambda>m. m\<lparr>sem_value := sem_value m + 1\<rparr>) s') ?pc (b # rq) (wq(l := w))"
      using sema_up_wakes [OF inv' l pc' Cons] out by auto
    let ?s = "upd_sema ?p (\<lambda>m. m\<lparr>sem_value := sem_value m + 1\<rparr>) s'"
    have "sema_up ?p s = Some (set_intr_status (get_intr_status s) ?s)"
      using v qe Cons out s'(1,2,4) by (simp add: sema_up_def local_irq_disable_eq)
    moreover have "eflags (set_intr_status (get_intr_status s) ?s) = eflags s"
      using irq_restore_eflags [of ?s s] s'(3) by simp
    moreover have "sync_inv T L (set_intr_status (get_intr_status s) ?s) ?pc (b # rq) (wq(l := w))"
      using s'(5) by simp
    ultimately show ?thesis
      using Cons by (intro exI [of _ "set_intr_status (get_intr_status s) ?s"] exI [of _ "b # rq"]
        exI [of _ "wq(l := w)"]) simp
  qed
qed

lemma take_inv:
  assumes inv: "sync_inv T L s pc rq wq" and l: "l \<in> L" and pc: "pc (current_task s) = Got l"
  shows "\<exists>s'. lock_acquire_take l s = Some s' \<and> holder (locks s' l) = current_task s \<and>
    sync_inv T L s' (pc(current_task s := Outside)) rq wq"
proof -
  let ?c = "current_task s" and ?pc = "pc(current_task s := Outside)"
  let ?s = "upd_lock l (holder_repeat_cnt_update (\<lambda>_. 1)) (upd_lock l (holder_update (\<lambda>_. ?c)) s)"
  note li = sync_invD(4) [OF inv l]
  have cT: "?c \<in> T" "?c \<noteq> NULL"
    using tasks_invD(3) [OF sync_invD(1) [OF inv]] sync_invD(2) [OF inv] by auto
  have hN: "holder (locks s l) = NULL" "holder_repeat_cnt (locks s l) = 0"
    using li cT pc by (auto simp: lock_inv_def)
  have v: "sem_value (semas s (lock_semaphore l)) = 0"
    using lock_value_1(2) [OF li _ cT(1)] pc by (auto simp: owns_def)
  obtain t where t: "\<And>u. u \<in> T \<Longrightarrow> owns s pc l u \<longleftrightarrow> u = t"
    using lock_value_0 [OF li v] by blast
  have "t = ?c"
    using t [OF cT(1)] pc by (simp add: owns_def)
  have got: "u = ?c" if "u \<in> T" and "pc u = Got l \<or> pc u = Releasing l" for u
    using t [OF that(1)] that(2) \<open>t = ?c\<close> by (simp add: owns_def)
  have own: "owns ?s ?pc l u \<longleftrightarrow> u = ?c" if "u \<in> T" for u
  proof (cases "u = ?c")
    case False
    then have "pc u \<noteq> Got l" "pc u \<noteq> Releasing l" "?c \<noteq> u"
      using got [OF that] by blast+
    with False show ?thesis
      by (simp add: owns_def)
  qed (simp add: owns_def)
  have "lock_inv T ?s ?pc rq (wq l) l"
    unfolding lock_inv_def
  proof (intro conjI)
    show "\<forall>t \<in> set (wq l). t \<in> T \<and> in_down ?pc l t \<and> status (tasks ?s t) = TASK_BLOCKED"
      using waiter_not_ready [OF inv l] by (auto simp: in_down_upd)
    show "\<forall>t \<in> T. ?pc t = Got l \<or> ?pc t = Releasing l \<longrightarrow> holder (locks ?s l) = NULL"
    proof (intro ballI impI)
      fix u assume u: "u \<in> T" "?pc u = Got l \<or> ?pc u = Releasing l"
      have "u \<noteq> ?c"
        using u(2) by (cases "u = ?c") simp_all
      then show "holder (locks ?s l) = NULL"
        using got [OF u(1)] u(2) by simp
    qed
    show "if sem_value (semas ?s (lock_semaphore l)) = 0 then \<exists>t \<in> T. \<forall>u \<in> T. owns ?s ?pc l u \<longleftrightarrow> u = t
        else sem_value (semas ?s (lock_semaphore l)) = 1 \<and> (\<forall>u \<in> T. \<not> owns ?s ?pc l u)"
      using v cT(1) own by (simp only: upd_lock_simps if_True simp_thms) blast
  qed (use li cT v in \<open>simp_all add: lock_inv_def\<close>)
  moreover have "lock_inv T ?s ?pc rq (wq k) k" if "k \<in> L" "k \<noteq> l" for k
    by (rule lock_inv_frame [OF sync_invD(4) [OF inv that(1)]]) (use that(2) pc in auto)
  moreover have "tasks_inv T ?s rq"
    by (rule tasks_inv_cong [OF sync_invD(1) [OF inv]]) auto
  ultimately have "sync_inv T L ?s ?pc rq wq"
    using sync_invD(2,3) [OF inv] by (auto simp: sync_inv_def)
  moreover have "lock_acquire_take l s = Some ?s"
    using hN by (simp add: lock_acquire_take_def get_cur_task_def)
  ultimately show ?thesis
    by (intro exI [of _ ?s]) simp
qed

lemma holder_owner:
  assumes inv: "sync_inv T L s pc rq wq" and l: "l \<in> L" and h: "holder (locks s l) = current_task s"
  shows "sem_value (semas s (lock_semaphore l)) = 0" and "holder_repeat_cnt (locks s l) \<noteq> 0"
    and "\<And>u. u \<in> T \<Longrightarrow> owns s pc l u \<longleftrightarrow> u = current_task s"
    and "\<And>u. u \<in> T \<Longrightarrow> pc u \<noteq> Got l \<and> pc u \<noteq> Releasing l"
proof -
  let ?c = "current_task s"
  note li = sync_invD(4) [OF inv l]
  have cT: "?c \<in> T" "?c \<noteq> NULL"
    using tasks_invD(3) [OF sync_invD(1) [OF inv]] sync_invD(2) [OF inv] by auto
  show v: "sem_value (semas s (lock_semaphore l)) = 0"
    using lock_value_1(3) [OF li] h cT(2) by auto
  show "holder_repeat_cnt (locks s l) \<noteq> 0"
    using li h cT(2) by (simp add: lock_inv_def)
  show "pc u \<noteq> Got l \<and> pc u \<noteq> Releasing l" if "u \<in> T" for u
    using li h cT(2) that by (simp add: lock_inv_def)
  obtain t where t: "\<And>u. u \<in> T \<Longrightarrow> owns s pc l u \<longleftrightarrow> u = t"
    using lock_value_0 [OF li v] by blast
  show "owns s pc l u \<longleftrightarrow> u = ?c" if "u \<in> T" for u
    using t [OF that] t [OF cT(1)] h by (simp add: owns_def)
qed

text \<open>Changing the count of a lock the current task holds.\<close>

lemma count_inv:
  assumes inv: "sync_inv T L s pc rq wq" and l: "l \<in> L" and h: "holder (locks s l) = current_task s"
    and f: "f (holder_repeat_cnt (locks s l)) \<noteq> 0"
  shows "sync_inv T L (upd_lock l (\<lambda>m. m\<lparr>holder_repeat_cnt := f (holder_repeat_cnt m)\<rparr>) s) pc rq wq" (is "sync_inv T L ?s pc rq wq")
proof -
  have own: "owns ?s pc l u \<longleftrightarrow> owns s pc l u" for u
    by (simp add: owns_def)
  have "lock_inv T ?s pc rq (wq l) l"
    using sync_invD(4) [OF inv l] holder_owner(2,4) [OF inv l h] f unfolding lock_inv_def own by simp
  moreover have "lock_inv T ?s pc rq (wq k) k" if "k \<in> L" "k \<noteq> l" for k
    by (rule lock_inv_frame [OF sync_invD(4) [OF inv that(1)]]) (use that(2) in auto)
  moreover have "tasks_inv T ?s rq"
    by (rule tasks_inv_cong [OF sync_invD(1) [OF inv]]) auto
  ultimately show ?thesis
    using sync_invD(2,3) [OF inv] by (auto simp: sync_inv_def)
qed

lemma drop_holder_inv:
  assumes inv: "sync_inv T L s pc rq wq" and l: "l \<in> L" and h: "holder (locks s l) = current_task s"
    and pc: "pc (current_task s) = Outside" and cur: "current_task s \<noteq> idle_thread s"
  shows "sync_inv T L (upd_lock l (holder_repeat_cnt_update (\<lambda>_. 0)) (upd_lock l (holder_update (\<lambda>_. NULL)) s))
           (pc(current_task s := Releasing l)) rq wq" (is "sync_inv T L ?s ?pc rq wq")
proof -
  let ?c = "current_task s"
  note o = holder_owner [OF inv l h]
  have cT: "?c \<in> T" "NULL \<notin> T"
    using tasks_invD(3) [OF sync_invD(1) [OF inv]] sync_invD(2) [OF inv] by auto
  have own: "owns ?s ?pc l u \<longleftrightarrow> u = ?c" if "u \<in> T" for u
    using o(4) [OF that] that cT(2) by (cases "u = ?c") (auto simp: owns_def)
  have "lock_inv T ?s ?pc rq (wq l) l"
    unfolding lock_inv_def
  proof (intro conjI)
    show "\<forall>t \<in> set (wq l). t \<in> T \<and> in_down ?pc l t \<and> status (tasks ?s t) = TASK_BLOCKED"
      using waiter_not_ready [OF inv l] by (auto simp: in_down_upd)
    show "if sem_value (semas ?s (lock_semaphore l)) = 0 then \<exists>t \<in> T. \<forall>u \<in> T. owns ?s ?pc l u \<longleftrightarrow> u = t
        else sem_value (semas ?s (lock_semaphore l)) = 1 \<and> (\<forall>u \<in> T. \<not> owns ?s ?pc l u)"
      using o(1) cT(1) own by (simp only: upd_lock_simps if_True simp_thms) blast
  qed (use sync_invD(4) [OF inv l] o(1) in \<open>simp_all add: lock_inv_def\<close>)
  moreover have "lock_inv T ?s ?pc rq (wq k) k" if "k \<in> L" "k \<noteq> l" for k
    by (rule lock_inv_frame [OF sync_invD(4) [OF inv that(1)]]) (use that(2) pc in auto)
  moreover have "tasks_inv T ?s rq"
    by (rule tasks_inv_cong [OF sync_invD(1) [OF inv]]) auto
  ultimately show ?thesis
    using sync_invD(2,3) [OF inv] cur by (auto simp: sync_inv_def)
qed

lemma release_inv:
  assumes inv: "sync_inv T L s pc rq wq" and l: "l \<in> L" and h: "holder (locks s l) = current_task s"
    and pc: "pc (current_task s) = Outside" and cur: "current_task s \<noteq> idle_thread s"
  shows "\<exists>fin s'. lock_release_begin l s = Some (fin, s') \<and>
           sync_inv T L s' (pc(current_task s := (if fin then Outside else Releasing l))) rq wq"
proof (cases "holder_repeat_cnt (locks s l) > 1")
  case True
  let ?s = "upd_lock l (\<lambda>m. m\<lparr>holder_repeat_cnt := holder_repeat_cnt m - 1\<rparr>) s"
  have "holder_repeat_cnt (locks s l) - 1 \<noteq> 0"
    using True by auto
  then have "sync_inv T L ?s (pc(current_task s := Outside)) rq wq"
    using count_inv [OF inv l h, of "\<lambda>n. n - 1"] fun_upd_idem [of pc, OF pc] by simp
  moreover have "lock_release_begin l s = Some (True, ?s)"
    using True h by (simp add: lock_release_begin_def get_cur_task_def)
  ultimately show ?thesis
    by force
next
  case False
  then have "holder_repeat_cnt (locks s l) = 1"
    using holder_owner(2) [OF inv l h] by (simp add: word_less_nat_alt word_unat_eq_iff)
  then show ?thesis
    using False h drop_holder_inv [OF inv l h pc cur] by (force simp: lock_release_begin_def get_cur_task_def)
qed

lemma acquire_inv:
  assumes inv: "sync_inv T L s pc rq wq" and l: "l \<in> L" and pc: "pc (current_task s) = Outside"
    and cur: "current_task s \<noteq> idle_thread s" and cnt: "holder_repeat_cnt (locks s l) < 0xFFFFFFFF"
  shows "\<exists>r s' rq' wq'. lock_acquire_down l s = Some (r, s') \<and>
           sync_inv T L s' (pc(current_task s := after_down l r)) rq' wq'"
proof (cases "holder (locks s l) = current_task s")
  case True
  have "holder_repeat_cnt (locks s l) + 1 \<noteq> 0"
  proof
    assume "holder_repeat_cnt (locks s l) + 1 = 0"
    then have "holder_repeat_cnt (locks s l) = -1"
      by (simp add: eq_neg_iff_add_eq_0)
    with cnt show False
      by simp
  qed
  then have "sync_inv T L (upd_lock l (\<lambda>m. m\<lparr>holder_repeat_cnt := holder_repeat_cnt m + 1\<rparr>) s) (pc(current_task s := Outside)) rq wq"
    using count_inv [OF inv l True, of "\<lambda>n. n + 1"] fun_upd_idem [of pc, OF pc] by simp
  then show ?thesis
    using True by (intro exI [of _ None]) (auto simp: lock_acquire_down_def get_cur_task_def)
next
  case False
  have "pc (current_task (cli s)) = Outside \<or> in_down pc l (current_task (cli s))"
    using pc by simp
  then obtain r s' rq' wq' where r: "sema_down_round (lock_semaphore l) (cli s) = Some (r, s')"
      "sync_inv T L s' (pc(current_task s := after_down l (Some (get_intr_status s, r)))) rq' wq'"
    using sema_down_round_inv [of T L "cli s" pc rq wq l "get_intr_status s"] inv l cur by auto
  let ?s = "if r = Acquired then set_intr_status (get_intr_status s) s' else s'"
  have "lock_acquire_down l s = Some (Some (get_intr_status s, r), ?s)"
    using False r(1) by (simp add: lock_acquire_down_def sema_down_def local_irq_disable_eq get_cur_task_def)
  then show ?thesis
    using r(2) by force
qed

lemma resume_inv:
  assumes inv: "sync_inv T L s pc rq wq" and l: "l \<in> L" and pc: "pc (current_task s) = In_down l old i"
  shows "\<exists>r s' rq' wq'. sema_down_resume (lock_semaphore l) old i s = Some (r, s') \<and>
           sync_inv T L s' (pc(current_task s := after_down l (Some (old, r)))) rq' wq'"
proof -
  let ?s = "set_intr_status i s"
  have fields: "current_task ?s = current_task s" "idle_thread ?s = idle_thread s"
    using set_intr_status_eq [of i s] by auto
  have "sync_inv T L ?s pc rq wq" "pc (current_task ?s) = Outside \<or> in_down pc l (current_task ?s)"
      "current_task ?s \<noteq> idle_thread ?s"
    using inv pc sync_invD(3) [OF inv] by (auto simp: fields in_down_def)
  then obtain r s' rq' wq' where "sema_down_round (lock_semaphore l) ?s = Some (r, s')"
      "sync_inv T L s' (pc(current_task s := after_down l (Some (old, r)))) rq' wq'"
    using sema_down_round_inv [of T L ?s pc rq wq l old] l fields by auto
  then show ?thesis
    by (simp add: sema_down_resume_def thread_block_resume_def) fastforce
qed

lemma switch_inv:
  assumes inv: "sync_inv T L s pc rq wq" and pc: "\<forall>l. \<not> in_down pc l (current_task s)"
    and t: "tasks_inv T s' rq'" "set rq \<subseteq> set (current_task s' # rq')" "switch_frame A s s'"
      "A \<subseteq> insert (idle_thread s) (set (current_task s # rq))"
  shows "sync_inv T L s' pc rq' wq"
  by (rule sync_inv_switch [OF inv t(1,3,4)]) (use pc t(2) in auto)

lemma preempt_sync_inv:
  assumes inv: "sync_inv T L s pc rq wq" and pc: "\<forall>l. \<not> in_down pc l (current_task s)"
  shows "\<exists>s' rq'. schedule s = Some s' \<and> sync_inv T L s' pc rq' wq"
    and "\<exists>s' rq'. thread_yield s = Some (get_intr_status s, s') \<and> sync_inv T L s' pc rq' wq"
    and "current_task s = idle_thread s \<Longrightarrow>
      \<exists>s' rq'. thread_block TASK_BLOCKED s = Some (get_intr_status s, s') \<and> sync_inv T L s' pc rq' wq"
proof -
  note ti = sync_invD(1) [OF inv]
  show "\<exists>s' rq'. schedule s = Some s' \<and> sync_inv T L s' pc rq' wq"
    using preempt_inv [OF ti] switch_inv [OF inv pc] by (metis order_refl set_subset_Cons subset_insertI)
  show "\<exists>s' rq'. thread_yield s = Some (get_intr_status s, s') \<and> sync_inv T L s' pc rq' wq"
    using yield_inv [OF ti] switch_inv [OF inv pc] by (metis order_refl set_subset_Cons subset_insertI)
  show "\<exists>s' rq'. thread_block TASK_BLOCKED s = Some (get_intr_status s, s') \<and> sync_inv T L s' pc rq' wq"
    using block_inv [OF ti, of TASK_BLOCKED] switch_inv [OF inv pc] unfolding waiting_status_def by (metis order_refl)
qed

lemma lock_step_inv:
  assumes step: "lock_step L (s, pc) (s', pc')" and inv: "sync_inv T L s pc rq wq"
  shows "\<exists>rq' wq'. sync_inv T L s' pc' rq' wq'"
  using step
proof (cases rule: lock_step.cases)
  case (acquire l r)
  then show ?thesis
    using acquire_inv [OF inv acquire(2,4,3,5)] by auto
next
  case (resume l old i r)
  then show ?thesis
    using resume_inv [OF inv resume(2,3)] by auto
next
  case (take l)
  then show ?thesis
    using take_inv [OF inv take(2,3)] by auto
next
  case (release l fin)
  have "holder (locks s l) = current_task s"
    using release(5) by (simp add: lock_release_begin_def get_cur_task_def)
  then have "sync_inv T L s' pc' rq wq"
    using release(1,5) release_inv [OF inv release(2) _ release(4,3)] by auto
  then show ?thesis
    by blast
next
  case (up l)
  then show ?thesis
    using sema_up_inv [OF inv up(2,3)] by auto
next
  case preempt
  then show ?thesis
    using preempt_sync_inv(1) [OF inv preempt(2)] by auto
next
  case (yield i)
  then show ?thesis
    using preempt_sync_inv(2) [OF inv yield(2)] by auto
next
  case (idle i)
  have "\<forall>l. \<not> in_down pc l (current_task s)"
    using sync_invD(3) [OF inv] idle(2) by (simp add: in_down_def)
  then show ?thesis
    using idle preempt_sync_inv(3) [OF inv] by auto
qed

lemma lock_steps_inv:
  assumes "(lock_step L)\<^sup>*\<^sup>* (s, pc) (s', pc')" and "sync_inv T L s pc rq wq"
  shows "\<exists>rq' wq'. sync_inv T L s' pc' rq' wq'"
  using assms
proof (induction "(s', pc')" arbitrary: s' pc' rule: rtranclp_induct)
  case (step y)
  then show ?case
    using lock_step_inv by (cases y) blast
qed blast

section \<open>Initialisation and the uncontended case\<close>

lemma lock_init_eq:
  "lock_init l s = s\<lparr>locks := (locks s)(l := (locks s l)\<lparr>holder := NULL, holder_repeat_cnt := 0\<rparr>),
     semas := (semas s)(lock_semaphore l := (semas s (lock_semaphore l))\<lparr>sem_value := 1, waiter_queue := queue_init\<rparr>)\<rparr>"
  by (simp add: lock_init_def sema_init_def upd_lock_def upd_sema_def Let_def)

lemma lock_init_inv:
  assumes inv: "sync_inv T L s pc rq wq" and l: "l \<notin> L" and pc: "\<And>t. \<not> mentions (pc t) l"
  shows "sync_inv T (insert l L) (lock_init l s) pc rq (wq(l := []))" (is "sync_inv T _ ?s pc rq _")
proof -
  have none: "pc t \<noteq> Got l" "pc t \<noteq> Releasing l" for t
    using pc [of t] by auto
  have "lock_inv T ?s pc rq [] l"
    using sync_invD(2) [OF inv] none by (auto simp: lock_inv_def owns_def lock_init_eq queue_rep_Nil)
  moreover have "lock_inv T ?s pc rq (wq k) k" if "k \<in> L" for k
    by (rule lock_inv_frame [OF sync_invD(4) [OF inv that]]) (use that l in \<open>auto simp: lock_init_eq\<close>)
  moreover have "tasks_inv T ?s rq"
    by (rule tasks_inv_cong [OF sync_invD(1) [OF inv]]) (auto simp: lock_init_eq)
  ultimately show ?thesis
    using sync_invD(2,3) [OF inv] l by (auto simp: sync_inv_def lock_init_eq)
qed

text \<open>A lock nobody holds or waits for.\<close>

definition lock_free :: "u32 \<Rightarrow> 'a sync_state_scheme \<Rightarrow> bool" where
  "lock_free l s \<longleftrightarrow>
     holder (locks s l) = NULL \<and> holder_repeat_cnt (locks s l) = 0 \<and>
     semas s (lock_semaphore l) = \<lparr>sem_value = 1, waiter_queue = queue_init\<rparr> \<and> current_task s \<noteq> NULL"

definition lock_held :: "u32 \<Rightarrow> 'a sync_state_scheme \<Rightarrow> 'a sync_state_scheme" where
  "lock_held l s =
     upd_lock l (\<lambda>m. m\<lparr>holder := current_task s, holder_repeat_cnt := 1\<rparr>)
       (upd_sema (lock_semaphore l) (sem_value_update (\<lambda>_. 0)) s)"

lemma lock_acquire_free:
  assumes "lock_free l s"
  shows "lock_acquire l s = Some (None, lock_held l s)"
proof -
  let ?p = "lock_semaphore l"
  have v: "sem_value (semas s ?p) = 1" "holder (locks s l) \<noteq> current_task s" "holder_repeat_cnt (locks s l) = 0"
    using assms by (auto simp: lock_free_def)
  let ?s = "upd_sema ?p (\<lambda>m. m\<lparr>sem_value := sem_value m - 1\<rparr>) (cli s)"
  have "set_intr_status (get_intr_status s) ?s = ?s\<lparr>eflags := eflags s\<rparr>"
    by (rule irq_restore_eflags) simp
  also have "\<dots> = upd_sema ?p (sem_value_update (\<lambda>_. 0)) s"
    using v(1) by (simp add: upd_sema_def cli_def)
  finally have "lock_acquire_down l s = Some (Some (get_intr_status s, Acquired), upd_sema ?p (sem_value_update (\<lambda>_. 0)) s)"
    using v(1,2) by (simp add: lock_acquire_down_def sema_down_def sema_down_round_def local_irq_disable_eq get_cur_task_def)
  then show ?thesis
    using v(3) by (simp add: lock_acquire_def lock_acquire_take_def lock_held_def get_cur_task_def upd_lock_def upd_sema_def)
qed

lemma lock_release_held:
  assumes "holder (locks s l) = current_task s" and "holder_repeat_cnt (locks s l) = 1"
    and "semas s (lock_semaphore l) = \<lparr>sem_value = 0, waiter_queue = queue_init\<rparr>"
  shows "lock_release l s = Some (upd_lock l (\<lambda>m. m\<lparr>holder := NULL, holder_repeat_cnt := 0\<rparr>)
           (upd_sema (lock_semaphore l) (sem_value_update (\<lambda>_. 1)) s))"
proof -
  let ?p = "lock_semaphore l" and ?t = "upd_lock l (\<lambda>m. m\<lparr>holder := NULL, holder_repeat_cnt := 0\<rparr>) s"
  let ?s = "upd_sema ?p (\<lambda>m. m\<lparr>sem_value := sem_value m + 1\<rparr>) (cli ?t)"
  have b: "lock_release_begin l s = Some (False, ?t)"
    using assms(1,2) by (simp add: lock_release_begin_def get_cur_task_def upd_lock_def)
  have "set_intr_status (get_intr_status ?t) ?s = ?s\<lparr>eflags := eflags ?t\<rparr>"
    by (rule irq_restore_eflags) simp
  also have "\<dots> = upd_lock l (\<lambda>m. m\<lparr>holder := NULL, holder_repeat_cnt := 0\<rparr>) (upd_sema ?p (sem_value_update (\<lambda>_. 1)) s)"
    using assms(3) by (simp add: upd_sema_def cli_def upd_lock_def)
  finally show ?thesis
    using b assms(3) by (simp add: lock_release_def sema_up_def local_irq_disable_eq queue_empty_def queue_init_def)
qed

section \<open>The interface for clients\<close>

text \<open>
  What the other components rely on: a free lock is acquired at once, releasing it gives back the
  state, and so a critical section whose body does not touch the lock has the effect of its body.
\<close>

locale mutex =
  fixes free :: "'l \<Rightarrow> 's \<Rightarrow> bool"
    and held :: "'l \<Rightarrow> 's \<Rightarrow> 's"
    and acquire :: "'l \<Rightarrow> 's \<Rightarrow> ('w option \<times> 's) option"
    and release :: "'l \<Rightarrow> 's \<Rightarrow> 's option"
  assumes acquire_free: "free l s \<Longrightarrow> acquire l s = Some (None, held l s)"
    and release_held: "free l s \<Longrightarrow> release l (held l s) = Some s"
begin

lemma critical_section:
  assumes "free l s" and "f (held l s) = Some (r, held l s')" and "free l s'"
  shows "do { (w, s1) \<leftarrow> acquire l s; (r, s2) \<leftarrow> f s1; s3 \<leftarrow> release l s2; Some (r, s3) } = Some (r, s')"
  using assms by (simp add: acquire_free release_held)

lemma acquire_release:
  "free l s \<Longrightarrow> do { (w, s1) \<leftarrow> acquire l s; release l s1 } = Some s"
  by (simp add: acquire_free release_held)

end

interpretation klock: mutex lock_free lock_held lock_acquire lock_release
proof unfold_locales
  fix l :: u32 and s :: "'a sync_state_scheme"
  assume free: "lock_free l s"
  then show "lock_acquire l s = Some (None, lock_held l s)"
    by (rule lock_acquire_free)
  have "lock_release l (lock_held l s) = Some (upd_lock l (\<lambda>m. m\<lparr>holder := NULL, holder_repeat_cnt := 0\<rparr>)
           (upd_sema (lock_semaphore l) (sem_value_update (\<lambda>_. 1)) (lock_held l s)))"
    using free by (intro lock_release_held) (simp_all add: lock_held_def lock_free_def)
  moreover have "upd_lock l (\<lambda>m. m\<lparr>holder := NULL, holder_repeat_cnt := 0\<rparr>)
           (upd_sema (lock_semaphore l) (sem_value_update (\<lambda>_. 1)) (lock_held l s)) = s"
  proof -
    have "(locks s l)\<lparr>holder := NULL, holder_repeat_cnt := 0\<rparr> = locks s l"
      using free by (simp add: lock_free_def)
    moreover have "(semas s (lock_semaphore l))\<lparr>sem_value := 1\<rparr> = semas s (lock_semaphore l)"
      using free by (simp add: lock_free_def)
    ultimately show ?thesis
      by (simp add: lock_held_def upd_lock_def upd_sema_def)
  qed
  ultimately show "lock_release l (lock_held l s) = Some s"
    by simp
qed

section \<open>Properties\<close>

text \<open>
  C1: Mutual exclusion. In every state reachable by any interleaving of lock operations, preemptions,
  yields and idling, at most one task is inside the section a lock protects (it holds the lock, or
  it is about to write itself as the holder, or it is about to give the semaphore back), and the
  semaphore of the lock is 0 exactly when there is one; its value is never above 1.
\<close>

theorem lock_mutual_exclusion:
  assumes "sync_inv T L s pc rq wq" and "(lock_step L)\<^sup>*\<^sup>* (s, pc) (s', pc')" and "l \<in> L"
  shows "(\<forall>t \<in> T. \<forall>u \<in> T. owns s' pc' l t \<longrightarrow> owns s' pc' l u \<longrightarrow> t = u) \<and>
         (sem_value (semas s' (lock_semaphore l)) = 0 \<longleftrightarrow> (\<exists>t \<in> T. owns s' pc' l t)) \<and>
         sem_value (semas s' (lock_semaphore l)) \<le> 1"
proof -
  obtain rq' wq' where "sync_inv T L s' pc' rq' wq'"
    using lock_steps_inv [OF assms(2,1)] by blast
  then have li: "lock_inv T s' pc' rq' (wq' l) l"
    using sync_invD(4) assms(3) by blast
  show ?thesis
  proof (cases "sem_value (semas s' (lock_semaphore l)) = 0")
    case True
    then show ?thesis
      using lock_value_0 [OF li True] by (metis word_zero_le)
  next
    case False
    then show ?thesis
      using lock_value_1 [OF li False] by simp
  qed
qed

text \<open>
  C11: No operation of a reachable state fails an assertion. The current task, wherever it was
  interrupted, can make its next step: acquire a lock (below \<open>2^32 - 1\<close> nested acquisitions), go on in
  \<open>sema_down\<close> after it was woken, write itself as the holder, release a lock it holds, give the
  semaphore back, or be preempted.
\<close>

theorem lock_operations_return:
  assumes "sync_inv T L s0 pc0 rq0 wq0" and "(lock_step L)\<^sup>*\<^sup>* (s0, pc0) (s, pc)" and "l \<in> L"
  defines "c \<equiv> current_task s"
  shows "(pc c = Outside \<longrightarrow> c \<noteq> idle_thread s \<longrightarrow> holder_repeat_cnt (locks s l) < 0xFFFFFFFF \<longrightarrow>
            lock_acquire_down l s \<noteq> None) \<and>
         (\<forall>old i. pc c = In_down l old i \<longrightarrow> sema_down_resume (lock_semaphore l) old i s \<noteq> None) \<and>
         (pc c = Got l \<longrightarrow> lock_acquire_take l s \<noteq> None) \<and>
         (pc c = Outside \<longrightarrow> c \<noteq> idle_thread s \<longrightarrow> holder (locks s l) = c \<longrightarrow> lock_release_begin l s \<noteq> None) \<and>
         (pc c = Releasing l \<longrightarrow> sema_up (lock_semaphore l) s \<noteq> None) \<and>
         schedule s \<noteq> None"
proof -
  obtain rq wq where inv: "sync_inv T L s pc rq wq"
    using lock_steps_inv [OF assms(2,1)] by blast
  have "schedule s \<noteq> None"
    using preempt_inv [OF sync_invD(1) [OF inv]] by auto
  moreover have "sema_down_resume (lock_semaphore l) old i s \<noteq> None" if "pc c = In_down l old i" for old i
    using resume_inv [OF inv assms(3) that [unfolded c_def]] by auto
  moreover have "lock_acquire_take l s \<noteq> None" if "pc c = Got l"
    using take_inv [OF inv assms(3) that [unfolded c_def]] by auto
  moreover have "sema_up (lock_semaphore l) s \<noteq> None" if "pc c = Releasing l"
    using sema_up_inv [OF inv assms(3) that [unfolded c_def]] by auto
  moreover have "lock_acquire_down l s \<noteq> None"
    if "pc c = Outside" "c \<noteq> idle_thread s" "holder_repeat_cnt (locks s l) < 0xFFFFFFFF"
    using acquire_inv [OF inv assms(3) that [unfolded c_def]] by auto
  moreover have "lock_release_begin l s \<noteq> None" if "pc c = Outside" "c \<noteq> idle_thread s" "holder (locks s l) = c"
    using release_inv [OF inv assms(3) that(3,1,2) [unfolded c_def]] by auto
  ultimately show ?thesis
    by blast
qed

text \<open>
  C12: No wake-up is lost. In a reachable state every task in the waiter queue of a lock is blocked
  inside \<open>sema_down\<close> of this lock, and while the queue is not empty either some task owns the lock, or
  a task that was woken is running or ready and will test the semaphore again.
\<close>

theorem no_lost_wakeup:
  assumes "sync_inv T L s pc rq wq" and "(lock_step L)\<^sup>*\<^sup>* (s, pc) (s', pc')" and "l \<in> L"
  shows "\<exists>rq' w. sched_ok s' rq' \<and>
           queue_rep (nodes s') (waiter_queue (semas s' (lock_semaphore l))) (map thread_dispatch_queue w) \<and>
           (\<forall>t \<in> set w. in_down pc' l t \<and> status (tasks s' t) = TASK_BLOCKED) \<and>
           (w \<noteq> [] \<longrightarrow> (\<exists>t \<in> T. owns s' pc' l t) \<or> (\<exists>t \<in> set (current_task s' # rq'). in_down pc' l t))"
proof -
  obtain rq' wq' where inv: "sync_inv T L s' pc' rq' wq'"
    using lock_steps_inv [OF assms(2,1)] by blast
  note li = sync_invD(4) [OF inv assms(3)]
  have "sched_ok s' rq'"
    using tasks_invD(1) [OF sync_invD(1) [OF inv]] .
  moreover have "queue_rep (nodes s') (waiter_queue (semas s' (lock_semaphore l))) (map thread_dispatch_queue (wq' l))"
    "\<forall>t \<in> set (wq' l). in_down pc' l t \<and> status (tasks s' t) = TASK_BLOCKED"
    "wq' l \<noteq> [] \<longrightarrow> sem_value (semas s' (lock_semaphore l)) = 0 \<or> (\<exists>t \<in> set (current_task s' # rq'). in_down pc' l t)"
    using li by (simp_all add: lock_inv_def)
  moreover have "\<exists>t \<in> T. owns s' pc' l t" if "sem_value (semas s' (lock_semaphore l)) = 0"
    using lock_value_0 [OF li that] by metis
  ultimately show ?thesis
    by blast
qed

text \<open>
  Releasing a contended lock wakes its longest waiting task: \<open>sema_up\<close> by the releasing task takes
  the first waiter out of the queue, makes it the first ready task, leaves the others in their order and
  restores the interrupt state.
\<close>

theorem sema_up_wakes_first:
  assumes "sync_inv T L s pc rq wq" and "l \<in> L" and "pc (current_task s) = Releasing l" and "wq l = b # w"
  shows "\<exists>s'. sema_up (lock_semaphore l) s = Some s' \<and>
           sync_inv T L s' (pc(current_task s := Outside)) (b # rq) (wq(l := w)) \<and>
           status (tasks s' b) = TASK_READY \<and> eflags s' = eflags s"
proof -
  obtain s' where s': "sema_up (lock_semaphore l) s = Some s'" "eflags s' = eflags s"
      "sync_inv T L s' (pc(current_task s := Outside)) (b # rq) (wq(l := w))"
    using sema_up_inv [OF assms(1-3)] assms(4) by auto
  have "status (tasks s' b) = TASK_READY"
    using sched_okD(2) [OF tasks_invD(1) [OF sync_invD(1) [OF s'(3)]], of b] by simp
  with s' show ?thesis
    by blast
qed

text \<open>
  An initialised lock is free, a free lock is acquired without waiting and leaves the current task
  as its holder, and releasing it gives back exactly the state before the acquisition.
\<close>

theorem lock_acquire_release:
  assumes "current_task s \<noteq> NULL"
  shows "lock_free l (lock_init l s) \<and>
         (lock_free l s \<longrightarrow> (\<exists>s1. lock_acquire l s = Some (None, s1) \<and> holder (locks s1 l) = current_task s \<and>
            sem_value (semas s1 (lock_semaphore l)) = 0 \<and> lock_release l s1 = Some s))"
proof -
  have "lock_free l (lock_init l s)"
    using assms by (simp add: lock_free_def lock_init_eq)
  moreover have "holder (locks (lock_held l s) l) = current_task s" "sem_value (semas (lock_held l s) (lock_semaphore l)) = 0"
    by (simp_all add: lock_held_def)
  ultimately show ?thesis
    using klock.acquire_free klock.release_held by blast
qed

text \<open>
  A contended lock at \<open>0x5000\<close>: the task \<open>0x1000\<close> is about to give it back, \<open>0x2000\<close> waits for it, the
  idle thread \<open>0x3000\<close> is ready.
\<close>

definition demo_sync :: sync_state where
  "demo_sync = \<lparr>screen = [], eflags = 0x202,
     nodes = (\<lambda>_. \<lparr>l_prev = 0, l_next = 0\<rparr>)(0x2034 := \<lparr>l_prev = 0x2034, l_next = 0x2034\<rparr>,
                                       0x3034 := \<lparr>l_prev = 0x3034, l_next = 0x3034\<rparr>),
     tasks = (\<lambda>_. demo_task TASK_READY)(0x1000 := demo_task TASK_RUNNING, 0x2000 := demo_task TASK_BLOCKED),
     main_thread = 0x1000, idle_thread = 0x3000,
     thread_ready_queue = \<lparr>front = 0x3034, queue_len = 1\<rparr>, thread_total_list = 0x500, current_task = 0x1000,
     global_ticks = 0,
     semas = (\<lambda>_. \<lparr>sem_value = 0, waiter_queue = \<lparr>front = 0x2034, queue_len = 1\<rparr>\<rparr>),
     locks = (\<lambda>_. \<lparr>holder = NULL, holder_repeat_cnt = 0\<rparr>)\<rparr>"

definition demo_pc :: "u32 \<Rightarrow> position" where
  "demo_pc = (\<lambda>_. Outside)(0x1000 := Releasing 0x5000, 0x2000 := In_down 0x5000 INTR_ON INTR_OFF)"

lemma demo_sync_inv: "sync_inv {0x1000, 0x2000, 0x3000} {0x5000} demo_sync demo_pc [0x3000] (\<lambda>_. [0x2000])"
proof -
  have "sched_ok demo_sync [0x3000]"
    by (simp add: sched_ok_def demo_sync_def demo_task_def queue_rep_def thread_dispatch_queue_def NULL_def)
  then have "tasks_inv {0x1000, 0x2000, 0x3000} demo_sync [0x3000]"
    by (simp add: tasks_inv_def) (simp add: demo_sync_def demo_task_def thread_dispatch_queue_def NULL_def waiting_status_def)
  moreover have "lock_inv {0x1000, 0x2000, 0x3000} demo_sync demo_pc [0x3000] [0x2000] 0x5000"
    by (simp add: lock_inv_def demo_sync_def demo_pc_def demo_task_def queue_rep_def thread_dispatch_queue_def NULL_def
      in_down_def owns_def)
  ultimately show ?thesis
    by (simp add: sync_inv_def demo_pc_def) (simp add: demo_sync_def NULL_def)
qed

lemma demo_sync_simps: "current_task demo_sync = 0x1000" "demo_pc 0x1000 = Releasing 0x5000" "idle_thread demo_sync = 0x3000"
  "locks demo_sync 0x5000 = \<lparr>holder = NULL, holder_repeat_cnt = 0\<rparr>"
  by (simp_all add: demo_sync_def demo_pc_def)

text \<open>After the release of the lock the woken task and the idle thread are ready.\<close>

lemma demo_released: "\<exists>s'. (lock_step {0x5000})\<^sup>*\<^sup>* (demo_sync, demo_pc) (s', demo_pc(0x1000 := Outside)) \<and>
    sync_inv {0x1000, 0x2000, 0x3000} {0x5000} s' (demo_pc(0x1000 := Outside)) [0x2000, 0x3000] ((\<lambda>_. [0x2000])(0x5000 := []))"
proof -
  obtain s' where s': "sema_up (lock_semaphore 0x5000) demo_sync = Some s'"
      "sync_inv {0x1000, 0x2000, 0x3000} {0x5000} s' (demo_pc(0x1000 := Outside)) [0x2000, 0x3000] ((\<lambda>_. [0x2000])(0x5000 := []))"
    using sema_up_inv [OF demo_sync_inv] by (auto simp: demo_sync_simps)
  moreover have "lock_step {0x5000} (demo_sync, demo_pc) (s', demo_pc(0x1000 := Outside))"
    using lock_step.up [of "0x5000" _ demo_pc demo_sync s'] s'(1) by (simp add: demo_sync_simps)
  ultimately show ?thesis
    by blast
qed

theorem lock_mutual_exclusion_witness:
  "\<exists>s'. (lock_step {0x5000})\<^sup>*\<^sup>* (demo_sync, demo_pc) (s', demo_pc(0x1000 := Outside)) \<and>
     sem_value (semas s' (lock_semaphore 0x5000)) \<le> 1 \<and>
     sem_value (semas demo_sync (lock_semaphore 0x5000)) = 0 \<and> owns demo_sync demo_pc 0x5000 0x1000"
proof -
  obtain s' where s': "(lock_step {0x5000})\<^sup>*\<^sup>* (demo_sync, demo_pc) (s', demo_pc(0x1000 := Outside))"
    using demo_released by blast
  have "sem_value (semas s' (lock_semaphore 0x5000)) \<le> 1"
    using lock_mutual_exclusion [OF demo_sync_inv s'] by blast
  moreover have "owns demo_sync demo_pc 0x5000 0x1000"
    by (simp add: owns_def demo_sync_simps)
  moreover from this have "sem_value (semas demo_sync (lock_semaphore 0x5000)) = 0"
    using lock_mutual_exclusion [OF demo_sync_inv rtranclp.rtrancl_refl, of "0x5000"] by blast
  ultimately show ?thesis
    using s' by blast
qed

theorem lock_operations_return_witness:
  "sema_up (lock_semaphore 0x5000) demo_sync \<noteq> None \<and> schedule demo_sync \<noteq> None"
  using lock_operations_return [OF demo_sync_inv rtranclp.rtrancl_refl, of "0x5000"] by (simp add: demo_sync_simps)

theorem no_lost_wakeup_witness:
  "\<exists>w. queue_rep (nodes demo_sync) (waiter_queue (semas demo_sync (lock_semaphore 0x5000))) (map thread_dispatch_queue w) \<and>
     (\<forall>t \<in> set w. in_down demo_pc 0x5000 t)"
  using no_lost_wakeup [OF demo_sync_inv rtranclp.rtrancl_refl, of "0x5000"] by blast

theorem sema_up_wakes_first_witness:
  "\<exists>s'. sema_up (lock_semaphore 0x5000) demo_sync = Some s' \<and> sched_ok s' [0x2000, 0x3000] \<and>
     status (tasks s' 0x2000) = TASK_READY"
  using sema_up_wakes_first [OF demo_sync_inv, of "0x5000" "0x2000" "[]"] tasks_invD(1) [OF sync_invD(1)]
  by (auto simp: demo_sync_simps)

theorem lock_acquire_release_witness:
  "\<exists>s1. lock_acquire 0x6000 (lock_init 0x6000 demo_sync) = Some (None, s1) \<and> holder (locks s1 0x6000) = 0x1000 \<and>
     lock_release 0x6000 s1 = Some (lock_init 0x6000 demo_sync)"
proof -
  have c: "current_task demo_sync \<noteq> NULL" "current_task (lock_init 0x6000 demo_sync) = 0x1000"
    by (simp_all add: demo_sync_simps lock_init_eq NULL_def)
  then have "lock_free 0x6000 (lock_init 0x6000 demo_sync)"
    using lock_acquire_release by blast
  moreover have "current_task (lock_init 0x6000 demo_sync) \<noteq> NULL"
    using c(2) by (simp add: NULL_def)
  ultimately show ?thesis
    using lock_acquire_release [of "lock_init 0x6000 demo_sync" "0x6000"] c(2) by auto
qed

end
