(* ===== verification/Ioqueue.thy ===== *)
theory Ioqueue
  imports Sync
begin

text \<open>
  The character queue of \<open>device/ioqueue.c\<close>: a ring of \<open>QUEUE_BUFF_SIZE\<close> slots with one slot left
  unused, a lock, and the tasks that wait for a character or for space. The lock of a queue is the lock
  at the queue's own address. A call that waits gives up the processor twice at most in each round
  of its loop: inside \<open>lock_acquire\<close> and inside \<open>thread_block\<close>; the model runs each operation up to
  such a point or to its end, and from there on again.
\<close>

section \<open>Data\<close>

record ioqueue =
  producer :: u32
  consumer :: u32
  buff :: "u8 list"
  ioq_front :: u32
  ioq_tail :: u32

record ioq_state = sync_state +
  ioqs :: "u32 \<Rightarrow> ioqueue"

definition QUEUE_BUFF_SIZE :: u32 where
  "QUEUE_BUFF_SIZE = 64"

definition upd_ioq :: "u32 \<Rightarrow> (ioqueue \<Rightarrow> ioqueue) \<Rightarrow> 'a ioq_state_scheme \<Rightarrow> 'a ioq_state_scheme" where
  "upd_ioq q f s = s\<lparr>ioqs := (ioqs s)(q := f (ioqs s q))\<rparr>"

section \<open>Operations\<close>

definition ioqueue_init :: "u32 \<Rightarrow> 'a ioq_state_scheme \<Rightarrow> 'a ioq_state_scheme" where
  "ioqueue_init ioq s =
     (let s = lock_init ioq s
      in upd_ioq ioq (\<lambda>q. q\<lparr>producer := NULL, consumer := NULL, ioq_front := 0, ioq_tail := 0\<rparr>) s)"

definition ioq_next_pos :: "u32 \<Rightarrow> u32" where
  "ioq_next_pos pos = (pos + 1) mod QUEUE_BUFF_SIZE"

definition ioq_full :: "ioqueue \<Rightarrow> bool" where
  "ioq_full q \<longleftrightarrow> ioq_next_pos (ioq_front q) = ioq_tail q"

definition ioq_empty :: "ioqueue \<Rightarrow> bool" where
  "ioq_empty q \<longleftrightarrow> ioq_front q = ioq_tail q"

text \<open>The two fields a waiter is registered in.\<close>

datatype ioq_waiter = Producer | Consumer

fun get_waiter :: "ioq_waiter \<Rightarrow> ioqueue \<Rightarrow> u32" where
  "get_waiter Producer q = producer q"
| "get_waiter Consumer q = consumer q"

fun set_waiter :: "ioq_waiter \<Rightarrow> u32 \<Rightarrow> ioqueue \<Rightarrow> ioqueue" where
  "set_waiter Producer t q = q\<lparr>producer := t\<rparr>"
| "set_waiter Consumer t q = q\<lparr>consumer := t\<rparr>"

definition ioq_wait :: "u32 \<Rightarrow> ioq_waiter \<Rightarrow> 'a ioq_state_scheme \<Rightarrow> (intr_status \<times> 'a ioq_state_scheme) option" where
  "ioq_wait ioq w s = do {
     ASSERT (get_waiter w (ioqs s ioq) = NULL);
     thread_block TASK_BLOCKED (upd_ioq ioq (set_waiter w (get_cur_task s)) s)
   }"

definition ioq_wakeup :: "u32 \<Rightarrow> ioq_waiter \<Rightarrow> 'a ioq_state_scheme \<Rightarrow> 'a ioq_state_scheme option" where
  "ioq_wakeup ioq w s = do {
     ASSERT (get_waiter w (ioqs s ioq) \<noteq> NULL);
     s \<leftarrow> thread_unblock (get_waiter w (ioqs s ioq)) s;
     Some (upd_ioq ioq (set_waiter w NULL) s)
   }"

text \<open>
  How far a call got: it returned, or the processor was switched inside \<open>lock_acquire\<close> (with the two
  interrupt states its frames keep) or inside \<open>thread_block\<close> of \<open>ioq_wait\<close>.
\<close>

datatype 'r io_result = Io_done 'r | Io_in_lock intr_status intr_status | Io_in_wait intr_status

text \<open>The body of the waiting loop, from its start or from the end of \<open>lock_acquire\<close>.\<close>

definition ioq_wait_locked :: "u32 \<Rightarrow> ioq_waiter \<Rightarrow> 'a ioq_state_scheme \<Rightarrow> ('r io_result \<times> 'a ioq_state_scheme) option" where
  "ioq_wait_locked ioq w s = do {
     (i, s) \<leftarrow> ioq_wait ioq w s;
     Some (Io_in_wait i, s)
   }"

definition ioq_wait_body :: "u32 \<Rightarrow> ioq_waiter \<Rightarrow> 'a ioq_state_scheme \<Rightarrow> ('r io_result \<times> 'a ioq_state_scheme) option" where
  "ioq_wait_body ioq w s = do {
     (r, s) \<leftarrow> lock_acquire ioq s;
     case r of
       None \<Rightarrow> ioq_wait_locked ioq w s
     | Some (old, i) \<Rightarrow> Some (Io_in_lock old i, s)
   }"

text \<open>A read or write of \<open>buff\<close> outside its 64 slots is undefined behaviour.\<close>

definition ioq_getchar_round :: "u32 \<Rightarrow> 'a ioq_state_scheme \<Rightarrow> (u8 io_result \<times> 'a ioq_state_scheme) option" where
  "ioq_getchar_round ioq s =
     (if ioq_empty (ioqs s ioq) then ioq_wait_body ioq Consumer s
      else do {
        ASSERT (unat (ioq_tail (ioqs s ioq)) < length (buff (ioqs s ioq)));
        let ch = buff (ioqs s ioq) ! unat (ioq_tail (ioqs s ioq));
        let s = upd_ioq ioq (\<lambda>q. q\<lparr>ioq_tail := ioq_next_pos (ioq_tail q)\<rparr>) s;
        s \<leftarrow> (if producer (ioqs s ioq) \<noteq> NULL then ioq_wakeup ioq Producer s else Some s);
        Some (Io_done ch, s)
      })"

definition ioq_putchar_round :: "u32 \<Rightarrow> u8 \<Rightarrow> 'a ioq_state_scheme \<Rightarrow> (unit io_result \<times> 'a ioq_state_scheme) option" where
  "ioq_putchar_round ioq ch s =
     (if ioq_full (ioqs s ioq) then ioq_wait_body ioq Producer s
      else do {
        ASSERT (unat (ioq_front (ioqs s ioq)) < length (buff (ioqs s ioq)));
        let s = upd_ioq ioq (\<lambda>q. q\<lparr>buff := (buff q)[unat (ioq_front q) := ch]\<rparr>) s;
        let s = upd_ioq ioq (\<lambda>q. q\<lparr>ioq_front := ioq_next_pos (ioq_front q)\<rparr>) s;
        s \<leftarrow> (if consumer (ioqs s ioq) \<noteq> NULL then ioq_wakeup ioq Consumer s else Some s);
        Some (Io_done (), s)
      })"

definition ioq_getchar :: "u32 \<Rightarrow> 'a ioq_state_scheme \<Rightarrow> (u8 io_result \<times> 'a ioq_state_scheme) option" where
  "ioq_getchar ioq s = do {
     ASSERT (get_intr_status s = INTR_OFF);
     ioq_getchar_round ioq s
   }"

definition ioq_putchar :: "u32 \<Rightarrow> u8 \<Rightarrow> 'a ioq_state_scheme \<Rightarrow> (unit io_result \<times> 'a ioq_state_scheme) option" where
  "ioq_putchar ioq ch s = do {
     ASSERT (get_intr_status s = INTR_OFF);
     ioq_putchar_round ioq ch s
   }"

text \<open>What runs when a task that waited in \<open>thread_block\<close> is continued: the rest of the loop body.\<close>

definition ioq_resume_wait ::
  "u32 \<Rightarrow> ('a ioq_state_scheme \<Rightarrow> ('r io_result \<times> 'a ioq_state_scheme) option) \<Rightarrow> intr_status \<Rightarrow>
   'a ioq_state_scheme \<Rightarrow> ('r io_result \<times> 'a ioq_state_scheme) option" where
  "ioq_resume_wait ioq round i s = do {
     let s = thread_block_resume i s;
     s \<leftarrow> lock_release ioq s;
     round s
   }"

text \<open>And of a task that waited for the lock.\<close>

definition ioq_resume_lock ::
  "u32 \<Rightarrow> ioq_waiter \<Rightarrow> intr_status \<Rightarrow> intr_status \<Rightarrow> 'a ioq_state_scheme \<Rightarrow> ('r io_result \<times> 'a ioq_state_scheme) option" where
  "ioq_resume_lock ioq w old i s = do {
     (r, s) \<leftarrow> sema_down_resume (lock_semaphore ioq) old i s;
     case r of
       Acquired \<Rightarrow> do { s \<leftarrow> lock_acquire_take ioq s; ioq_wait_locked ioq w s }
     | Waiting i \<Rightarrow> Some (Io_in_lock old i, s)
   }"

section \<open>The ring as a sequence\<close>

text \<open>\<open>ioq_list q\<close> are the characters from \<open>tail\<close> up to \<open>front\<close>; at most 63 fit.\<close>

definition ioq_inv :: "ioqueue \<Rightarrow> bool" where
  "ioq_inv q \<longleftrightarrow> length (buff q) = 64 \<and> ioq_front q < 64 \<and> ioq_tail q < 64"

definition ioq_len :: "ioqueue \<Rightarrow> nat" where
  "ioq_len q = (unat (ioq_front q) + 64 - unat (ioq_tail q)) mod 64"

definition ioq_list :: "ioqueue \<Rightarrow> u8 list" where
  "ioq_list q = map (\<lambda>i. buff q ! ((unat (ioq_tail q) + i) mod 64)) [0..<ioq_len q]"

definition ioq_put :: "u8 \<Rightarrow> ioqueue \<Rightarrow> ioqueue" where
  "ioq_put ch q = q\<lparr>buff := (buff q)[unat (ioq_front q) := ch], ioq_front := ioq_next_pos (ioq_front q)\<rparr>"

definition ioq_get :: "ioqueue \<Rightarrow> ioqueue" where
  "ioq_get q = q\<lparr>ioq_tail := ioq_next_pos (ioq_tail q)\<rparr>"

lemma unat_next_pos: "p < 64 \<Longrightarrow> unat (ioq_next_pos p) = (unat p + 1) mod 64"
  by (simp add: ioq_next_pos_def QUEUE_BUFF_SIZE_def unat_mod word_less_nat_alt unat_word_ariths)

lemma next_pos_less: "p < 64 \<Longrightarrow> ioq_next_pos p < 64"
  by (simp add: word_less_nat_alt unat_next_pos)

lemma ioq_inv_bounds: "ioq_inv q \<Longrightarrow> unat (ioq_front q) < 64 \<and> unat (ioq_tail q) < 64"
  by (simp add: ioq_inv_def word_less_nat_alt)

lemma ioq_len_less: "ioq_len q < 64"
  by (simp add: ioq_len_def)

text \<open>Arithmetic modulo the size, by one subtraction.\<close>

lemma mod_64: "n < 128 \<Longrightarrow> n mod 64 = (if n < 64 then n else n - 64)" for n :: nat
  by (simp add: mod_if)

lemma ring_succ: "f < 64 \<Longrightarrow> (f + 1) mod 64 = (if f = 63 then 0 else f + 1)" for f :: nat
  by (auto simp: mod_64)

lemma ring_dist: "f < 64 \<Longrightarrow> t < 64 \<Longrightarrow> (f + 64 - t) mod 64 = (if t \<le> f then f - t else f + 64 - t)" for f t :: nat
  by (simp add: mod_64)

lemma ioq_len_eq:
  "ioq_inv q \<Longrightarrow> ioq_len q = (if ioq_tail q \<le> ioq_front q then unat (ioq_front q) - unat (ioq_tail q)
                             else unat (ioq_front q) + 64 - unat (ioq_tail q))"
  using ioq_inv_bounds [of q] by (simp add: ioq_len_def ring_dist word_le_nat_alt)

lemma unat_next: "p < 64 \<Longrightarrow> unat (ioq_next_pos p) = (if unat p = 63 then 0 else unat p + 1)"
  by (simp add: unat_next_pos word_less_nat_alt ring_succ del: Suc_eq_plus1)

lemma ioq_empty_iff: "ioq_inv q \<Longrightarrow> ioq_empty q \<longleftrightarrow> ioq_len q = 0"
  using ioq_inv_bounds [of q] by (auto simp: ioq_empty_def ioq_len_eq word_unat_eq_iff word_le_nat_alt)

lemma ioq_full_iff: "ioq_inv q \<Longrightarrow> ioq_full q \<longleftrightarrow> ioq_len q = 63"
proof -
  assume inv: "ioq_inv q"
  then have "ioq_full q \<longleftrightarrow> (if unat (ioq_front q) = 63 then 0 else unat (ioq_front q) + 1) = unat (ioq_tail q)"
    by (simp add: ioq_full_def word_unat_eq_iff unat_next ioq_inv_def)
  then show ?thesis
    using ioq_inv_bounds [OF inv] inv by (auto simp: ioq_len_eq word_le_nat_alt)
qed

lemma ioq_put_inv: "ioq_inv q \<Longrightarrow> ioq_inv (ioq_put ch q)"
  by (simp add: ioq_inv_def ioq_put_def next_pos_less)

lemma ioq_get_inv: "ioq_inv q \<Longrightarrow> ioq_inv (ioq_get q)"
  by (simp add: ioq_inv_def ioq_get_def next_pos_less)

lemma ioq_len_put:
  assumes inv: "ioq_inv q" and len: "ioq_len q < 63"
  shows "ioq_len (ioq_put ch q) = Suc (ioq_len q)"
proof -
  have f: "unat (ioq_front (ioq_put ch q)) = (if unat (ioq_front q) = 63 then 0 else unat (ioq_front q) + 1)"
      "ioq_tail (ioq_put ch q) = ioq_tail q"
    using inv by (simp_all add: ioq_put_def unat_next ioq_inv_def)
  show ?thesis
    using ioq_inv_bounds [OF inv] len inv f by (auto simp: ioq_len_eq ioq_put_inv word_le_nat_alt split: if_splits)
qed

lemma ioq_len_get:
  assumes inv: "ioq_inv q" and len: "ioq_len q = Suc n"
  shows "ioq_len (ioq_get q) = n"
proof -
  have f: "unat (ioq_tail (ioq_get q)) = (if unat (ioq_tail q) = 63 then 0 else unat (ioq_tail q) + 1)"
      "ioq_front (ioq_get q) = ioq_front q"
    using inv by (simp_all add: ioq_get_def unat_next ioq_inv_def)
  show ?thesis
    using ioq_inv_bounds [OF inv] len inv f by (auto simp: ioq_len_eq ioq_get_inv word_le_nat_alt split: if_splits)
qed

text \<open>The slot of the \<open>i\<close>-th character.\<close>

lemma slot_less: "(t + i) mod 64 < (64 :: nat)"
  by simp

lemma ioq_front_slot: "ioq_inv q \<Longrightarrow> unat (ioq_front q) = (unat (ioq_tail q) + ioq_len q) mod 64"
  using ioq_inv_bounds [of q] by (auto simp: ioq_len_eq mod_64 word_le_nat_alt)

lemma slot_inj:
  fixes t i j :: nat
  assumes "i < 64" and "j < 64" and "t < 64" and "(t + i) mod 64 = (t + j) mod 64"
  shows "i = j"
  using assms by (auto simp: mod_64 split: if_splits)

lemma ioq_list_put:
  assumes inv: "ioq_inv q" and len: "ioq_len q < 63"
  shows "ioq_list (ioq_put ch q) = ioq_list q @ [ch]"
proof -
  let ?t = "unat (ioq_tail q)"
  have f: "unat (ioq_front q) = (?t + ioq_len q) mod 64" "length (buff q) = 64"
    using ioq_front_slot [OF inv] inv by (simp_all add: ioq_inv_def)
  have old: "buff (ioq_put ch q) ! ((?t + i) mod 64) = buff q ! ((?t + i) mod 64)" if "i < ioq_len q" for i
  proof -
    have "(?t + ioq_len q) mod 64 \<noteq> (?t + i) mod 64"
      using slot_inj [of i "ioq_len q" ?t] that len ioq_inv_bounds [OF inv] by auto
    then show ?thesis
      by (simp add: ioq_put_def f(1))
  qed
  have new: "buff (ioq_put ch q) ! ((?t + ioq_len q) mod 64) = ch"
    using f(2) by (simp add: ioq_put_def f(1))
  have "ioq_tail (ioq_put ch q) = ioq_tail q"
    by (simp add: ioq_put_def)
  then show ?thesis
    using old new by (simp add: ioq_list_def ioq_len_put [OF inv len])
qed

lemma ioq_list_get:
  assumes inv: "ioq_inv q" and len: "ioq_len q = Suc n"
  shows "ioq_list q = buff q ! unat (ioq_tail q) # ioq_list (ioq_get q)"
proof -
  let ?t = "unat (ioq_tail q)"
  have "unat (ioq_tail (ioq_get q)) = (?t + 1) mod 64"
    using inv by (simp add: ioq_get_def unat_next_pos ioq_inv_def)
  then have slot: "(unat (ioq_tail (ioq_get q)) + i) mod 64 = (?t + Suc i) mod 64" for i
    by (simp add: mod_simps)
  have "[0..<Suc n] = 0 # map Suc [0..<n]"
    by (simp add: map_Suc_upt upt_conv_Cons)
  moreover have "buff (ioq_get q) = buff q"
    by (simp add: ioq_get_def)
  ultimately show ?thesis
    using ioq_inv_bounds [OF inv] by (simp add: ioq_list_def ioq_len_get [OF inv len] len slot o_def del: upt_Suc)
qed

lemma length_ioq_list: "length (ioq_list q) = ioq_len q"
  by (simp add: ioq_list_def)

section \<open>The interface\<close>

text \<open>A bounded first-in first-out buffer over its abstraction to a list.\<close>

locale bounded_fifo =
  fixes inv :: "'q \<Rightarrow> bool"
    and contents :: "'q \<Rightarrow> 'c list"
    and cap :: nat
    and put :: "'c \<Rightarrow> 'q \<Rightarrow> 'q"
    and get :: "'q \<Rightarrow> 'q"
    and peek :: "'q \<Rightarrow> 'c"
    and full :: "'q \<Rightarrow> bool"
    and empty :: "'q \<Rightarrow> bool"
  assumes cap: "inv q \<Longrightarrow> length (contents q) \<le> cap"
    and put: "inv q \<Longrightarrow> length (contents q) < cap \<Longrightarrow> inv (put c q) \<and> contents (put c q) = contents q @ [c]"
    and get: "inv q \<Longrightarrow> contents q = c # cs \<Longrightarrow> inv (get q) \<and> peek q = c \<and> contents (get q) = cs"
    and full: "inv q \<Longrightarrow> full q \<longleftrightarrow> length (contents q) = cap"
    and empty: "inv q \<Longrightarrow> empty q \<longleftrightarrow> contents q = []"
begin

lemma put_burst:
  "inv q \<Longrightarrow> length (contents q) + length cs \<le> cap \<Longrightarrow>
   inv (fold put cs q) \<and> contents (fold put cs q) = contents q @ cs"
proof (induction cs arbitrary: q)
  case (Cons c cs)
  then have "inv (put c q)" "contents (put c q) = contents q @ [c]"
    using put [of q c] by auto
  with Cons show ?case
    by simp
qed simp

lemma get_burst:
  "inv q \<Longrightarrow> n \<le> length (contents q) \<Longrightarrow>
   map (\<lambda>i. peek ((get ^^ i) q)) [0..<n] = take n (contents q) \<and> inv ((get ^^ n) q) \<and>
   contents ((get ^^ n) q) = drop n (contents q)"
proof (induction n)
  case (Suc n)
  then have IH: "map (\<lambda>i. peek ((get ^^ i) q)) [0..<n] = take n (contents q)" "inv ((get ^^ n) q)"
      "contents ((get ^^ n) q) = drop n (contents q)"
    by auto
  moreover have d: "drop n (contents q) = contents q ! n # drop (Suc n) (contents q)"
    using Suc.prems(2) by (simp add: Cons_nth_drop_Suc)
  ultimately show ?case
    using get [OF IH(2), of "contents q ! n" "drop (Suc n) (contents q)"] Suc.prems(2)
    by (simp add: take_Suc_conv_app_nth)
qed simp

end

interpretation ioq: bounded_fifo ioq_inv ioq_list 63 ioq_put ioq_get "\<lambda>q. buff q ! unat (ioq_tail q)" ioq_full ioq_empty
proof unfold_locales
  fix q c cs
  show "ioq_inv q \<Longrightarrow> length (ioq_list q) \<le> 63"
    using ioq_len_less [of q] by (simp add: length_ioq_list)
  show "ioq_inv q \<Longrightarrow> length (ioq_list q) < 63 \<Longrightarrow> ioq_inv (ioq_put c q) \<and> ioq_list (ioq_put c q) = ioq_list q @ [c]"
    by (simp add: ioq_put_inv ioq_list_put length_ioq_list)
  show "ioq_inv q \<Longrightarrow> ioq_list q = c # cs \<Longrightarrow> ioq_inv (ioq_get q) \<and> buff q ! unat (ioq_tail q) = c \<and> ioq_list (ioq_get q) = cs"
    using length_ioq_list [of q] ioq_list_get [of q "length cs"] by (simp add: ioq_get_inv)
  show "ioq_inv q \<Longrightarrow> ioq_full q \<longleftrightarrow> length (ioq_list q) = 63"
    by (simp add: ioq_full_iff length_ioq_list)
  show "ioq_inv q \<Longrightarrow> ioq_empty q \<longleftrightarrow> ioq_list q = []"
    using length_ioq_list [of q] by (simp add: ioq_empty_iff flip: length_0_conv)
qed

section \<open>Operations on the state\<close>

lemma upd_ioq_simps [simp]:
  "ioqs (upd_ioq a f s) = (ioqs s)(a := f (ioqs s a))" "nodes (upd_ioq a f s) = nodes s" "tasks (upd_ioq a f s) = tasks s"
  "current_task (upd_ioq a f s) = current_task s" "idle_thread (upd_ioq a f s) = idle_thread s" "eflags (upd_ioq a f s) = eflags s"
  "thread_ready_queue (upd_ioq a f s) = thread_ready_queue s" "locks (upd_ioq a f s) = locks s" "semas (upd_ioq a f s) = semas s"
  by (simp_all add: upd_ioq_def)

lemma upd_ioq_comp: "upd_ioq a f (upd_ioq a g s) = upd_ioq a (\<lambda>q. f (g q)) s"
  by (simp add: upd_ioq_def)

lemma switch_frame_ioqs: "switch_frame A s s' \<Longrightarrow> ioqs s' = ioqs s"
proof -
  assume "switch_frame A s s'"
  then have "sched_state.more s' = sched_state.more s"
    by (simp add: switch_frame_def)
  then show "ioqs s' = ioqs s"
    by (cases s; cases s'; simp)
qed

lemma tasks_inv_ioq: "tasks_inv T s rq \<Longrightarrow> tasks_inv T (upd_ioq a f s) rq"
  by (erule tasks_inv_cong) auto

lemma ioq_putchar_eq:
  assumes "ioq_inv (ioqs s a)" and "get_intr_status s = INTR_OFF" and "length (ioq_list (ioqs s a)) < 63"
  shows "ioq_putchar a ch s =
    (if consumer (ioqs s a) = NULL then Some (upd_ioq a (ioq_put ch) s)
     else ioq_wakeup a Consumer (upd_ioq a (ioq_put ch) s)) \<bind> (\<lambda>t. Some (Io_done (), t))"
proof -
  have nf: "\<not> ioq_full (ioqs s a)" "unat (ioq_front (ioqs s a)) < length (buff (ioqs s a))"
    using assms ioq.full ioq_inv_bounds by (auto simp: ioq_inv_def)
  have "upd_ioq a (\<lambda>q. q\<lparr>ioq_front := ioq_next_pos (ioq_front q)\<rparr>) (upd_ioq a (\<lambda>q. q\<lparr>buff := (buff q)[unat (ioq_front q) := ch]\<rparr>) s) =
      upd_ioq a (ioq_put ch) s"
    by (simp add: upd_ioq_def ioq_put_def)
  then show ?thesis
    using nf assms(2) by (simp add: ioq_putchar_def ioq_putchar_round_def Let_def)
qed

lemma ioq_getchar_eq:
  assumes "ioq_inv (ioqs s a)" and "get_intr_status s = INTR_OFF" and "ioq_list (ioqs s a) = c # cs"
  shows "ioq_getchar a s =
    (if producer (ioqs s a) = NULL then Some (upd_ioq a ioq_get s)
     else ioq_wakeup a Producer (upd_ioq a ioq_get s)) \<bind> (\<lambda>t. Some (Io_done c, t))"
proof -
  have ne: "\<not> ioq_empty (ioqs s a)" "unat (ioq_tail (ioqs s a)) < length (buff (ioqs s a))"
      "buff (ioqs s a) ! unat (ioq_tail (ioqs s a)) = c"
    using assms(1,3) ioq.empty ioq_inv_bounds ioq.get [OF assms(1,3)] by (auto simp: ioq_inv_def)
  have "upd_ioq a (\<lambda>q. q\<lparr>ioq_tail := ioq_next_pos (ioq_tail q)\<rparr>) s = upd_ioq a ioq_get s"
      "producer (ioq_get (ioqs s a)) = producer (ioqs s a)"
    by (simp_all add: upd_ioq_def ioq_get_def)
  then show ?thesis
    using ne assms(2) by (simp add: ioq_getchar_def ioq_getchar_round_def Let_def)
qed

text \<open>
  A task waits at the queue: it is registered, not ready, and holds the lock of the queue, which nobody else waits for.
  \<open>woken\<close> is the ready queue after a registered waiter, if there is one, was woken.
\<close>

definition ioq_waiting :: "u32 \<Rightarrow> ioq_waiter \<Rightarrow> u32 \<Rightarrow> 'a ioq_state_scheme \<Rightarrow> bool" where
  "ioq_waiting a w t s \<longleftrightarrow> get_waiter w (ioqs s a) = t \<and> t \<noteq> NULL \<and> waiting_status (status (tasks s t)) \<and>
     holder (locks s a) = t \<and> holder_repeat_cnt (locks s a) = 1 \<and>
     semas s (lock_semaphore a) = \<lparr>sem_value = 0, waiter_queue = queue_init\<rparr>"

definition woken :: "u32 \<Rightarrow> u32 list \<Rightarrow> u32 list" where
  "woken t rq = (if t = NULL then rq else t # rq)"

text \<open>A registered task that waits is woken; the queue keeps its contents.\<close>

lemma ioq_wakeup_inv:
  assumes inv: "tasks_inv T s rq" and w: "get_waiter w (ioqs s a) = t" "t \<noteq> NULL" "t \<in> T" "waiting_status (status (tasks s t))"
  obtains s' where "ioq_wakeup a w s = Some s'" and "tasks_inv T s' (t # rq)" and "ioqs s' = (ioqs s)(a := set_waiter w NULL (ioqs s a))"
    and "current_task s' = current_task s" and "eflags s' = eflags s" and "locks s' = locks s" and "semas s' = semas s"
proof -
  obtain s1 where s1: "thread_unblock t s = Some s1" "tasks_inv T s1 (t # rq)" "switch_frame (set (t # rq)) s s1"
      "current_task s1 = current_task s" "eflags s1 = eflags s"
    using wake_inv [OF inv w(3,4)] by blast
  have "ioq_wakeup a w s = Some (upd_ioq a (set_waiter w NULL) s1)"
    using w(1,2) s1(1) by (simp add: ioq_wakeup_def)
  then show thesis
    using that tasks_inv_ioq [OF s1(2)] s1(4,5) switch_frame_ioqs [OF s1(3)] switch_frame_sync [OF s1(3)] by simp
qed

text \<open>Waiting: the current task is registered, blocked and leaves with the lock held.\<close>

lemma lock_held_simps [simp]:
  "nodes (lock_held l s) = nodes s" "tasks (lock_held l s) = tasks s" "current_task (lock_held l s) = current_task s"
  "idle_thread (lock_held l s) = idle_thread s" "eflags (lock_held l s) = eflags s" "thread_ready_queue (lock_held l s) = thread_ready_queue s"
  "ioqs (lock_held l s) = ioqs s"
  by (simp_all add: lock_held_def upd_lock_def upd_sema_def)

lemma ioq_wait_body_inv:
  assumes inv: "tasks_inv T s rq" and free: "lock_free a s" and w: "get_waiter w (ioqs s a) = NULL"
    and cur: "current_task s \<noteq> idle_thread s"
  obtains s' rq' where "ioq_wait_body a w s = Some (Io_in_wait (get_intr_status s), s')" and "tasks_inv T s' rq'"
    and "ioqs s' = (ioqs s)(a := set_waiter w (current_task s) (ioqs s a))"
    and "status (tasks s' (current_task s)) = TASK_BLOCKED" and "ioq_waiting a w (current_task s) s'"
proof -
  let ?s = "upd_ioq a (set_waiter w (current_task s)) (lock_held a s)"
  have "tasks_inv T ?s rq"
    by (rule tasks_inv_cong [OF inv]) auto
  then obtain s' rq' where s': "thread_block TASK_BLOCKED ?s = Some (get_intr_status ?s, s')" "tasks_inv T s' rq'"
      "switch_frame (insert (idle_thread ?s) (set (current_task ?s # rq))) ?s s'"
      "status (tasks s' (current_task ?s)) = TASK_BLOCKED"
    using block_inv [of T ?s rq TASK_BLOCKED] cur by (auto simp: waiting_status_def)
  have "get_intr_status ?s = get_intr_status s"
    by (simp add: get_intr_status_def)
  then have "ioq_wait_body a w s = Some (Io_in_wait (get_intr_status s), s')"
    using klock.acquire_free [OF free] w s'(1)
    by (simp add: ioq_wait_body_def ioq_wait_locked_def ioq_wait_def get_cur_task_def)
  moreover have "ioq_waiting a w (current_task s) s'"
    using switch_frame_sync [OF s'(3)] switch_frame_ioqs [OF s'(3)] s'(4) free
    by (cases w) (simp_all add: ioq_waiting_def lock_free_def waiting_status_def lock_held_def upd_lock_def upd_sema_def)
  ultimately show thesis
    using that s'(2,4) switch_frame_ioqs [OF s'(3)] by simp
qed

text \<open>Registering a waiter or clearing it leaves the contents.\<close>

lemma set_waiter_contents [simp]: "ioq_list (set_waiter w t q) = ioq_list q" "ioq_inv (set_waiter w t q) = ioq_inv q"
  by (cases w; simp add: ioq_list_def ioq_len_def ioq_inv_def)+

lemma set_waiter_get [simp]: "get_waiter w (set_waiter w t q) = t"
  by (cases w) simp_all

text \<open>The end of both operations: a registered waiter is woken.\<close>

lemma wake_registered:
  assumes inv: "tasks_inv T s rq" and w: "get_waiter w (ioqs s a) \<noteq> NULL \<Longrightarrow> get_waiter w (ioqs s a) \<in> T \<and> waiting_status (status (tasks s (get_waiter w (ioqs s a))))"
  shows "\<exists>s'. (if get_waiter w (ioqs s a) = NULL then Some s else ioq_wakeup a w s) = Some s' \<and> tasks_inv T s' (woken (get_waiter w (ioqs s a)) rq) \<and>
    ioq_list (ioqs s' a) = ioq_list (ioqs s a) \<and> ioq_inv (ioqs s' a) = ioq_inv (ioqs s a) \<and> get_waiter w (ioqs s' a) = NULL \<and>
    current_task s' = current_task s \<and> eflags s' = eflags s"
proof (cases "get_waiter w (ioqs s a) = NULL")
  case False
  obtain s' where "ioq_wakeup a w s = Some s'" "tasks_inv T s' (get_waiter w (ioqs s a) # rq)" "ioqs s' = (ioqs s)(a := set_waiter w NULL (ioqs s a))"
      "current_task s' = current_task s" "eflags s' = eflags s"
    using ioq_wakeup_inv [OF inv refl False] w [OF False] by metis
  then show ?thesis
    using False by (simp add: woken_def)
qed (use inv in \<open>simp add: woken_def\<close>)

section \<open>Properties\<close>

lemma ioq_blocks:
  fixes s :: "'a ioq_state_scheme"
  assumes "tasks_inv T s rq" and "lock_free a s" and "ioq_inv (ioqs s a)" and "get_intr_status s = INTR_OFF"
    and "current_task s \<noteq> idle_thread s" and w: "get_waiter w (ioqs s a) = NULL"
  shows "\<exists>s' rq'. (ioq_wait_body a w s :: ('r io_result \<times> 'a ioq_state_scheme) option) = Some (Io_in_wait INTR_OFF, s') \<and> ioq_inv (ioqs s' a) \<and> ioq_list (ioqs s' a) = ioq_list (ioqs s a) \<and>
      ioq_waiting a w (current_task s) s' \<and> current_task s' \<noteq> current_task s \<and> tasks_inv T s' rq'"
proof (rule ioq_wait_body_inv [OF assms(1,2) w assms(5)])
  fix s' rq'
  assume s': "(ioq_wait_body a w s :: ('r io_result \<times> 'a ioq_state_scheme) option) = Some (Io_in_wait (get_intr_status s), s')" "tasks_inv T s' rq'" "ioq_waiting a w (current_task s) s'"
      "ioqs s' = (ioqs s)(a := set_waiter w (current_task s) (ioqs s a))" "status (tasks s' (current_task s)) = TASK_BLOCKED"
  then have "current_task s' \<noteq> current_task s"
    using tasks_invD(5) [OF s'(2)] by auto
  then show ?thesis
    using s' assms(3,4) by (intro exI [of _ s'] exI [of _ rq']) simp
qed

text \<open>
  C13: The ring buffer is a first-in first-out queue of at most 63 characters. With interrupts off, a
  write to a queue that is not full appends the character and a read from one that is not empty returns
  and removes the oldest; both return at once, and when a task waits for what they did it is registered no more and
  becomes the first ready task. A write to a full queue and a read from an empty one do not return: the
  contents stay, the current task is registered, blocked and holds the lock, and the processor goes to another task.
\<close>

theorem ioq_refines_fifo:
  assumes "tasks_inv T s rq" and "ioq_inv (ioqs s a)" and "get_intr_status s = INTR_OFF"
    and "\<forall>t \<in> {producer (ioqs s a), consumer (ioqs s a)}. t \<noteq> NULL \<longrightarrow> t \<in> T \<and> waiting_status (status (tasks s t))"
  shows "(length (ioq_list (ioqs s a)) < 63 \<longrightarrow>
           (\<exists>s'. ioq_putchar a ch s = Some (Io_done (), s') \<and> ioq_inv (ioqs s' a) \<and> ioq_list (ioqs s' a) = ioq_list (ioqs s a) @ [ch] \<and>
                 consumer (ioqs s' a) = NULL \<and> current_task s' = current_task s \<and> tasks_inv T s' (woken (consumer (ioqs s a)) rq))) \<and>
         (\<forall>c cs. ioq_list (ioqs s a) = c # cs \<longrightarrow>
           (\<exists>s'. ioq_getchar a s = Some (Io_done c, s') \<and> ioq_inv (ioqs s' a) \<and> ioq_list (ioqs s' a) = cs \<and>
                 producer (ioqs s' a) = NULL \<and> current_task s' = current_task s \<and> tasks_inv T s' (woken (producer (ioqs s a)) rq))) \<and>
         (length (ioq_list (ioqs s a)) = 63 \<and> producer (ioqs s a) = NULL \<and> lock_free a s \<and> current_task s \<noteq> idle_thread s \<longrightarrow>
           (\<exists>s' rq'. ioq_putchar a ch s = Some (Io_in_wait INTR_OFF, s') \<and> ioq_inv (ioqs s' a) \<and> ioq_list (ioqs s' a) = ioq_list (ioqs s a) \<and>
                 ioq_waiting a Producer (current_task s) s' \<and> current_task s' \<noteq> current_task s \<and> tasks_inv T s' rq')) \<and>
         (ioq_list (ioqs s a) = [] \<and> consumer (ioqs s a) = NULL \<and> lock_free a s \<and> current_task s \<noteq> idle_thread s \<longrightarrow>
           (\<exists>s' rq'. ioq_getchar a s = Some (Io_in_wait INTR_OFF, s') \<and> ioq_inv (ioqs s' a) \<and> ioq_list (ioqs s' a) = [] \<and>
                 ioq_waiting a Consumer (current_task s) s' \<and> current_task s' \<noteq> current_task s \<and> tasks_inv T s' rq'))"
proof (intro conjI impI allI)
  assume len: "length (ioq_list (ioqs s a)) < 63"
  let ?s = "upd_ioq a (ioq_put ch) s"
  have p: "get_waiter Consumer (ioqs ?s a) = consumer (ioqs s a)" "ioq_list (ioqs ?s a) = ioq_list (ioqs s a) @ [ch]" "ioq_inv (ioqs ?s a)"
    using ioq.put [OF assms(2) len, of ch] by (simp_all add: ioq_put_def)
  show "\<exists>s'. ioq_putchar a ch s = Some (Io_done (), s') \<and> ioq_inv (ioqs s' a) \<and> ioq_list (ioqs s' a) = ioq_list (ioqs s a) @ [ch] \<and>
      consumer (ioqs s' a) = NULL \<and> current_task s' = current_task s \<and> tasks_inv T s' (woken (consumer (ioqs s a)) rq)"
    unfolding ioq_putchar_eq [OF assms(2,3) len]
    using wake_registered [OF tasks_inv_ioq [OF assms(1), of a "ioq_put ch"], of Consumer a] assms(4) p by auto
next
  fix c cs
  assume l: "ioq_list (ioqs s a) = c # cs"
  let ?s = "upd_ioq a ioq_get s"
  have p: "get_waiter Producer (ioqs ?s a) = producer (ioqs s a)" "ioq_list (ioqs ?s a) = cs" "ioq_inv (ioqs ?s a)"
    using ioq.get [OF assms(2) l] by (simp_all add: ioq_get_def)
  show "\<exists>s'. ioq_getchar a s = Some (Io_done c, s') \<and> ioq_inv (ioqs s' a) \<and> ioq_list (ioqs s' a) = cs \<and>
      producer (ioqs s' a) = NULL \<and> current_task s' = current_task s \<and> tasks_inv T s' (woken (producer (ioqs s a)) rq)"
    unfolding ioq_getchar_eq [OF assms(2,3) l]
    using wake_registered [OF tasks_inv_ioq [OF assms(1), of a ioq_get], of Producer a] assms(4) p by auto
next
  assume h: "length (ioq_list (ioqs s a)) = 63 \<and> producer (ioqs s a) = NULL \<and> lock_free a s \<and> current_task s \<noteq> idle_thread s"
  then have "ioq_putchar a ch s = ioq_wait_body a Producer s"
    using assms(2,3) ioq.full by (simp add: ioq_putchar_def ioq_putchar_round_def)
  then show "\<exists>s' rq'. ioq_putchar a ch s = Some (Io_in_wait INTR_OFF, s') \<and> ioq_inv (ioqs s' a) \<and> ioq_list (ioqs s' a) = ioq_list (ioqs s a) \<and>
      ioq_waiting a Producer (current_task s) s' \<and> current_task s' \<noteq> current_task s \<and> tasks_inv T s' rq'"
    using ioq_blocks [OF assms(1) _ assms(2,3), of Producer] h by simp
next
  assume h: "ioq_list (ioqs s a) = [] \<and> consumer (ioqs s a) = NULL \<and> lock_free a s \<and> current_task s \<noteq> idle_thread s"
  then have "ioq_getchar a s = ioq_wait_body a Consumer s"
    using assms(2,3) ioq.empty by (simp add: ioq_getchar_def ioq_getchar_round_def)
  then show "\<exists>s' rq'. ioq_getchar a s = Some (Io_in_wait INTR_OFF, s') \<and> ioq_inv (ioqs s' a) \<and> ioq_list (ioqs s' a) = [] \<and>
      ioq_waiting a Consumer (current_task s) s' \<and> current_task s' \<noteq> current_task s \<and> tasks_inv T s' rq'"
    using ioq_blocks [OF assms(1) _ assms(2,3), of Consumer] h by simp
qed

text \<open>The lock a waiter holds is released when it runs again.\<close>

lemma resume_held:
  assumes h: "holder (locks s a) = current_task s" "holder_repeat_cnt (locks s a) = 1"
      "semas s (lock_semaphore a) = \<lparr>sem_value = 0, waiter_queue = queue_init\<rparr>" "current_task s \<noteq> NULL"
    and off: "get_intr_status s = INTR_OFF"
  obtains s' where "ioq_resume_wait a round INTR_OFF s = round s'" and "lock_free a s'" and "ioqs s' = ioqs s" and "current_task s' = current_task s"
    and "eflags s' = eflags s" and "\<And>T rq. tasks_inv T s rq \<Longrightarrow> tasks_inv T s' rq"
proof -
  let ?s = "upd_lock a (\<lambda>m. m\<lparr>holder := NULL, holder_repeat_cnt := 0\<rparr>) (upd_sema (lock_semaphore a) (sem_value_update (\<lambda>_. 1)) s)"
  have same: "thread_block_resume INTR_OFF s = s"
    by (simp add: thread_block_resume_def set_intr_status_off cli_idem [OF off])
  have "tasks_inv T ?s rq" if "tasks_inv T s rq" for T rq
    by (rule tasks_inv_cong [OF that]) (simp_all add: upd_lock_def upd_sema_def)
  then show ?thesis
    using h by (intro that [of ?s]) (simp_all add: ioq_resume_wait_def same lock_release_held lock_free_def upd_lock_def upd_sema_def)
qed

text \<open>
  C19: Hand-over. A reader waits at the empty queue, and another task (or an interrupt while it runs) writes a character. The write
  returns, appends the character, makes the reader the first
  ready task and clears its registration; when the time slice of the writer ends the reader runs, releases the lock, and its
  \<open>ioq_getchar\<close> returns the character that was written, leaving the queue empty and the lock free.
\<close>

theorem ioq_handoff:
  assumes "tasks_inv T s rq" and "ioq_inv (ioqs s a)" and "get_intr_status s = INTR_OFF"
    and "ioq_list (ioqs s a) = []" and "ioq_waiting a Consumer t s" and "t \<in> T" and "producer (ioqs s a) = NULL"
  shows "\<exists>s1 s2 s3 rq3. ioq_putchar a ch s = Some (Io_done (), s1) \<and> tasks_inv T s1 (t # rq) \<and>
           ioq_list (ioqs s1 a) = [ch] \<and> consumer (ioqs s1 a) = NULL \<and>
           schedule s1 = Some s2 \<and> current_task s2 = t \<and>
           ioq_resume_wait a (ioq_getchar_round a) INTR_OFF s2 = Some (Io_done ch, s3) \<and> current_task s3 = t \<and>
           ioq_list (ioqs s3 a) = [] \<and> ioq_inv (ioqs s3 a) \<and> lock_free a s3 \<and> tasks_inv T s3 rq3"
proof -
  let ?s = "upd_ioq a (ioq_put ch) s"
  have w: "consumer (ioqs s a) = t" "t \<noteq> NULL" "waiting_status (status (tasks s t))"
    using assms(5) by (simp_all add: ioq_waiting_def)
  have p: "ioq_inv (ioq_put ch (ioqs s a))" "ioq_list (ioq_put ch (ioqs s a)) = [ch]"
    using ioq.put [OF assms(2), of ch] assms(4) by auto
  have "get_waiter Consumer (ioqs ?s a) = t" "waiting_status (status (tasks ?s t))"
    using w by (simp_all add: ioq_put_def)
  then obtain s1 where s1: "ioq_wakeup a Consumer ?s = Some s1" "tasks_inv T s1 (t # rq)"
      "ioqs s1 = (ioqs ?s)(a := set_waiter Consumer NULL (ioqs ?s a))" "locks s1 = locks ?s" "semas s1 = semas ?s"
    using ioq_wakeup_inv [OF tasks_inv_ioq [OF assms(1)] _ w(2) assms(6)] by metis
  have q1: "ioq_inv (ioqs s1 a)" "ioq_list (ioqs s1 a) = [ch]" "consumer (ioqs s1 a) = NULL" "producer (ioqs s1 a) = NULL"
    using p set_waiter_contents [of Consumer NULL "ioq_put ch (ioqs s a)"] assms(7) by (simp_all add: s1(3) del: set_waiter_contents) (simp add: ioq_put_def)
  have put: "ioq_putchar a ch s = Some (Io_done (), s1)"
    using ioq_putchar_eq [OF assms(2,3), of ch] assms(4) w s1(1) by simp
  obtain s2 where s2: "schedule s1 = Some s2" "current_task s2 = t" "get_intr_status s2 = INTR_OFF" "sched_state.more s2 = sched_state.more s1"
    using schedule_rotates [OF tasks_invD(1,5) [OF s1(2)]] by auto
  obtain rq2 where inv2: "tasks_inv T s2 rq2"
    using preempt_inv [OF s1(2)] s2(1) by auto
  have m: "ioqs s2 = ioqs s1" "locks s2 = locks s" "semas s2 = semas s"
    using s2(4) s1(4,5) by (cases s2; cases s1; simp)+
  have wait2: "holder (locks s2 a) = current_task s2" "holder_repeat_cnt (locks s2 a) = 1"
      "semas s2 (lock_semaphore a) = \<lparr>sem_value = 0, waiter_queue = queue_init\<rparr>" "current_task s2 \<noteq> NULL"
    using assms(5) by (simp_all add: m s2(2) ioq_waiting_def)
  obtain s' where s': "ioq_resume_wait a (ioq_getchar_round a) INTR_OFF s2 = ioq_getchar_round a s'" "lock_free a s'" "ioqs s' = ioqs s2"
      "current_task s' = current_task s2" "eflags s' = eflags s2" "\<And>T rq. tasks_inv T s2 rq \<Longrightarrow> tasks_inv T s' rq"
    by (rule resume_held [OF wait2 s2(3), of "ioq_getchar_round a"]) (rule that)
  have off: "get_intr_status s' = INTR_OFF"
    using s2(3) s'(5) by (simp add: get_intr_status_def)
  let ?s3 = "upd_ioq a ioq_get s'"
  have q': "ioq_inv (ioqs s' a)" "ioq_list (ioqs s' a) = [ch]" "producer (ioqs s' a) = NULL"
    using q1 by (simp_all add: s'(3) m(1))
  have "ioq_getchar_round a s' = Some (Io_done ch, ?s3)"
    using ioq_getchar_eq [OF q'(1) off q'(2)] q'(3) off by (simp add: ioq_getchar_def)
  moreover have "ioq_list (ioqs ?s3 a) = []" "ioq_inv (ioqs ?s3 a)"
    using ioq.get [OF q'(1,2)] by simp_all
  moreover have "lock_free a ?s3" "tasks_inv T ?s3 rq2"
    using s'(2) tasks_inv_ioq [OF s'(6) [OF inv2]] by (simp_all add: lock_free_def)
  ultimately show ?thesis
    using put s1(2) q1 s2(1,2) s'(1,4) by (intro exI [of _ s1] exI [of _ s2] exI [of _ ?s3] exI [of _ rq2]) simp
qed

text \<open>
  A burst of up to 63 characters written to an empty ring is read back complete and in order.
\<close>

theorem ioq_burst:
  assumes "ioq_inv q" and "ioq_list q = []" and "length cs \<le> 63"
  shows "map (\<lambda>i. (let r = (ioq_get ^^ i) (fold ioq_put cs q) in buff r ! unat (ioq_tail r))) [0..<length cs] = cs \<and>
         ioq_list ((ioq_get ^^ length cs) (fold ioq_put cs q)) = []"
  using ioq.put_burst [OF assms(1), of cs] ioq.get_burst [of "fold ioq_put cs q" "length cs"] assms(2,3) by (simp add: Let_def)

text \<open>
  A queue that was never initialised. In one that is all zero, as the keyboard buffer is, the
  semaphore of the lock is 0 although nobody holds the lock, so a reader of the empty queue blocks
  inside \<open>lock_acquire\<close>, before it is registered as the consumer a writer would wake.
\<close>

theorem uninitialised_ioqueue_blocks:
  assumes "tasks_inv T s rq" and "get_intr_status s = INTR_OFF" and "current_task s \<noteq> NULL"
    and "current_task s \<noteq> idle_thread s" and "ioq_empty (ioqs s a)" and "holder (locks s a) = NULL"
    and "semas s (lock_semaphore a) = \<lparr>sem_value = 0, waiter_queue = queue_init\<rparr>"
  shows "\<exists>s'. ioq_getchar a s = Some (Io_in_lock INTR_OFF INTR_OFF, s') \<and> consumer (ioqs s' a) = consumer (ioqs s a) \<and>
           status (tasks s' (current_task s)) = TASK_BLOCKED \<and> holder (locks s' a) = NULL"
proof -
  let ?c = "current_task s" and ?p = "lock_semaphore a"
  have cs: "cli s = s"
    by (rule cli_idem [OF assms(2)])
  have dn: "thread_dispatch_queue ?c \<noteq> NULL"
    using tasks_invD(3,7) [OF assms(1)] by blast
  have rep0: "queue_rep (nodes s) queue_init []"
    by (simp add: queue_rep_Nil)
  obtain h q where hq: "queue_in (nodes s) queue_init (thread_dispatch_queue ?c) = Some (h, q)"
      "\<And>p. p \<notin> set [thread_dispatch_queue ?c] \<Longrightarrow> h p = nodes s p"
    using queue_in_rep [OF rep0, of "thread_dispatch_queue ?c"] dn by (simp add: queue_fits_def) blast
  let ?s = "upd_sema ?p (waiter_queue_update (\<lambda>_. q)) (s\<lparr>nodes := h\<rparr>)"
  have "h (thread_dispatch_queue t) = nodes s (thread_dispatch_queue t)" if "t \<in> set rq" for t
    using that hq(2) [of "thread_dispatch_queue t"] sched_okD(3) [OF tasks_invD(1) [OF assms(1)]] by auto
  then have "tasks_inv T ?s rq"
    by (intro tasks_inv_cong [OF assms(1)]) auto
  then obtain s' where s': "thread_block TASK_BLOCKED ?s = Some (get_intr_status ?s, s')"
      "switch_frame (insert (idle_thread ?s) (set (current_task ?s # rq))) ?s s'" "status (tasks s' ?c) = TASK_BLOCKED"
    using block_inv [of T ?s rq TASK_BLOCKED] assms(4) by (auto simp: waiting_status_def)
  have "get_intr_status ?s = INTR_OFF"
    using assms(2) by (simp add: get_intr_status_def)
  moreover have "list_find_item (nodes s) NULL (thread_dispatch_queue ?c) = Some False"
    by (simp add: list_find_item_def)
  ultimately have "lock_acquire_down a s = Some (Some (INTR_OFF, Waiting INTR_OFF), s')"
    using assms(2,3,6,7) hq(1) s'(1)
    by (simp add: lock_acquire_down_def sema_down_def sema_down_round_def local_irq_disable_eq cs get_cur_task_def queue_init_def)
  then have "ioq_getchar a s = Some (Io_in_lock INTR_OFF INTR_OFF, s')"
    using assms(2,5) by (simp add: ioq_getchar_def ioq_getchar_round_def ioq_wait_body_def lock_acquire_def)
  then show ?thesis
    using s'(3) switch_frame_sync(2) [OF s'(2)] switch_frame_ioqs [OF s'(2)] assms(6) by (simp add: upd_sema_def)
qed

text \<open>A queue at \<open>0x7000\<close> in a state of two tasks; the second one, the idle thread, is ready.\<close>

definition demo_ioq :: "ioqueue \<Rightarrow> u8 \<Rightarrow> ioq_state" where
  "demo_ioq q v = \<lparr>screen = [], eflags = 0x2,
     nodes = (\<lambda>_. \<lparr>l_prev = 0, l_next = 0\<rparr>)(0x3034 := \<lparr>l_prev = 0x3034, l_next = 0x3034\<rparr>),
     tasks = (\<lambda>_. demo_task TASK_READY)(0x1000 := demo_task TASK_RUNNING, 0x2000 := demo_task TASK_BLOCKED),
     main_thread = 0x1000, idle_thread = 0x3000,
     thread_ready_queue = \<lparr>front = 0x3034, queue_len = 1\<rparr>, thread_total_list = 0x500, current_task = 0x1000,
     global_ticks = 0, semas = (\<lambda>_. \<lparr>sem_value = v, waiter_queue = queue_init\<rparr>),
     locks = (\<lambda>_. \<lparr>holder = NULL, holder_repeat_cnt = 0\<rparr>), ioqs = (\<lambda>_. q)\<rparr>"

definition demo_ring :: "u32 \<Rightarrow> ioqueue" where
  "demo_ring c = \<lparr>producer = NULL, consumer = c, buff = replicate 64 0, ioq_front = 63, ioq_tail = 63\<rparr>"

lemma demo_ioq_inv: "tasks_inv {0x1000, 0x2000, 0x3000} (demo_ioq q v) [0x3000]"
proof -
  have "sched_ok (demo_ioq q v) [0x3000]"
    by (simp add: sched_ok_def demo_ioq_def demo_task_def queue_rep_def thread_dispatch_queue_def NULL_def)
  then show ?thesis
    by (simp add: tasks_inv_def) (simp add: demo_ioq_def demo_task_def thread_dispatch_queue_def NULL_def waiting_status_def)
qed

lemma demo_ring_simps: "ioq_inv (demo_ring c)" "ioq_list (demo_ring c) = []" "producer (demo_ring c) = NULL"
  "consumer (demo_ring c) = c" "ioq_empty (demo_ring c)"
  by (simp_all add: ioq_inv_def demo_ring_def ioq_list_def ioq_len_def ioq_empty_def)

lemma demo_ioq_simps: "ioqs (demo_ioq q v) = (\<lambda>_. q)" "get_intr_status (demo_ioq q v) = INTR_OFF"
  "current_task (demo_ioq q v) = 0x1000" "idle_thread (demo_ioq q v) = 0x3000" "holder (locks (demo_ioq q v) a) = NULL"
  "semas (demo_ioq q v) p = \<lparr>sem_value = v, waiter_queue = queue_init\<rparr>" "lock_free a (demo_ioq q 1)"
  "status (tasks (demo_ioq q v) 0x2000) = TASK_BLOCKED"
  by (simp_all add: demo_ioq_def get_intr_status_def EFLAGS_IF_def lock_free_def NULL_def demo_task_def)

text \<open>The second task waits for a character.\<close>

definition demo_waiting :: "u32 \<Rightarrow> ioq_state" where
  "demo_waiting t = upd_lock 0x7000 (\<lambda>_. \<lparr>holder = t, holder_repeat_cnt = 1\<rparr>) (demo_ioq (demo_ring t) 0)"

lemma demo_waiting_ok:
  "tasks_inv {0x1000, 0x2000, 0x3000} (demo_waiting 0x2000) [0x3000]" "ioq_inv (ioqs (demo_waiting 0x2000) 0x7000)"
  "get_intr_status (demo_waiting 0x2000) = INTR_OFF" "ioq_list (ioqs (demo_waiting 0x2000) 0x7000) = []"
  "ioq_waiting 0x7000 Consumer 0x2000 (demo_waiting 0x2000)" "producer (ioqs (demo_waiting 0x2000) 0x7000) = NULL"
proof -
  have e: "ioqs (demo_waiting 0x2000) = (\<lambda>_. demo_ring 0x2000)" "eflags (demo_waiting 0x2000) = eflags (demo_ioq (demo_ring 0x2000) 0)"
    by (simp_all add: demo_waiting_def upd_lock_def demo_ioq_simps)
  show "tasks_inv {0x1000, 0x2000, 0x3000} (demo_waiting 0x2000) [0x3000]"
    by (rule tasks_inv_cong [OF demo_ioq_inv [of "demo_ring 0x2000" 0]]) (simp_all add: demo_waiting_def upd_lock_def)
  show "ioq_inv (ioqs (demo_waiting 0x2000) 0x7000)" "ioq_list (ioqs (demo_waiting 0x2000) 0x7000) = []"
      "producer (ioqs (demo_waiting 0x2000) 0x7000) = NULL"
    by (simp_all add: e demo_ring_simps)
  show "get_intr_status (demo_waiting 0x2000) = INTR_OFF"
    using demo_ioq_simps(2) by (simp add: get_intr_status_def e)
  show "ioq_waiting 0x7000 Consumer 0x2000 (demo_waiting 0x2000)"
    by (simp add: ioq_waiting_def demo_waiting_def upd_lock_def demo_ioq_simps demo_ring_simps waiting_status_def NULL_def)
qed

theorem ioq_refines_fifo_witness:
  "(\<exists>s'. ioq_putchar 0x7000 65 (demo_ioq (demo_ring 0x2000) 1) = Some (Io_done (), s') \<and> ioq_list (ioqs s' 0x7000) = [65] \<and>
      tasks_inv {0x1000, 0x2000, 0x3000} s' [0x2000, 0x3000]) \<and>
   (\<exists>s'. ioq_getchar 0x7000 (demo_ioq (demo_ring NULL) 1) = Some (Io_in_wait INTR_OFF, s') \<and>
      ioq_waiting 0x7000 Consumer 0x1000 s' \<and> current_task s' \<noteq> 0x1000)"
proof -
  have 1: "\<exists>s'. ioq_putchar 0x7000 65 (demo_ioq (demo_ring 0x2000) 1) = Some (Io_done (), s') \<and> ioq_list (ioqs s' 0x7000) = [65] \<and>
      tasks_inv {0x1000, 0x2000, 0x3000} s' [0x2000, 0x3000]"
    using ioq_refines_fifo [OF demo_ioq_inv, of "demo_ring 0x2000" 1 "0x7000" 65]
    by (auto simp: demo_ioq_simps demo_ring_simps NULL_def waiting_status_def woken_def)
  have 2: "\<exists>s'. ioq_getchar 0x7000 (demo_ioq (demo_ring NULL) 1) = Some (Io_in_wait INTR_OFF, s') \<and>
      ioq_waiting 0x7000 Consumer 0x1000 s' \<and> current_task s' \<noteq> 0x1000"
    using ioq_refines_fifo [OF demo_ioq_inv, of "demo_ring NULL" 1 "0x7000" 65]
    by (auto simp: demo_ioq_simps demo_ring_simps)
  show ?thesis
    using 1 2 ..
qed

theorem ioq_handoff_witness:
  "\<exists>s1 s2 s3. ioq_putchar 0x7000 65 (demo_waiting 0x2000) = Some (Io_done (), s1) \<and> schedule s1 = Some s2 \<and> current_task s2 = 0x2000 \<and>
     ioq_resume_wait 0x7000 (ioq_getchar_round 0x7000) INTR_OFF s2 = Some (Io_done 65, s3) \<and> lock_free 0x7000 s3"
  using ioq_handoff [OF demo_waiting_ok(1-5) _ demo_waiting_ok(6), of 65] by auto

theorem ioq_burst_witness:
  "map (\<lambda>i. (let r = (ioq_get ^^ i) (fold ioq_put [72, 105] (demo_ring NULL)) in buff r ! unat (ioq_tail r))) [0..<2] = [72, 105]"
  using ioq_burst [of "demo_ring NULL" "[72, 105]"] by (simp add: demo_ring_simps numeral_2_eq_2)

theorem uninitialised_ioqueue_blocks_witness:
  "\<exists>s'. ioq_getchar 0x7000 (demo_ioq (demo_ring NULL) 0) = Some (Io_in_lock INTR_OFF INTR_OFF, s') \<and> holder (locks s' 0x7000) = NULL"
  using uninitialised_ioqueue_blocks [OF demo_ioq_inv, of "demo_ring NULL" 0 "0x7000"]
  by (auto simp: demo_ioq_simps demo_ring_simps NULL_def)

end
