(* ===== verification/Keyboard.thy ===== *)
theory Keyboard
  imports Ioqueue
begin

text \<open>
  The keyboard driver of \<open>device/keyboard.c\<close>: the scan code state machine with its modifier flags, the
  table of characters, and the hand-over to the character queue \<open>kbd_buff\<close>. \<open>g_key_status\<close> is a signed
  byte that is only used bit by bit; it is kept as its bit pattern. A fall-through of the \<open>switch\<close>
  is written out. The driver echoes the character on the screen.
\<close>

section \<open>Data\<close>

record kbd_state = ioq_state +
  g_key_status :: u8

definition KBD_BUF_PORT :: u16 where "KBD_BUF_PORT = 0x60"
definition KEYBOARD_VECTOR :: u8 where "KEYBOARD_VECTOR = 0x21"

definition ctrl_l_make :: u16 where "ctrl_l_make = 0x1d"
definition ctrl_l_break :: u16 where "ctrl_l_break = 0x9d"
definition alt_l_make :: u16 where "alt_l_make = 0x38"
definition alt_l_break :: u16 where "alt_l_break = 0xb8"
definition shift_r_make :: u16 where "shift_r_make = 0x36"
definition shift_r_break :: u16 where "shift_r_break = 0xb6"
definition shift_l_make :: u16 where "shift_l_make = 0x2a"
definition shift_l_break :: u16 where "shift_l_break = 0xaa"
definition caps_lock_make :: u16 where "caps_lock_make = 0x3a"

lemmas scan_codes [kdefs] = ctrl_l_make_def ctrl_l_break_def alt_l_make_def alt_l_break_def shift_r_make_def
  shift_r_break_def shift_l_make_def shift_l_break_def caps_lock_make_def

text \<open>The table of characters without and with shift, four scan codes to a line.\<close>

definition keymap :: "(char \<times> char) list" where
  "keymap = [
      (CHR 0x00, CHR 0x00), (CHR 0x1B, CHR 0x1B), (CHR ''1'', CHR ''!''), (CHR ''2'', CHR ''@''),
      (CHR ''3'', CHR ''#''), (CHR ''4'', CHR ''$''), (CHR ''5'', CHR ''%''), (CHR ''6'', CHR ''^''),
      (CHR ''7'', CHR ''&''), (CHR ''8'', CHR ''*''), (CHR ''9'', CHR ''(''), (CHR ''0'', CHR '')''),
      (CHR ''-'', CHR ''_''), (CHR ''='', CHR ''+''), (CHR 0x08, CHR 0x08), (CHR 0x09, CHR 0x09),
      (CHR ''q'', CHR ''Q''), (CHR ''w'', CHR ''W''), (CHR ''e'', CHR ''E''), (CHR ''r'', CHR ''R''),
      (CHR ''t'', CHR ''T''), (CHR ''y'', CHR ''Y''), (CHR ''u'', CHR ''U''), (CHR ''i'', CHR ''I''),
      (CHR ''o'', CHR ''O''), (CHR ''p'', CHR ''P''), (CHR ''['', CHR ''{''), (CHR '']'', CHR ''}''),
      (CHR 0x0D, CHR 0x0D), (CHR 0x00, CHR 0x00), (CHR ''a'', CHR ''A''), (CHR ''s'', CHR ''S''),
      (CHR ''d'', CHR ''D''), (CHR ''f'', CHR ''F''), (CHR ''g'', CHR ''G''), (CHR ''h'', CHR ''H''),
      (CHR ''j'', CHR ''J''), (CHR ''k'', CHR ''K''), (CHR ''l'', CHR ''L''), (CHR '';'', CHR '':''),
      (CHR 0x27, CHR 0x22), (CHR 0x60, CHR ''~''), (CHR 0x00, CHR 0x00), (CHR 0x5C, CHR ''|''),
      (CHR ''z'', CHR ''Z''), (CHR ''x'', CHR ''X''), (CHR ''c'', CHR ''C''), (CHR ''v'', CHR ''V''),
      (CHR ''b'', CHR ''B''), (CHR ''n'', CHR ''N''), (CHR ''m'', CHR ''M''), (CHR '','', CHR ''<''),
      (CHR ''.'', CHR ''>''), (CHR ''/'', CHR ''?''), (CHR 0x00, CHR 0x00), (CHR ''*'', CHR ''*''),
      (CHR 0x00, CHR 0x00), (CHR '' '', CHR '' ''), (CHR 0x00, CHR 0x00), (CHR 0x00, CHR 0x00),
      (CHR 0x00, CHR 0x00), (CHR 0x00, CHR 0x00), (CHR 0x00, CHR 0x00), (CHR 0x00, CHR 0x00),
      (CHR 0x00, CHR 0x00), (CHR 0x00, CHR 0x00), (CHR 0x00, CHR 0x00), (CHR 0x00, CHR 0x00),
      (CHR 0x00, CHR 0x00), (CHR 0x00, CHR 0x00), (CHR 0x00, CHR 0x00), (CHR ''7'', CHR ''7''),
      (CHR ''8'', CHR ''8''), (CHR ''9'', CHR ''9''), (CHR ''-'', CHR ''-''), (CHR ''4'', CHR ''4''),
      (CHR ''5'', CHR ''5''), (CHR ''6'', CHR ''6''), (CHR ''+'', CHR ''+''), (CHR ''1'', CHR ''1''),
      (CHR ''2'', CHR ''2''), (CHR ''3'', CHR ''3''), (CHR ''0'', CHR ''0''), (CHR ''.'', CHR ''.'')]"

definition SET_BIT :: "u8 \<Rightarrow> nat \<Rightarrow> u8" where "SET_BIT operand nbit = operand OR push_bit nbit 1"
definition CLEAR_BIT :: "u8 \<Rightarrow> nat \<Rightarrow> u8" where "CLEAR_BIT operand nbit = operand AND NOT (push_bit nbit 1)"
definition GET_BIT :: "u8 \<Rightarrow> nat \<Rightarrow> u8" where "GET_BIT operand nbit = drop_bit nbit (operand AND push_bit nbit 1)"

section \<open>Operations\<close>

text \<open>The character of a key; a code past the end of the table is undefined behaviour.\<close>

definition cur_key :: "u8 \<Rightarrow> u8 \<Rightarrow> u8 option" where
  "cur_key key_code key_status =
     (if unat key_code < length keymap
      then let shift = GET_BIT key_status 0 OR GET_BIT key_status 3;
               caps_lock = GET_BIT key_status 6;
               (plain, shifted) = keymap ! unat key_code
           in Some (of_char (if caps_lock \<noteq> 0 then (if shift \<noteq> 0 then plain else shifted)
                             else (if shift \<noteq> 0 then shifted else plain)))
      else None)"

definition key_output :: "u32 \<Rightarrow> u8 \<Rightarrow> u8 \<Rightarrow> 'a ioq_state_scheme \<Rightarrow> (unit io_result \<times> 'a ioq_state_scheme) option" where
  "key_output kbd_buff key_code key_status s = do {
     ch \<leftarrow> cur_key key_code key_status;
     if \<not> ioq_full (ioqs s kbd_buff) then ioq_putchar kbd_buff ch (put_char ch s) else Some (Io_done (), s)
   }"

text \<open>The \<open>switch\<close> of the service routine on the low byte of the scan code.\<close>

definition modifier_update :: "u16 \<Rightarrow> u8 \<Rightarrow> u8" where
  "modifier_update scancode st =
     (let low = scancode AND 0x00ff; ext = scancode AND 0xff00 \<noteq> 0;
          alt_break = (\<lambda>st. if ext then CLEAR_BIT st 5 else CLEAR_BIT st 2)
      in if low = ctrl_l_make then (if ext then SET_BIT st 4 else SET_BIT st 1)
         else if low = alt_l_make then (if ext then SET_BIT st 5 else SET_BIT st 2)
         else if low = shift_l_make then SET_BIT st 0
         else if low = shift_r_make then SET_BIT st 3
         else if low = caps_lock_make then (if st AND 0x40 \<noteq> 0 then CLEAR_BIT st 6 else SET_BIT st 6)
         else if low = ctrl_l_break then alt_break (if ext then CLEAR_BIT st 4 else CLEAR_BIT st 1)
         else if low = alt_l_break then alt_break st
         else if low = shift_l_break then CLEAR_BIT st 0
         else if low = shift_r_break then CLEAR_BIT st 3
         else st)"

definition keyboard_service :: "u32 \<Rightarrow> u8 \<Rightarrow> 'a kbd_state_scheme \<Rightarrow> (unit io_result \<times> 'a kbd_state_scheme) option" where
  "keyboard_service kbd_buff inb s =
     (let scancode = ucast inb :: u16
      in if scancode = 0xe0
         then Some (Io_done (), s\<lparr>g_key_status := SET_BIT (g_key_status s) 7\<rparr>)
         else
           let (scancode, st) = (if g_key_status s AND 0x80 \<noteq> 0
                                 then (scancode + 0xe000, CLEAR_BIT (g_key_status s) 7)
                                 else (scancode, g_key_status s));
               st = modifier_update scancode st;
               s = s\<lparr>g_key_status := st\<rparr>
           in if drop_bit 7 (scancode AND 0x00ff) = 0
              then key_output kbd_buff (ucast (scancode AND 0x00ff)) st s
              else Some (Io_done (), s))"

definition keyboard_init :: "u32 \<Rightarrow> u32 list \<Rightarrow> u32 list option" where
  "keyboard_init keyboard_service_addr irqaction_t = register_irq_handler irqaction_t KEYBOARD_VECTOR keyboard_service_addr"

section \<open>Flags\<close>

lemma bit_SET_BIT: "b < 8 \<Longrightarrow> bit (SET_BIT x b) n \<longleftrightarrow> n = b \<or> bit x n"
  by (auto simp: SET_BIT_def bit_simps)

lemma bit_CLEAR_BIT: "b < 8 \<Longrightarrow> bit (CLEAR_BIT x b) n \<longleftrightarrow> n \<noteq> b \<and> bit x n"
  by (auto simp: CLEAR_BIT_def bit_simps dest: bit_imp_le_length)

lemma and_push_bit: "x AND push_bit b 1 = (if bit x b then push_bit b 1 else 0)" for x :: u8
  by (rule bit_word_eqI) (auto simp: bit_simps)

lemma bit_numeral_mask: "x AND push_bit b 1 = 0 \<longleftrightarrow> \<not> bit x b" for x :: u8
  by (simp add: bit_iff_and_push_bit_not_eq_0)

lemma GET_BIT_eq: "b < 8 \<Longrightarrow> GET_BIT x b = (if bit x b then 1 else 0)"
proof -
  assume "b < 8"
  then have "drop_bit b (push_bit b 1) = (1 :: u8)"
    by (intro bit_word_eqI) (auto simp: bit_simps)
  then show ?thesis
    unfolding GET_BIT_def and_push_bit by (simp only: drop_bit_of_0 split: if_split) simp
qed

lemma GET_BIT_0: "b < 8 \<Longrightarrow> GET_BIT x b = 0 \<longleftrightarrow> \<not> bit x b"
  by (simp add: GET_BIT_eq)

text \<open>A byte read into 16 bits.\<close>

lemma low_byte: "(ucast c :: u16) AND 0x00ff = ucast c" for c :: u8
proof -
  have m: "(0x00ff :: u16) = mask 8"
    by (simp add: mask_eq_exp_minus_1)
  show ?thesis
    unfolding m by (intro bit_word_eqI) (auto simp: bit_simps dest: bit_imp_le_length)
qed

lemma byte_shift_7: "drop_bit 7 (ucast c :: u16) AND 1 = 0 \<longleftrightarrow> \<not> bit c 7" for c :: u8
proof -
  have "drop_bit 7 (ucast c :: u16) AND 1 = of_bool (bit (ucast c :: u16) 7)"
    by (simp add: and_one_eq mod_2_eq_odd bit_iff_odd_drop_bit)
  then show ?thesis
    by (simp add: bit_simps)
qed

lemma byte_widen: "ucast (ucast c :: u16) = c" for c :: u8
  by (rule bit_word_eqI) (auto simp: bit_simps)

lemma byte_eq_e0: "(ucast c :: u16) = 0xe0 \<longleftrightarrow> c = 0xe0" for c :: u8
proof
  assume "(ucast c :: u16) = 0xe0"
  then have "ucast (ucast c :: u16) = (0xe0 :: u8)"
    by simp
  then show "c = 0xe0"
    by (simp only: byte_widen)
qed simp

lemma byte_top_bit: "bit c 7 \<longleftrightarrow> 0x80 \<le> unat c" for c :: u8
proof -
  have "uint c div 128 < 2" "0 \<le> uint c div 128"
    using uint_bounded [of c] by (simp_all add: pos_imp_zdiv_nonneg_iff)
  then have "uint c div 128 = 0 \<or> uint c div 128 = 1"
    by linarith
  then have "odd (uint c div 128) \<longleftrightarrow> 128 \<le> uint c"
    using uint_bounded [of c] by auto
  then have "bit c 7 \<longleftrightarrow> 128 \<le> uint c"
    using bit_uint_iff [of c 7] by (simp add: bit_iff_odd)
  moreover have "uint c = int (unat c)"
    by simp
  ultimately show ?thesis
    by linarith
qed

lemma GET_BIT_or_0: "GET_BIT x 0 OR GET_BIT x 3 = 0 \<longleftrightarrow> \<not> bit x 0 \<and> \<not> bit x 3"
  using GET_BIT_0 [of 0 x] GET_BIT_0 [of 3 x] by (simp add: or_eq_0_iff)

lemma flag_7: "x AND 0x80 = 0 \<longleftrightarrow> \<not> bit x 7" and flag_6: "x AND 0x40 = 0 \<longleftrightarrow> \<not> bit x 6" for x :: u8
  using bit_numeral_mask [of x 7] bit_numeral_mask [of x 6] by simp_all

text \<open>The modifier keys: the scan code of a press, whether it has the prefix, and the flag of the key.\<close>

definition modifier_keys :: "(u16 \<times> nat) list" where
  "modifier_keys = [(0x1d, 1), (0xe01d, 4), (0x38, 2), (0xe038, 5), (0x2a, 0), (0x36, 3)]"

lemma modifier_make: "(c, b) \<in> set modifier_keys \<Longrightarrow> modifier_update c st = SET_BIT st b"
  by (auto simp: modifier_keys_def modifier_update_def scan_codes)

lemma modifier_break:
  "(c, b) \<in> set modifier_keys \<Longrightarrow>
   modifier_update (c + 0x80) st =
     (if b = 1 then CLEAR_BIT (CLEAR_BIT st 1) 2 else if b = 4 then CLEAR_BIT (CLEAR_BIT st 4) 5 else CLEAR_BIT st b)"
  by (auto simp: modifier_keys_def modifier_update_def scan_codes)

lemma modifier_bits: "(c, b) \<in> set modifier_keys \<Longrightarrow> b < 8"
  by (auto simp: modifier_keys_def)

section \<open>Properties\<close>

text \<open>
  The modifier flags follow the keys. The press of a modifier sets its flag and no other; the
  release clears it and no other, for both shift keys and both alt keys; caps lock toggles its flag on
  each press. The release of a ctrl key clears the flag of ctrl, but also that of the alt key on the
  same side, because its case falls through.
\<close>

theorem modifier_flags:
  assumes "(c, b) \<in> set modifier_keys"
  shows "(bit (modifier_update c st) n \<longleftrightarrow> n = b \<or> bit st n) \<and>
         (b \<notin> {1, 4} \<longrightarrow> (bit (modifier_update (c + 0x80) st) n \<longleftrightarrow> n \<noteq> b \<and> bit st n)) \<and>
         (b \<in> {1, 4} \<longrightarrow> (bit (modifier_update (c + 0x80) st) n \<longleftrightarrow> n \<noteq> b \<and> n \<noteq> Suc b \<and> bit st n)) \<and>
         (bit (modifier_update 0x3a st) n \<longleftrightarrow> (if n = 6 then \<not> bit st 6 else bit st n))"
proof -
  have caps: "modifier_update 0x3a st = (if bit st 6 then CLEAR_BIT st 6 else SET_BIT st 6)"
    by (simp add: modifier_update_def scan_codes flag_6)
  show ?thesis
    using modifier_bits [OF assms]
    by (simp add: modifier_make [OF assms] modifier_break [OF assms] caps bit_SET_BIT bit_CLEAR_BIT) auto
qed

text \<open>
  The character of a key. For the codes the table covers it is the second column exactly when one of
  shift and caps lock is active and not both, and a code above \<open>0x53\<close> reads past the end of the table.
\<close>

theorem cur_key_case:
  "(unat k \<le> 0x53 \<longrightarrow>
      cur_key k st = Some (of_char ((if (bit st 0 \<or> bit st 3) \<noteq> bit st 6 then snd else fst) (keymap ! unat k)))) \<and>
   (0x53 < unat k \<longrightarrow> cur_key k st = None)"
proof -
  have len: "length keymap = 0x54"
    by (simp add: keymap_def)
  show ?thesis
    by (auto simp: cur_key_def len GET_BIT_or_0 GET_BIT_0 Let_def split: prod.splits)
qed

text \<open>
  C29: The service routine never blocks. With no task waiting for a key, on a key press without prefix the character of the key, under
  the flags after the press, is appended to the keyboard buffer and echoed on the screen, or dropped when the buffer is full;
  a prefix byte and a key release change only the flags.
\<close>

theorem keyboard_service_appends:
  assumes "ioq_inv (ioqs s kbd)" and "get_intr_status s = INTR_OFF" and "consumer (ioqs s kbd) = NULL"
    and "\<not> bit (g_key_status s) 7"
  shows "(unat c \<le> 0x53 \<longrightarrow>
            (\<exists>s' ch. keyboard_service kbd c s = Some (Io_done (), s') \<and>
               g_key_status s' = modifier_update (ucast c) (g_key_status s) \<and> cur_key c (g_key_status s') = Some ch \<and>
               ioq_list (ioqs s' kbd) =
                 (if length (ioq_list (ioqs s kbd)) < 63 then ioq_list (ioqs s kbd) @ [ch] else ioq_list (ioqs s kbd)) \<and>
               screen s' = (if length (ioq_list (ioqs s kbd)) < 63 \<and> ch \<noteq> 0 then screen s @ [ch] else screen s))) \<and>
         (bit c 7 \<longrightarrow> c \<noteq> 0xe0 \<longrightarrow>
            keyboard_service kbd c s = Some (Io_done (), s\<lparr>g_key_status := modifier_update (ucast c) (g_key_status s)\<rparr>)) \<and>
         keyboard_service kbd 0xe0 s = Some (Io_done (), s\<lparr>g_key_status := SET_BIT (g_key_status s) 7\<rparr>)"
proof (intro conjI impI)
  let ?st = "modifier_update (ucast c) (g_key_status s)" and ?s = "s\<lparr>g_key_status := modifier_update (ucast c) (g_key_status s)\<rparr>"
  have low: "(ucast c :: u16) AND 0x00ff = ucast c"
    by (rule low_byte)
  have f7: "g_key_status s AND 0x80 = 0"
    using assms(4) by (simp add: flag_7)
  {
    assume c: "unat c \<le> 0x53"
    then have "c \<noteq> 0xe0" "\<not> bit c 7"
      using byte_top_bit [of c] by auto
    then have "keyboard_service kbd c s = key_output kbd c ?st ?s"
      by (simp add: keyboard_service_def f7 low byte_shift_7 byte_eq_e0 byte_widen Let_def)
    moreover obtain ch where ch: "cur_key c ?st = Some ch"
      using c cur_key_case [of c ?st] by blast
    ultimately have run: "keyboard_service kbd c s = (if \<not> ioq_full (ioqs s kbd) then ioq_putchar kbd ch (put_char ch ?s) else Some (Io_done (), ?s))"
      by (simp add: key_output_def)
    let ?e = "?s\<lparr>screen := screen s @ (if ch = 0 then [] else [ch])\<rparr>"
    have echo: "put_char ch ?s = ?e"
      by (simp add: put_char_eq)
    have inv: "ioq_inv (ioqs ?e kbd)" "get_intr_status ?e = INTR_OFF" "consumer (ioqs ?e kbd) = NULL"
      using assms by (simp_all add: get_intr_status_def)
    have full: "ioq_full (ioqs s kbd) \<longleftrightarrow> \<not> length (ioq_list (ioqs s kbd)) < 63"
      using ioq.full [OF assms(1)] ioq.cap [OF assms(1)] by auto
    have put: "ioq_putchar kbd ch ?e = Some (Io_done (), upd_ioq kbd (ioq_put ch) ?e)"
      if "length (ioq_list (ioqs s kbd)) < 63"
      using ioq_putchar_eq [OF inv(1,2), of ch] that inv(3) by simp
    show "\<exists>s' ch. keyboard_service kbd c s = Some (Io_done (), s') \<and>
               g_key_status s' = ?st \<and> cur_key c (g_key_status s') = Some ch \<and>
               ioq_list (ioqs s' kbd) =
                 (if length (ioq_list (ioqs s kbd)) < 63 then ioq_list (ioqs s kbd) @ [ch] else ioq_list (ioqs s kbd)) \<and>
               screen s' = (if length (ioq_list (ioqs s kbd)) < 63 \<and> ch \<noteq> 0 then screen s @ [ch] else screen s)"
    proof (cases "length (ioq_list (ioqs s kbd)) < 63")
      case True
      then have "keyboard_service kbd c s = Some (Io_done (), upd_ioq kbd (ioq_put ch) ?e)"
        using run full put echo by simp
      then show ?thesis
        using ch ioq.put [OF assms(1) True, of ch] True by (simp add: upd_ioq_def)
    next
      case False
      then have "keyboard_service kbd c s = Some (Io_done (), ?s)"
        using run full by simp
      then show ?thesis
        using ch False by simp
    qed
  }
  show "keyboard_service kbd c s = Some (Io_done (), ?s)" if "bit c 7" "c \<noteq> 0xe0"
    using that by (simp add: keyboard_service_def f7 low byte_shift_7 byte_eq_e0 byte_widen Let_def)
qed (simp add: keyboard_service_def)

definition demo_kbd :: kbd_state where
  "demo_kbd = ioq_state.extend (demo_ioq (demo_ring NULL) 0) \<lparr>g_key_status = 0x01\<rparr>"

lemma demo_kbd_simps: "ioqs demo_kbd = (\<lambda>_. demo_ring NULL)" "get_intr_status demo_kbd = INTR_OFF" "g_key_status demo_kbd = 0x01"
  by (simp_all add: demo_kbd_def ioq_state.extend_def demo_ioq_def get_intr_status_def EFLAGS_IF_def)

theorem modifier_flags_witness:
  "bit (modifier_update 0x2a 0x04) 0 \<and> \<not> bit (modifier_update 0x9d 0x06) 2"
  using modifier_flags [of "0x2a" 0 "0x04" 0] modifier_flags [of "0x1d" 1 "0x06" 2]
  by (simp add: modifier_keys_def)

theorem cur_key_case_witness: "cur_key 0x1e 0x01 = Some 65 \<and> cur_key 0x54 0 = None"
proof -
  have "bit (0x01 :: u8) 0" "\<not> bit (0x01 :: u8) 6"
    by simp_all
  then show ?thesis
    using cur_key_case [of "0x1e" "0x01"] cur_key_case [of "0x54" 0] by (simp add: keymap_def)
qed

theorem keyboard_service_appends_witness:
  "\<exists>s'. keyboard_service 0x7000 0x1e demo_kbd = Some (Io_done (), s') \<and> ioq_list (ioqs s' 0x7000) = [65]"
proof -
  have st: "modifier_update (ucast (0x1e :: u8)) 0x01 = 0x01"
    by (simp add: modifier_update_def scan_codes)
  have ck: "cur_key 0x1e 0x01 = Some 65"
    by (simp add: cur_key_def keymap_def GET_BIT_def)
  have "\<not> bit (0x01 :: u8) 7"
    by simp
  then obtain s' ch where "keyboard_service 0x7000 0x1e demo_kbd = Some (Io_done (), s')"
      "g_key_status s' = 0x01" "cur_key 0x1e (g_key_status s') = Some ch" "ioq_list (ioqs s' 0x7000) = [ch]"
    using keyboard_service_appends [of demo_kbd "0x7000" "0x1e"] st by (auto simp: demo_kbd_simps demo_ring_simps)
  then show ?thesis
    using ck by auto
qed

end
