(* ===== verification/Stdio.thy ===== *)
theory Stdio
  imports Cstring
begin

text \<open>
  Formatted output of \<open>lib/stdio.c\<close> on raw memory: \<open>itoa\<close>, \<open>vsprintf\<close> and the functions that
  call it. \<open>va_list\<close> is the address of the last argument taken; \<open>va_arg\<close> moves it by four bytes and
  reads there. \<open>itoa\<close> and the loop of \<open>vsprintf\<close> may run for ever (radix 1, no end of the format), so
  they are partial functions; the lemmas show that they return. \<open>render\<close> is the specification: the text
  that a format and a list of typed arguments stand for.
\<close>

section \<open>Operations\<close>

definition MAX_BUFFER :: u32 where
  "MAX_BUFFER = 1024"

text \<open>\<open>itoa\<close> returns the memory and the moved buffer pointer; a radix of 0 is a division by zero.\<close>

partial_function (option) itoa :: "mem \<Rightarrow> u32 \<Rightarrow> u32 \<Rightarrow> u8 \<Rightarrow> (mem \<times> u32) option" where
  "itoa m value buf radix =
     (if radix = 0 then None
      else do {
        let mm = value mod ucast radix;
        let ii = value div ucast radix;
        (m, buf) \<leftarrow> (if ii \<noteq> 0 then itoa m ii buf radix else Some (m, buf));
        if mm < 10
        then Some (m(buf := ucast (mm + 48)), buf + 1)
        else Some (m(buf := ucast (mm - 10 + 65)), buf + 1)
      })"

text \<open>The loop of \<open>vsprintf\<close>: \<open>'%'\<close> is 37, \<open>'x'\<close> 120, \<open>'s'\<close> 115, \<open>'c'\<close> 99, \<open>'d'\<close> 100, \<open>'-'\<close> 45.\<close>

partial_function (option) vsprintf_loop :: "mem \<Rightarrow> u32 \<Rightarrow> u32 \<Rightarrow> u8 \<Rightarrow> u32 \<Rightarrow> mem option" where
  "vsprintf_loop m buf_ptr index_ptr index_char ap =
     (if index_char = 0 then Some m
      else if index_char \<noteq> 37
      then (let m = m(buf_ptr := index_char)
            in vsprintf_loop m (buf_ptr + 1) (index_ptr + 1) (m (index_ptr + 1)) ap)
      else
        let index_ptr = index_ptr + 1; index_char = m index_ptr
        in if index_char = 120
           then do {
             let ap = ap + 4;
             (m, buf_ptr) \<leftarrow> itoa m (read32 m ap) buf_ptr 16;
             vsprintf_loop m buf_ptr (index_ptr + 1) (m (index_ptr + 1)) ap
           }
           else if index_char = 115
           then do {
             let ap = ap + 4;
             let arg_str = read32 m ap;
             m \<leftarrow> strcpy m buf_ptr arg_str;
             n \<leftarrow> strlen m arg_str;
             vsprintf_loop m (buf_ptr + n) (index_ptr + 1) (m (index_ptr + 1)) ap
           }
           else if index_char = 99
           then (let ap = ap + 4; m = m(buf_ptr := m ap)
                 in vsprintf_loop m (buf_ptr + 1) (index_ptr + 1) (m (index_ptr + 1)) ap)
           else if index_char = 100
           then do {
             let ap = ap + 4;
             let arg_int = read32 m ap;
             let (arg_int, m, buf_ptr) =
               (if arg_int <s 0 then (0 - arg_int, m(buf_ptr := 45), buf_ptr + 1) else (arg_int, m, buf_ptr));
             (m, buf_ptr) \<leftarrow> itoa m arg_int buf_ptr 10;
             vsprintf_loop m buf_ptr (index_ptr + 1) (m (index_ptr + 1)) ap
           }
           else vsprintf_loop m buf_ptr index_ptr index_char ap)"

definition vsprintf :: "mem \<Rightarrow> u32 \<Rightarrow> u32 \<Rightarrow> u32 \<Rightarrow> (u32 \<times> mem) option" where
  "vsprintf m res_buf format ap = do {
     m \<leftarrow> vsprintf_loop m res_buf format (m format) ap;
     n \<leftarrow> strlen m res_buf;
     Some (n, m)
   }"

text \<open>
  The callers: \<open>format_slot\<close> is the address of the parameter \<open>format\<close> in their frame, which
  \<open>va_start\<close> takes; \<open>printf\<close> and \<open>printk\<close> clear a local buffer first. The output function is
  the system call \<open>write\<close> and \<open>console_str\<close>.
\<close>

definition sprintf :: "mem \<Rightarrow> u32 \<Rightarrow> u32 \<Rightarrow> (u32 \<times> mem) option" where
  "sprintf m res_buf format_slot = vsprintf m res_buf (read32 m format_slot) format_slot"

definition format_local :: "(mem \<Rightarrow> u32 \<Rightarrow> 'r option) \<Rightarrow> mem \<Rightarrow> u32 \<Rightarrow> u32 \<Rightarrow> 'r option" where
  "format_local out m res_buf format_slot = do {
     let m = memset_loop m res_buf 0 (unat MAX_BUFFER);
     (n, m) \<leftarrow> vsprintf m res_buf (read32 m format_slot) format_slot;
     out m res_buf
   }"

definition printf :: "(mem \<Rightarrow> u32 \<Rightarrow> u32 option) \<Rightarrow> mem \<Rightarrow> u32 \<Rightarrow> u32 \<Rightarrow> u32 option" where
  "printf write m res_buf format_slot = format_local write m res_buf format_slot"

definition printk :: "(mem \<Rightarrow> u32 \<Rightarrow> unit option) \<Rightarrow> mem \<Rightarrow> u32 \<Rightarrow> u32 \<Rightarrow> unit option" where
  "printk console_str m res_buf format_slot = format_local console_str m res_buf format_slot"

section \<open>Specification\<close>

definition digit_char :: "nat \<Rightarrow> u8" where
  "digit_char n = (if n < 10 then of_nat (n + 48) else of_nat (n - 10 + 65))"

fun digits :: "nat \<Rightarrow> nat \<Rightarrow> u8 list" where
  "digits b n = (if b < 2 \<or> n < b then [digit_char n] else digits b (n div b) @ [digit_char (n mod b)])"

declare digits.simps [simp del]

text \<open>Reading the digits back.\<close>

definition digit_val :: "u8 \<Rightarrow> nat" where
  "digit_val c = (if unat c < 58 then unat c - 48 else unat c - 55)"

definition number :: "nat \<Rightarrow> u8 list \<Rightarrow> nat" where
  "number b cs = foldl (\<lambda>n c. b * n + digit_val c) 0 cs"

datatype farg = FInt u32 | FChar u8 | FStr "u8 list"

definition decimal :: "u32 \<Rightarrow> u8 list" where
  "decimal v = (if v <s 0 then 45 # digits 10 (unat (- v)) else digits 10 (unat v))"

fun render :: "u8 list \<Rightarrow> farg list \<Rightarrow> u8 list" where
  "render [] args = []"
| "render [c] args = (if c = 37 then [] else [c])"
| "render (c # d # cs) args =
     (if c \<noteq> 37 then c # render (d # cs) args
      else case args of
        FInt v # as \<Rightarrow>
          if d = 120 then digits 16 (unat v) @ render cs as
          else if d = 100 then decimal v @ render cs as else render (d # cs) args
      | FStr bs # as \<Rightarrow> if d = 115 then bs @ render cs as else render (d # cs) args
      | FChar b # as \<Rightarrow> if d = 99 then b # render cs as else render (d # cs) args
      | [] \<Rightarrow> render (d # cs) args)"

text \<open>The arguments have the types the format asks for.\<close>

fun conforms :: "u8 list \<Rightarrow> farg list \<Rightarrow> bool" where
  "conforms [] args \<longleftrightarrow> True"
| "conforms [c] args \<longleftrightarrow> True"
| "conforms (c # d # cs) args \<longleftrightarrow>
     (if c \<noteq> 37 then conforms (d # cs) args
      else if d = 120 \<or> d = 100 then (case args of FInt v # as \<Rightarrow> conforms cs as | _ \<Rightarrow> False)
      else if d = 115 then (case args of FStr bs # as \<Rightarrow> conforms cs as | _ \<Rightarrow> False)
      else if d = 99 then (case args of FChar b # as \<Rightarrow> conforms cs as | _ \<Rightarrow> False)
      else conforms (d # cs) args)"

text \<open>The arguments after \<open>ap\<close> in memory; nothing of them lies in \<open>R\<close>.\<close>

fun arg_at :: "mem \<Rightarrow> u32 set \<Rightarrow> u32 \<Rightarrow> farg \<Rightarrow> bool" where
  "arg_at m R p (FInt v) \<longleftrightarrow> read32 m p = v \<and> span p 4 \<inter> R = {}"
| "arg_at m R p (FChar c) \<longleftrightarrow> m p = c \<and> span p 4 \<inter> R = {}"
| "arg_at m R p (FStr bs) \<longleftrightarrow>
     span p 4 \<inter> R = {} \<and> read32 m p \<noteq> NULL \<and> cstring m (read32 m p) bs \<and> length bs < 4294967295 \<and>
     span (read32 m p) (Suc (length bs)) \<inter> R = {}"

fun args_at :: "mem \<Rightarrow> u32 set \<Rightarrow> u32 \<Rightarrow> farg list \<Rightarrow> bool" where
  "args_at m R ap [] \<longleftrightarrow> True"
| "args_at m R ap (a # as) \<longleftrightarrow> arg_at m R (ap + 4) a \<and> args_at m R (ap + 4) as"

primrec write_bytes :: "mem \<Rightarrow> u32 \<Rightarrow> u8 list \<Rightarrow> mem" where
  "write_bytes m p [] = m"
| "write_bytes m p (b # bs) = write_bytes (m(p := b)) (p + 1) bs"

section \<open>Digits\<close>

lemma write_bytes_append: "write_bytes m p (xs @ ys) = write_bytes (write_bytes m p xs) (p + of_nat (length xs)) ys"
  by (induction xs arbitrary: m p) (auto simp: add.assoc)

lemma write_bytes_other: "a \<notin> span p (length bs) \<Longrightarrow> write_bytes m p bs a = m a"
  by (induction bs arbitrary: m p) (auto simp: span_Suc)

lemma bytes_at_write: "length bs \<le> 4294967296 \<Longrightarrow> bytes_at (write_bytes m p bs) p (length bs) = bs"
proof (induction bs arbitrary: m p)
  case (Cons b bs)
  have "write_bytes (m(p := b)) (p + 1) bs p = b"
    using Cons.prems start_notin_span [of "length bs" p] by (simp add: write_bytes_other)
  with Cons show ?case
    by (simp add: bytes_at_Suc)
qed simp

lemma digits_step:
  "2 \<le> b \<Longrightarrow> digits b n = (if n div b = 0 then [] else digits b (n div b)) @ [digit_char (n mod b)]"
  by (subst digits.simps) (auto simp: div_eq_0_iff)

lemma itoa_digit:
  assumes "n < 36"
  shows "(if (of_nat n :: u32) < 10 then ucast (of_nat n + 48 :: u32) else ucast (of_nat n - 10 + 65 :: u32)) = digit_char n"
proof -
  have "(of_nat n :: u32) < 10 \<longleftrightarrow> n < 10"
    using assms by (simp add: word_less_nat_alt)
  moreover have "(ucast (of_nat k :: u32) :: u8) = of_nat k" if "k < 256" for k
    by (simp add: unsigned_of_nat word_of_nat_eq_iff take_bit_take_bit min_def)
  moreover have "of_nat n + 48 = (of_nat (n + 48) :: u32)" "10 \<le> n \<Longrightarrow> of_nat n - 10 + 65 = (of_nat (n - 10 + 65) :: u32)"
    by (simp_all add: of_nat_diff)
  ultimately show ?thesis
    using assms by (auto simp: digit_char_def simp del: of_nat_add)
qed

lemma mod_less_36: "2 \<le> b \<Longrightarrow> b \<le> 36 \<Longrightarrow> n mod b < (36 :: nat)"
  by (rule less_le_trans [OF mod_less_divisor]) auto

lemma itoa_eq:
  assumes "2 \<le> unat radix" and "unat radix \<le> 36"
  shows "itoa m v buf radix = Some (write_bytes m buf (digits (unat radix) (unat v)), buf + of_nat (length (digits (unat radix) (unat v))))"
proof (induction "unat v" arbitrary: v rule: less_induct)
  case less
  let ?b = "unat radix" and ?i = "v div ucast radix" and ?m = "v mod ucast radix"
  have r: "unat (ucast radix :: u32) = ?b"
    using assms(2) by (simp add: unsigned_ucast_eq take_bit_nat_eq_self_iff)
  have i: "unat ?i = unat v div ?b"
    by (simp add: unat_div r)
  have "unat v mod ?b < 4294967296"
    using assms by (intro less_trans [OF mod_less_divisor]) auto
  then have m: "?m = of_nat (unat v mod ?b)"
    by (simp add: word_unat_eq_iff unat_mod r)
  have dig: "?m < 10 \<Longrightarrow> ucast (?m + 48) = digit_char (unat v mod ?b)"
      "\<not> ?m < 10 \<Longrightarrow> ucast (55 + ?m) = digit_char (unat v mod ?b)"
    using itoa_digit [OF mod_less_36 [OF assms, of "unat v"]] unfolding m by (simp_all split: if_splits)
  have nz: "radix \<noteq> 0" "?i = 0 \<longleftrightarrow> unat v div ?b = 0"
    using assms i by (auto simp: word_unat_eq_iff)
  show ?case
  proof (cases "unat v div ?b = 0")
    case True
    then show ?thesis
      using nz dig digits_step [OF assms(1), of "unat v"] by (subst itoa.simps) (simp add: Let_def)
  next
    case False
    then have "unat ?i < unat v"
      using i assms(1) by (cases "unat v = 0") auto
    then have "itoa m ?i buf radix = Some (write_bytes m buf (digits ?b (unat v div ?b)), buf + of_nat (length (digits ?b (unat v div ?b))))"
      using less i by simp
    then show ?thesis
      using nz False dig digits_step [OF assms(1), of "unat v"]
      by (subst itoa.simps) (simp add: Let_def write_bytes_append add.assoc)
  qed
qed

text \<open>The digits of a number have its value.\<close>

lemma unat_of_nat_u8: "k < 256 \<Longrightarrow> unat (of_nat k :: u8) = k"
  by (simp add: unsigned_of_nat take_bit_nat_eq_self)

lemma unat_digit_char: "n < 36 \<Longrightarrow> unat (digit_char n) = (if n < 10 then n + 48 else n + 55)"
  by (auto simp: digit_char_def unat_of_nat_u8 simp del: of_nat_add)

lemma digit_val_char: "n < 36 \<Longrightarrow> digit_val (digit_char n) = n"
  by (simp add: digit_val_def unat_digit_char)

lemma div_smaller: "2 \<le> b \<Longrightarrow> n div b \<noteq> 0 \<Longrightarrow> n div b < (n :: nat)"
  by (cases "n = 0") auto

lemma number_append: "number b (cs @ [c]) = b * number b cs + digit_val c"
  by (simp add: number_def)

lemma number_digits: "2 \<le> b \<Longrightarrow> b \<le> 36 \<Longrightarrow> number b (digits b n) = n"
proof (induction n rule: less_induct)
  case (less n)
  have "number b (digits b n) = b * number b (if n div b = 0 then [] else digits b (n div b)) + n mod b"
    using less.prems by (subst digits_step) (simp_all add: number_append digit_val_char mod_less_36)
  also have "number b (if n div b = 0 then [] else digits b (n div b)) = n div b"
    using less div_smaller [of b n] by (simp add: number_def)
  finally show ?case
    by simp
qed

lemma digits_bounds: "2 \<le> b \<Longrightarrow> n < b ^ k \<Longrightarrow> 0 < k \<Longrightarrow> length (digits b n) \<le> k"
proof (induction k arbitrary: n)
  case (Suc k)
  show ?case
  proof (cases "n div b = 0")
    case True
    with Suc show ?thesis
      by (subst digits_step) auto
  next
    case False
    then have "n div b < b ^ k" "0 < k"
      using Suc.prems by (auto simp: less_mult_imp_div_less mult.commute intro!: gr0I)
    with Suc False show ?thesis
      by (subst digits_step) auto
  qed
qed simp

lemma digit_char_nz: "n < 36 \<Longrightarrow> digit_char n \<noteq> 0"
  by (auto simp: word_unat_eq_iff unat_digit_char)

lemma digits_nz: "2 \<le> b \<Longrightarrow> b \<le> 36 \<Longrightarrow> 0 \<notin> set (digits b n)"
proof (induction n rule: less_induct)
  case (less n)
  then have "digit_char (n mod b) \<noteq> 0"
    by (intro digit_char_nz mod_less_36)
  with less div_smaller [of b n] show ?case
    by (subst digits_step) simp_all
qed

section \<open>Writing in pieces\<close>

text \<open>
  \<open>seg m m' p bs\<close>: from \<open>m\<close> to \<open>m'\<close> the text \<open>bs\<close> was written at \<open>p\<close>; the byte after it is the only
  other one that may have changed, and only to or from a terminator.
\<close>

definition seg :: "mem \<Rightarrow> mem \<Rightarrow> u32 \<Rightarrow> u8 list \<Rightarrow> bool" where
  "seg m m' p bs \<longleftrightarrow>
     bytes_at m' p (length bs) = bs \<and> (\<forall>a. a \<notin> span p (Suc (length bs)) \<longrightarrow> m' a = m a) \<and>
     (m (p + of_nat (length bs)) = 0 \<longrightarrow> m' (p + of_nat (length bs)) = 0)"

lemma bytes_at_append: "bytes_at m p (i + j) = bytes_at m p i @ bytes_at m (p + of_nat i) j"
  by (induction i arbitrary: p) (auto simp: bytes_at_Suc add.assoc)

lemma in_span_iff: "k < 4294967296 \<Longrightarrow> n \<le> 4294967296 \<Longrightarrow> p + of_nat k \<in> span p n \<longleftrightarrow> k < n"
  by (auto simp: span_def of_nat_inj_u32 image_iff)

lemma span_Suc_end: "span p (Suc n) = insert (p + of_nat n) (span p n)"
  by (auto simp: span_def lessThan_Suc)

lemma seg_refl: "seg m m p []"
  by (simp add: seg_def)

lemma seg_write: "length bs < 4294967295 \<Longrightarrow> seg m (write_bytes m p bs) p bs"
proof -
  assume len: "length bs < 4294967295"
  have "p + of_nat (length bs) \<notin> span p (length bs)"
    using len by (simp add: in_span_iff)
  moreover have "write_bytes m p bs a = m a" if "a \<notin> span p (Suc (length bs))" for a
    using that by (simp add: write_bytes_other span_Suc_end)
  ultimately show ?thesis
    using len by (simp add: seg_def bytes_at_write write_bytes_other)
qed

lemma seg_append:
  assumes 1: "seg m m1 p xs" and 2: "seg m1 m2 (p + of_nat (length xs)) ys" and len: "length xs + length ys < 4294967295"
  shows "seg m m2 p (xs @ ys)"
proof -
  let ?q = "p + of_nat (length xs) :: u32"
  have "bytes_at m2 p (length xs) = bytes_at m1 p (length xs)"
  proof (rule bytes_at_cong)
    fix a assume "a \<in> span p (length xs)"
    then obtain i where "i < length xs" "a = p + of_nat i"
      by (auto simp: span_def)
    then have "a \<notin> span ?q (Suc (length ys))"
      using below_notin_span [of i "length xs" "Suc (length ys)" p] len by simp
    then show "m2 a = m1 a"
      using 2 by (simp add: seg_def)
  qed
  then have bytes: "bytes_at m2 p (length (xs @ ys)) = xs @ ys"
    using 1 2 by (simp add: seg_def bytes_at_append)
  have "span p (Suc (length xs)) \<subseteq> span p (Suc (length (xs @ ys)))" "span ?q (Suc (length ys)) \<subseteq> span p (Suc (length (xs @ ys)))"
    using span_shift_subset [of 0 "Suc (length xs)" "Suc (length (xs @ ys))" p]
      span_shift_subset [of "length xs" "Suc (length ys)" "Suc (length (xs @ ys))" p] by simp_all
  then have frame: "m2 a = m a" if "a \<notin> span p (Suc (length (xs @ ys)))" for a
  proof -
    have "m2 a = m1 a" "m1 a = m a"
      using that 1 2 \<open>span p (Suc (length xs)) \<subseteq> _\<close> \<open>span ?q (Suc (length ys)) \<subseteq> _\<close>
      by (auto simp: seg_def simp del: length_append)
    then show ?thesis
      by simp
  qed
  have zero: "m2 (?q + of_nat (length ys)) = 0" if "m (?q + of_nat (length ys)) = 0"
  proof (cases ys)
    case Nil
    then show ?thesis
      using that 1 2 by (simp add: seg_def)
  next
    case (Cons y zs)
    have "p + of_nat (length xs + length ys) \<notin> span p (Suc (length xs))"
      using len Cons by (subst in_span_iff) auto
    then have "m1 (?q + of_nat (length ys)) = 0"
      using 1 that by (simp add: seg_def add.assoc)
    then show ?thesis
      using 2 by (simp add: seg_def)
  qed
  show ?thesis
    using bytes frame zero by (simp add: seg_def add.assoc)
qed

lemma seg_frame: "seg m m' p bs \<Longrightarrow> span p (Suc (length bs)) \<subseteq> R \<Longrightarrow> a \<notin> R \<Longrightarrow> m' a = m a"
  by (auto simp: seg_def)

lemma span_prefix: "span p (Suc (length (xs @ ys))) \<subseteq> R \<Longrightarrow> span p (Suc (length xs)) \<subseteq> R"
  and span_suffix: "span p (Suc (length (xs @ ys))) \<subseteq> R \<Longrightarrow> span (p + of_nat (length xs)) (Suc (length ys)) \<subseteq> R"
  using span_shift_subset [of 0 "Suc (length xs)" "Suc (length (xs @ ys))" p]
    span_shift_subset [of "length xs" "Suc (length ys)" "Suc (length (xs @ ys))" p] by auto

lemma seg_strcpy:
  assumes "cstring m s bs" and "s \<noteq> NULL" and "p \<noteq> NULL" and "length bs < 4294967295"
    and "span p (Suc (length bs)) \<inter> span s (Suc (length bs)) = {}"
  shows "\<exists>m'. strcpy m p s = Some m' \<and> seg m m' p bs \<and> strlen m' s = Some (of_nat (length bs))"
proof -
  obtain m' where m': "strcpy_loop m p s = Some m'" "cstring m' p bs" "\<forall>a. a \<notin> span p (Suc (length bs)) \<longrightarrow> m' a = m a"
    using strcpy_loop_cstring [OF assms(1,5)] assms(4) by auto
  have "bytes_at m' p (length bs) = bs" "m' (p + of_nat (length bs)) = 0"
    using m'(2) by (auto simp: cstring_alt bytes_at_def intro!: nth_equalityI)
  moreover have "cstring m' s bs"
    using assms(1) cstring_cong [of s bs m' m] m'(3) assms(5) by blast
  ultimately show ?thesis
    using m' assms(2,3) by (simp add: strcpy_def seg_def strlen_cstring)
qed

section \<open>Frames for the arguments\<close>

lemma read32_cong: "(\<And>a. a \<notin> R \<Longrightarrow> m' a = m a) \<Longrightarrow> span p 4 \<inter> R = {} \<Longrightarrow> read32 m' p = read32 m p"
proof -
  assume m: "\<And>a. a \<notin> R \<Longrightarrow> m' a = m a" and d: "span p 4 \<inter> R = {}"
  have "m' (p + of_nat i) = m (p + of_nat i)" if "i < 4" for i
    using m d span_memI [OF that, of p] by blast
  from this [of 0] this [of 1] this [of 2] this [of 3] show ?thesis
    by (simp add: read32_def)
qed

lemma arg_at_cong: "(\<And>a. a \<notin> R \<Longrightarrow> m' a = m a) \<Longrightarrow> arg_at m R p x \<Longrightarrow> arg_at m' R p x"
proof (induction m R p x rule: arg_at.induct)
  case (1 m R p v)
  then show ?case
    using read32_cong [of R m' m p] by simp
next
  case (2 m R p c)
  then show ?case
    using span_memI [of 0 4 p] by auto
next
  case (3 m R p bs)
  then have r: "read32 m' p = read32 m p"
    using read32_cong [of R m' m p] by simp
  moreover have "cstring m' (read32 m p) bs"
    using 3 cstring_cong [of "read32 m p" bs m' m] by auto
  ultimately show ?case
    using 3 by simp
qed

lemma args_at_cong: "(\<And>a. a \<notin> R \<Longrightarrow> m' a = m a) \<Longrightarrow> args_at m R ap as \<Longrightarrow> args_at m' R ap as"
  by (induction as arbitrary: ap) (auto intro: arg_at_cong)

section \<open>The loop\<close>

text \<open>The state of the loop: the rest of the format, the rest of the arguments, and room for the text.\<close>

definition fmt_ok :: "u32 set \<Rightarrow> mem \<Rightarrow> u32 \<Rightarrow> u32 \<Rightarrow> u8 list \<Rightarrow> u32 \<Rightarrow> farg list \<Rightarrow> bool" where
  "fmt_ok R m buf idx cs ap as \<longleftrightarrow>
     cstring m idx cs \<and> span idx (Suc (length cs)) \<inter> R = {} \<and> args_at m R ap as \<and> conforms cs as \<and>
     span buf (Suc (length (render cs as))) \<subseteq> R \<and> length (render cs as) < 4294967295 \<and> NULL \<notin> R"

lemma fmt_ok_next:
  assumes ok: "fmt_ok R m buf idx (pre @ cs) ap as"
    and out: "render (pre @ cs) as = xs @ render cs (drop n as)" and conf: "conforms cs (drop n as)"
    and seg: "seg m m' buf xs" and n: "n \<le> length as"
  shows "fmt_ok R m' (buf + of_nat (length xs)) (idx + of_nat (length pre)) cs (ap + 4 * of_nat n) (drop n as)"
proof -
  have R: "span buf (Suc (length (xs @ render cs (drop n as)))) \<subseteq> R"
    using ok out by (simp add: fmt_ok_def)
  have fr: "m' a = m a" if "a \<notin> R" for a
    using seg_frame [OF seg span_prefix [OF R] that] .
  have args: "args_at m R (ap + 4 * of_nat n) (drop n as)" if "args_at m R ap as" "n \<le> length as" for n ap as
    using that
  proof (induction n arbitrary: ap as)
    case (Suc n)
    then obtain x xs where "as = x # xs"
      by (cases as) auto
    with Suc.prems Suc.IH [of "ap + 4" xs] show ?case
      by (simp add: algebra_simps)
  qed simp
  have sub: "span (idx + of_nat (length pre)) (Suc (length cs)) \<subseteq> span idx (Suc (length (pre @ cs)))"
    by (rule span_shift_subset) simp
  have "cstring m (idx + of_nat (length pre)) cs"
    using ok by (simp add: fmt_ok_def cstring_append)
  then have "cstring m' (idx + of_nat (length pre)) cs"
    using ok sub fr by (subst cstring_cong [of _ _ m' m]) (auto simp: fmt_ok_def)
  moreover have "args_at m' R (ap + 4 * of_nat n) (drop n as)"
    using args_at_cong [OF fr args [of ap as n]] ok n by (simp add: fmt_ok_def)
  ultimately show ?thesis
    using ok out conf span_suffix [OF R] sub by (auto simp: fmt_ok_def)
qed

lemma vsprintf_loop_end: "vsprintf_loop m buf idx 0 ap = Some m"
  by (simp add: vsprintf_loop.simps)

lemma vsprintf_loop_plain:
  "c \<noteq> 0 \<Longrightarrow> c \<noteq> 37 \<Longrightarrow>
   vsprintf_loop m buf idx c ap =
     vsprintf_loop (m(buf := c)) (buf + 1) (idx + 1) ((m(buf := c)) (idx + 1)) ap"
  by (subst vsprintf_loop.simps) (simp add: Let_def)

lemma vsprintf_loop_percent:
  "vsprintf_loop m buf idx 37 ap =
     (if m (idx + 1) \<in> {120, 115, 99, 100} then vsprintf_loop m buf idx 37 ap
      else vsprintf_loop m buf (idx + 1) (m (idx + 1)) ap)"
  by (subst (1 2) vsprintf_loop.simps) (simp add: Let_def)

lemma vsprintf_loop_x:
  "m (idx + 1) = 120 \<Longrightarrow> read32 m (ap + 4) = v \<Longrightarrow> xs = digits 16 (unat v) \<Longrightarrow>
   vsprintf_loop m buf idx 37 ap =
     (let m' = write_bytes m buf xs
      in vsprintf_loop m' (buf + of_nat (length xs)) (idx + 2) (m' (idx + 2)) (ap + 4))"
  by (subst vsprintf_loop.simps) (simp add: Let_def itoa_eq add.assoc)

lemma vsprintf_loop_d:
  "m (idx + 1) = 100 \<Longrightarrow> read32 m (ap + 4) = v \<Longrightarrow> xs = decimal v \<Longrightarrow>
   vsprintf_loop m buf idx 37 ap =
     (let m' = write_bytes m buf xs
      in vsprintf_loop m' (buf + of_nat (length xs)) (idx + 2) (m' (idx + 2)) (ap + 4))"
  by (subst vsprintf_loop.simps) (simp add: Let_def itoa_eq add.assoc decimal_def)

lemma vsprintf_loop_c:
  "m (idx + 1) = 99 \<Longrightarrow> m (ap + 4) = b \<Longrightarrow>
   vsprintf_loop m buf idx 37 ap =
     (let m' = write_bytes m buf [b]
      in vsprintf_loop m' (buf + of_nat (length [b])) (idx + 2) (m' (idx + 2)) (ap + 4))"
  by (subst vsprintf_loop.simps) (simp add: Let_def add.assoc)

lemma vsprintf_loop_s:
  "m (idx + 1) = 115 \<Longrightarrow> strcpy m buf (read32 m (ap + 4)) = Some m' \<Longrightarrow>
   strlen m' (read32 m (ap + 4)) = Some n \<Longrightarrow>
   vsprintf_loop m buf idx 37 ap = vsprintf_loop m' (buf + n) (idx + 2) (m' (idx + 2)) (ap + 4)"
  by (subst vsprintf_loop.simps) (simp add: Let_def add.assoc)

text \<open>A conversion: the argument is written as \<open>xs\<close> and the loop goes on behind it.\<close>

lemma vsprintf_conv:
  assumes ok: "fmt_ok R m buf idx (37 # d # cs) ap (x # as)"
    and out: "render (37 # d # cs) (x # as) = xs @ render cs as" and conf: "conforms cs as" and seg: "seg m m1 buf xs"
    and step: "vsprintf_loop m buf idx 37 ap = vsprintf_loop m1 (buf + of_nat (length xs)) (idx + 2) (m1 (idx + 2)) (ap + 4)"
    and IH: "\<And>m buf idx ap. fmt_ok R m buf idx cs ap as \<Longrightarrow>
      \<exists>m'. vsprintf_loop m buf idx (m idx) ap = Some m' \<and> seg m m' buf (render cs as)"
  shows "\<exists>m'. vsprintf_loop m buf idx 37 ap = Some m' \<and> seg m m' buf (render (37 # d # cs) (x # as))"
proof -
  have "fmt_ok R m1 (buf + of_nat (length xs)) (idx + 2) cs (ap + 4) as"
    using fmt_ok_next [of R m buf idx "[37, d]" cs ap "x # as" xs 1 m1] ok out conf seg by simp
  then obtain m' where m': "vsprintf_loop m1 (buf + of_nat (length xs)) (idx + 2) (m1 (idx + 2)) (ap + 4) = Some m'"
      "seg m1 m' (buf + of_nat (length xs)) (render cs as)"
    using IH by blast
  moreover have "length xs + length (render cs as) < 4294967295"
    using ok out by (simp add: fmt_ok_def)
  ultimately show ?thesis
    using step seg_append [OF seg m'(2)] out by simp
qed

text \<open>A character that is copied, and a percent sign that is dropped.\<close>

lemma vsprintf_copy:
  assumes ok: "fmt_ok R m buf idx (c # cs) ap as" and c: "c \<noteq> 37" and out: "render (c # cs) as = c # render cs as"
    and conf: "conforms cs as"
    and IH: "\<And>m buf idx ap. fmt_ok R m buf idx cs ap as \<Longrightarrow>
      \<exists>m'. vsprintf_loop m buf idx (m idx) ap = Some m' \<and> seg m m' buf (render cs as)"
  shows "\<exists>m'. vsprintf_loop m buf idx c ap = Some m' \<and> seg m m' buf (render (c # cs) as)"
proof -
  have seg: "seg m (m(buf := c)) buf [c]"
    using seg_write [of "[c]" m buf] by simp
  have "fmt_ok R (m(buf := c)) (buf + 1) (idx + 1) cs ap as"
    using fmt_ok_next [of R m buf idx "[c]" cs ap as "[c]" 0 "m(buf := c)"] ok out conf seg by simp
  then obtain m' where m': "vsprintf_loop (m(buf := c)) (buf + 1) (idx + 1) ((m(buf := c)) (idx + 1)) ap = Some m'"
      "seg (m(buf := c)) m' (buf + 1) (render cs as)"
    using IH by blast
  moreover have "c \<noteq> 0" "length [c] + length (render cs as) < 4294967295"
    using ok out by (simp_all add: fmt_ok_def)
  ultimately show ?thesis
    using vsprintf_loop_plain [of c m buf idx ap] seg_append [OF seg, of m' "render cs as"] c out by simp
qed

lemma vsprintf_int:
  assumes ok: "fmt_ok R m buf idx (37 # d # cs) ap (FInt v # as)" and d: "d = 120 \<or> d = 100"
    and IH: "\<And>m buf idx ap as. fmt_ok R m buf idx cs ap as \<Longrightarrow>
      \<exists>m'. vsprintf_loop m buf idx (m idx) ap = Some m' \<and> seg m m' buf (render cs as)"
  shows "\<exists>m'. vsprintf_loop m buf idx 37 ap = Some m' \<and> seg m m' buf (render (37 # d # cs) (FInt v # as))"
proof -
  define xs where "xs = (if d = 120 then digits 16 (unat v) else decimal v)"
  have out: "render (37 # d # cs) (FInt v # as) = xs @ render cs as"
    using d by (auto simp: xs_def)
  have len: "length xs < 4294967295" and conf: "conforms cs as" and m: "m (idx + 1) = d" "read32 m (ap + 4) = v"
    using ok out d by (auto simp: fmt_ok_def)
  have "vsprintf_loop m buf idx 37 ap = vsprintf_loop (write_bytes m buf xs) (buf + of_nat (length xs)) (idx + 2)
      (write_bytes m buf xs (idx + 2)) (ap + 4)"
    using vsprintf_loop_x [of m idx ap v xs buf] vsprintf_loop_d [of m idx ap v xs buf] m d by (auto simp: xs_def Let_def)
  then show ?thesis
    using vsprintf_conv [OF ok out conf seg_write [OF len] _ IH] by simp
qed

lemma vsprintf_str:
  assumes ok: "fmt_ok R m buf idx (37 # 115 # cs) ap (FStr bs # as)"
    and IH: "\<And>m buf idx ap as. fmt_ok R m buf idx cs ap as \<Longrightarrow>
      \<exists>m'. vsprintf_loop m buf idx (m idx) ap = Some m' \<and> seg m m' buf (render cs as)"
  shows "\<exists>m'. vsprintf_loop m buf idx 37 ap = Some m' \<and> seg m m' buf (render (37 # 115 # cs) (FStr bs # as))"
proof -
  let ?p = "read32 m (ap + 4)"
  have out: "render (37 # 115 # cs) (FStr bs # as) = bs @ render cs as" and conf: "conforms cs as"
    and m: "m (idx + 1) = 115" and a: "cstring m ?p bs" "?p \<noteq> NULL" "length bs < 4294967295" "span ?p (Suc (length bs)) \<inter> R = {}"
    using ok by (simp_all add: fmt_ok_def)
  have R: "span buf (Suc (length bs)) \<subseteq> R" "NULL \<notin> R"
    using ok span_prefix [of buf bs "render cs as" R] out by (auto simp: fmt_ok_def)
  then have "buf \<noteq> NULL"
    using start_in_span [of buf "length bs"] by blast
  then obtain m1 where m1: "strcpy m buf ?p = Some m1" "seg m m1 buf bs" "strlen m1 ?p = Some (of_nat (length bs))"
    using seg_strcpy [OF a(1,2) _ a(3)] a(4) R(1) by blast
  show ?thesis
    by (rule vsprintf_conv [OF ok out conf m1(2) vsprintf_loop_s [OF m m1(1,3)] IH])
qed

lemma vsprintf_chr:
  assumes ok: "fmt_ok R m buf idx (37 # 99 # cs) ap (FChar b # as)"
    and IH: "\<And>m buf idx ap as. fmt_ok R m buf idx cs ap as \<Longrightarrow>
      \<exists>m'. vsprintf_loop m buf idx (m idx) ap = Some m' \<and> seg m m' buf (render cs as)"
  shows "\<exists>m'. vsprintf_loop m buf idx 37 ap = Some m' \<and> seg m m' buf (render (37 # 99 # cs) (FChar b # as))"
proof -
  have out: "render (37 # 99 # cs) (FChar b # as) = [b] @ render cs as" and conf: "conforms cs as"
    and m: "m (idx + 1) = 99" "m (ap + 4) = b"
    using ok by (simp_all add: fmt_ok_def)
  have "seg m (write_bytes m buf [b]) buf [b]"
    by (rule seg_write) simp
  then show ?thesis
    by (rule vsprintf_conv [OF ok out conf _ _ IH]) (simp add: vsprintf_loop_c [OF m] Let_def)
qed

lemma vsprintf_percent:
  assumes ok: "fmt_ok R m buf idx (37 # d # cs) ap as"
    and IH: "\<And>m buf idx ap as. fmt_ok R m buf idx cs ap as \<Longrightarrow>
      \<exists>m'. vsprintf_loop m buf idx (m idx) ap = Some m' \<and> seg m m' buf (render cs as)"
    and IH2: "\<And>m buf idx ap. fmt_ok R m buf idx (d # cs) ap as \<Longrightarrow>
      \<exists>m'. vsprintf_loop m buf idx (m idx) ap = Some m' \<and> seg m m' buf (render (d # cs) as)"
  shows "\<exists>m'. vsprintf_loop m buf idx 37 ap = Some m' \<and> seg m m' buf (render (37 # d # cs) as)"
proof -
  have conf: "conforms (37 # d # cs) as" and m: "m (idx + 1) = d"
    using ok by (simp_all add: fmt_ok_def)
  consider (int) v as' where "as = FInt v # as'" "d = 120 \<or> d = 100"
    | (str) bs as' where "as = FStr bs # as'" "d = 115"
    | (chr) b as' where "as = FChar b # as'" "d = 99"
    | (other) "d \<notin> {120, 100, 115, 99}"
    using conf by (auto split: if_splits list.splits farg.splits)
  then show ?thesis
  proof cases
    case int
    then show ?thesis
      using vsprintf_int [OF _ int(2) IH] ok by simp
  next
    case str
    then show ?thesis
      using vsprintf_str [OF _ IH] ok by simp
  next
    case chr
    then show ?thesis
      using vsprintf_chr [OF _ IH] ok by simp
  next
    case other
    then have out: "render (37 # d # cs) as = render (d # cs) as"
      by (auto split: list.splits farg.splits)
    have "fmt_ok R m buf (idx + 1) (d # cs) ap as"
      using fmt_ok_next [of R m buf idx "[37]" "d # cs" ap as "[]" 0 m] ok out conf other seg_refl by simp
    from IH2 [OF this] have "\<exists>m'. vsprintf_loop m buf idx 37 ap = Some m' \<and> seg m m' buf (render (d # cs) as)"
      using m other vsprintf_loop_percent [of m buf idx ap] by simp
    then show ?thesis
      unfolding out .
  qed
qed

lemma vsprintf_loop_two:
  assumes ok: "fmt_ok R m buf idx (c # d # cs) ap as"
    and IH: "\<And>m buf idx ap cs' as'. fmt_ok R m buf idx cs' ap as' \<Longrightarrow> length cs' < length (c # d # cs) \<Longrightarrow>
      \<exists>m'. vsprintf_loop m buf idx (m idx) ap = Some m' \<and> seg m m' buf (render cs' as')"
  shows "\<exists>m'. vsprintf_loop m buf idx (m idx) ap = Some m' \<and> seg m m' buf (render (c # d # cs) as)"
proof -
  have m: "m idx = c" "m (idx + 1) = d" and conf: "conforms (c # d # cs) as" and args: "args_at m R ap as"
    using ok by (simp_all add: fmt_ok_def)
  have IH1: "\<exists>m'. vsprintf_loop m buf idx (m idx) ap = Some m' \<and> seg m m' buf (render cs as')"
    if "fmt_ok R m buf idx cs ap as'" for m buf idx ap as'
    using IH [OF that] by simp
  have IH2: "\<exists>m'. vsprintf_loop m buf idx (m idx) ap = Some m' \<and> seg m m' buf (render (d # cs) as)"
    if "fmt_ok R m buf idx (d # cs) ap as" for m buf idx ap
    using IH [OF that] by simp
  show ?thesis
  proof (cases "c = 37")
    case False
    then show ?thesis
      using vsprintf_copy [OF ok False _ _ IH2] m(1) conf by simp
  next
    case True
    show ?thesis
      using vsprintf_percent [OF ok [unfolded True] IH1 IH2] m True by simp
  qed
qed

lemma vsprintf_loop_render:
  "fmt_ok R m buf idx cs ap as \<Longrightarrow> \<exists>m'. vsprintf_loop m buf idx (m idx) ap = Some m' \<and> seg m m' buf (render cs as)"
proof (induction "length cs" arbitrary: cs as m buf idx ap rule: less_induct)
  case less
  note ok = less.prems
  have IH: "\<exists>m'. vsprintf_loop m buf idx (m idx) ap = Some m' \<and> seg m m' buf (render cs' as')"
    if "fmt_ok R m buf idx cs' ap as'" "length cs' < length cs" for m buf idx ap cs' as'
    using less.hyps that by blast
  consider "cs = []" | c where "cs = [c]" | c d ds where "cs = c # d # ds"
    by (metis neq_Nil_conv)
  then show ?case
  proof cases
    case 1
    then show ?thesis
      using ok by (simp add: fmt_ok_def vsprintf_loop_end seg_refl)
  next
    case 2
    then have m: "m idx = c" "m (idx + 1) = 0"
      using ok by (auto simp: fmt_ok_def)
    show ?thesis
    proof (cases "c = 37")
      case True
      then show ?thesis
        using m 2 vsprintf_loop_percent [of m buf idx ap] by (simp add: vsprintf_loop_end seg_refl)
    next
      case False
      then show ?thesis
        using vsprintf_copy [of R m buf idx c "[]" ap as] ok IH [of _ _ _ "[]" _ as] 2 m(1) by simp
    qed
  next
    case 3
    then show ?thesis
      using vsprintf_loop_two [of R m buf idx c d ds ap as] ok IH by simp
  qed
qed

lemma vsprintf_loop_literal:
  "cstring m fmt cs \<Longrightarrow> 37 \<notin> set cs \<Longrightarrow> span fmt (Suc (length cs)) \<inter> span buf (Suc (length cs)) = {} \<Longrightarrow>
   vsprintf_loop m buf fmt (m fmt) ap = Some (write_bytes m buf cs)"
proof (induction cs arbitrary: m fmt buf)
  case Nil
  then show ?case
    by (simp add: vsprintf_loop_end)
next
  case (Cons c cs)
  have d: "buf \<notin> span (fmt + 1) (Suc (length cs))" "m fmt = c" "c \<noteq> 0" "c \<noteq> 37"
    using Cons.prems by (auto simp: span_Suc [of fmt] span_Suc [of buf])
  have 1: "cstring (m(buf := c)) (fmt + 1) cs"
    using Cons.prems(1) d(1) by (simp add: cstring_upd_other)
  have 2: "span (fmt + 1) (Suc (length cs)) \<inter> span (buf + 1) (Suc (length cs)) = {}"
    using Cons.prems(3) by (auto simp: span_Suc [of fmt "Suc _"] span_Suc [of buf "Suc _"])
  have "vsprintf_loop (m(buf := c)) (buf + 1) (fmt + 1) ((m(buf := c)) (fmt + 1)) ap = Some (write_bytes (m(buf := c)) (buf + 1) cs)"
    using Cons.prems(2) by (intro Cons.IH [OF 1 _ 2]) simp
  then show ?case
    using vsprintf_loop_plain [OF d(3,4)] d(2) by (simp only: write_bytes.simps)
qed

section \<open>Properties\<close>

text \<open>
  C34: \<open>itoa\<close> returns for every radix from 2 to 36, writes the digits of the value at the buffer and moves
  the pointer behind them; reading the digits back gives the value. A 32 bit value takes at most 10
  decimal or 8 hexadecimal digits.
\<close>

theorem itoa_roundtrip:
  assumes "2 \<le> unat radix" and "unat radix \<le> 36"
  shows "\<exists>m' n. itoa m v buf radix = Some (m', buf + of_nat n) \<and> number (unat radix) (bytes_at m' buf n) = unat v \<and>
           0 < n \<and> (radix = 10 \<longrightarrow> n \<le> 10) \<and> (radix = 16 \<longrightarrow> n \<le> 8) \<and>
           (\<forall>a. a \<notin> span buf n \<longrightarrow> m' a = m a)"
proof -
  let ?ds = "digits (unat radix) (unat v)"
  have v: "unat v < 2 ^ 32"
    using unat_lt_2p32 [of v] by simp
  have "unat v < unat radix ^ 32"
    using v assms(1) power_mono [of 2 "unat radix" 32] by linarith
  then have "length ?ds \<le> 32"
    using digits_bounds [OF assms(1)] by simp
  moreover have "length (digits 10 (unat v)) \<le> 10" "length (digits 16 (unat v)) \<le> 8"
    using v by (auto intro!: digits_bounds)
  moreover have "0 < length ?ds"
    by (subst digits_step [OF assms(1)]) simp
  ultimately show ?thesis
    using itoa_eq [OF assms] bytes_at_write [of ?ds m buf] number_digits [OF assms]
    by (intro exI [of _ "write_bytes m buf ?ds"] exI [of _ "length ?ds"]) (auto simp: write_bytes_other)
qed

text \<open>
  C20: \<open>vsprintf\<close> into a cleared buffer, as \<open>printf\<close> and \<open>printk\<close> use it. For a format, arguments that fit
  it, and a buffer apart from both, the call returns, the buffer holds the string \<open>render\<close> specifies
  (numbers in hexadecimal and signed decimal, strings, characters, everything else literally), the
  result is its length, and no other byte changes.
\<close>

theorem vsprintf_formats:
  assumes "cstring m fmt cs" and "args_at m R ap as" and "conforms cs as" and "0 \<notin> set (render cs as)"
    and "R = span buf (Suc (length (render cs as)))" and "span fmt (Suc (length cs)) \<inter> R = {}"
    and "length (render cs as) < 4294967295" and "NULL \<notin> R" and "m (buf + of_nat (length (render cs as))) = 0"
  shows "\<exists>m'. vsprintf m buf fmt ap = Some (of_nat (length (render cs as)), m') \<and> cstring m' buf (render cs as) \<and>
           (\<forall>a. a \<notin> R \<longrightarrow> m' a = m a)"
proof -
  let ?out = "render cs as"
  have "fmt_ok R m buf fmt cs ap as"
    using assms by (simp add: fmt_ok_def)
  then obtain m' where m': "vsprintf_loop m buf fmt (m fmt) ap = Some m'" "seg m m' buf ?out"
    using vsprintf_loop_render by blast
  have "\<forall>i < length ?out. ?out ! i \<noteq> 0"
    using assms(4) by (metis nth_mem)
  moreover have "m' (buf + of_nat i) = ?out ! i" if "i < length ?out" for i
  proof -
    have "bytes_at m' buf (length ?out) ! i = ?out ! i"
      using m'(2) by (simp add: seg_def)
    then show ?thesis
      using that by (simp add: bytes_at_def)
  qed
  ultimately have cs: "cstring m' buf ?out"
    using m'(2) assms(9) by (simp add: cstring_alt seg_def)
  have "buf \<noteq> NULL"
    using assms(5,8) by auto
  then show ?thesis
    using m' cs assms(5) by (auto simp: vsprintf_def strlen_cstring seg_def)
qed

text \<open>
  \<open>vsprintf\<close> does not terminate its result. For a format without conversions the loop copies the
  characters and leaves the byte behind them as it was, so in a buffer that is not cleared the string
  goes on with old contents.
\<close>

theorem vsprintf_no_terminator:
  assumes "cstring m fmt cs" and "37 \<notin> set cs" and "length cs < 4294967295"
    and "span fmt (Suc (length cs)) \<inter> span buf (Suc (length cs)) = {}"
  shows "\<exists>m'. vsprintf_loop m buf fmt (m fmt) ap = Some m' \<and> bytes_at m' buf (length cs) = cs \<and>
           m' (buf + of_nat (length cs)) = m (buf + of_nat (length cs))"
proof -
  have "buf + of_nat (length cs) \<notin> span buf (length cs)"
    using assms(3) by (simp add: in_span_iff)
  then show ?thesis
    using vsprintf_loop_literal [OF assms(1,2,4)] assms(3) by (simp add: bytes_at_write write_bytes_other)
qed

text \<open>Memory with the format \<open>"%d=%x"\<close> at \<open>0x100\<close>, the arguments \<open>-5\<close> and \<open>0xBEEF\<close> after \<open>0x200\<close>, zero elsewhere.\<close>

definition demo_mem :: mem where
  "demo_mem = (\<lambda>_. 0)(0x100 := 37, 0x101 := 100, 0x102 := 61, 0x103 := 37, 0x104 := 120,
     0x204 := 0xFB, 0x205 := 0xFF, 0x206 := 0xFF, 0x207 := 0xFF, 0x208 := 0xEF, 0x209 := 0xBE)"

lemma demo_render: "render [37, 100, 61, 37, 120] [FInt 0xFFFFFFFB, FInt 0xBEEF] = [45, 53, 61, 66, 69, 69, 70]"
proof -
  have "(0xFFFFFFFB :: u32) <s 0"
    by (simp add: word_sless_alt)
  then show ?thesis
    by (simp add: decimal_def digits.simps digit_char_def)
qed

theorem itoa_roundtrip_witness:
  "\<exists>m' n. itoa (\<lambda>_. 0) 0xBEEF 0x300 16 = Some (m', 0x300 + of_nat n) \<and> number 16 (bytes_at m' 0x300 n) = 48879"
  using itoa_roundtrip [of 16 "\<lambda>_. 0" "0xBEEF" "0x300"] by auto

theorem vsprintf_formats_witness:
  "\<exists>m'. vsprintf demo_mem 0x300 0x100 0x200 = Some (7, m') \<and> cstring m' 0x300 [45, 53, 61, 66, 69, 69, 70]"
proof -
  let ?cs = "[37, 100, 61, 37, 120] :: u8 list" and ?as = "[FInt 0xFFFFFFFB, FInt 0xBEEF]"
    and ?out = "[45, 53, 61, 66, 69, 69, 70] :: u8 list"
  have R: "span 0x300 (Suc (length ?out)) = {0x300, 0x301, 0x302, 0x303, 0x304, 0x305, 0x306, 0x307}"
    by (simp add: span_Suc)
  have "span 0x204 4 = {0x204, 0x205, 0x206, 0x207}" "span 0x208 4 = {0x208, 0x209, 0x20A, 0x20B}"
    by (auto simp: span_def lessThan_nat_numeral lessThan_Suc)
  then have "args_at demo_mem (span 0x300 (Suc (length ?out))) 0x200 ?as"
    unfolding R by (simp add: read32_def demo_mem_def)
  moreover have "cstring demo_mem 0x100 ?cs"
    by (simp add: demo_mem_def)
  moreover have "span 0x100 (Suc (length ?cs)) \<inter> span 0x300 (Suc (length ?out)) = {}" "NULL \<notin> span 0x300 (Suc (length ?out))"
    unfolding R by (simp_all add: span_Suc NULL_def)
  moreover have "demo_mem (0x300 + of_nat (length ?out)) = 0" "conforms ?cs ?as"
    by (simp_all add: demo_mem_def)
  ultimately have "\<exists>m'. vsprintf demo_mem 0x300 0x100 0x200 = Some (of_nat (length ?out), m') \<and> cstring m' 0x300 ?out \<and>
      (\<forall>a. a \<notin> span 0x300 (Suc (length ?out)) \<longrightarrow> m' a = demo_mem a)"
    by (intro vsprintf_formats [of demo_mem "0x100" ?cs "span 0x300 (Suc (length ?out))" "0x200" ?as "0x300", unfolded demo_render]) simp_all
  then show ?thesis
    by auto
qed

theorem vsprintf_no_terminator_witness:
  "\<exists>m'. vsprintf_loop ((\<lambda>_. 65)(0x100 := 72, 0x101 := 105, 0x102 := 0)) 0x300 0x100 72 0 = Some m' \<and>
     bytes_at m' 0x300 (Suc (Suc 0)) = [72, 105] \<and> m' 0x302 = 65"
proof -
  have "span 0x100 (Suc (length [72, 105 :: u8])) \<inter> span 0x300 (Suc (length [72, 105 :: u8])) = {}"
    by (simp add: span_Suc)
  from vsprintf_no_terminator [OF _ _ _ this, of "(\<lambda>_. 65)(0x100 := 72, 0x101 := 105, 0x102 := 0)" 0] show ?thesis
    by simp
qed

end
