(* ===== verification/Pool.thy ===== *)
theory Pool
  imports Sync
begin

text \<open>
  The page allocator of \<open>mm/memory.c\<close>: the kernel and user pools of physical pages, the pool of kernel
  addresses, and the operations that hand out and take back pages. The bitmaps are bytes of \<open>ram\<close>,
  memory by linear address. The lock that is embedded in a pool is represented by its address.
  Objects inside heap pages (list cells, arena
  headers) are typed heaps; \<open>memset_pages\<close> clears the bytes of a range and the objects in it.
  \<open>kpool_ok\<close> is the invariant of the kernel pools; \<open>live\<close> allocations are tracked by the step
  relation \<open>kpage_step\<close>.
\<close>

section \<open>Data\<close>

definition PAGE_OFFEST :: u32 where "PAGE_OFFEST = 0xc0000000"
definition PAGE_SIZE :: u32 where "PAGE_SIZE = 4096"
definition PAGE_MASK :: u32 where "PAGE_MASK = 0xfffff000"
definition MEM_BITMAP_BASE :: u32 where "MEM_BITMAP_BASE = 0xc007e000"
definition KERNEL_VM_BITMAP_BASE :: u32 where "KERNEL_VM_BITMAP_BASE = 0xc0075000"
definition KERNEL_HEAP_BASE :: u32 where "KERNEL_HEAP_BASE = 0xc1000000"
definition KERNEL_THRESHOLD :: u32 where "KERNEL_THRESHOLD = 0x80000000"
definition KERNEL_MAX_SIZE :: u32 where "KERNEL_MAX_SIZE = 0x40000000"

lemmas mm_consts [kdefs] = PAGE_OFFEST_def PAGE_SIZE_def PAGE_MASK_def MEM_BITMAP_BASE_def KERNEL_VM_BITMAP_BASE_def
  KERNEL_HEAP_BASE_def KERNEL_THRESHOLD_def KERNEL_MAX_SIZE_def

text \<open>The macros \<open>__pa\<close> and \<open>__va\<close>.\<close>

definition pa :: "u32 \<Rightarrow> u32" where "pa v_addr = v_addr - PAGE_OFFEST"
definition va :: "u32 \<Rightarrow> u32" where "va p_addr = p_addr + PAGE_OFFEST"

datatype pool_flags = PF_KERNEL | PF_USER

record physical_mem_pool =
  pool_bitmap :: bitmap
  phy_addr_start :: u32
  pool_size :: u32
  pool_lock :: u32

record arena =
  desc :: u32
  cnt :: u32

record mem_block_desc =
  block_size :: u32
  blocks_each_arena :: u32

text \<open>
  The globals of the file. \<open>arenas\<close> and \<open>block_descs\<close> are typed heaps; the field \<open>free_list\<close> of a block
  descriptor is a cell of the list heap at its offset. \<open>cr3\<close> is the page directory register.
\<close>

record mem_state = sync_state +
  ram :: mem
  kernel_pool :: physical_mem_pool
  user_pool :: physical_mem_pool
  kernel_vm_pool :: virtual_mem_pool
  arenas :: "u32 \<Rightarrow> arena"
  block_descs :: "u32 \<Rightarrow> mem_block_desc"
  kernel_block_desc_array :: u32
  cr3 :: u32

section \<open>Operations\<close>

text \<open>The last part of \<open>mem_pool_init\<close>: what it prints.\<close>

definition pool_report :: "'a mem_state_scheme \<Rightarrow> 'a mem_state_scheme" where
  "pool_report s =
     (let s = put_lit ''    kernel bitmap address: 0x'' s;
          s = put_hex (bitmap (pool_bitmap (kernel_pool s))) s;
          s = put_lit (''\<newline>    kernel physical address: 0x'') s;
          s = put_hex (phy_addr_start (kernel_pool s)) s;
          s = put_lit ''-0x'' s;
          s = put_hex (phy_addr_start (kernel_pool s) + pool_size (kernel_pool s) - 1) s;
          s = put_lit (''\<newline>    kernel vm bitmap address: 0x'') s;
          s = put_hex (bitmap (vm_bitmap (kernel_vm_pool s))) s;
          s = put_lit (''\<newline>    user bitmap address: 0x'') s;
          s = put_hex (bitmap (pool_bitmap (user_pool s))) s;
          s = put_lit (''\<newline>    user physical address: 0x'') s;
          s = put_hex (phy_addr_start (user_pool s)) s;
          s = put_lit ''-0x'' s;
          s = put_hex (phy_addr_start (user_pool s) + pool_size (user_pool s) - 1) s
      in put_char 10 s)"

definition mem_pool_init :: "u64 \<Rightarrow> 'a mem_state_scheme \<Rightarrow> 'a mem_state_scheme option" where
  "mem_pool_init total_mem s = do {
     let kernel_mem_size = (if ucast KERNEL_THRESHOLD \<le> total_mem
       then KERNEL_MAX_SIZE - (KERNEL_HEAP_BASE - 0xc0000000)
       else ucast (total_mem div 2 - ucast (KERNEL_HEAP_BASE - 0xc0000000)));
     let user_mem_size = (ucast (total_mem - ucast kernel_mem_size - ucast (KERNEL_HEAP_BASE - 0xc0000000)) :: u32);
     let kernel_pages = kernel_mem_size div PAGE_SIZE;
     let user_pages = user_mem_size div PAGE_SIZE;
     let s = s\<lparr>kernel_pool := (kernel_pool s)\<lparr>
         pool_bitmap := \<lparr>bitmap_bytes_len = kernel_pages div 8, bitmap = MEM_BITMAP_BASE\<rparr>,
         pool_size := kernel_pages * PAGE_SIZE,
         phy_addr_start := KERNEL_HEAP_BASE - 0xc0000000\<rparr>\<rparr>;
     let s = s\<lparr>user_pool := (user_pool s)\<lparr>
         pool_bitmap := \<lparr>bitmap_bytes_len = user_pages div 8, bitmap = MEM_BITMAP_BASE + kernel_pages div 8\<rparr>,
         pool_size := user_pages * PAGE_SIZE,
         phy_addr_start := kernel_pages * PAGE_SIZE + (KERNEL_HEAP_BASE - 0xc0000000)\<rparr>\<rparr>;
     m \<leftarrow> bitmap_zero (ram s) (pool_bitmap (kernel_pool s));
     m \<leftarrow> bitmap_zero m (pool_bitmap (user_pool s));
     let s = s\<lparr>kernel_vm_pool := \<lparr>
         vm_bitmap = \<lparr>bitmap_bytes_len = kernel_pages div 8, bitmap = KERNEL_VM_BITMAP_BASE\<rparr>,
         vm_start = KERNEL_HEAP_BASE\<rparr>\<rparr>;
     m \<leftarrow> bitmap_zero m (vm_bitmap (kernel_vm_pool s));
     let s = s\<lparr>ram := m\<rparr>;
     let s = lock_init (pool_lock (kernel_pool s)) s;
     let s = lock_init (pool_lock (user_pool s)) s;
     Some (pool_report s)
   }"

text \<open>\<open>while (i < pg_cnt) bitmap_set_bit(..., bit_idx_start + i++, bit_set);\<close> with the number of rounds left.\<close>

primrec vaddr_set_loop :: "mem \<Rightarrow> bitmap \<Rightarrow> u32 \<Rightarrow> nat \<Rightarrow> mem option" where
  "vaddr_set_loop m b idx 0 = Some m"
| "vaddr_set_loop m b idx (Suc n) = do {
     m \<leftarrow> bitmap_set_bit m b idx bit_set;
     vaddr_set_loop m b (idx + 1) n
   }"

text \<open>The result of \<open>bitmap_apply\<close> is cut down to an \<open>int32_t\<close>.\<close>

definition vaddr_alloc :: "pool_flags \<Rightarrow> u32 \<Rightarrow> 'a mem_state_scheme \<Rightarrow> (u32 \<times> 'a mem_state_scheme) option" where
  "vaddr_alloc pf pg_cnt s =
     (case pf of
        PF_KERNEL \<Rightarrow> do {
          r \<leftarrow> bitmap_apply (ram s) (vm_bitmap (kernel_vm_pool s)) pg_cnt;
          let bit_idx_start = (ucast r :: u32);
          if bit_idx_start = - 1 then Some (NULL, s)
          else do {
            m \<leftarrow> vaddr_set_loop (ram s) (vm_bitmap (kernel_vm_pool s)) bit_idx_start (unat pg_cnt);
            Some (vm_start (kernel_vm_pool s) + bit_idx_start * PAGE_SIZE, s\<lparr>ram := m\<rparr>)
          }
        }
      | PF_USER \<Rightarrow> do {
          let vm = userprog_vaddr (tasks s (get_cur_task s));
          r \<leftarrow> bitmap_apply (ram s) (vm_bitmap vm) pg_cnt;
          let bit_idx_start = (ucast r :: u32);
          if bit_idx_start = - 1 then Some (NULL, s)
          else do {
            m \<leftarrow> bitmap_set_bits (ram s) (vm_bitmap vm) bit_idx_start pg_cnt bit_set;
            let vaddr_start = vm_start vm + bit_idx_start * PAGE_SIZE;
            ASSERT (vaddr_start < 0xc0000000 - PAGE_SIZE);
            Some (vaddr_start, s\<lparr>ram := m\<rparr>)
          }
        })"

definition phy_alloc :: "physical_mem_pool \<Rightarrow> 'a mem_state_scheme \<Rightarrow> (u32 \<times> 'a mem_state_scheme) option" where
  "phy_alloc phy_pool s = do {
     r \<leftarrow> bitmap_apply (ram s) (pool_bitmap phy_pool) 1;
     let bit_idx = (ucast r :: u32);
     if bit_idx = - 1 then Some (NULL, s)
     else do {
       m \<leftarrow> bitmap_set_bit (ram s) (pool_bitmap phy_pool) bit_idx bit_set;
       Some (bit_idx * PAGE_SIZE + phy_addr_start phy_pool, s\<lparr>ram := m\<rparr>)
     }
   }"

definition phy_free :: "u32 \<Rightarrow> 'a mem_state_scheme \<Rightarrow> 'a mem_state_scheme option" where
  "phy_free phy_addr s = do {
     let (mem_pool, bit_idx) =
       (if phy_addr_start (user_pool s) \<le> phy_addr
        then (user_pool s, (phy_addr - phy_addr_start (user_pool s)) div PAGE_SIZE)
        else (kernel_pool s, (phy_addr - phy_addr_start (kernel_pool s)) div PAGE_SIZE));
     m \<leftarrow> bitmap_set_bit (ram s) (pool_bitmap mem_pool) bit_idx bit_clear;
     Some (s\<lparr>ram := m\<rparr>)
   }"

definition vaddr_free :: "pool_flags \<Rightarrow> u32 \<Rightarrow> u32 \<Rightarrow> 'a mem_state_scheme \<Rightarrow> 'a mem_state_scheme option" where
  "vaddr_free pf vaddr pg_cnt s = do {
     let vm = (case pf of PF_KERNEL \<Rightarrow> kernel_vm_pool s | PF_USER \<Rightarrow> userprog_vaddr (tasks s (get_cur_task s)));
     let bit_idx = (vaddr - vm_start vm) div PAGE_SIZE;
     m \<leftarrow> bitmap_set_bits (ram s) (vm_bitmap vm) bit_idx pg_cnt bit_clear;
     Some (s\<lparr>ram := m\<rparr>)
   }"

text \<open>The loop over the user pages: it says whether every page was found.\<close>

primrec user_phy_loop :: "nat \<Rightarrow> 'a mem_state_scheme \<Rightarrow> (bool \<times> 'a mem_state_scheme) option" where
  "user_phy_loop 0 s = Some (True, s)"
| "user_phy_loop (Suc n) s = do {
     (phy_addr, s) \<leftarrow> phy_alloc (user_pool s) s;
     if phy_addr = NULL then Some (False, s) else user_phy_loop n s
   }"

definition page_alloc :: "pool_flags \<Rightarrow> u32 \<Rightarrow> 'a mem_state_scheme \<Rightarrow> (u32 \<times> 'a mem_state_scheme) option" where
  "page_alloc pf pg_cnt s =
     (case pf of
        PF_KERNEL \<Rightarrow> do {
          (vm_addr, s) \<leftarrow> vaddr_alloc PF_KERNEL pg_cnt s;
          if vm_addr = NULL then Some (NULL, s)
          else do {
            let phy_addr = pa vm_addr;
            let bit_idx = (phy_addr - phy_addr_start (kernel_pool s)) div PAGE_SIZE;
            m \<leftarrow> bitmap_set_bits (ram s) (pool_bitmap (kernel_pool s)) bit_idx pg_cnt bit_set;
            Some (vm_addr, s\<lparr>ram := m\<rparr>)
          }
        }
      | PF_USER \<Rightarrow> do {
          (vm_addr, s) \<leftarrow> vaddr_alloc PF_USER pg_cnt s;
          if vm_addr = NULL then Some (NULL, s)
          else do {
            (ok, s) \<leftarrow> user_phy_loop (unat pg_cnt) s;
            Some (if ok then vm_addr else NULL, s)
          }
        })"

primrec phy_free_loop :: "nat \<Rightarrow> u32 \<Rightarrow> 'a mem_state_scheme \<Rightarrow> 'a mem_state_scheme option" where
  "phy_free_loop 0 phy_addr s = Some s"
| "phy_free_loop (Suc n) phy_addr s = do {
     s \<leftarrow> phy_free phy_addr s;
     phy_free_loop n (phy_addr + PAGE_SIZE) s
   }"

text \<open>For the user pool the source takes the virtual address for the physical one.\<close>

definition page_free :: "pool_flags \<Rightarrow> u32 \<Rightarrow> u32 \<Rightarrow> 'a mem_state_scheme \<Rightarrow> 'a mem_state_scheme option" where
  "page_free pf vaddr pg_cnt s = do {
     ASSERT (pg_cnt \<ge> 1);
     let phy_addr = (case pf of PF_KERNEL \<Rightarrow> pa vaddr | PF_USER \<Rightarrow> vaddr);
     s \<leftarrow> phy_free_loop (unat pg_cnt) phy_addr s;
     vaddr_free pf vaddr pg_cnt s
   }"

definition memset_pages :: "u32 \<Rightarrow> u32 \<Rightarrow> 'a mem_state_scheme \<Rightarrow> 'a mem_state_scheme option" where
  "memset_pages p n s = do {
     m \<leftarrow> memset (ram s) p 0 n;
     let inside = (\<lambda>a :: u32. unat (a - p) + 8 \<le> unat n);
     Some (s\<lparr>ram := m,
       nodes := (\<lambda>a. if inside a then \<lparr>l_prev = NULL, l_next = NULL\<rparr> else nodes s a),
       arenas := (\<lambda>a. if inside a then \<lparr>desc = NULL, cnt = 0\<rparr> else arenas s a)\<rparr>)
   }"

text \<open>
  A section under the lock of a pool, up to the point where the call returns or waits for the lock, and
  the rest of it when the task is continued.
\<close>

datatype 'r pool_result = Returned 'r | In_lock intr_status intr_status

definition pool_section ::
  "u32 \<Rightarrow> ('a mem_state_scheme \<Rightarrow> ('r \<times> 'a mem_state_scheme) option) \<Rightarrow> 'a mem_state_scheme \<Rightarrow> ('r pool_result \<times> 'a mem_state_scheme) option" where
  "pool_section l body s = do {
     (w, s) \<leftarrow> lock_acquire l s;
     case w of
       Some (old, i) \<Rightarrow> Some (In_lock old i, s)
     | None \<Rightarrow> do { (r, s) \<leftarrow> body s; s \<leftarrow> lock_release l s; Some (Returned r, s) }
   }"

definition pool_section_resume ::
  "u32 \<Rightarrow> ('a mem_state_scheme \<Rightarrow> ('r \<times> 'a mem_state_scheme) option) \<Rightarrow> intr_status \<Rightarrow> intr_status \<Rightarrow>
   'a mem_state_scheme \<Rightarrow> ('r pool_result \<times> 'a mem_state_scheme) option" where
  "pool_section_resume l body old i s = do {
     (r, s) \<leftarrow> sema_down_resume (lock_semaphore l) old i s;
     case r of
       Waiting i \<Rightarrow> Some (In_lock old i, s)
     | Acquired \<Rightarrow> do {
         s \<leftarrow> lock_acquire_take l s;
         (r, s) \<leftarrow> body s;
         s \<leftarrow> lock_release l s;
         Some (Returned r, s)
       }
   }"

definition get_pages_body :: "pool_flags \<Rightarrow> u32 \<Rightarrow> 'a mem_state_scheme \<Rightarrow> (u32 \<times> 'a mem_state_scheme) option" where
  "get_pages_body pf pages s = do {
     (vaddr, s) \<leftarrow> page_alloc pf pages s;
     s \<leftarrow> (if vaddr \<noteq> NULL then memset_pages vaddr (pages * PAGE_SIZE) s else Some s);
     Some (vaddr, s)
   }"

definition get_kernel_pages :: "u32 \<Rightarrow> 'a mem_state_scheme \<Rightarrow> (u32 pool_result \<times> 'a mem_state_scheme) option" where
  "get_kernel_pages pages s = pool_section (pool_lock (kernel_pool s)) (get_pages_body PF_KERNEL pages) s"

definition get_user_pages :: "u32 \<Rightarrow> 'a mem_state_scheme \<Rightarrow> (u32 pool_result \<times> 'a mem_state_scheme) option" where
  "get_user_pages pages s = pool_section (pool_lock (user_pool s)) (get_pages_body PF_USER pages) s"

section \<open>Specification vocabulary\<close>

text \<open>
  \<open>bm_upd m b I v m'\<close>: the memory \<open>m'\<close> is \<open>m\<close> with the bits \<open>I\<close> of the bitmap \<open>b\<close> set to \<open>v\<close>.
\<close>

definition bm_span :: "bitmap \<Rightarrow> u32 set" where
  "bm_span b = span (bitmap b) (unat (bitmap_bytes_len b))"

definition bm_ok :: "bitmap \<Rightarrow> bool" where
  "bm_ok b \<longleftrightarrow> bitmap b \<noteq> NULL \<and> unat (bitmap_bytes_len b) < 536870912"

definition bm_upd :: "mem \<Rightarrow> bitmap \<Rightarrow> nat set \<Rightarrow> bool \<Rightarrow> mem \<Rightarrow> bool" where
  "bm_upd m b I v m' \<longleftrightarrow>
     (\<forall>j < bm_bits b. bm_bit m' b j = (if j \<in> I then v else bm_bit m b j)) \<and> (\<forall>a. a \<notin> bm_span b \<longrightarrow> m' a = m a)"

abbreviation kvm :: "'a mem_state_scheme \<Rightarrow> bitmap" where
  "kvm s \<equiv> vm_bitmap (kernel_vm_pool s)"

abbreviation kpm :: "'a mem_state_scheme \<Rightarrow> bitmap" where
  "kpm s \<equiv> pool_bitmap (kernel_pool s)"

definition page_at :: "'a mem_state_scheme \<Rightarrow> nat \<Rightarrow> u32" where
  "page_at s i = vm_start (kernel_vm_pool s) + of_nat i * PAGE_SIZE"

text \<open>The layout of the kernel pools, and that a frame in use has its page in use.\<close>

definition kpool_layout :: "'a mem_state_scheme \<Rightarrow> bool" where
  "kpool_layout s \<longleftrightarrow>
     bm_ok (kvm s) \<and> bm_ok (kpm s) \<and> bitmap_bytes_len (kpm s) = bitmap_bytes_len (kvm s) \<and> bm_span (kvm s) \<inter> bm_span (kpm s) = {} \<and>
     (\<forall>a \<in> bm_span (kvm s) \<union> bm_span (kpm s). a < vm_start (kernel_vm_pool s)) \<and>
     PAGE_OFFEST \<le> vm_start (kernel_vm_pool s) \<and> 4096 dvd unat (vm_start (kernel_vm_pool s)) \<and>
     unat (vm_start (kernel_vm_pool s)) + 4096 * bm_bits (kvm s) \<le> 4294967296 \<and>
     phy_addr_start (kernel_pool s) = pa (vm_start (kernel_vm_pool s)) \<and>
     unat (phy_addr_start (kernel_pool s)) + 4096 * bm_bits (kvm s) \<le> unat (phy_addr_start (user_pool s))"

definition kpool_ok :: "'a mem_state_scheme \<Rightarrow> bool" where
  "kpool_ok s \<longleftrightarrow> kpool_layout s \<and> (\<forall>i < bm_bits (kvm s). bm_bit (ram s) (kpm s) i \<longrightarrow> bm_bit (ram s) (kvm s) i)"

section \<open>Bitmaps in memory\<close>

lemma bm_bits_eq: "bm_ok b \<Longrightarrow> bm_bits b = 8 * unat (bitmap_bytes_len b)"
  by (simp add: bm_ok_def bm_bits_def BIT_PER_LONG_def unat_word_ariths)

lemma bm_byte_in_span: "bm_ok b \<Longrightarrow> i < bm_bits b \<Longrightarrow> bitmap b + of_nat (i div 8) \<in> bm_span b"
  unfolding bm_span_def by (rule span_memI) (simp add: bm_bits_eq)

lemma bm_bit_frame:
  assumes "bm_ok b" and "i < bm_bits b" and "\<And>a. a \<in> bm_span b \<Longrightarrow> m' a = m a"
  shows "bm_bit m' b i = bm_bit m b i"
  using assms(3) [OF bm_byte_in_span [OF assms(1,2)]] by (simp add: bm_bit_def)

lemma bm_ext:
  assumes "bm_ok b" and "\<And>j. j < bm_bits b \<Longrightarrow> bm_bit m b j = bm_bit m' b j" and "\<And>a. a \<notin> bm_span b \<Longrightarrow> m a = m' a"
  shows "m = m'"
proof (rule ext)
  fix a
  show "m a = m' a"
  proof (cases "a \<in> bm_span b")
    case True
    then obtain k where k: "k < unat (bitmap_bytes_len b)" "a = bitmap b + of_nat k"
      by (auto simp: bm_span_def span_def)
    show ?thesis
    proof (rule bit_word_eqI)
      fix i assume "i < LENGTH(8)"
      then show "bit (m a) i = bit (m' a) i"
        using assms(2) [of "8 * k + i"] k bm_bits_eq [OF assms(1)] by (simp add: bm_bit_def)
    qed
  qed (rule assms(3))
qed

lemma bm_updD:
  assumes "bm_upd m b I v m'"
  shows "j < bm_bits b \<Longrightarrow> bm_bit m' b j = (if j \<in> I then v else bm_bit m b j)" and "a \<notin> bm_span b \<Longrightarrow> m' a = m a"
  using assms by (simp_all add: bm_upd_def)

lemma bm_upd_refl: "bm_upd m b {} v m"
  by (simp add: bm_upd_def)

lemma bm_upd_trans: "bm_upd m b I v m1 \<Longrightarrow> bm_upd m1 b J v m2 \<Longrightarrow> bm_upd m b (I \<union> J) v m2"
  by (simp add: bm_upd_def)

lemma bm_upd_other:
  assumes "bm_upd m b I v m'" and "bm_ok c" and "bm_span b \<inter> bm_span c = {}" and "j < bm_bits c"
  shows "bm_bit m' c j = bm_bit m c j"
  by (rule bm_bit_frame [OF assms(2,4)]) (use assms(1,3) in \<open>auto simp: bm_upd_def\<close>)

lemma bm_upd_undo:
  assumes "bm_ok b" and "bm_upd m b I True m1" and "bm_upd m1 b I False m2" and "\<And>j. j \<in> I \<Longrightarrow> j < bm_bits b \<Longrightarrow> \<not> bm_bit m b j"
  shows "m2 = m"
  by (rule bm_ext [OF assms(1)]) (use assms(2-4) in \<open>auto simp: bm_upd_def\<close>)

lemma bitmap_set_bit_upd:
  assumes "bm_ok b" and "i < bm_bits b"
  obtains m' where "bitmap_set_bit m b (of_nat i) v = Some m'" and "bm_upd m b {i} (v = bit_set) m'"
proof -
  have i: "unat (of_nat i :: u32) = i"
    using assms(2) bm_bits_less [of b] by simp
  then obtain m' where m': "bitmap_set_bit m b (of_nat i) v = Some m'"
      "\<forall>j < 4294967296. bm_bit m' b j = (if j = i then v = bit_set else bm_bit m b j)"
      "\<forall>a. a \<noteq> bitmap b + BITS_TO_INDEX (of_nat i) \<longrightarrow> m' a = m a"
    using bitmap_set_bit_eq [of b "of_nat i" m v] assms by (auto simp: bm_ok_def)
  have "bitmap b + BITS_TO_INDEX (of_nat i) \<in> bm_span b"
    using bm_byte_in_span [OF assms] by (simp add: BITS_TO_INDEX_of_nat i)
  then have "\<forall>a. a \<notin> bm_span b \<longrightarrow> m' a = m a"
    using m'(3) by metis
  then have "bm_upd m b {i} (v = bit_set) m'"
    using m'(2) bm_bits_less [of b] by (simp add: bm_upd_def)
  with m'(1) show ?thesis
    by (rule that)
qed

lemma bitmap_set_bits_upd:
  assumes "bm_ok b" and "i < bm_bits b" and "n \<noteq> 0" and "i + unat n < 4294967296"
  obtains m' where "bitmap_set_bits m b (of_nat i) n v = Some m'" and "bm_upd m b {i} (v = bit_set) m'"
proof -
  have i: "unat (of_nat i :: u32) = i"
    using assms(2) bm_bits_less [of b] by simp
  have "(of_nat i :: u32) < of_nat i + n"
    using assms(3,4) i by (simp add: word_less_nat_alt unat_word_ariths unat_gt_0)
  then have "bitmap_set_bits m b (of_nat i) n v = bitmap_set_bit m b (of_nat i) v"
    using assms(1,2) i by (simp add: bitmap_set_bits_def bitmap_set_bits_loop_once bm_ok_def)
  then show ?thesis
    using bitmap_set_bit_upd [OF assms(1,2), of m v] that by metis
qed

lemma vaddr_set_loop_upd:
  assumes "bm_ok b" and "i + n \<le> bm_bits b"
  obtains m' where "vaddr_set_loop m b (of_nat i) n = Some m'" and "bm_upd m b {i ..< i + n} True m'"
  using assms(2)
proof (induction n arbitrary: m i thesis)
  case 0
  then show ?case
    using bm_upd_refl [of m b True] by simp
next
  case (Suc n)
  obtain m1 where m1: "bitmap_set_bit m b (of_nat i) bit_set = Some m1" "bm_upd m b {i} True m1"
    using bitmap_set_bit_upd [OF assms(1), of i m bit_set] Suc.prems(2) by auto
  obtain m2 where m2: "vaddr_set_loop m1 b (of_nat (Suc i)) n = Some m2" "bm_upd m1 b {Suc i ..< Suc i + n} True m2"
    using Suc.IH [where i = "Suc i" and m = m1] Suc.prems(2) by auto
  have "{i} \<union> {Suc i ..< Suc i + n} = {i ..< i + Suc n}"
    by auto
  then show ?case
    using Suc.prems(1) [of m2] m1 m2 bm_upd_trans [OF m1(2) m2(2)] by (simp add: add.commute)
qed

section \<open>Pages of the kernel pool\<close>

lemma unat_add_u32: "unat a + unat b < 4294967296 \<Longrightarrow> unat (a + b) = unat a + unat b" for a b :: u32
  by (simp add: unat_word_ariths)

lemma minus_one_u32: "(- 1 :: u32) = 4294967295"
  by simp

lemma minus_one_ucast: "(ucast (- 1 :: u64) :: u32) = - 1"
  by (rule bit_word_eqI) (simp add: bit_simps)

lemma kpool_layoutD:
  assumes "kpool_layout s"
  shows "bm_ok (kvm s)" and "bm_ok (kpm s)" and "bm_bits (kpm s) = bm_bits (kvm s)"
    and "bm_span (kvm s) \<inter> bm_span (kpm s) = {}" and "bm_span (kpm s) \<inter> bm_span (kvm s) = {}"
    and "bm_bits (kvm s) \<le> 262144"
  using assms by (auto simp: kpool_layout_def bm_bits_def PAGE_OFFEST_def word_le_nat_alt)

lemma kpool_layout_ram [simp]: "kpool_layout (s\<lparr>ram := m\<rparr>) = kpool_layout s"
  by (simp add: kpool_layout_def)

lemma page_at_ram [simp]: "page_at (s\<lparr>ram := m\<rparr>) i = page_at s i"
  by (simp add: page_at_def)

lemma unat_page_offset:
  assumes "kpool_layout s" and "i < bm_bits (kvm s)" and "off < 4096"
  shows "unat (of_nat i * PAGE_SIZE + of_nat off :: u32) = i * 4096 + off"
proof -
  have "i * 4096 + off < 4294967296"
    using kpool_layoutD(6) [OF assms(1)] assms(2,3) by simp
  then have "unat (of_nat (i * 4096 + off) :: u32) = i * 4096 + off"
    by (rule unat_of_nat_u32)
  then show ?thesis
    by (simp add: PAGE_SIZE_def)
qed

text \<open>The bit of an address: both pools compute the number of the page.\<close>

lemma page_index:
  assumes "kpool_layout s" and "i < bm_bits (kvm s)" and "off < 4096"
  shows "(page_at s i + of_nat off - vm_start (kernel_vm_pool s)) div PAGE_SIZE = of_nat i"
    and "(pa (page_at s i + of_nat off) - phy_addr_start (kernel_pool s)) div PAGE_SIZE = of_nat i"
proof -
  let ?x = "of_nat i * PAGE_SIZE + of_nat off :: u32"
  have "unat (?x div PAGE_SIZE) = i"
    using unat_page_offset [OF assms] assms(3) by (simp add: unat_div PAGE_SIZE_def)
  then have x: "?x div PAGE_SIZE = of_nat i"
    by (metis word_unat_eq_iff unat_of_nat_u32 unat_lt_2p32)
  then show "(page_at s i + of_nat off - vm_start (kernel_vm_pool s)) div PAGE_SIZE = of_nat i"
    by (simp add: page_at_def)
  have "phy_addr_start (kernel_pool s) = pa (vm_start (kernel_vm_pool s))"
    using assms(1) by (simp add: kpool_layout_def)
  then have "pa (page_at s i + of_nat off) - phy_addr_start (kernel_pool s) = ?x"
    by (simp add: page_at_def pa_def)
  with x show "(pa (page_at s i + of_nat off) - phy_addr_start (kernel_pool s)) div PAGE_SIZE = of_nat i"
    by simp
qed

lemma unat_page_at:
  assumes "kpool_layout s" and "i < bm_bits (kvm s)" and "off < 4096"
  shows "unat (page_at s i + of_nat off) = unat (vm_start (kernel_vm_pool s)) + i * 4096 + off"
proof -
  have "unat (vm_start (kernel_vm_pool s)) + 4096 * bm_bits (kvm s) \<le> 4294967296"
    using assms(1) by (simp add: kpool_layout_def)
  moreover have "page_at s i + of_nat off = vm_start (kernel_vm_pool s) + (of_nat i * PAGE_SIZE + of_nat off)"
    by (simp add: page_at_def)
  ultimately show ?thesis
    using unat_page_offset [OF assms] assms(2,3) by (simp only: unat_add_u32)
qed

lemma page_at_not_NULL: "kpool_layout s \<Longrightarrow> i < bm_bits (kvm s) \<Longrightarrow> page_at s i \<noteq> NULL"
  using unat_page_at [of s i 0] by (auto simp: kpool_layout_def NULL_def PAGE_OFFEST_def word_le_nat_alt)

lemma unat_pa_page:
  assumes "kpool_layout s" and "i < bm_bits (kvm s)" and "off < 4096"
  shows "unat (pa (page_at s i + of_nat off)) = unat (phy_addr_start (kernel_pool s)) + i * 4096 + off"
proof -
  have vs: "PAGE_OFFEST \<le> vm_start (kernel_vm_pool s)" and ph: "phy_addr_start (kernel_pool s) = pa (vm_start (kernel_vm_pool s))"
    using assms(1) by (simp_all add: kpool_layout_def)
  then have "PAGE_OFFEST \<le> page_at s i + of_nat off"
    using unat_page_at [OF assms] by (simp add: word_le_nat_alt)
  then show ?thesis
    using vs ph unat_page_at [OF assms] by (simp add: pa_def unat_sub word_le_nat_alt)
qed

lemma kernel_frame_below_user:
  assumes "kpool_layout s" and "i < bm_bits (kvm s)" and "off < 4096"
  shows "pa (page_at s i + of_nat off) < phy_addr_start (user_pool s)"
proof -
  have "unat (phy_addr_start (kernel_pool s)) + 4096 * bm_bits (kvm s) \<le> unat (phy_addr_start (user_pool s))"
    using assms(1) unfolding kpool_layout_def by blast
  then show ?thesis
    using unat_pa_page [OF assms] assms(2,3) by (simp add: word_less_nat_alt)
qed

lemma page_at_Suc: "page_at s (Suc i) = page_at s i + PAGE_SIZE"
  by (simp add: page_at_def algebra_simps)

lemma vaddr_alloc_kernel:
  assumes "kpool_layout s" and "bitmap_apply (ram s) (kvm s) n = Some (of_nat w)" and "w + unat n \<le> bm_bits (kvm s)"
  obtains m' where "vaddr_alloc PF_KERNEL n s = Some (page_at s w, s\<lparr>ram := m'\<rparr>)"
    and "bm_upd (ram s) (kvm s) {w ..< w + unat n} True m'"
proof -
  have "(of_nat w :: u32) \<noteq> - 1"
    unfolding minus_one_u32 using assms(3) kpool_layoutD(6) [OF assms(1)] of_nat_inj_u32 [of w 4294967295] by simp
  moreover obtain m' where m': "vaddr_set_loop (ram s) (kvm s) (of_nat w) (unat n) = Some m'" "bm_upd (ram s) (kvm s) {w ..< w + unat n} True m'"
    using vaddr_set_loop_upd [OF kpool_layoutD(1) [OF assms(1)] assms(3)] .
  ultimately have "vaddr_alloc PF_KERNEL n s = Some (page_at s w, s\<lparr>ram := m'\<rparr>)"
    using assms(2) by (simp add: vaddr_alloc_def page_at_def)
  then show ?thesis
    using m'(2) by (rule that)
qed


lemma page_alloc_kernel:
  assumes "kpool_layout s" and "bitmap_apply (ram s) (kvm s) n = Some (of_nat w)" and "w + unat n \<le> bm_bits (kvm s)" and "n \<noteq> 0"
  obtains m1 m2 where "page_alloc PF_KERNEL n s = Some (page_at s w, s\<lparr>ram := m2\<rparr>)"
    and "bm_upd (ram s) (kvm s) {w ..< w + unat n} True m1" and "bm_upd m1 (kpm s) {w} True m2"
proof -
  note lay = assms(1)
  have n: "0 < unat n"
    using assms(4) by (simp add: unat_gt_0)
  then have w: "w < bm_bits (kvm s)" and b: "w + unat n < 4294967296"
    using assms(3) kpool_layoutD(6) [OF lay] by simp_all
  obtain m1 where m1: "vaddr_alloc PF_KERNEL n s = Some (page_at s w, s\<lparr>ram := m1\<rparr>)" "bm_upd (ram s) (kvm s) {w ..< w + unat n} True m1"
    using vaddr_alloc_kernel [OF assms(1-3)] .
  obtain m2 where m2: "bitmap_set_bits m1 (kpm s) (of_nat w) n bit_set = Some m2" "bm_upd m1 (kpm s) {w} (bit_set = bit_set) m2"
    using bitmap_set_bits_upd [OF kpool_layoutD(2) [OF lay] _ assms(4) b] w kpool_layoutD(3) [OF lay] by metis
  have "(pa (page_at s w) - phy_addr_start (kernel_pool s)) div PAGE_SIZE = of_nat w"
    using page_index(2) [OF lay w, of 0] by simp
  then have "page_alloc PF_KERNEL n s = Some (page_at s w, s\<lparr>ram := m2\<rparr>)"
    using m1(1) m2(1) page_at_not_NULL [OF lay w] by (simp add: page_alloc_def)
  then show ?thesis
    using m1(2) m2(2) that by simp
qed

text \<open>What a call that returned did: it found no room, or it took a free run.\<close>

lemma page_alloc_kernel_cases:
  assumes "kpool_layout s" and "page_alloc PF_KERNEL n s = Some (v, s')" and "n \<noteq> 0"
  obtains (none) "v = NULL" and "s' = s"
  | (run) w m1 m2 where "v = page_at s w" and "s' = s\<lparr>ram := m2\<rparr>" and "w + unat n < bm_bits (kvm s)" and "bm_free (ram s) (kvm s) w (unat n)"
      and "bm_upd (ram s) (kvm s) {w ..< w + unat n} True m1" and "bm_upd m1 (kpm s) {w} True m2"
proof -
  obtain r where r: "bitmap_apply (ram s) (kvm s) n = Some r"
    using assms(2) by (auto simp: page_alloc_def vaddr_alloc_def split: bind_splits)
  show ?thesis
  proof (cases "r = - 1")
    case True
    then have "page_alloc PF_KERNEL n s = Some (NULL, s)"
      using r minus_one_ucast by (simp add: page_alloc_def vaddr_alloc_def)
    then show ?thesis
      using assms(2) none by simp
  next
    case False
    have "1 \<le> unat n"
      using assms(3) by (simp add: Suc_le_eq unat_gt_0)
    then obtain w where w: "r = of_nat w" "w + unat n < bm_bits (kvm s)" "bm_free (ram s) (kvm s) w (unat n)"
      using bitmap_apply_sound_aux [OF r False] by metis
    have "bitmap_apply (ram s) (kvm s) n = Some (of_nat w)"
      using r w(1) by simp
    then obtain m1 m2 where "page_alloc PF_KERNEL n s = Some (page_at s w, s\<lparr>ram := m2\<rparr>)"
        "bm_upd (ram s) (kvm s) {w ..< w + unat n} True m1" "bm_upd m1 (kpm s) {w} True m2"
      using page_alloc_kernel [OF assms(1) _ less_imp_le [OF w(2)] assms(3)] by metis
    then show ?thesis
      using run [of w m2 m1] w(2,3) assms(2) by simp
  qed
qed

lemma phy_free_kernel:
  assumes "kpool_layout s" and "i < bm_bits (kvm s)" and "off < 4096"
  obtains m' where "phy_free (pa (page_at s i + of_nat off)) s = Some (s\<lparr>ram := m'\<rparr>)" and "bm_upd (ram s) (kpm s) {i} False m'"
proof -
  obtain m' where m': "bitmap_set_bit (ram s) (kpm s) (of_nat i) bit_clear = Some m'" "bm_upd (ram s) (kpm s) {i} (bit_clear = bit_set) m'"
    using bitmap_set_bit_upd [OF kpool_layoutD(2) [OF assms(1)]] kpool_layoutD(3) [OF assms(1)] assms(2) by metis
  have "\<not> phy_addr_start (user_pool s) \<le> pa (page_at s i + of_nat off)"
    using kernel_frame_below_user [OF assms] by simp
  then have "phy_free (pa (page_at s i + of_nat off)) s = Some (s\<lparr>ram := m'\<rparr>)"
    using m'(1) page_index(2) [OF assms] by (simp add: phy_free_def)
  then show ?thesis
    using m'(2) that by simp
qed

lemma phy_free_loop_kernel:
  assumes "kpool_layout s" and "i + n \<le> bm_bits (kvm s)" and "off < 4096"
  obtains m' where "phy_free_loop n (pa (page_at s i + of_nat off)) s = Some (s\<lparr>ram := m'\<rparr>)" and "bm_upd (ram s) (kpm s) {i ..< i + n} False m'"
  using assms(1,2)
proof (induction n arbitrary: s i thesis)
  case 0
  then show ?case
    using "0.prems"(1) [of "ram s"] bm_upd_refl [of "ram s" "kpm s" False] by simp
next
  case (Suc n)
  obtain m1 where m1: "phy_free (pa (page_at s i + of_nat off)) s = Some (s\<lparr>ram := m1\<rparr>)" "bm_upd (ram s) (kpm s) {i} False m1"
    using phy_free_kernel [OF Suc.prems(2) _ assms(3), of i] Suc.prems(3) by auto
  let ?s = "s\<lparr>ram := m1\<rparr>"
  obtain m2 where m2: "phy_free_loop n (pa (page_at ?s (Suc i) + of_nat off)) ?s = Some (?s\<lparr>ram := m2\<rparr>)"
      "bm_upd (ram ?s) (kpm ?s) {Suc i ..< Suc i + n} False m2"
    using Suc.IH [where i = "Suc i" and s = ?s] Suc.prems(2,3) by auto
  have "pa (page_at ?s (Suc i) + of_nat off) = pa (page_at s i + of_nat off) + PAGE_SIZE"
    by (simp add: page_at_Suc pa_def)
  moreover have "{i} \<union> {Suc i ..< Suc i + n} = {i ..< i + Suc n}"
    by auto
  ultimately show ?case
    using Suc.prems(1) [of m2] m1(1) m2 bm_upd_trans [OF m1(2), of "{Suc i ..< Suc i + n}" m2] by simp
qed

lemma page_free_kernel:
  assumes "kpool_layout s" and "i + unat n \<le> bm_bits (kvm s)" and "off < 4096" and "n \<noteq> 0"
  obtains m1 m2 where "page_free PF_KERNEL (page_at s i + of_nat off) n s = Some (s\<lparr>ram := m2\<rparr>)"
    and "bm_upd (ram s) (kpm s) {i ..< i + unat n} False m1" and "bm_upd m1 (kvm s) {i} False m2"
proof -
  note lay = assms(1)
  have "0 < unat n"
    using assms(4) by (simp add: unat_gt_0)
  then have i: "i < bm_bits (kvm s)" and b: "i + unat n < 4294967296" and n: "1 \<le> n"
    using assms(2) kpool_layoutD(6) [OF lay] by (simp_all add: word_le_nat_alt)
  obtain m1 where m1: "phy_free_loop (unat n) (pa (page_at s i + of_nat off)) s = Some (s\<lparr>ram := m1\<rparr>)"
      "bm_upd (ram s) (kpm s) {i ..< i + unat n} False m1"
    using phy_free_loop_kernel [OF assms(1-3)] .
  obtain m2 where m2: "bitmap_set_bits m1 (kvm s) (of_nat i) n bit_clear = Some m2" "bm_upd m1 (kvm s) {i} (bit_clear = bit_set) m2"
    using bitmap_set_bits_upd [OF kpool_layoutD(1) [OF lay] i assms(4) b] by metis
  have "page_free PF_KERNEL (page_at s i + of_nat off) n s = Some (s\<lparr>ram := m2\<rparr>)"
    using m1(1) m2(1) n page_index(1) [OF lay i assms(3)] by (simp add: page_free_def vaddr_free_def)
  then show ?thesis
    using m1(2) m2(2) that by simp
qed

section \<open>Sequences of allocations\<close>

text \<open>
  A run of kernel page operations with the allocations that are live: an allocation adds its address
  and number of pages, a release takes back a live one, a request without room changes nothing.
\<close>

inductive kpage_step :: "'a mem_state_scheme \<times> (u32 \<times> u32) set \<Rightarrow> 'a mem_state_scheme \<times> (u32 \<times> u32) set \<Rightarrow> bool" where
  alloc: "n \<noteq> 0 \<Longrightarrow> page_alloc PF_KERNEL n s = Some (v, s') \<Longrightarrow> v \<noteq> NULL \<Longrightarrow> kpage_step (s, L) (s', insert (v, n) L)"
| no_room: "n \<noteq> 0 \<Longrightarrow> page_alloc PF_KERNEL n s = Some (NULL, s') \<Longrightarrow> kpage_step (s, L) (s', L)"
| free: "(v, n) \<in> L \<Longrightarrow> page_free PF_KERNEL v n s = Some s' \<Longrightarrow> kpage_step (s, L) (s', L - {(v, n)})"

text \<open>The numbers of the pages of an allocation, and what holds of the live ones.\<close>

definition alloc_start :: "'a mem_state_scheme \<Rightarrow> u32 \<times> u32 \<Rightarrow> nat" where
  "alloc_start s x = unat ((fst x - vm_start (kernel_vm_pool s)) div PAGE_SIZE)"

definition alloc_pages :: "'a mem_state_scheme \<Rightarrow> u32 \<times> u32 \<Rightarrow> nat set" where
  "alloc_pages s x = {alloc_start s x ..< alloc_start s x + unat (snd x)}"

definition live_ok :: "'a mem_state_scheme \<Rightarrow> u32 \<times> u32 \<Rightarrow> bool" where
  "live_ok s x \<longleftrightarrow> fst x = page_at s (alloc_start s x) \<and> snd x \<noteq> 0 \<and> alloc_start s x + unat (snd x) < bm_bits (kvm s) \<and>
     (\<forall>j \<in> alloc_pages s x. bm_bit (ram s) (kvm s) j)"

fun kpage_inv :: "'a mem_state_scheme \<times> (u32 \<times> u32) set \<Rightarrow> bool" where
  "kpage_inv (s, L) \<longleftrightarrow> kpool_ok s \<and> (\<forall>x \<in> L. live_ok s x) \<and>
     (\<forall>x \<in> L. \<forall>y \<in> L. x \<noteq> y \<longrightarrow> alloc_pages s x \<inter> alloc_pages s y = {})"

lemma alloc_pages_ram [simp]: "alloc_start (s\<lparr>ram := m\<rparr>) x = alloc_start s x" "alloc_pages (s\<lparr>ram := m\<rparr>) x = alloc_pages s x"
  by (simp_all add: alloc_start_def alloc_pages_def)

lemma alloc_start_page_at:
  assumes "kpool_layout s" and "w < bm_bits (kvm s)"
  shows "alloc_start s (page_at s w, n) = w"
proof -
  have "w < 4294967296"
    using kpool_layoutD(6) [OF assms(1)] assms(2) by simp
  then show ?thesis
    using page_index(1) [OF assms, of 0] by (simp add: alloc_start_def)
qed

lemma kpool_okD:
  assumes "kpool_ok s"
  shows "kpool_layout s" and "i < bm_bits (kvm s) \<Longrightarrow> bm_bit (ram s) (kpm s) i \<Longrightarrow> bm_bit (ram s) (kvm s) i"
  using assms by (auto simp: kpool_ok_def)

text \<open>The bits of both bitmaps after an allocation and after a release.\<close>

lemma alloc_bits:
  assumes "kpool_layout s" and "bm_upd (ram s) (kvm s) I v m1" and "bm_upd m1 (kpm s) J w m2" and "j < bm_bits (kvm s)"
  shows "bm_bit m2 (kvm s) j = (if j \<in> I then v else bm_bit (ram s) (kvm s) j)"
    and "bm_bit m2 (kpm s) j = (if j \<in> J then w else bm_bit (ram s) (kpm s) j)"
  using bm_upd_other [OF assms(3) kpool_layoutD(1,5) [OF assms(1)] assms(4)] bm_updD(1) [OF assms(2,4)] 
    bm_upd_other [OF assms(2) kpool_layoutD(2,4) [OF assms(1)], of j] bm_updD(1) [OF assms(3), of j] kpool_layoutD(3) [OF assms(1)] assms(4)
  by simp_all

lemma free_bits:
  assumes "kpool_layout s" and "bm_upd (ram s) (kpm s) J w m1" and "bm_upd m1 (kvm s) I v m2" and "j < bm_bits (kvm s)"
  shows "bm_bit m2 (kvm s) j = (if j \<in> I then v else bm_bit (ram s) (kvm s) j)"
    and "bm_bit m2 (kpm s) j = (if j \<in> J then w else bm_bit (ram s) (kpm s) j)"
  using bm_upd_other [OF assms(2) kpool_layoutD(1,5) [OF assms(1)] assms(4)] bm_updD(1) [OF assms(3,4)]
    bm_upd_other [OF assms(3) kpool_layoutD(2,4) [OF assms(1)], of j] bm_updD(1) [OF assms(2), of j] kpool_layoutD(3) [OF assms(1)] assms(4)
  by simp_all

lemma live_ok_mono:
  assumes "live_ok s x" and "\<And>j. j \<in> alloc_pages s x \<Longrightarrow> bm_bit m (kvm s) j"
  shows "live_ok (s\<lparr>ram := m\<rparr>) x"
  using assms by (simp add: live_ok_def)

lemma live_pages_bound: "live_ok s x \<Longrightarrow> j \<in> alloc_pages s x \<Longrightarrow> j < bm_bits (kvm s) \<and> bm_bit (ram s) (kvm s) j"
  by (auto simp: live_ok_def alloc_pages_def)

lemma kpage_inv_alloc:
  assumes inv: "kpage_inv (s, L)" and n: "n \<noteq> 0"
    and run: "w + unat n < bm_bits (kvm s)" "bm_free (ram s) (kvm s) w (unat n)"
    and upd: "bm_upd (ram s) (kvm s) {w ..< w + unat n} True m1" "bm_upd m1 (kpm s) {w} True m2"
  shows "kpage_inv (s\<lparr>ram := m2\<rparr>, insert (page_at s w, n) L)"
proof -
  let ?s = "s\<lparr>ram := m2\<rparr>" and ?x = "(page_at s w, n)"
  have ok: "kpool_ok s" and live: "\<And>x. x \<in> L \<Longrightarrow> live_ok s x"
    using inv by auto
  note lay = kpool_okD(1) [OF ok]
  have w: "w < bm_bits (kvm s)" "0 < unat n"
    using run(1) n by (simp_all add: unat_gt_0)
  have pg: "alloc_pages s ?x = {w ..< w + unat n}"
    using alloc_start_page_at [OF lay w(1)] by (simp add: alloc_pages_def)
  note bits = alloc_bits [OF lay upd]
  have "kpool_ok ?s"
    using lay bits kpool_okD(2) [OF ok] w by (simp add: kpool_ok_def)
  moreover have "live_ok ?s x" if "x \<in> L" for x
    using live_ok_mono [OF live [OF that]] live_pages_bound [OF live [OF that]] bits(1) by simp
  moreover have "live_ok ?s ?x"
    using n run(1) pg bits(1) alloc_start_page_at [OF lay w(1)] by (simp add: live_ok_def)
  moreover have "alloc_pages s ?x \<inter> alloc_pages s y = {}" if "y \<in> L" for y
  proof -
    have "\<not> bm_bit (ram s) (kvm s) j" if "j \<in> {w ..< w + unat n}" for j
      using run(2) that unfolding bm_free_def by (metis atLeastLessThan_iff le_add_diff_inverse less_diff_conv2 add.commute)
    then show ?thesis
      using live_pages_bound [OF live [OF that]] pg by blast
  qed
  ultimately show ?thesis
    using inv by (auto simp: Int_commute)
qed

lemma kpage_inv_free:
  assumes inv: "kpage_inv (s, L)" and x: "(v, n) \<in> L" and off: "off < 4096"
  obtains m where "page_free PF_KERNEL (v + of_nat off) n s = Some (s\<lparr>ram := m\<rparr>)" and "kpage_inv (s\<lparr>ram := m\<rparr>, L - {(v, n)})"
proof -
  let ?w = "alloc_start s (v, n)"
  have ok: "kpool_ok s" and live: "\<And>x. x \<in> L \<Longrightarrow> live_ok s x"
    using inv by auto
  note lay = kpool_okD(1) [OF ok]
  have v: "v = page_at s ?w" "n \<noteq> 0" "?w + unat n < bm_bits (kvm s)"
    using live [OF x] by (simp_all add: live_ok_def)
  obtain m1 m2 where free: "page_free PF_KERNEL (page_at s ?w + of_nat off) n s = Some (s\<lparr>ram := m2\<rparr>)"
      "bm_upd (ram s) (kpm s) {?w ..< ?w + unat n} False m1" "bm_upd m1 (kvm s) {?w} False m2"
    using page_free_kernel [OF lay less_imp_le [OF v(3)] off v(2)] .
  note bits = free_bits [OF lay free(2,3)]
  have mem: "?w \<in> alloc_pages s (v, n)"
    using v(2) by (simp add: alloc_pages_def unat_gt_0)
  have "0 < unat n"
    using v(2) by (simp add: unat_gt_0)
  then have "kpool_ok (s\<lparr>ram := m2\<rparr>)"
    using lay bits kpool_okD(2) [OF ok] by (simp add: kpool_ok_def)
  moreover have "live_ok (s\<lparr>ram := m2\<rparr>) y" if y: "y \<in> L" "y \<noteq> (v, n)" for y
  proof (rule live_ok_mono [OF live [OF y(1)]])
    fix j assume j: "j \<in> alloc_pages s y"
    have "alloc_pages s y \<inter> alloc_pages s (v, n) = {}"
      using inv x y by simp
    then have "j \<noteq> ?w"
      using j mem by blast
    then show "bm_bit m2 (kvm s) j"
      using live_pages_bound [OF live [OF y(1)] j] bits(1) by simp
  qed
  ultimately have "kpage_inv (s\<lparr>ram := m2\<rparr>, L - {(v, n)})"
    using inv by auto
  moreover have "page_free PF_KERNEL (v + of_nat off) n s = Some (s\<lparr>ram := m2\<rparr>)"
    using free(1) v(1) by metis
  ultimately show ?thesis
    by (metis that)
qed

lemma kpage_step_inv: "kpage_step c d \<Longrightarrow> kpage_inv c \<Longrightarrow> kpage_inv d"
proof (induction rule: kpage_step.induct)
  case (alloc n s v s' L)
  then have "kpool_layout s"
    by (simp add: kpool_ok_def)
  from this alloc(2,1) show ?case
  proof (cases rule: page_alloc_kernel_cases)
    case none
    with alloc(3) show ?thesis by simp
  next
    case (run w m1 m2)
    with kpage_inv_alloc [OF alloc.prems alloc(1) run(3-6)] show ?thesis by simp
  qed
next
  case (no_room n s s' L)
  then have lay: "kpool_layout s"
    by (simp add: kpool_ok_def)
  from lay no_room(2,1) show ?case
  proof (cases rule: page_alloc_kernel_cases)
    case none
    with no_room.prems show ?thesis by simp
  next
    case (run w m1 m2)
    with page_at_not_NULL [OF lay, of w] show ?thesis by simp
  qed
next
  case (free v n L s s')
  obtain m where m: "page_free PF_KERNEL (v + of_nat 0) n s = Some (s\<lparr>ram := m\<rparr>)" "kpage_inv (s\<lparr>ram := m\<rparr>, L - {(v, n)})"
    using kpage_inv_free [OF free.prems free(1) zero_less_numeral] by metis
  with free(2) have "s' = s\<lparr>ram := m\<rparr>"
    by simp
  with m(2) show ?case
    by simp
qed

lemma intervals_apart: "{a ..< a + n} \<inter> {b ..< b + m} = {} \<Longrightarrow> a + n \<le> b \<or> b + m \<le> a \<or> n = 0 \<or> m = 0" for a b n m :: nat
proof (rule ccontr)
  assume "{a ..< a + n} \<inter> {b ..< b + m} = {}" and "\<not> (a + n \<le> b \<or> b + m \<le> a \<or> n = 0 \<or> m = 0)"
  moreover from this(2) have "max a b \<in> {a ..< a + n} \<inter> {b ..< b + m}"
    by simp
  ultimately show False
    by blast
qed

text \<open>Live allocations lie in the heap and apart from each other.\<close>

lemma kpage_addr:
  assumes "kpage_inv (s, L)" and "(v, n) \<in> L"
  shows "unat v = unat (vm_start (kernel_vm_pool s)) + alloc_start s (v, n) * 4096" and "alloc_start s (v, n) + unat n < bm_bits (kvm s)"
proof -
  have lay: "kpool_layout s"
    using assms(1) by (simp add: kpool_ok_def)
  have "live_ok s (v, n)"
    using assms by simp
  then have v: "v = page_at s (alloc_start s (v, n))" and b: "alloc_start s (v, n) + unat n < bm_bits (kvm s)"
    by (simp_all add: live_ok_def)
  then show "alloc_start s (v, n) + unat n < bm_bits (kvm s)"
    by simp
  show "unat v = unat (vm_start (kernel_vm_pool s)) + alloc_start s (v, n) * 4096"
    using unat_page_at [OF lay, of "alloc_start s (v, n)" 0] b v by simp
qed

lemma kpage_range:
  assumes "kpage_inv (s, L)" and "(v, n) \<in> L"
  shows "unat (vm_start (kernel_vm_pool s)) \<le> unat v \<and> unat v + unat n * 4096 \<le> unat (vm_start (kernel_vm_pool s)) + 4096 * bm_bits (kvm s)"
  using kpage_addr [OF assms] by auto

lemma kpage_apart:
  assumes "kpage_inv (s, L)" and "(v, n) \<in> L" and "(v', n') \<in> L" and "(v', n') \<noteq> (v, n)"
  shows "{unat v ..< unat v + unat n * 4096} \<inter> {unat v' ..< unat v' + unat n' * 4096} = {}"
proof -
  have "alloc_pages s (v, n) \<inter> alloc_pages s (v', n') = {}"
    using assms unfolding kpage_inv.simps by metis
  then have "alloc_start s (v, n) + unat n \<le> alloc_start s (v', n') \<or> alloc_start s (v', n') + unat n' \<le> alloc_start s (v, n)
      \<or> unat n = 0 \<or> unat n' = 0"
    using intervals_apart by (simp add: alloc_pages_def)
  then show ?thesis
    unfolding kpage_addr(1) [OF assms(1,2)] kpage_addr(1) [OF assms(1,3)] by auto
qed

text \<open>
  An allocator of regions: a step relation on states paired with the regions handed out, an invariant that
  keeps them apart, and the promise that each of them can be given back.
\<close>

locale region_allocator =
  fixes step :: "'s \<times> 'r set \<Rightarrow> 's \<times> 'r set \<Rightarrow> bool" and inv :: "'s \<times> 'r set \<Rightarrow> bool" and region :: "'r \<Rightarrow> nat set"
  assumes step_inv: "step c d \<Longrightarrow> inv c \<Longrightarrow> inv d"
    and apart: "inv (s, L) \<Longrightarrow> x \<in> L \<Longrightarrow> y \<in> L \<Longrightarrow> x \<noteq> y \<Longrightarrow> region x \<inter> region y = {}"
    and release: "inv (s, L) \<Longrightarrow> x \<in> L \<Longrightarrow> \<exists>s'. step (s, L) (s', L - {x})"
begin

lemma reachable_inv: "step\<^sup>*\<^sup>* c d \<Longrightarrow> inv c \<Longrightarrow> inv d"
  by (induction rule: rtranclp_induct) (auto intro: step_inv)

lemma reachable_apart: "step\<^sup>*\<^sup>* c (s, L) \<Longrightarrow> inv c \<Longrightarrow> x \<in> L \<Longrightarrow> y \<in> L \<Longrightarrow> x \<noteq> y \<Longrightarrow> region x \<inter> region y = {}"
  using reachable_inv apart by blast

lemma release_all: "inv (s, set xs) \<Longrightarrow> distinct xs \<Longrightarrow> \<exists>s'. step\<^sup>*\<^sup>* (s, set xs) (s', {}) \<and> inv (s', {})"
proof (induction xs arbitrary: s)
  case (Cons x xs)
  obtain s1 where st: "step (s, set (x # xs)) (s1, set (x # xs) - {x})"
    using release [OF Cons.prems(1), of x] by auto
  have eq: "set (x # xs) - {x} = set xs"
    using Cons.prems(2) by auto
  have "inv (s1, set xs)"
    using step_inv [OF st Cons.prems(1)] unfolding eq .
  then obtain s' where "step\<^sup>*\<^sup>* (s1, set xs) (s', {})" "inv (s', {})"
    using Cons.IH [of s1] Cons.prems(2) by auto
  then show ?case
    using st unfolding eq by (blast intro: converse_rtranclp_into_rtranclp)
qed auto

end

definition kpage_region :: "u32 \<times> u32 \<Rightarrow> nat set" where
  "kpage_region x = {unat (fst x) ..< unat (fst x) + unat (snd x) * 4096}"

interpretation kpages: region_allocator kpage_step kpage_inv kpage_region
proof
  fix s :: "'a mem_state_scheme" and L x y
  assume inv: "kpage_inv (s, L)" and x: "x \<in> L"
  show "kpage_region x \<inter> kpage_region y = {}" if "y \<in> L" "x \<noteq> y"
    using kpage_apart [OF inv, of "fst x" "snd x" "fst y" "snd y"] x that by (auto simp: kpage_region_def prod_eq_iff)
  have "(fst x, snd x) \<in> L"
    using x by simp
  then obtain m where "page_free PF_KERNEL (fst x + of_nat 0) (snd x) s = Some (s\<lparr>ram := m\<rparr>)"
    by (rule kpage_inv_free [OF inv _ zero_less_numeral])
  then show "\<exists>s'. kpage_step (s, L) (s', L - {x})"
    using kpage_step.free [of "fst x" "snd x" L s] x by auto
qed (rule kpage_step_inv)

section \<open>Properties of the kernel pages\<close>

text \<open>
  C3: Pages are never shared. Starting from a consistent pool, after any sequence of kernel page
  allocations and releases of live allocations, two live allocations have no address in common, every
  live allocation lies in the heap, and each live allocation can be released.
\<close>

theorem pages_never_shared:
  assumes "kpool_ok s0" and "kpage_step\<^sup>*\<^sup>* (s0, {}) (s, L)" and "(v, n) \<in> L"
  shows "(\<forall>v' n'. (v', n') \<in> L \<longrightarrow> (v', n') \<noteq> (v, n) \<longrightarrow> {unat v ..< unat v + unat n * 4096} \<inter> {unat v' ..< unat v' + unat n' * 4096} = {}) \<and>
    unat (vm_start (kernel_vm_pool s)) \<le> unat v \<and> unat v + unat n * 4096 \<le> unat (vm_start (kernel_vm_pool s)) + 4096 * bm_bits (kvm s) \<and>
    (\<exists>s'. page_free PF_KERNEL v n s = Some s')"
proof -
  have inv: "kpage_inv (s, L)"
    using kpages.reachable_inv [OF assms(2)] assms(1) by simp
  note range = kpage_range [OF inv assms(3)]
  have apart: "{unat v ..< unat v + unat n * 4096} \<inter> {unat v' ..< unat v' + unat n' * 4096} = {}" if "(v', n') \<in> L" and "(v', n') \<noteq> (v, n)" for v' n'
    using kpages.apart [OF inv assms(3) that(1)] that(2) by (auto simp: kpage_region_def)
  obtain m where "page_free PF_KERNEL (v + of_nat 0) n s = Some (s\<lparr>ram := m\<rparr>)"
    using kpage_inv_free [OF inv assms(3) zero_less_numeral] by metis
  then have "\<exists>s'. page_free PF_KERNEL v n s = Some s'"
    by simp
  then show ?thesis
    using range apart by blast
qed

text \<open>
  A request for \<open>n\<close> kernel pages for which there is a free run that does not reach the last page of
  the pool gets the first such run: the result is its address, all \<open>n\<close> bits of the address pool are
  set, and nothing else changes but one bit of the frame pool, that of the first page. (The other
  \<open>n - 1\<close> frames stay marked free, because \<open>bitmap_set_bits\<close> writes one bit.)
\<close>

theorem page_alloc_first_run:
  assumes "kpool_ok s" and "n \<noteq> 0" and "bm_free (ram s) (kvm s) w (unat n)" and "w + unat n < bm_bits (kvm s)"
    and "\<And>j. j < w \<Longrightarrow> \<not> bm_free (ram s) (kvm s) j (unat n)"
  shows "\<exists>m'. page_alloc PF_KERNEL n s = Some (page_at s w, s\<lparr>ram := m'\<rparr>) \<and>
    (\<forall>j < bm_bits (kvm s). bm_bit m' (kvm s) j = (w \<le> j \<and> j < w + unat n \<or> bm_bit (ram s) (kvm s) j)) \<and>
    (\<forall>j < bm_bits (kvm s). bm_bit m' (kpm s) j = (j = w \<or> bm_bit (ram s) (kpm s) j)) \<and>
    (\<forall>a. a \<notin> bm_span (kvm s) \<longrightarrow> a \<notin> bm_span (kpm s) \<longrightarrow> m' a = ram s a)"
proof -
  note lay = kpool_okD(1) [OF assms(1)]
  have "1 \<le> unat n"
    using assms(2) by (simp add: Suc_le_eq unat_gt_0)
  then have "bitmap_apply (ram s) (kvm s) n = Some (of_nat w)"
    using bitmap_apply_fit_aux [OF _ _ assms(3,4,5)] kpool_layoutD(1) [OF lay] by (simp add: bm_ok_def)
  then obtain m1 m2 where m: "page_alloc PF_KERNEL n s = Some (page_at s w, s\<lparr>ram := m2\<rparr>)"
      "bm_upd (ram s) (kvm s) {w ..< w + unat n} True m1" "bm_upd m1 (kpm s) {w} True m2"
    using page_alloc_kernel [OF lay _ less_imp_le [OF assms(4)] assms(2)] by metis
  then show ?thesis
    using alloc_bits [OF lay m(2,3)] bm_updD(2) [OF m(2)] bm_updD(2) [OF m(3)] by (intro exI [of _ m2]) auto
qed

text \<open>
  C31: Allocating one kernel page and releasing it, at any address inside the page, gives back the state
  exactly.
\<close>

theorem page_alloc_free_one:
  assumes "kpool_ok s" and "page_alloc PF_KERNEL 1 s = Some (v, s')" and "v \<noteq> NULL" and "off < 4096"
  shows "page_free PF_KERNEL (v + of_nat off) 1 s' = Some s"
proof -
  note lay = kpool_okD(1) [OF assms(1)]
  from lay assms(2) one_neq_zero show ?thesis
  proof (cases rule: page_alloc_kernel_cases)
    case none
    with assms(3) show ?thesis by simp
  next
    case (run w m1 m2)
    have w: "w < bm_bits (kvm s)" "\<not> bm_bit (ram s) (kvm s) w" and up: "bm_upd (ram s) (kvm s) {w} True m1"
      using run(3,4,5) by (simp_all add: bm_free_def)
    have lay': "kpool_layout s'" and room: "w + unat (1 :: u32) \<le> bm_bits (kvm s')"
      using lay run(2) w(1) by simp_all
    obtain m3 m4 where "page_free PF_KERNEL (page_at s' w + of_nat off) 1 s' = Some (s'\<lparr>ram := m4\<rparr>)"
        "bm_upd (ram s') (kpm s') {w ..< w + unat (1 :: u32)} False m3" "bm_upd m3 (kvm s') {w} False m4"
      using page_free_kernel [OF lay' room assms(4) one_neq_zero] .
    then have free: "page_free PF_KERNEL (page_at s w + of_nat off) 1 s' = Some (s'\<lparr>ram := m4\<rparr>)"
        "bm_upd m2 (kpm s) {w} False m3" "bm_upd m3 (kvm s) {w} False m4"
      using run(2) by simp_all
    have "\<not> bm_bit m1 (kpm s) w"
      using bm_upd_other [OF up kpool_layoutD(2,4) [OF lay]] kpool_okD(2) [OF assms(1)] w kpool_layoutD(3) [OF lay] by auto
    then have "m3 = m1"
      using bm_upd_undo [OF kpool_layoutD(2) [OF lay] run(6) free(2)] by simp
    then have "m4 = ram s"
      using bm_upd_undo [OF kpool_layoutD(1) [OF lay] up, of m4] free(3) w by simp
    then show ?thesis
      using free(1) run(1,2) by simp
  qed
qed

text \<open>
  Releasing \<open>n\<close> kernel pages gives back only the first one: the other \<open>n - 1\<close> pages of the
  allocation stay marked as in use in the address pool.
\<close>

theorem page_free_leaks:
  assumes "kpool_ok s" and "page_alloc PF_KERNEL n s = Some (page_at s w, s')" and "n \<noteq> 0" and "w < bm_bits (kvm s)"
  shows "\<exists>m'. page_free PF_KERNEL (page_at s w) n s' = Some (s\<lparr>ram := m'\<rparr>) \<and>
    (\<forall>j < bm_bits (kvm s). bm_bit m' (kvm s) j = (w < j \<and> j < w + unat n \<or> bm_bit (ram s) (kvm s) j))"
proof -
  note lay = kpool_okD(1) [OF assms(1)]
  from lay assms(2,3) show ?thesis
  proof (cases rule: page_alloc_kernel_cases)
    case none
    with page_at_not_NULL [OF lay assms(4)] show ?thesis by simp
  next
    case (run w' m1 m2)
    have "0 < unat n"
      using assms(3) by (simp add: unat_gt_0)
    then have w': "w' < bm_bits (kvm s)" and clear: "\<not> bm_bit (ram s) (kvm s) w'"
      using run(3,4) by (auto simp: bm_free_def dest: spec [of _ 0])
    have eq: "w' = w"
      using run(1) alloc_start_page_at [OF lay assms(4), of 0] alloc_start_page_at [OF lay w', of 0] by metis
    have lay': "kpool_layout s'"
      using lay run(2) by simp
    have room: "w + unat n \<le> bm_bits (kvm s')"
      using run(2,3) eq by simp
    obtain m3 m4 where free: "page_free PF_KERNEL (page_at s' w + of_nat 0) n s' = Some (s'\<lparr>ram := m4\<rparr>)"
        "bm_upd (ram s') (kpm s') {w ..< w + unat n} False m3" "bm_upd m3 (kvm s') {w} False m4"
      using page_free_kernel [OF lay' room zero_less_numeral assms(3)] .
    have "bm_bit m4 (kvm s) j = (w < j \<and> j < w + unat n \<or> bm_bit (ram s) (kvm s) j)" if "j < bm_bits (kvm s)" for j
      using free_bits(1) [OF lay' free(2,3), of j] alloc_bits(1) [OF lay run(5,6) that] that clear run(2) eq by auto
    then show ?thesis
      using free(1) run(2) by (intro exI [of _ m4]) simp
  qed
qed

lemma span_interval:
  assumes "unat p + n \<le> 4294967296"
  shows "a \<in> span p n \<longleftrightarrow> unat p \<le> unat a \<and> unat a < unat p + n"
proof
  assume "a \<in> span p n"
  then obtain i where "i < n" "a = p + of_nat i"
    by (auto simp: span_def)
  then show "unat p \<le> unat a \<and> unat a < unat p + n"
    using assms by (simp add: unat_word_ariths)
next
  assume a: "unat p \<le> unat a \<and> unat a < unat p + n"
  then have "a = p + of_nat (unat a - unat p)"
    by (simp add: of_nat_diff)
  moreover have "p + of_nat (unat a - unat p) \<in> span p n"
    by (rule span_memI) (use a in arith)
  ultimately show "a \<in> span p n"
    by simp
qed

section \<open>Sections under the lock\<close>

definition zero_pages :: "u32 \<Rightarrow> u32 \<Rightarrow> 'a mem_state_scheme \<Rightarrow> 'a mem_state_scheme" where
  "zero_pages p n s = s\<lparr>ram := (\<lambda>a. if a \<in> span p (unat n) then 0 else ram s a),
     nodes := (\<lambda>a. if unat (a - p) + 8 \<le> unat n then \<lparr>l_prev = NULL, l_next = NULL\<rparr> else nodes s a),
     arenas := (\<lambda>a. if unat (a - p) + 8 \<le> unat n then \<lparr>desc = NULL, cnt = 0\<rparr> else arenas s a)\<rparr>"

lemma memset_pages_eq: "p \<noteq> NULL \<Longrightarrow> memset_pages p n s = Some (zero_pages p n s)"
  by (simp add: memset_pages_def memset_eq zero_pages_def)

lemma zero_pages_simps [simp]:
  "kernel_pool (zero_pages p n s) = kernel_pool s" "user_pool (zero_pages p n s) = user_pool s" "kernel_vm_pool (zero_pages p n s) = kernel_vm_pool s"
  "block_descs (zero_pages p n s) = block_descs s" "kernel_block_desc_array (zero_pages p n s) = kernel_block_desc_array s"
  "tasks (zero_pages p n s) = tasks s" "current_task (zero_pages p n s) = current_task s" "locks (zero_pages p n s) = locks s"
  "semas (zero_pages p n s) = semas s" "eflags (zero_pages p n s) = eflags s"
  by (simp_all add: zero_pages_def)

lemma zero_pages_layout [simp]: "kpool_layout (zero_pages p n s) = kpool_layout s" "page_at (zero_pages p n s) i = page_at s i"
  by (simp_all add: kpool_layout_def page_at_def)

lemma lock_held_mem [simp]:
  "ram (lock_held l s) = ram s" "kernel_pool (lock_held l s) = kernel_pool s" "user_pool (lock_held l s) = user_pool s"
  "kernel_vm_pool (lock_held l s) = kernel_vm_pool s" "arenas (lock_held l s) = arenas s" "block_descs (lock_held l s) = block_descs s"
  "kernel_block_desc_array (lock_held l s) = kernel_block_desc_array s" "nodes (lock_held l s) = nodes s" "tasks (lock_held l s) = tasks s"
  "current_task (lock_held l s) = current_task s"
  by (simp_all add: lock_held_def upd_lock_def upd_sema_def)

lemma lock_held_layout [simp]: "kpool_layout (lock_held l s) = kpool_layout s" "kpool_ok (lock_held l s) = kpool_ok s"
    "page_at (lock_held l s) i = page_at s i"
  by (simp_all add: kpool_layout_def kpool_ok_def page_at_def)

lemma lock_held_upd_mem:
  "(lock_held l s)\<lparr>ram := m\<rparr> = lock_held l (s\<lparr>ram := m\<rparr>)" "(lock_held l s)\<lparr>arenas := ar\<rparr> = lock_held l (s\<lparr>arenas := ar\<rparr>)"
  "(lock_held l s)\<lparr>nodes := h\<rparr> = lock_held l (s\<lparr>nodes := h\<rparr>)"
  by (simp_all add: lock_held_def upd_lock_def upd_sema_def)

lemma lock_held_zero_pages: "zero_pages p n (lock_held l s) = lock_held l (zero_pages p n s)"
  by (simp add: zero_pages_def lock_held_def upd_lock_def upd_sema_def cong: if_cong)

lemma lock_free_mem [simp]:
  "lock_free l (s\<lparr>ram := m\<rparr>) = lock_free l s" "lock_free l (s\<lparr>arenas := ar\<rparr>) = lock_free l s" "lock_free l (s\<lparr>nodes := h\<rparr>) = lock_free l s"
  "lock_free l (zero_pages p n s) = lock_free l s"
  by (simp_all add: lock_free_def zero_pages_def)

lemma pool_section_free:
  assumes "lock_free l s" and "body (lock_held l s) = Some (r, lock_held l s')" and "lock_free l s'"
  shows "pool_section l body s = Some (Returned r, s')"
  using assms by (simp add: pool_section_def klock.acquire_free klock.release_held)

text \<open>Clearing heap pages does not touch the bitmaps.\<close>

lemma zero_above_bits:
  assumes "kpool_layout s" and "unat (vm_start (kernel_vm_pool s)) \<le> unat p" and "unat p + unat n \<le> 4294967296" and "j < bm_bits (kvm s)"
  shows "bm_bit (ram (zero_pages p n s)) (kvm s) j = bm_bit (ram s) (kvm s) j"
    and "bm_bit (ram (zero_pages p n s)) (kpm s) j = bm_bit (ram s) (kpm s) j"
proof -
  have out: "a \<notin> span p (unat n)" if "a < vm_start (kernel_vm_pool s)" for a
    using that assms(2,3) by (simp add: span_interval word_less_nat_alt)
  have below: "\<And>a. a \<in> bm_span (kvm s) \<Longrightarrow> a < vm_start (kernel_vm_pool s)" "\<And>a. a \<in> bm_span (kpm s) \<Longrightarrow> a < vm_start (kernel_vm_pool s)"
    using assms(1) by (auto simp: kpool_layout_def)
  show "bm_bit (ram (zero_pages p n s)) (kvm s) j = bm_bit (ram s) (kvm s) j"
    by (rule bm_bit_frame [OF kpool_layoutD(1) [OF assms(1)] assms(4)]) (use out below in \<open>simp add: zero_pages_def\<close>)
  show "bm_bit (ram (zero_pages p n s)) (kpm s) j = bm_bit (ram s) (kpm s) j"
    by (rule bm_bit_frame [OF kpool_layoutD(2) [OF assms(1)]]) (use out below assms(4) kpool_layoutD(3) [OF assms(1)] in \<open>simp_all add: zero_pages_def\<close>)
qed

lemma page_run_bounds:
  assumes "kpool_layout s" and "i + unat n \<le> bm_bits (kvm s)" and "n \<noteq> 0"
  shows "unat (n * PAGE_SIZE) = unat n * 4096" and "unat (vm_start (kernel_vm_pool s)) \<le> unat (page_at s i)"
    and "unat (page_at s i) + unat (n * PAGE_SIZE) \<le> 4294967296"
proof -
  have "0 < unat n"
    using assms(3) by (simp add: unat_gt_0)
  with assms(2) have i: "i < bm_bits (kvm s)"
    by linarith
  show un: "unat (n * PAGE_SIZE) = unat n * 4096"
    using assms(2) kpool_layoutD(6) [OF assms(1)] by (simp add: PAGE_SIZE_def unat_word_ariths)
  have "unat (vm_start (kernel_vm_pool s)) + 4096 * bm_bits (kvm s) \<le> 4294967296"
    using assms(1) by (simp add: kpool_layout_def)
  then show "unat (vm_start (kernel_vm_pool s)) \<le> unat (page_at s i)" "unat (page_at s i) + unat (n * PAGE_SIZE) \<le> 4294967296"
    using unat_page_at [OF assms(1) i, of 0] un assms(2) by simp_all
qed

text \<open>The pages of \<open>get_kernel_pages\<close> on a free lock: the state it leaves.\<close>

lemma get_kernel_pages_eq:
  assumes "kpool_ok s" and "lock_free (pool_lock (kernel_pool s)) s" and "n \<noteq> 0"
    and "bm_free (ram s) (kvm s) w (unat n)" and "w + unat n < bm_bits (kvm s)" and "\<And>j. j < w \<Longrightarrow> \<not> bm_free (ram s) (kvm s) j (unat n)"
  obtains m1 m2 where "get_kernel_pages n s = Some (Returned (page_at s w), zero_pages (page_at s w) (n * PAGE_SIZE) (s\<lparr>ram := m2\<rparr>))"
    and "bm_upd (ram s) (kvm s) {w ..< w + unat n} True m1" and "bm_upd m1 (kpm s) {w} True m2"
proof -
  let ?l = "pool_lock (kernel_pool s)" and ?p = "page_at s w"
  note lay = kpool_okD(1) [OF assms(1)]
  have n: "1 \<le> unat n"
    using assms(3) by (simp add: Suc_le_eq unat_gt_0)
  have w: "w < bm_bits (kvm s)"
    using assms(5) by simp
  have "bitmap_apply (ram s) (kvm s) n = Some (of_nat w)"
    using bitmap_apply_fit_aux [OF _ n assms(4,5,6)] kpool_layoutD(1) [OF lay] by (simp add: bm_ok_def)
  then obtain m1 m2 where m: "page_alloc PF_KERNEL n (lock_held ?l s) = Some (?p, lock_held ?l (s\<lparr>ram := m2\<rparr>))"
      "bm_upd (ram s) (kvm s) {w ..< w + unat n} True m1" "bm_upd m1 (kpm s) {w} True m2"
    using page_alloc_kernel [of "lock_held ?l s" n w] lay assms(3,5) by (metis lock_held_layout(1,3) lock_held_mem(1,2,4) lock_held_upd_mem(1) less_imp_le)
  let ?s1 = "s\<lparr>ram := m2\<rparr>" let ?s' = "zero_pages ?p (n * PAGE_SIZE) ?s1"
  have "get_pages_body PF_KERNEL n (lock_held ?l s) = Some (?p, lock_held ?l ?s')"
    using m(1) page_at_not_NULL [OF lay w] by (simp add: get_pages_body_def memset_pages_eq lock_held_zero_pages)
  then have "get_kernel_pages n s = Some (Returned ?p, ?s')"
    unfolding get_kernel_pages_def using assms(2) by (intro pool_section_free) simp_all
  then show ?thesis
    using m(2,3) by (rule that)
qed

text \<open>
  C30: \<open>get_kernel_pages\<close> on a free lock takes the first run of \<open>n\<close> free pages, returns its address with
  every byte of it zero, marks the pages, keeps the pool consistent and leaves the lock free; no byte
  outside the run and the two bitmaps changes.
\<close>

theorem get_kernel_pages_zeroed:
  assumes "kpool_ok s" and "lock_free (pool_lock (kernel_pool s)) s" and "n \<noteq> 0"
    and "bm_free (ram s) (kvm s) w (unat n)" and "w + unat n < bm_bits (kvm s)" and "\<And>j. j < w \<Longrightarrow> \<not> bm_free (ram s) (kvm s) j (unat n)"
  shows "\<exists>s'. get_kernel_pages n s = Some (Returned (page_at s w), s') \<and> kpool_ok s' \<and> lock_free (pool_lock (kernel_pool s')) s' \<and>
    (\<forall>a \<in> span (page_at s w) (unat n * 4096). ram s' a = 0) \<and>
    (\<forall>j < bm_bits (kvm s). bm_bit (ram s') (kvm s) j = (w \<le> j \<and> j < w + unat n \<or> bm_bit (ram s) (kvm s) j)) \<and>
    (\<forall>a. a \<notin> span (page_at s w) (unat n * 4096) \<longrightarrow> a \<notin> bm_span (kvm s) \<longrightarrow> a \<notin> bm_span (kpm s) \<longrightarrow> ram s' a = ram s a)"
proof -
  let ?p = "page_at s w"
  note lay = kpool_okD(1) [OF assms(1)]
  have n: "1 \<le> unat n"
    using assms(3) by (simp add: Suc_le_eq unat_gt_0)
  have un: "unat (n * PAGE_SIZE) = unat n * 4096"
    using assms(5) kpool_layoutD(6) [OF lay] by (simp add: PAGE_SIZE_def unat_word_ariths)
  obtain m1 m2 where get: "get_kernel_pages n s = Some (Returned ?p, zero_pages ?p (n * PAGE_SIZE) (s\<lparr>ram := m2\<rparr>))"
      and m: "bm_upd (ram s) (kvm s) {w ..< w + unat n} True m1" "bm_upd m1 (kpm s) {w} True m2"
    using get_kernel_pages_eq [OF assms] by metis
  let ?s1 = "s\<lparr>ram := m2\<rparr>" let ?s' = "zero_pages ?p (n * PAGE_SIZE) ?s1"
  have bits: "bm_bit (ram ?s') (kvm s) j = (w \<le> j \<and> j < w + unat n \<or> bm_bit (ram s) (kvm s) j)"
      "bm_bit (ram ?s') (kpm s) j = (j = w \<or> bm_bit (ram s) (kpm s) j)" if "j < bm_bits (kvm s)" for j
    using zero_above_bits [of ?s1 ?p "n * PAGE_SIZE" j] page_run_bounds [OF lay less_imp_le [OF assms(5)] assms(3)] alloc_bits [OF lay m that] lay that
    by auto
  moreover have "kpool_layout ?s'"
    using lay by simp
  then have "kpool_ok ?s'"
    using bits kpool_okD(2) [OF assms(1)] n by (simp add: kpool_ok_def)
  moreover have "ram ?s' a = (if a \<in> span ?p (unat n * 4096) then 0 else m2 a)" for a
    by (simp add: zero_pages_def un)
  moreover have "lock_free (pool_lock (kernel_pool ?s')) ?s'"
    using assms(2) by simp
  ultimately show ?thesis
    using bm_updD(2) [OF m(1)] bm_updD(2) [OF m(2)] get by (intro exI [of _ ?s']) simp
qed

section \<open>Initialisation\<close>

text \<open>The sizes \<open>mem_pool_init\<close> computes, as natural numbers, for 32 MB up to 4 GB of memory.\<close>

definition kernel_frames :: "nat \<Rightarrow> nat" where
  "kernel_frames tot = (if 2147483648 \<le> tot then 1056964608 else tot div 2 - 16777216) div 4096"

definition user_frames :: "nat \<Rightarrow> nat" where
  "user_frames tot = (if 2147483648 \<le> tot then tot - 1073741824 else tot - tot div 2) div 4096"

lemma frames_bounds:
  assumes "33554432 \<le> tot" and "tot < 4294967296"
  shows "kernel_frames tot \<le> 258048" and "user_frames tot \<le> 786432" and "kernel_frames tot + user_frames tot < 1044480"
    and "16777216 + 4096 * kernel_frames tot + 4096 * user_frames tot \<le> tot"
  using assms by (auto simp: kernel_frames_def user_frames_def)

lemma bitmap_zero_eq:
  "bitmap b \<noteq> NULL \<Longrightarrow> bitmap_zero m b = Some (\<lambda>a. if a \<in> span (bitmap b) (max 1 (unat (bitmap_bytes_len b))) then 0 else m a)"
  by (auto simp: bitmap_zero_def memset_eq unat_gt_0 span_Suc Suc_le_eq max_def fun_eq_iff unat_eq_0)

lemma unat_ucast_down: "unat x < 4294967296 \<Longrightarrow> unat (ucast (x :: u64) :: u32) = unat x"
  by (simp add: unsigned_ucast_eq take_bit_nat_eq_self)

lemma unat_ucast_up: "unat (ucast (x :: u32) :: u64) = unat x"
  using unat_lt_2p32 [of x] by (simp add: unsigned_ucast_eq take_bit_nat_eq_self)

lemma div_page_of_nat: "unat x = n \<Longrightarrow> x div PAGE_SIZE = of_nat (n div 4096)" for x :: u32
  using unat_lt_2p32 [of x] by (simp add: word_unat_eq_iff unat_div PAGE_SIZE_def order_le_less_trans [OF div_le_dividend])

lemma sizes_u32:
  assumes "33554432 \<le> unat tot"
  defines "k \<equiv> (if ucast KERNEL_THRESHOLD \<le> (ucast (tot :: u32) :: u64) then KERNEL_MAX_SIZE - (KERNEL_HEAP_BASE - 0xc0000000)
       else ucast (ucast tot div 2 - (ucast (KERNEL_HEAP_BASE - 0xc0000000) :: u64)))"
  shows "k div PAGE_SIZE = of_nat (kernel_frames (unat tot))"
    and "(ucast (ucast tot - ucast k - (ucast (KERNEL_HEAP_BASE - 0xc0000000) :: u64)) :: u32) div PAGE_SIZE = of_nat (user_frames (unat tot))"
proof -
  let ?h = "ucast (KERNEL_HEAP_BASE - 0xc0000000) :: u64" and ?t = "ucast tot :: u64"
  have h: "unat ?h = 16777216" and th: "ucast KERNEL_THRESHOLD \<le> ?t \<longleftrightarrow> 2147483648 \<le> unat tot"
    by (simp_all add: KERNEL_HEAP_BASE_def KERNEL_THRESHOLD_def word_le_nat_alt unat_ucast_up)
  have half: "unat (?t div 2) = unat tot div 2"
    by (simp add: unat_div unat_ucast_up)
  have "unat (?t div 2 - ?h) = unat tot div 2 - 16777216"
    using assms(1) h half by (subst unat_sub) (simp_all add: word_le_nat_alt)
  then have "unat (ucast (?t div 2 - ?h) :: u32) = unat tot div 2 - 16777216"
    using unat_lt_2p32 [of tot] by (simp add: unat_ucast_down)
  then have k: "unat k = (if 2147483648 \<le> unat tot then 1056964608 else unat tot div 2 - 16777216)"
    using th by (simp add: k_def KERNEL_MAX_SIZE_def KERNEL_HEAP_BASE_def)
  from div_page_of_nat [OF this] show "k div PAGE_SIZE = of_nat (kernel_frames (unat tot))"
    by (simp add: kernel_frames_def)
  have "unat k \<le> unat tot"
    using k by (auto split: if_splits)
  then have "unat (?t - ucast k) = unat tot - unat k"
    by (subst unat_sub) (simp_all add: word_le_nat_alt unat_ucast_up)
  moreover have "16777216 \<le> unat tot - unat k"
    using k assms(1) by (auto split: if_splits)
  ultimately have "unat (?t - ucast k - ?h) = unat tot - unat k - 16777216"
    using h by (subst unat_sub) (simp_all add: word_le_nat_alt)
  then have "unat (ucast (?t - ucast k - ?h) :: u32) = (if 2147483648 \<le> unat tot then unat tot - 1073741824 else unat tot - unat tot div 2)"
    using unat_lt_2p32 [of tot] k assms(1) by (subst unat_ucast_down) auto
  from div_page_of_nat [OF this] show "(ucast (?t - ucast k - ?h) :: u32) div PAGE_SIZE = of_nat (user_frames (unat tot))"
    by (simp add: user_frames_def)
qed

lemma lock_init_pools [simp]:
  "kernel_pool (lock_init l s) = kernel_pool s" "user_pool (lock_init l s) = user_pool s"
  "kernel_vm_pool (lock_init l s) = kernel_vm_pool s" "ram (lock_init l s) = ram s"
  by (simp_all add: lock_init_eq)

lemma lock_init_other [simp]: "tasks (lock_init l s) = tasks s" "block_descs (lock_init l s) = block_descs s"
    "kernel_block_desc_array (lock_init l s) = kernel_block_desc_array s"
  by (simp_all add: lock_init_eq)

lemma lock_init_free: "t \<noteq> NULL \<Longrightarrow> lock_free l ((lock_init l' (lock_init l s))\<lparr>current_task := t\<rparr>)"
  by (auto simp: lock_free_def lock_init_eq)

lemma pool_report_eq: obtains x where "pool_report s = s\<lparr>screen := x\<rparr>"
proof -
  have "only_screen s (pool_report s)"
    unfolding pool_report_def Let_def by (intro only_screen_intros)
  then show ?thesis
    using that by (auto simp: only_screen_def)
qed

lemma mem_pool_init_eq:
  assumes "33554432 \<le> unat (tot :: u32)"
  defines "k \<equiv> kernel_frames (unat tot)" and "u \<equiv> user_frames (unat tot)"
  obtains s1 where "mem_pool_init (ucast tot) s = Some s1"
    and "kpm s1 = \<lparr>bitmap_bytes_len = of_nat (k div 8), bitmap = MEM_BITMAP_BASE\<rparr>"
    and "pool_bitmap (user_pool s1) = \<lparr>bitmap_bytes_len = of_nat (u div 8), bitmap = MEM_BITMAP_BASE + of_nat (k div 8)\<rparr>"
    and "kernel_vm_pool s1 = \<lparr>vm_bitmap = \<lparr>bitmap_bytes_len = of_nat (k div 8), bitmap = KERNEL_VM_BITMAP_BASE\<rparr>, vm_start = KERNEL_HEAP_BASE\<rparr>"
    and "phy_addr_start (kernel_pool s1) = 0x1000000" and "phy_addr_start (user_pool s1) = of_nat (16777216 + 4096 * k)"
    and "pool_size (kernel_pool s1) = of_nat (4096 * k)" and "pool_size (user_pool s1) = of_nat (4096 * u)"
    and "pool_lock (kernel_pool s1) = pool_lock (kernel_pool s)" and "pool_lock (user_pool s1) = pool_lock (user_pool s)"
    and "\<forall>a \<in> bm_span (kpm s1) \<union> bm_span (pool_bitmap (user_pool s1)) \<union> bm_span (kvm s1). ram s1 a = 0"
    and "tasks s1 = tasks s \<and> block_descs s1 = block_descs s \<and> kernel_block_desc_array s1 = kernel_block_desc_array s \<and>
      (\<forall>t. t \<noteq> NULL \<longrightarrow> lock_free (pool_lock (kernel_pool s1)) (s1\<lparr>current_task := t\<rparr>)) \<and> (\<forall>a < 0xc0075000. ram s1 a = ram s a)"
    and "\<exists>m kp up vm se lo x. s1 = s\<lparr>ram := m, kernel_pool := kp, user_pool := up, kernel_vm_pool := vm, semas := se, locks := lo, screen := x\<rparr>"
proof -
  define kb ub vb where "kb = \<lparr>bitmap_bytes_len = of_nat (k div 8), bitmap = MEM_BITMAP_BASE\<rparr>"
    and "ub = \<lparr>bitmap_bytes_len = of_nat (u div 8), bitmap = MEM_BITMAP_BASE + of_nat (k div 8)\<rparr>"
    and "vb = \<lparr>bitmap_bytes_len = of_nat (k div 8), bitmap = KERNEL_VM_BITMAP_BASE\<rparr>"
  have bnd: "k \<le> 258048" "u \<le> 786432"
    using frames_bounds [OF assms(1) unat_lt_2p32] by (simp_all add: k_def u_def)
  have d8: "of_nat n div (8 :: u32) = of_nat (n div 8)" if "n < 4294967296" for n
    using that by (simp add: word_unat_eq_iff unat_div order_le_less_trans [OF div_le_dividend])
  have nn: "bitmap kb \<noteq> NULL" "bitmap ub \<noteq> NULL" "bitmap vb \<noteq> NULL"
    using bnd by (simp_all add: kb_def ub_def vb_def NULL_def MEM_BITMAP_BASE_def KERNEL_VM_BITMAP_BASE_def word_unat_eq_iff unat_word_ariths)
  let ?z = "\<lambda>b m a. if a \<in> span (bitmap b) (max 1 (unat (bitmap_bytes_len b))) then 0 else m a"
  let ?m = "?z vb (?z ub (?z kb (ram s)))"
  have z: "?m a = 0" if "a \<in> bm_span kb \<union> bm_span ub \<union> bm_span vb" for a
  proof -
    have "bm_span b \<subseteq> span (bitmap b) (max 1 (unat (bitmap_bytes_len b)))" for b
      unfolding bm_span_def span_def by (intro image_mono) auto
    then show ?thesis
      using that by auto
  qed
  have low: "\<forall>a < 0xc0075000. ?m a = ram s a"
    using bnd by (simp add: kb_def ub_def vb_def span_interval MEM_BITMAP_BASE_def KERNEL_VM_BITMAP_BASE_def word_less_nat_alt unat_word_ariths)
  let ?kp = "(kernel_pool s)\<lparr>pool_bitmap := kb, pool_size := of_nat (4096 * k), phy_addr_start := 0x1000000\<rparr>"
    and ?up = "(user_pool s)\<lparr>pool_bitmap := ub, pool_size := of_nat (4096 * u), phy_addr_start := of_nat (16777216 + 4096 * k)\<rparr>"
  let ?s = "s\<lparr>kernel_pool := ?kp, user_pool := ?up, kernel_vm_pool := \<lparr>vm_bitmap = vb, vm_start = KERNEL_HEAP_BASE\<rparr>, ram := ?m\<rparr>"
  let ?locked = "lock_init (pool_lock (user_pool s)) (lock_init (pool_lock (kernel_pool s)) ?s)"
  obtain x where x: "pool_report ?locked = ?locked\<lparr>screen := x\<rparr>"
    by (rule pool_report_eq)
  let ?s1 = "?locked\<lparr>screen := x\<rparr>"
  have "mem_pool_init (ucast tot) s = Some (pool_report ?locked)"
    unfolding mem_pool_init_def Let_def sizes_u32 [OF assms(1), folded k_def u_def] kb_def ub_def vb_def
    using nn [unfolded kb_def ub_def vb_def] bnd by (simp add: bitmap_zero_eq d8 PAGE_SIZE_def KERNEL_HEAP_BASE_def mult.commute add.commute cong: if_cong)
  then have res: "mem_pool_init (ucast tot) s = Some ?s1"
    unfolding x .
  have "lock_free (pool_lock (kernel_pool s)) (?s1\<lparr>current_task := t\<rparr>)" if "t \<noteq> NULL" for t
    using that by (auto simp: lock_free_def lock_init_eq)
  then have fr: "tasks ?s1 = tasks s \<and> block_descs ?s1 = block_descs s \<and> kernel_block_desc_array ?s1 = kernel_block_desc_array s \<and>
      (\<forall>t. t \<noteq> NULL \<longrightarrow> lock_free (pool_lock (kernel_pool ?s1)) (?s1\<lparr>current_task := t\<rparr>)) \<and> (\<forall>a < 0xc0075000. ram ?s1 a = ram s a)"
    using low by simp
  have sh: "\<exists>m kp up vm se lo x. ?s1 = s\<lparr>ram := m, kernel_pool := kp, user_pool := up, kernel_vm_pool := vm, semas := se, locks := lo, screen := x\<rparr>"
  proof -
    have "?s1 = s\<lparr>ram := ?m, kernel_pool := ?kp, user_pool := ?up, kernel_vm_pool := \<lparr>vm_bitmap = vb, vm_start = KERNEL_HEAP_BASE\<rparr>, semas := semas ?s1, locks := locks ?s1, screen := x\<rparr>"
      by (simp add: lock_init_eq)
    then show ?thesis
      by blast
  qed
  show ?thesis
    by (rule that [OF res _ _ _ _ _ _ _ _ _ _ fr sh]) (use z in \<open>simp_all add: kb_def ub_def vb_def\<close>)
qed

text \<open>The pools of the memory map, with the addresses of their bitmaps.\<close>

lemma mem_pool_init_layout:
  assumes "33554432 \<le> unat (tot :: u32)"
  defines "k \<equiv> kernel_frames (unat tot)" and "u \<equiv> user_frames (unat tot)"
  obtains s1 where "mem_pool_init (ucast tot) s = Some s1" and "kpool_ok s1" and "vm_start (kernel_vm_pool s1) = KERNEL_HEAP_BASE"
    and "\<And>a. a \<in> bm_span (kpm s1) \<longleftrightarrow> 0xc007e000 \<le> unat a \<and> unat a < 0xc007e000 + k div 8"
    and "\<And>a. a \<in> bm_span (pool_bitmap (user_pool s1)) \<longleftrightarrow> 0xc007e000 + k div 8 \<le> unat a \<and> unat a < 0xc007e000 + k div 8 + u div 8"
    and "\<And>a. a \<in> bm_span (kvm s1) \<longleftrightarrow> 0xc0075000 \<le> unat a \<and> unat a < 0xc0075000 + k div 8"
    and "\<forall>a \<in> bm_span (kpm s1) \<union> bm_span (pool_bitmap (user_pool s1)) \<union> bm_span (kvm s1). ram s1 a = 0"
    and "unat (phy_addr_start (user_pool s1)) = 16777216 + 4096 * k" and "unat (pool_size (kernel_pool s1)) = 4096 * k"
    and "unat (pool_size (user_pool s1)) = 4096 * u" and "unat (phy_addr_start (kernel_pool s1)) = 16777216"
    and "tasks s1 = tasks s \<and> block_descs s1 = block_descs s \<and> kernel_block_desc_array s1 = kernel_block_desc_array s \<and>
      (\<forall>t. t \<noteq> NULL \<longrightarrow> lock_free (pool_lock (kernel_pool s1)) (s1\<lparr>current_task := t\<rparr>)) \<and> (\<forall>a < 0xc0075000. ram s1 a = ram s a)"
    and "\<exists>m kp up vm se lo x. s1 = s\<lparr>ram := m, kernel_pool := kp, user_pool := up, kernel_vm_pool := vm, semas := se, locks := lo, screen := x\<rparr>"
    and "bm_bits (kvm s1) = 8 * (k div 8)"
proof -
  have bnd: "k \<le> 258048" "u \<le> 786432" "k + u < 1044480" "16777216 + 4096 * k + 4096 * u \<le> unat tot"
    using frames_bounds [OF assms(1) unat_lt_2p32] by (simp_all add: k_def u_def)
  obtain s1 where s1: "mem_pool_init (ucast tot) s = Some s1"
      "kpm s1 = \<lparr>bitmap_bytes_len = of_nat (k div 8), bitmap = MEM_BITMAP_BASE\<rparr>"
      "pool_bitmap (user_pool s1) = \<lparr>bitmap_bytes_len = of_nat (u div 8), bitmap = MEM_BITMAP_BASE + of_nat (k div 8)\<rparr>"
      "kernel_vm_pool s1 = \<lparr>vm_bitmap = \<lparr>bitmap_bytes_len = of_nat (k div 8), bitmap = KERNEL_VM_BITMAP_BASE\<rparr>, vm_start = KERNEL_HEAP_BASE\<rparr>"
      "phy_addr_start (kernel_pool s1) = 0x1000000" "phy_addr_start (user_pool s1) = of_nat (16777216 + 4096 * k)"
      "pool_size (kernel_pool s1) = of_nat (4096 * k)" "pool_size (user_pool s1) = of_nat (4096 * u)"
      "pool_lock (kernel_pool s1) = pool_lock (kernel_pool s)" "pool_lock (user_pool s1) = pool_lock (user_pool s)"
    and zero: "\<forall>a \<in> bm_span (kpm s1) \<union> bm_span (pool_bitmap (user_pool s1)) \<union> bm_span (kvm s1). ram s1 a = 0"
    and fr: "tasks s1 = tasks s \<and> block_descs s1 = block_descs s \<and> kernel_block_desc_array s1 = kernel_block_desc_array s \<and>
      (\<forall>t. t \<noteq> NULL \<longrightarrow> lock_free (pool_lock (kernel_pool s1)) (s1\<lparr>current_task := t\<rparr>)) \<and> (\<forall>a < 0xc0075000. ram s1 a = ram s a)"
    and sh: "\<exists>m kp up vm se lo x. s1 = s\<lparr>ram := m, kernel_pool := kp, user_pool := up, kernel_vm_pool := vm, semas := se, locks := lo, screen := x\<rparr>"
    using mem_pool_init_eq [OF assms(1), of s, folded k_def u_def] .
  have unats: "unat MEM_BITMAP_BASE = 0xc007e000" "unat KERNEL_VM_BITMAP_BASE = 0xc0075000" "unat (MEM_BITMAP_BASE + of_nat (k div 8)) = 0xc007e000 + k div 8"
      "unat (of_nat (k div 8) :: u32) = k div 8" "unat (of_nat (u div 8) :: u32) = u div 8"
    using bnd(1,2) by (simp_all add: MEM_BITMAP_BASE_def KERNEL_VM_BITMAP_BASE_def unat_word_ariths)
  have in_k: "a \<in> bm_span (kpm s1) \<longleftrightarrow> 0xc007e000 \<le> unat a \<and> unat a < 0xc007e000 + k div 8"
    and in_u: "a \<in> bm_span (pool_bitmap (user_pool s1)) \<longleftrightarrow> 0xc007e000 + k div 8 \<le> unat a \<and> unat a < 0xc007e000 + k div 8 + u div 8"
    and in_v: "a \<in> bm_span (kvm s1) \<longleftrightarrow> 0xc0075000 \<le> unat a \<and> unat a < 0xc0075000 + k div 8" for a
    using bnd(1,2) unats by (simp_all add: s1(2-4) bm_span_def span_interval)
  have kb: "bm_ok (kvm s1)" "bm_ok (kpm s1)" "bm_bits (kvm s1) \<le> k"
    using bnd(1) unats by (auto simp: s1(2,4) bm_ok_def bm_bits_eq NULL_def word_unat_eq_iff)
  have nb: "bm_bits (kvm s1) = 8 * (k div 8)"
    using bm_bits_eq [OF kb(1)] unats(4) by (simp add: s1(4))
  have "bm_span (kvm s1) \<inter> bm_span (kpm s1) = {}"
    using in_k in_v bnd(1) by auto
  moreover have sizes: "unat (phy_addr_start (user_pool s1)) = 16777216 + 4096 * k" "unat (pool_size (kernel_pool s1)) = 4096 * k"
      "unat (pool_size (user_pool s1)) = 4096 * u" "unat (phy_addr_start (kernel_pool s1)) = 16777216"
    unfolding s1(5-8) using bnd(1,2) by (intro unat_of_nat_u32; simp)+ simp
  moreover have "\<forall>a \<in> bm_span (kvm s1) \<union> bm_span (kpm s1). a < vm_start (kernel_vm_pool s1)"
    using in_k in_v bnd(1) s1(4) by (auto simp: KERNEL_HEAP_BASE_def word_less_nat_alt)
  ultimately have "kpool_layout s1"
    using kb bnd(1) s1(2,4,5) by (simp add: kpool_layout_def PAGE_OFFEST_def KERNEL_HEAP_BASE_def pa_def)
  moreover have "\<not> bm_bit (ram s1) (kpm s1) i" if "i < bm_bits (kvm s1)" for i
    using zero bm_byte_in_span [OF kb(2)] that s1(2,4) by (simp add: bm_bit_def bm_bits_def)
  ultimately have "kpool_ok s1"
    by (simp add: kpool_ok_def)
  moreover have "vm_start (kernel_vm_pool s1) = KERNEL_HEAP_BASE"
    unfolding s1(4) by simp
  ultimately show ?thesis
    by (rule that [OF s1(1) _ _ in_k in_u in_v zero sizes fr sh nb])
qed

text \<open>
  C16: The memory map. For 32 MB up to 4 GB of memory, initialisation gives the kernel pool the frames
  from 16 MB on and the user pool the frames after them, all of them below the end of memory. The
  two frame bitmaps and the bitmap of kernel addresses do not overlap and end below the task structure
  of the kernel at \<open>0xc009e000\<close>; all of them are clear, so that the pools are consistent.
\<close>

theorem mem_pool_layout:
  assumes "33554432 \<le> unat tot"
  shows "\<exists>s1. mem_pool_init (ucast (tot :: u32)) s = Some s1 \<and> kpool_ok s1 \<and>
    unat (phy_addr_start (kernel_pool s1)) = 16777216 \<and>
    unat (phy_addr_start (user_pool s1)) = 16777216 + unat (pool_size (kernel_pool s1)) \<and>
    unat (phy_addr_start (user_pool s1)) + unat (pool_size (user_pool s1)) \<le> unat tot \<and>
    bm_span (kpm s1) \<inter> bm_span (pool_bitmap (user_pool s1)) = {} \<and> bm_span (kvm s1) \<inter> bm_span (pool_bitmap (user_pool s1)) = {} \<and>
    (\<forall>a \<in> bm_span (kpm s1) \<union> bm_span (kvm s1) \<union> bm_span (pool_bitmap (user_pool s1)). 0xc0075000 \<le> a \<and> a < 0xc009e000 \<and> ram s1 a = 0)"
proof -
  let ?k = "kernel_frames (unat tot)" and ?u = "user_frames (unat tot)"
  have bnd: "?k \<le> 258048" "?u \<le> 786432" "?k + ?u < 1044480" "16777216 + 4096 * ?k + 4096 * ?u \<le> unat tot"
    using frames_bounds [OF assms unat_lt_2p32] by simp_all
  obtain s1 where s1: "mem_pool_init (ucast tot) s = Some s1" "kpool_ok s1" "vm_start (kernel_vm_pool s1) = KERNEL_HEAP_BASE"
    and in_k: "\<And>a. a \<in> bm_span (kpm s1) \<longleftrightarrow> 0xc007e000 \<le> unat a \<and> unat a < 0xc007e000 + ?k div 8"
    and in_u: "\<And>a. a \<in> bm_span (pool_bitmap (user_pool s1)) \<longleftrightarrow> 0xc007e000 + ?k div 8 \<le> unat a \<and> unat a < 0xc007e000 + ?k div 8 + ?u div 8"
    and in_v: "\<And>a. a \<in> bm_span (kvm s1) \<longleftrightarrow> 0xc0075000 \<le> unat a \<and> unat a < 0xc0075000 + ?k div 8"
    and zero: "\<forall>a \<in> bm_span (kpm s1) \<union> bm_span (pool_bitmap (user_pool s1)) \<union> bm_span (kvm s1). ram s1 a = 0"
    and sizes: "unat (phy_addr_start (user_pool s1)) = 16777216 + 4096 * ?k" "unat (pool_size (kernel_pool s1)) = 4096 * ?k"
      "unat (pool_size (user_pool s1)) = 4096 * ?u" "unat (phy_addr_start (kernel_pool s1)) = 16777216"
    by (rule mem_pool_init_layout [OF assms, of s]) (rule that; assumption)
  have "bm_span (kpm s1) \<inter> bm_span (pool_bitmap (user_pool s1)) = {}" "bm_span (kvm s1) \<inter> bm_span (pool_bitmap (user_pool s1)) = {}"
    using in_k in_u in_v bnd(1) by auto
  moreover have "0xc0075000 \<le> a \<and> a < 0xc009e000 \<and> ram s1 a = 0" if "a \<in> bm_span (kpm s1) \<union> bm_span (kvm s1) \<union> bm_span (pool_bitmap (user_pool s1))" for a
    using that zero in_k [of a] in_u [of a] in_v [of a] bnd by (auto simp: word_le_nat_alt word_less_nat_alt)
  ultimately show ?thesis
    using s1(1,2) sizes bnd(4) by (intro exI [of _ s1]) simp
qed

section \<open>User pages\<close>

abbreviation uvm :: "'a mem_state_scheme \<Rightarrow> virtual_mem_pool" where
  "uvm s \<equiv> userprog_vaddr (tasks s (current_task s))"

abbreviation upm :: "'a mem_state_scheme \<Rightarrow> bitmap" where
  "upm s \<equiv> pool_bitmap (user_pool s)"

definition upool_layout :: "'a mem_state_scheme \<Rightarrow> bool" where
  "upool_layout s \<longleftrightarrow> bm_ok (vm_bitmap (uvm s)) \<and> bm_ok (upm s) \<and> bm_span (vm_bitmap (uvm s)) \<inter> bm_span (upm s) = {} \<and>
     0 < unat (vm_start (uvm s)) \<and> unat (vm_start (uvm s)) + 4096 * bm_bits (vm_bitmap (uvm s)) \<le> 0xbffff000 \<and>
     0 < unat (phy_addr_start (user_pool s)) \<and> unat (phy_addr_start (user_pool s)) + 4096 * bm_bits (upm s) \<le> 4294967296"

lemma pool_addr:
  assumes "0 < unat st" and "unat st + 4096 * k \<le> 4294967296" and "i < k"
  shows "unat (st + of_nat i * PAGE_SIZE) = unat st + 4096 * i" and "st + of_nat i * PAGE_SIZE \<noteq> NULL" and "(of_nat i :: u32) \<noteq> - 1"
proof -
  have i: "unat (of_nat i * PAGE_SIZE :: u32) = 4096 * i"
    using assms(2,3) by (simp add: PAGE_SIZE_def unat_word_ariths)
  then show a: "unat (st + of_nat i * PAGE_SIZE) = unat st + 4096 * i"
    using assms(2,3) by (subst unat_add_u32) simp_all
  then show "st + of_nat i * PAGE_SIZE \<noteq> NULL"
    using assms(1) by (auto simp: NULL_def)
  show "(of_nat i :: u32) \<noteq> - 1"
    unfolding minus_one_u32 using of_nat_inj_u32 [of i 4294967295] assms(2,3) by simp
qed

lemma phy_alloc_next:
  assumes "upool_layout s" and "k + 1 < bm_bits (upm s)" and "\<And>j. j < bm_bits (upm s) \<Longrightarrow> bm_bit (ram s) (upm s) j = (j < k)"
  obtains m' v where "phy_alloc (user_pool s) s = Some (v, s\<lparr>ram := m'\<rparr>)" and "v \<noteq> NULL" and "bm_upd (ram s) (upm s) {k} True m'"
proof -
  have ok: "bm_ok (upm s)" and st: "0 < unat (phy_addr_start (user_pool s))" "unat (phy_addr_start (user_pool s)) + 4096 * bm_bits (upm s) \<le> 4294967296"
    using assms(1) by (simp_all add: upool_layout_def)
  have k: "k < bm_bits (upm s)"
    using assms(2) by simp
  have "bitmap_apply (ram s) (upm s) 1 = Some (of_nat k)"
    by (rule bitmap_apply_fit_aux) (use ok assms(2,3) in \<open>simp_all add: bm_free_def bm_ok_def\<close>)
  moreover obtain m' where m': "bitmap_set_bit (ram s) (upm s) (of_nat k) bit_set = Some m'" "bm_upd (ram s) (upm s) {k} (bit_set = bit_set) m'"
    using bitmap_set_bit_upd [OF ok k] .
  ultimately have "phy_alloc (user_pool s) s = Some (phy_addr_start (user_pool s) + of_nat k * PAGE_SIZE, s\<lparr>ram := m'\<rparr>)"
    using pool_addr(3) [OF st k] by (simp add: phy_alloc_def add.commute)
  then show ?thesis
    using pool_addr(2) [OF st k] m'(2) that by simp
qed

lemma upool_layout_ram [simp]: "upool_layout (s\<lparr>ram := m\<rparr>) = upool_layout s"
  by (simp add: upool_layout_def)

lemma user_phy_loop_run:
  assumes "upool_layout s" and "k + n < bm_bits (upm s)" and "\<And>j. j < bm_bits (upm s) \<Longrightarrow> bm_bit (ram s) (upm s) j = (j < k)"
  obtains m' where "user_phy_loop n s = Some (True, s\<lparr>ram := m'\<rparr>)" and "bm_upd (ram s) (upm s) {k ..< k + n} True m'"
  using assms
proof (induction n arbitrary: s k thesis)
  case 0
  then show ?case
    using "0.prems"(1) [of "ram s"] bm_upd_refl [of "ram s" "upm s" True] by simp
next
  case (Suc n)
  have b: "k + 1 < bm_bits (upm s)"
    using Suc.prems(3) by simp
  obtain m1 v where m1: "phy_alloc (user_pool s) s = Some (v, s\<lparr>ram := m1\<rparr>)" "v \<noteq> NULL" "bm_upd (ram s) (upm s) {k} True m1"
    using phy_alloc_next [OF Suc.prems(2) b Suc.prems(4)] by blast
  let ?s = "s\<lparr>ram := m1\<rparr>"
  have "bm_bit (ram ?s) (upm ?s) j = (j < Suc k)" if "j < bm_bits (upm ?s)" for j
    using bm_updD(1) [OF m1(3), of j] Suc.prems(4) [of j] that by auto
  then obtain m2 where m2: "user_phy_loop n ?s = Some (True, ?s\<lparr>ram := m2\<rparr>)" "bm_upd (ram ?s) (upm ?s) {Suc k ..< Suc k + n} True m2"
    using Suc.IH [where s = ?s and k = "Suc k"] Suc.prems(2,3) by auto
  have "{k} \<union> {Suc k ..< Suc k + n} = {k ..< k + Suc n}"
    by auto
  then show ?case
    using Suc.prems(1) [of m2] m1(1,2) m2 bm_upd_trans [OF m1(3), of "{Suc k ..< Suc k + n}" m2] by simp
qed

lemma vaddr_alloc_user:
  assumes "upool_layout s" and "bitmap_apply (ram s) (vm_bitmap (uvm s)) n = Some (of_nat w)" and "w + unat n < bm_bits (vm_bitmap (uvm s))" and "n \<noteq> 0"
  obtains m' where "vaddr_alloc PF_USER n s = Some (vm_start (uvm s) + of_nat w * PAGE_SIZE, s\<lparr>ram := m'\<rparr>)"
    and "bm_upd (ram s) (vm_bitmap (uvm s)) {w} True m'" and "vm_start (uvm s) + of_nat w * PAGE_SIZE \<noteq> NULL"
proof -
  let ?b = "vm_bitmap (uvm s)" and ?st = "vm_start (uvm s)"
  have ok: "bm_ok ?b" and st: "0 < unat ?st" "unat ?st + 4096 * bm_bits ?b \<le> 4294967296" "unat ?st + 4096 * bm_bits ?b \<le> 0xbffff000"
    using assms(1) by (simp_all add: upool_layout_def)
  have w: "w < bm_bits ?b" and b: "w + unat n < 4294967296"
    using assms(3) st(2) by simp_all
  obtain m' where m': "bitmap_set_bits (ram s) ?b (of_nat w) n bit_set = Some m'" "bm_upd (ram s) ?b {w} (bit_set = bit_set) m'"
    using bitmap_set_bits_upd [OF ok w assms(4) b] .
  have "?st + of_nat w * PAGE_SIZE < 0xc0000000 - PAGE_SIZE"
    using pool_addr(1) [OF st(1,2) w] st(3) w by (simp add: word_less_nat_alt PAGE_SIZE_def)
  then have "vaddr_alloc PF_USER n s = Some (?st + of_nat w * PAGE_SIZE, s\<lparr>ram := m'\<rparr>)"
    using assms(2) m'(1) pool_addr(3) [OF st(1,2) w] by (simp add: vaddr_alloc_def get_cur_task_def)
  then show ?thesis
    using m'(2) pool_addr(2) [OF st(1,2) w] that by simp
qed

text \<open>
  User allocations overlap. In a fresh address space an allocation of \<open>n \<ge> 2\<close> user pages marks
  only the first page of the run as used, so the next allocation of a page returns the second
  page of the run.
\<close>

theorem user_pages_overlap:
  assumes "upool_layout s" and "2 \<le> unat n" and "unat n + 2 < bm_bits (vm_bitmap (uvm s))" and "unat n + 2 < bm_bits (upm s)"
    and "\<And>j. j < bm_bits (vm_bitmap (uvm s)) \<Longrightarrow> \<not> bm_bit (ram s) (vm_bitmap (uvm s)) j" and "\<And>j. j < bm_bits (upm s) \<Longrightarrow> \<not> bm_bit (ram s) (upm s) j"
  shows "\<exists>v s1 s2. page_alloc PF_USER n s = Some (v, s1) \<and> page_alloc PF_USER 1 s1 = Some (v + PAGE_SIZE, s2) \<and>
    v \<noteq> NULL \<and> unat (v + PAGE_SIZE) = unat v + 4096 \<and> unat v + 4096 < unat v + 4096 * unat n"
proof -
  let ?b = "vm_bitmap (uvm s)" and ?f = "upm s" and ?st = "vm_start (uvm s)"
  have ok: "bm_ok ?b" "bm_ok ?f" and dis: "bm_span ?b \<inter> bm_span ?f = {}" "bm_span ?f \<inter> bm_span ?b = {}"
    and st: "0 < unat ?st" "unat ?st + 4096 * bm_bits ?b \<le> 4294967296"
    using assms(1) by (auto simp: upool_layout_def)
  have n: "n \<noteq> 0"
    using assms(2) by auto
  have fit: "bitmap_apply (ram s) ?b n = Some (of_nat 0)"
    by (rule bitmap_apply_fit_aux) (use ok assms(2,3,5) in \<open>simp_all add: bm_free_def bm_ok_def\<close>)
  have room: "0 + unat n < bm_bits ?b"
    using assms(3) by simp
  obtain m1 where m1: "vaddr_alloc PF_USER n s = Some (?st + of_nat 0 * PAGE_SIZE, s\<lparr>ram := m1\<rparr>)" "bm_upd (ram s) ?b {0} True m1" "?st + of_nat 0 * PAGE_SIZE \<noteq> NULL"
    using vaddr_alloc_user [OF assms(1) fit room n] .
  let ?s1 = "s\<lparr>ram := m1\<rparr>"
  have f1: "bm_bit (ram ?s1) (upm ?s1) j = (j < 0)" if "j < bm_bits (upm ?s1)" for j
    using bm_upd_other [OF m1(2) ok(2) dis(1)] assms(6) that by simp
  have l1: "upool_layout ?s1" and r1: "0 + unat n < bm_bits (upm ?s1)"
    using assms(1,4) by simp_all
  obtain m2 where "user_phy_loop (unat n) ?s1 = Some (True, ?s1\<lparr>ram := m2\<rparr>)" "bm_upd (ram ?s1) (upm ?s1) {0 ..< 0 + unat n} True m2"
    using user_phy_loop_run [OF l1 r1 f1] by blast
  then have m2: "user_phy_loop (unat n) ?s1 = Some (True, s\<lparr>ram := m2\<rparr>)" "bm_upd m1 ?f {0 ..< unat n} True m2"
    by simp_all
  let ?s2 = "s\<lparr>ram := m2\<rparr>"
  have a1: "page_alloc PF_USER n s = Some (?st, ?s2)"
    using m1(1,3) m2(1) by (simp add: page_alloc_def)
  have b2: "bm_bit m2 ?b j = (j = 0)" if "j < bm_bits ?b" for j
    using bm_upd_other [OF m2(2) ok(1) dis(2) that] bm_updD(1) [OF m1(2) that] assms(5) [OF that] by simp
  have f2: "bm_bit m2 ?f j = (j < unat n)" if "j < bm_bits ?f" for j
    using bm_updD(1) [OF m2(2) that] f1 [of j] that by simp
  have fit2: "bitmap_apply (ram ?s2) (vm_bitmap (uvm ?s2)) 1 = Some (of_nat 1)"
    by (rule bitmap_apply_fit_aux) (use ok assms(2,3) b2 in \<open>simp_all add: bm_free_def bm_ok_def\<close>)
  have l2: "upool_layout ?s2" and r2: "1 + unat (1 :: u32) < bm_bits (vm_bitmap (uvm ?s2))" and r3: "unat n + 1 < bm_bits (upm ?s2)"
    using assms(1,2,3,4) by simp_all
  obtain m3 where m3: "vaddr_alloc PF_USER 1 ?s2 = Some (vm_start (uvm ?s2) + of_nat 1 * PAGE_SIZE, ?s2\<lparr>ram := m3\<rparr>)"
      "bm_upd (ram ?s2) (vm_bitmap (uvm ?s2)) {1} True m3" "vm_start (uvm ?s2) + of_nat 1 * PAGE_SIZE \<noteq> NULL"
    using vaddr_alloc_user [OF l2 fit2 r2 one_neq_zero] .
  let ?s3 = "s\<lparr>ram := m3\<rparr>"
  have f3: "bm_bit (ram ?s3) (upm ?s3) j = (j < unat n)" if "j < bm_bits (upm ?s3)" for j
    using bm_upd_other [OF m3(2), of ?f j] ok(2) dis(1) f2 that by simp
  have l3: "upool_layout ?s3" and r4: "unat n + 1 < bm_bits (upm ?s3)"
    using assms(1,4) by simp_all
  obtain m4 v where m4: "phy_alloc (user_pool ?s3) ?s3 = Some (v, ?s3\<lparr>ram := m4\<rparr>)" "v \<noteq> NULL"
    using phy_alloc_next [OF l3 r4 f3] by blast
  have "page_alloc PF_USER 1 ?s2 = Some (?st + PAGE_SIZE, s\<lparr>ram := m4\<rparr>)"
    using m3(1,3) m4 by (simp add: page_alloc_def)
  moreover have "unat (?st + PAGE_SIZE) = unat ?st + 4096"
    using pool_addr(1) [OF st, of 1] assms(2,3) by simp
  ultimately show ?thesis
    using a1 m1(3) assms(2) by (intro exI [of _ ?st] exI [of _ ?s2] exI [of _ "s\<lparr>ram := m4\<rparr>"]) simp
qed

section \<open>A concrete machine\<close>

text \<open>Sixteen kernel pages, sixteen user frames and a user address space of sixteen pages, all free.\<close>

definition demo_mm :: mem_state where
  "demo_mm = \<lparr>screen = [], eflags = 0x202, nodes = (\<lambda>_. \<lparr>l_prev = 0, l_next = 0\<rparr>),
     tasks = (\<lambda>_. (demo_task TASK_RUNNING)\<lparr>userprog_vaddr := \<lparr>vm_bitmap = \<lparr>bitmap_bytes_len = 2, bitmap = 0x5000\<rparr>, vm_start = 0x8048000\<rparr>\<rparr>),
     main_thread = 0x1000, idle_thread = 0x3000, thread_ready_queue = queue_init, thread_total_list = 0x500, current_task = 0x1000,
     global_ticks = 0, semas = (\<lambda>_. \<lparr>sem_value = 1, waiter_queue = queue_init\<rparr>), locks = (\<lambda>_. \<lparr>holder = NULL, holder_repeat_cnt = 0\<rparr>),
     ram = (\<lambda>_. 0),
     kernel_pool = \<lparr>pool_bitmap = \<lparr>bitmap_bytes_len = 2, bitmap = 0xc007e000\<rparr>, phy_addr_start = 0x1000000, pool_size = 0x10000, pool_lock = 0x6010\<rparr>,
     user_pool = \<lparr>pool_bitmap = \<lparr>bitmap_bytes_len = 2, bitmap = 0xc007e002\<rparr>, phy_addr_start = 0x1010000, pool_size = 0x10000, pool_lock = 0x6040\<rparr>,
     kernel_vm_pool = \<lparr>vm_bitmap = \<lparr>bitmap_bytes_len = 2, bitmap = 0xc0075000\<rparr>, vm_start = 0xc1000000\<rparr>,
     arenas = (\<lambda>_. \<lparr>desc = NULL, cnt = 0\<rparr>), block_descs = (\<lambda>_. \<lparr>block_size = 0, blocks_each_arena = 0\<rparr>),
     kernel_block_desc_array = 0x7000, cr3 = 0x100000\<rparr>"

lemma demo_mm_bits: "bm_bits (kvm demo_mm) = 16" "bm_bits (upm demo_mm) = 16" "bm_bits (vm_bitmap (uvm demo_mm)) = 16"
  "\<not> bm_bit (ram demo_mm) b i" "bm_free (ram demo_mm) b i k"
  by (simp_all add: demo_mm_def bm_bits_def BIT_PER_LONG_def bm_bit_def bm_free_def)

lemma span_2: "span p 2 = {p, p + 1}"
  using span_Suc [of p 1] span_Suc [of "p + 1" 0] by (simp add: numeral_2_eq_2)

lemma demo_mm_ok: "kpool_ok demo_mm" "lock_free (pool_lock (kernel_pool demo_mm)) demo_mm" "upool_layout demo_mm" "page_at demo_mm 0 = 0xc1000000"
proof -
  have sp: "bm_span (kvm demo_mm) = {0xc0075000, 0xc0075001}" "bm_span (kpm demo_mm) = {0xc007e000, 0xc007e001}"
      "bm_span (vm_bitmap (uvm demo_mm)) = {0x5000, 0x5001}" "bm_span (upm demo_mm) = {0xc007e002, 0xc007e003}"
    by (simp_all add: demo_mm_def bm_span_def span_2)
  have ok: "bm_ok (kvm demo_mm)" "bm_ok (kpm demo_mm)" "bm_ok (vm_bitmap (uvm demo_mm))" "bm_ok (upm demo_mm)"
    by (simp_all add: demo_mm_def bm_ok_def NULL_def)
  have "kpool_layout demo_mm"
    unfolding kpool_layout_def demo_mm_bits sp using ok by (simp add: demo_mm_def PAGE_OFFEST_def pa_def)
  then show "kpool_ok demo_mm"
    by (simp add: kpool_ok_def demo_mm_bits)
  show "upool_layout demo_mm"
    unfolding upool_layout_def demo_mm_bits sp using ok by (simp add: demo_mm_def)
  show "lock_free (pool_lock (kernel_pool demo_mm)) demo_mm" "page_at demo_mm 0 = 0xc1000000"
    by (simp_all add: demo_mm_def lock_free_def NULL_def page_at_def)
qed

lemma demo_mm_alloc: 
  assumes "n \<noteq> 0" and "unat n < 16"
  obtains s' where "page_alloc PF_KERNEL n demo_mm = Some (0xc1000000, s')"
proof -
  have "bitmap_apply (ram demo_mm) (kvm demo_mm) n = Some (of_nat 0)"
    by (rule bitmap_apply_fit_aux) (use assms in \<open>simp_all add: demo_mm_bits unat_gt_0 Suc_le_eq, simp add: demo_mm_def NULL_def\<close>)
  then show ?thesis
    using page_alloc_kernel [OF kpool_okD(1) [OF demo_mm_ok(1)] _ _ assms(1), of 0] assms(2) that by (auto simp: demo_mm_bits demo_mm_ok(4))
qed

theorem pages_never_shared_witness:
  "\<exists>s s'. page_alloc PF_KERNEL 2 demo_mm = Some (0xc1000000, s) \<and> page_free PF_KERNEL 0xc1000000 2 s = Some s'"
proof -
  obtain s where s: "page_alloc PF_KERNEL 2 demo_mm = Some (0xc1000000, s)"
    using demo_mm_alloc [of 2] by auto
  have "kpage_step (demo_mm, {}) (s, {(0xc1000000, 2)})"
    using kpage_step.alloc [OF _ s, of "{}"] by (simp add: NULL_def)
  then have "kpage_step\<^sup>*\<^sup>* (demo_mm, {}) (s, {(0xc1000000, 2)})"
    by blast
  from pages_never_shared [OF demo_mm_ok(1) this, of "0xc1000000" 2] s show ?thesis
    by auto
qed

theorem page_alloc_first_run_witness:
  "\<exists>m'. page_alloc PF_KERNEL 3 demo_mm = Some (0xc1000000, demo_mm\<lparr>ram := m'\<rparr>) \<and> bm_bit m' (kvm demo_mm) 2 \<and> \<not> bm_bit m' (kpm demo_mm) 2"
  using page_alloc_first_run [OF demo_mm_ok(1), of 3 0] by (force simp: demo_mm_bits demo_mm_ok(4))

theorem page_alloc_free_one_witness:
  "\<exists>s'. page_alloc PF_KERNEL 1 demo_mm = Some (0xc1000000, s') \<and> page_free PF_KERNEL 0xc1000008 1 s' = Some demo_mm"
proof -
  obtain s where s: "page_alloc PF_KERNEL 1 demo_mm = Some (0xc1000000, s)"
    using demo_mm_alloc [of 1] by auto
  from page_alloc_free_one [OF demo_mm_ok(1) this, of 8] s show ?thesis
    by (simp add: NULL_def)
qed

theorem page_free_leaks_witness:
  "\<exists>s' m'. page_alloc PF_KERNEL 3 demo_mm = Some (0xc1000000, s') \<and> page_free PF_KERNEL 0xc1000000 3 s' = Some (demo_mm\<lparr>ram := m'\<rparr>) \<and> bm_bit m' (kvm demo_mm) 2"
proof -
  obtain s where s: "page_alloc PF_KERNEL 3 demo_mm = Some (0xc1000000, s)"
    using demo_mm_alloc [of 3] by auto
  from page_free_leaks [OF demo_mm_ok(1), of 3 0 s] s show ?thesis
    by (auto simp: demo_mm_ok(4) demo_mm_bits)
qed

theorem get_kernel_pages_zeroed_witness:
  "\<exists>s'. get_kernel_pages 2 demo_mm = Some (Returned 0xc1000000, s') \<and> kpool_ok s'"
  using get_kernel_pages_zeroed [OF demo_mm_ok(1,2), of 2 0] by (force simp: demo_mm_bits demo_mm_ok(4))

theorem mem_pool_layout_witness: "\<exists>s1. mem_pool_init (ucast (0x2000000 :: u32)) demo_mm = Some s1 \<and> kpool_ok s1"
  using mem_pool_layout [of "0x2000000" demo_mm] by auto

theorem user_pages_overlap_witness:
  "\<exists>v s1 s2. page_alloc PF_USER 3 demo_mm = Some (v, s1) \<and> page_alloc PF_USER 1 s1 = Some (v + PAGE_SIZE, s2) \<and> v \<noteq> NULL"
  using user_pages_overlap [OF demo_mm_ok(3), of 3] by (force simp: demo_mm_bits)

end
