(* ===== verification/Paging.thy ===== *)
theory Paging
  imports Pool
begin

text \<open>
  The kernel page tables of \<open>mm/memory.c\<close>. They are written through the identity mapping the loader set
  up, so \<open>page_table_init\<close> works on bytes at physical addresses. A loop is written with the number of
  rounds done: round \<open>k\<close> is applied to the memory after the rounds before it. \<open>walk\<close> is the
  translation of an address that the processor makes with two levels of tables.
\<close>

section \<open>Operations\<close>

definition ONE_PAGE_DIR_SIZE :: u32 where "ONE_PAGE_DIR_SIZE = 0x400000"
definition PAGE_DIR_TABLE :: u32 where "PAGE_DIR_TABLE = 0x100000"
definition PG_P_ENABLE :: u16 where "PG_P_ENABLE = 1"
definition PG_RW_W :: u16 where "PG_RW_W = 2"
definition PG_US_U :: u16 where "PG_US_U = 4"

definition total_kernel_pages :: "u64 \<Rightarrow> u32" where
  "total_kernel_pages total_mem =
     (let kernel_mem_size = (if ucast KERNEL_THRESHOLD \<le> total_mem then KERNEL_MAX_SIZE else ucast (total_mem div 2))
      in kernel_mem_size div PAGE_SIZE)"

definition kernel_page_mark :: u16 where
  "kernel_page_mark = 0 OR PG_P_ENABLE OR PG_RW_W OR PG_US_U"

definition page_table_base :: u32 where
  "page_table_base = PAGE_DIR_TABLE + 0x1000"

text \<open>The entries 768 and on of the page directory.\<close>

primrec pde_loop :: "nat \<Rightarrow> mem \<Rightarrow> mem" where
  "pde_loop 0 m = m"
| "pde_loop (Suc k) m =
     (let i = 768 + of_nat k;
          each_page_dir = page_table_base + push_bit 12 (i - 768) + ucast kernel_page_mark
      in write32 (pde_loop k m) (PAGE_DIR_TABLE + 4 * i) each_page_dir)"

text \<open>The first entries of one page table.\<close>

primrec pte_loop :: "u32 \<Rightarrow> u32 \<Rightarrow> nat \<Rightarrow> mem \<Rightarrow> mem" where
  "pte_loop page_table_addr memory_addr 0 m = m"
| "pte_loop page_table_addr memory_addr (Suc j) m =
     (let each_page_table = memory_addr + of_nat j * PAGE_SIZE + ucast kernel_page_mark
      in write32 (pte_loop page_table_addr memory_addr j m) (page_table_addr + 4 * of_nat j) each_page_table)"

text \<open>The page tables that are full; the physical address of the last round is kept.\<close>

primrec pt_loop :: "nat \<Rightarrow> mem \<Rightarrow> u32 \<times> mem" where
  "pt_loop 0 m = (0, m)"
| "pt_loop (Suc i) m =
     (let m = snd (pt_loop i m);
          memory_addr = of_nat i * ONE_PAGE_DIR_SIZE
      in (memory_addr, pte_loop (page_table_base + push_bit 12 (of_nat i)) memory_addr 1024 m))"

definition page_table_init :: "u32 \<Rightarrow> mem \<Rightarrow> (u32 \<times> mem) option" where
  "page_table_init kernel_pages m = do {
     let page_dir_num = (kernel_pages * PAGE_SIZE) div ONE_PAGE_DIR_SIZE;
     let last_page_table_num =
       (if (kernel_pages * PAGE_SIZE) mod ONE_PAGE_DIR_SIZE = 0 then 0
        else (kernel_pages * PAGE_SIZE - ONE_PAGE_DIR_SIZE * page_dir_num) div PAGE_SIZE);
     m \<leftarrow> memset m PAGE_DIR_TABLE 0 (1024 * 1024);
     let m = pde_loop (unat page_dir_num) m;
     let (memory_addr, m) = pt_loop (unat page_dir_num) m;
     let m = (if last_page_table_num \<noteq> 0
       then let memory_addr = memory_addr + ONE_PAGE_DIR_SIZE;
                last_table = page_table_base + (page_dir_num + 1) * 0x1000;
                m = pte_loop last_table memory_addr (unat last_page_table_num) m
            in write32 m (PAGE_DIR_TABLE + 4 * (768 + page_dir_num)) (last_table + ucast kernel_page_mark)
       else m);
     let m = write32 m (PAGE_DIR_TABLE + 4 * 1023) (PAGE_DIR_TABLE + ucast kernel_page_mark);
     Some (PAGE_DIR_TABLE, m)
   }"

section \<open>Specification vocabulary\<close>

definition walk :: "mem \<Rightarrow> u32 \<Rightarrow> u32 \<Rightarrow> u32 option" where
  "walk m dir la =
     (let pde = read32 m (dir + 4 * drop_bit 22 la)
      in if bit pde 0
         then let pte = read32 m ((pde AND PAGE_MASK) + 4 * (drop_bit 12 la AND 0x3ff))
              in if bit pte 0 then Some ((pte AND PAGE_MASK) + (la AND 0xfff)) else None
         else None)"

text \<open>
  What the tables for \<open>n\<close> kernel pages hold at the physical address \<open>b\<close>: the entry of the directory for
  itself, the entry and the table of the last, partial 4 MB (the table after the next), the full
  tables and their entries.
\<close>

definition table_word :: "nat \<Rightarrow> nat \<Rightarrow> u32" where
  "table_word n b = (let d = n div 1024; l = n mod 1024; last = 1052672 + 4096 * (d + 1) in
     if b = 1052668 then 0x100007
     else if l \<noteq> 0 \<and> b = 1051648 + 4 * d then of_nat (last + 7)
     else if last \<le> b \<and> b < last + 4 * l then of_nat (4194304 * d + 4096 * ((b - last) div 4) + 7)
     else if 1052672 \<le> b \<and> b < 1052672 + 4096 * d then of_nat (4096 * ((b - 1052672) div 4) + 7)
     else if 1051648 \<le> b \<and> b < 1051648 + 4 * d then of_nat (1052672 + 4096 * ((b - 1051648) div 4) + 7)
     else 0)"

definition tables_at :: "nat \<Rightarrow> mem \<Rightarrow> bool" where
  "tables_at n m \<longleftrightarrow> (\<forall>b. 4 dvd b \<longrightarrow> 1048576 \<le> b \<longrightarrow> b < 4294967296 \<longrightarrow> b + 3 < 2097152 \<or> table_word n b \<noteq> 0 \<longrightarrow>
     read32 m (of_nat b) = table_word n b)"

section \<open>The tables as numbers\<close>

lemmas pg_consts [kdefs] = ONE_PAGE_DIR_SIZE_def PAGE_DIR_TABLE_def PG_P_ENABLE_def PG_RW_W_def PG_US_U_def page_table_base_def

lemma mark_7: "(ucast kernel_page_mark :: u32) = 7"
  by (simp add: kernel_page_mark_def kdefs)

lemma read32_pde_loop:
  assumes "n \<le> 256" and "4 dvd b" and "b < 4294967296"
  shows "read32 (pde_loop n m) (of_nat b) =
    (if 1051648 \<le> b \<and> b < 1051648 + 4 * n then of_nat (1052672 + 4096 * ((b - 1051648) div 4) + 7) else read32 m (of_nat b))"
  using assms(1)
proof (induction n)
  case (Suc n)
  have a: "PAGE_DIR_TABLE + 4 * (768 + of_nat n) = of_nat (1051648 + 4 * n)"
    by (simp add: PAGE_DIR_TABLE_def)
  have v: "page_table_base + push_bit 12 (768 + of_nat n - 768) + ucast kernel_page_mark = (of_nat (1052672 + 4096 * n + 7) :: u32)"
    by (simp add: page_table_base_def PAGE_DIR_TABLE_def mark_7 push_bit_eq_mult)
  have "read32 (pde_loop (Suc n) m) (of_nat b) = (if 1051648 + 4 * n = b then of_nat (1052672 + 4096 * n + 7) else read32 (pde_loop n m) (of_nat b))"
    unfolding pde_loop.simps Let_def a v by (rule read32_write32) (use Suc.prems assms in auto)
  moreover have "b < 1051648 + 4 * Suc n \<longleftrightarrow> b < 1051648 + 4 * n \<or> b = 1051648 + 4 * n" if "1051648 \<le> b"
    using assms(2) by presburger
  ultimately show ?case
    using Suc by auto
qed auto

lemma read32_pte_loop:
  assumes "4 dvd t" and "t + 4 * n \<le> 4294967296" and "4 dvd b" and "b < 4294967296"
  shows "read32 (pte_loop (of_nat t) (of_nat a) n m) (of_nat b) =
    (if t \<le> b \<and> b < t + 4 * n then of_nat (a + 4096 * ((b - t) div 4) + 7) else read32 m (of_nat b))"
  using assms(2)
proof (induction n)
  case (Suc n)
  have ad: "of_nat t + 4 * of_nat n = (of_nat (t + 4 * n) :: u32)"
    by simp
  have v: "of_nat a + of_nat n * PAGE_SIZE + ucast kernel_page_mark = (of_nat (a + 4096 * n + 7) :: u32)"
    by (simp add: PAGE_SIZE_def mark_7)
  have "read32 (pte_loop (of_nat t) (of_nat a) (Suc n) m) (of_nat b) =
      (if t + 4 * n = b then of_nat (a + 4096 * n + 7) else read32 (pte_loop (of_nat t) (of_nat a) n m) (of_nat b))"
    unfolding pte_loop.simps Let_def ad v by (rule read32_write32) (use Suc.prems assms in auto)
  moreover have "b < t + 4 * Suc n \<longleftrightarrow> b < t + 4 * n \<or> b = t + 4 * n" if "t \<le> b"
    using assms(1,3) by presburger
  ultimately show ?case
    using Suc by auto
qed auto

lemma read32_pt_loop:
  assumes "n \<le> 256" and "4 dvd b" and "b < 4294967296"
  shows "read32 (snd (pt_loop n m)) (of_nat b) =
    (if 1052672 \<le> b \<and> b < 1052672 + 4096 * n then of_nat (4096 * ((b - 1052672) div 4) + 7) else read32 m (of_nat b))"
  using assms(1)
proof (induction n)
  case (Suc n)
  have t: "page_table_base + push_bit 12 (of_nat n) = (of_nat (1052672 + 4096 * n) :: u32)"
    by (simp add: page_table_base_def PAGE_DIR_TABLE_def push_bit_eq_mult)
  have a: "of_nat n * ONE_PAGE_DIR_SIZE = (of_nat (4194304 * n) :: u32)"
    by (simp add: ONE_PAGE_DIR_SIZE_def)
  have "read32 (snd (pt_loop (Suc n) m)) (of_nat b) =
      (if 1052672 + 4096 * n \<le> b \<and> b < 1052672 + 4096 * n + 4 * 1024
       then of_nat (4194304 * n + 4096 * ((b - (1052672 + 4096 * n)) div 4) + 7) else read32 (snd (pt_loop n m)) (of_nat b))"
    unfolding pt_loop.simps Let_def snd_conv t a by (rule read32_pte_loop) (use Suc.prems assms in auto)
  moreover have "4194304 * n + 4096 * ((b - (1052672 + 4096 * n)) div 4) = 4096 * ((b - 1052672) div 4)" if le: "1052672 + 4096 * n \<le> b"
  proof -
    obtain c where "b = 1052672 + 4096 * n + c"
      using le_Suc_ex [OF le] by blast
    moreover have "(4096 * n + c) div 4 = 1024 * n + c div 4" for c :: nat
      by presburger
    ultimately show ?thesis
      by simp
  qed
  ultimately show ?case
    using Suc by auto
qed auto

lemma fst_pt_loop: "0 < n \<Longrightarrow> fst (pt_loop n m) = of_nat (4194304 * (n - 1))"
  by (cases n) (simp_all add: ONE_PAGE_DIR_SIZE_def Let_def)

lemma read32_zero:
  assumes "1048576 \<le> b" and "b + 3 < 2097152" and "\<And>a. a \<in> span 0x100000 1048576 \<Longrightarrow> m a = 0"
  shows "read32 m (of_nat b) = 0"
proof -
  have "m (of_nat b + of_nat i) = 0" if "i < 4" for i
  proof (rule assms(3))
    have "of_nat b + of_nat i = 0x100000 + (of_nat (b - 1048576 + i) :: u32)"
      using assms(1) by (simp add: of_nat_diff)
    moreover have "0x100000 + (of_nat (b - 1048576 + i) :: u32) \<in> span 0x100000 1048576"
      by (rule span_memI) (use assms(1,2) that in arith)
    ultimately show "of_nat b + of_nat i \<in> span 0x100000 1048576"
      by (simp only:)
  qed
  from this [of 0] this [of 1] this [of 2] this [of 3] show ?thesis
    by (simp add: read32_def)
qed

text \<open>The memory after \<open>page_table_init\<close>, for up to \<open>2 ^ 18\<close> pages and at least one full table.\<close>

lemma page_table_init_read:
  assumes "1024 \<le> unat kp" and "unat kp \<le> 262144"
  defines "d \<equiv> unat kp div 1024" and "l \<equiv> unat kp mod 1024"
  obtains m' m0 where "page_table_init kp m = Some (0x100000, m')" and "\<And>a. a \<in> span 0x100000 1048576 \<Longrightarrow> m0 a = 0"
    and "\<And>b. 4 dvd b \<Longrightarrow> b < 4294967296 \<Longrightarrow> read32 m' (of_nat b) =
      (if b = 1052668 then 0x100007
       else if l \<noteq> 0 \<and> b = 1051648 + 4 * d then of_nat (1052672 + 4096 * (d + 1) + 7)
       else if 1052672 + 4096 * (d + 1) \<le> b \<and> b < 1052672 + 4096 * (d + 1) + 4 * l
            then of_nat (4194304 * d + 4096 * ((b - (1052672 + 4096 * (d + 1))) div 4) + 7)
       else if 1052672 \<le> b \<and> b < 1052672 + 4096 * d then of_nat (4096 * ((b - 1052672) div 4) + 7)
       else if 1051648 \<le> b \<and> b < 1051648 + 4 * d then of_nat (1052672 + 4096 * ((b - 1051648) div 4) + 7)
       else read32 m0 (of_nat b))"
proof -
  have bytes: "unat (kp * PAGE_SIZE) = unat kp * 4096"
    using assms(2) by (simp add: PAGE_SIZE_def unat_word_ariths)
  have d: "unat ((kp * PAGE_SIZE) div ONE_PAGE_DIR_SIZE) = d" "1 \<le> d" "d \<le> 256"
    using assms(1,2) bytes by (simp_all add: unat_div ONE_PAGE_DIR_SIZE_def d_def)
  then have dw: "(kp * PAGE_SIZE) div ONE_PAGE_DIR_SIZE = of_nat d"
    by (simp add: word_unat_eq_iff)
  have kp: "unat kp = 1024 * d + l" "l < 1024"
    by (simp_all add: d_def l_def)
  have sub: "unat (kp * PAGE_SIZE - ONE_PAGE_DIR_SIZE * of_nat d) = 4096 * l"
  proof -
    have "unat (ONE_PAGE_DIR_SIZE * of_nat d) = 4194304 * d"
      using d(3) by (simp add: ONE_PAGE_DIR_SIZE_def unat_word_ariths)
    then show ?thesis
      using bytes kp by (subst unat_sub) (simp_all add: word_le_nat_alt)
  qed
  have "(kp * PAGE_SIZE) mod ONE_PAGE_DIR_SIZE = 0 \<longleftrightarrow> l = 0"
    using bytes kp by (simp add: word_unat_eq_iff unat_mod ONE_PAGE_DIR_SIZE_def)
  then have l: "(if (kp * PAGE_SIZE) mod ONE_PAGE_DIR_SIZE = 0 then 0 else (kp * PAGE_SIZE - ONE_PAGE_DIR_SIZE * of_nat d) div PAGE_SIZE) = of_nat l"
    using sub kp(2) by (simp add: div_page_of_nat [OF sub])
  let ?m0 = "\<lambda>a. if a \<in> span 0x100000 1048576 then 0 else m a"
  let ?m1 = "snd (pt_loop d (pde_loop d ?m0))"
  let ?m2 = "if l \<noteq> 0 then write32 (pte_loop (of_nat (1052672 + 4096 * (d + 1))) (of_nat (4194304 * d)) l ?m1)
       (of_nat (1051648 + 4 * d)) (of_nat (1052672 + 4096 * (d + 1) + 7)) else ?m1"
  let ?m' = "write32 ?m2 (of_nat 1052668) 0x100007"
  have ms: "memset m PAGE_DIR_TABLE 0 (1024 * 1024) = Some ?m0"
    by (simp add: memset_eq PAGE_DIR_TABLE_def NULL_def)
  have ma: "fst (pt_loop d (pde_loop d ?m0)) + ONE_PAGE_DIR_SIZE = of_nat (4194304 * d)"
    using fst_pt_loop [of d "pde_loop d ?m0"] d(2) by (cases d) (simp_all add: ONE_PAGE_DIR_SIZE_def)
  have tb: "page_table_base + (of_nat d + 1) * 0x1000 = of_nat (1052672 + 4096 * (d + 1))"
      "PAGE_DIR_TABLE + 4 * (768 + of_nat d) = of_nat (1051648 + 4 * d)" "PAGE_DIR_TABLE + 4 * 1023 = of_nat 1052668"
      "PAGE_DIR_TABLE + ucast kernel_page_mark = 0x100007"
    by (simp_all add: page_table_base_def PAGE_DIR_TABLE_def mark_7 algebra_simps)
  have lu: "(of_nat l = (0 :: u32)) = (l = 0)" "unat (of_nat l :: u32) = l" "unat (of_nat d :: u32) = d"
    using kp(2) d(3) of_nat_inj_u32 [of l 0] by simp_all
  have "page_table_init kp m = Some (PAGE_DIR_TABLE, ?m')"
    unfolding page_table_init_def Let_def dw l ms lu tb case_prod_beta mark_7 using ma by (simp add: PAGE_DIR_TABLE_def)
  then have "page_table_init kp m = Some (0x100000, ?m')"
    by (simp add: PAGE_DIR_TABLE_def)
  then show ?thesis
  proof (rule that)
    fix b :: nat assume b: "4 dvd b" "b < 4294967296"
    have "read32 ?m' (of_nat b) = (if 1052668 = b then 0x100007 else read32 ?m2 (of_nat b))"
      by (rule read32_write32) (use b in simp_all)
    moreover have "read32 ?m2 (of_nat b) = (if l \<noteq> 0 \<and> b = 1051648 + 4 * d then of_nat (1052672 + 4096 * (d + 1) + 7)
       else if 1052672 + 4096 * (d + 1) \<le> b \<and> b < 1052672 + 4096 * (d + 1) + 4 * l
            then of_nat (4194304 * d + 4096 * ((b - (1052672 + 4096 * (d + 1))) div 4) + 7) else read32 ?m1 (of_nat b))"
    proof (cases "l = 0")
      case False
      have "read32 (write32 (pte_loop (of_nat (1052672 + 4096 * (d + 1))) (of_nat (4194304 * d)) l ?m1)
          (of_nat (1051648 + 4 * d)) (of_nat (1052672 + 4096 * (d + 1) + 7))) (of_nat b) =
          (if 1051648 + 4 * d = b then of_nat (1052672 + 4096 * (d + 1) + 7)
           else read32 (pte_loop (of_nat (1052672 + 4096 * (d + 1))) (of_nat (4194304 * d)) l ?m1) (of_nat b))"
        by (rule read32_write32) (use b d(3) in simp_all)
      moreover have "read32 (pte_loop (of_nat (1052672 + 4096 * (d + 1))) (of_nat (4194304 * d)) l ?m1) (of_nat b) =
          (if 1052672 + 4096 * (d + 1) \<le> b \<and> b < 1052672 + 4096 * (d + 1) + 4 * l
           then of_nat (4194304 * d + 4096 * ((b - (1052672 + 4096 * (d + 1))) div 4) + 7) else read32 ?m1 (of_nat b))"
        by (rule read32_pte_loop) (use b d(3) kp(2) in simp_all)
      ultimately show ?thesis
        using False by (simp only: if_True if_False eq_commute [of b] not_False_eq_True simp_thms)
    qed auto
    ultimately show "read32 ?m' (of_nat b) =
      (if b = 1052668 then 0x100007
       else if l \<noteq> 0 \<and> b = 1051648 + 4 * d then of_nat (1052672 + 4096 * (d + 1) + 7)
       else if 1052672 + 4096 * (d + 1) \<le> b \<and> b < 1052672 + 4096 * (d + 1) + 4 * l
            then of_nat (4194304 * d + 4096 * ((b - (1052672 + 4096 * (d + 1))) div 4) + 7)
       else if 1052672 \<le> b \<and> b < 1052672 + 4096 * d then of_nat (4096 * ((b - 1052672) div 4) + 7)
       else if 1051648 \<le> b \<and> b < 1051648 + 4 * d then of_nat (1052672 + 4096 * ((b - 1051648) div 4) + 7)
       else read32 ?m0 (of_nat b))"
      by (simp only: read32_pt_loop [OF d(3) b] read32_pde_loop [OF d(3) b] eq_commute [of 1052668])
  qed simp
qed

lemma page_table_init_tables:
  assumes "1024 \<le> unat kp" and "unat kp \<le> 262144"
  obtains m' where "page_table_init kp m = Some (0x100000, m')" and "tables_at (unat kp) m'"
proof -
  obtain m' m0 where init: "page_table_init kp m = Some (0x100000, m')" and zero: "\<And>a. a \<in> span 0x100000 1048576 \<Longrightarrow> m0 a = 0"
    and rd: "\<And>b. 4 dvd b \<Longrightarrow> b < 4294967296 \<Longrightarrow> read32 m' (of_nat b) =
      (if b = 1052668 then 0x100007
       else if unat kp mod 1024 \<noteq> 0 \<and> b = 1051648 + 4 * (unat kp div 1024) then of_nat (1052672 + 4096 * (unat kp div 1024 + 1) + 7)
       else if 1052672 + 4096 * (unat kp div 1024 + 1) \<le> b \<and> b < 1052672 + 4096 * (unat kp div 1024 + 1) + 4 * (unat kp mod 1024)
            then of_nat (4194304 * (unat kp div 1024) + 4096 * ((b - (1052672 + 4096 * (unat kp div 1024 + 1))) div 4) + 7)
       else if 1052672 \<le> b \<and> b < 1052672 + 4096 * (unat kp div 1024) then of_nat (4096 * ((b - 1052672) div 4) + 7)
       else if 1051648 \<le> b \<and> b < 1051648 + 4 * (unat kp div 1024) then of_nat (1052672 + 4096 * ((b - 1051648) div 4) + 7)
       else read32 m0 (of_nat b))"
    using page_table_init_read [OF assms, of m] by blast
  have "read32 m' (of_nat b) = table_word (unat kp) b"
    if b: "4 dvd b" "1048576 \<le> b" "b < 4294967296" "b + 3 < 2097152 \<or> table_word (unat kp) b \<noteq> 0" for b
    unfolding rd [OF b(1,3)] using b(2,4) read32_zero [OF b(2) _ zero] unfolding table_word_def Let_def by (simp split: if_split_asm)
  then have "tables_at (unat kp) m'"
    by (simp add: tables_at_def)
  with init show ?thesis
    by (rule that)
qed

section \<open>Translation\<close>

lemma and_page_mask: "x AND PAGE_MASK = push_bit 12 (drop_bit 12 x)"
proof -
  have "PAGE_MASK = NOT (mask 12)"
    by (simp add: PAGE_MASK_def mask_eq_exp_minus_1)
  show ?thesis
    unfolding \<open>PAGE_MASK = NOT (mask 12)\<close> by (rule bit_word_eqI) (auto simp: bit_simps)
qed

lemma unat_and_low: "unat (x AND 0x3ff) = unat x mod 1024" "unat (x AND 0xfff) = unat x mod 4096" for x :: u32
proof -
  have "(0x3ff :: u32) = mask 10" "(0xfff :: u32) = mask 12"
    by (simp_all add: mask_eq_exp_minus_1)
  then show "unat (x AND 0x3ff) = unat x mod 1024" "unat (x AND 0xfff) = unat x mod 4096"
    by (simp_all only: flip: take_bit_eq_mask) (simp_all add: take_bit_eq_mod unat_mod)
qed

lemma unat_page_mask: "unat (x AND PAGE_MASK) = unat x div 4096 * 4096"
proof -
  have "unat x div 4096 * 4096 < 4294967296"
    using unat_lt_2p32 [of x] by (simp add: order_le_less_trans [OF div_times_less_eq_dividend])
  then show ?thesis
    unfolding and_page_mask by (simp add: push_bit_eq_mult drop_bit_eq_div unat_word_ariths unat_div)
qed

lemma page_mask_entry: "r < 4096 \<Longrightarrow> 4096 * q + r < 4294967296 \<Longrightarrow> of_nat (4096 * q + r) AND PAGE_MASK = of_nat (4096 * q)"
  by (simp only: word_unat_eq_iff unat_page_mask unat_of_nat_u32) simp

lemma page_entry_present: "4096 * q + 7 < 4294967296 \<Longrightarrow> bit (of_nat (4096 * q + 7) :: u32) 0"
  by (simp add: bit_0)

lemma unat_eq_of_natI: "unat x = n \<Longrightarrow> x = of_nat n" for x :: u32
  using unat_lt_2p32 [of x] by (simp add: word_unat_eq_iff)

lemma walk_split:
  assumes "e < 1024" and "j < 1024" and "off < 4096"
  shows "walk m 0x100000 (of_nat (4194304 * e + 4096 * j + off)) =
    (let pde = read32 m (of_nat (1048576 + 4 * e))
     in if bit pde 0
        then let pte = read32 m ((pde AND PAGE_MASK) + of_nat (4 * j))
             in if bit pte 0 then Some ((pte AND PAGE_MASK) + of_nat off) else None
        else None)"
proof -
  let ?la = "of_nat (4194304 * e + 4096 * j + off) :: u32"
  have la: "unat ?la = 4194304 * e + 4096 * j + off"
    using assms by (intro unat_of_nat_u32) simp
  have "unat (drop_bit 22 ?la) = e"
    using la assms by (simp add: drop_bit_eq_div unat_div)
  then have "drop_bit 22 ?la = of_nat e"
    by (rule unat_eq_of_natI)
  then have 1: "0x100000 + 4 * drop_bit 22 ?la = of_nat (1048576 + 4 * e)"
    by simp
  have "unat (drop_bit 12 ?la) = 1024 * e + j"
    using la assms by (simp add: drop_bit_eq_div unat_div)
  then have "unat (drop_bit 12 ?la AND 0x3ff) = j"
    using assms(2) by (simp only: unat_and_low) simp
  then have "drop_bit 12 ?la AND 0x3ff = of_nat j"
    by (rule unat_eq_of_natI)
  then have 2: "4 * (drop_bit 12 ?la AND 0x3ff) = of_nat (4 * j)"
    by simp
  have "4194304 * e + 4096 * j + off = off + (1024 * e + j) * 4096"
    by simp
  then have "(4194304 * e + 4096 * j + off) mod 4096 = off"
    using assms(3) by (simp only: mod_mult_self1 mod_less)
  then have "unat (?la AND 0xfff) = off"
    by (simp only: unat_and_low la)
  then have 3: "?la AND 0xfff = of_nat off"
    by (rule unat_eq_of_natI)
  show ?thesis
    unfolding walk_def 1 2 3 Let_def by simp
qed


text \<open>One step of the translation through an entry of the form the tables are filled with.\<close>

lemma walk_entry:
  assumes "e < 1024" and "j < 1024" and "off < 4096" and "q + 1 < 1048576" and "f < 1048576"
    and "read32 m (of_nat (1048576 + 4 * e)) = of_nat (4096 * q + 7)" and "read32 m (of_nat (4096 * q + 4 * j)) = of_nat (4096 * f + 7)"
  shows "walk m 0x100000 (of_nat (4194304 * e + 4096 * j + off)) = Some (of_nat (4096 * f + off))"
proof -
  have "of_nat (4096 * q + 7) AND PAGE_MASK = (of_nat (4096 * q) :: u32)" "of_nat (4096 * f + 7) AND PAGE_MASK = (of_nat (4096 * f) :: u32)"
    by (rule page_mask_entry; use assms in simp)+
  moreover have "bit (of_nat (4096 * q + 7) :: u32) 0" "bit (of_nat (4096 * f + 7) :: u32) 0"
    by (rule page_entry_present; use assms in simp)+
  moreover have "of_nat (4096 * q) + of_nat (4 * j) = (of_nat (4096 * q + 4 * j) :: u32)" "of_nat (4096 * f) + of_nat off = (of_nat (4096 * f + off) :: u32)"
    by simp_all
  ultimately show ?thesis
    by (simp only: walk_split [OF assms(1-3)] assms(6,7) Let_def if_True)
qed

lemma walk_absent:
  assumes "e < 1024" and "j < 1024" and "off < 4096" and "read32 m (of_nat (1048576 + 4 * e)) = 0"
  shows "walk m 0x100000 (of_nat (4194304 * e + 4096 * j + off)) = None"
  by (simp only: walk_split [OF assms(1-3)] assms(4) Let_def bit_0_eq) simp

lemma address_split:
  obtains e j off where "x = 4194304 * e + 4096 * j + off" and "j < 1024" and "off < (4096 :: nat)"
proof
  have "x mod 4194304 mod 4096 = x mod 4096"
    by (rule mod_mod_cancel) simp
  then have "x mod 4194304 = 4096 * (x mod 4194304 div 4096) + x mod 4096"
    by (metis mult_div_mod_eq)
  then show "x = 4194304 * (x div 4194304) + 4096 * (x mod 4194304 div 4096) + x mod 4096"
    by (metis mult_div_mod_eq add.assoc)
qed (simp_all add: less_mult_imp_div_less)

text \<open>The translation through the tables for \<open>n\<close> pages.\<close>

lemma tables_read:
  assumes "tables_at n m" and "4 dvd b" and "1048576 \<le> b" and "b < 4294967296" and "table_word n b = v" and "b + 3 < 2097152 \<or> v \<noteq> 0"
  shows "read32 m (of_nat b) = v"
  using assms by (auto simp: tables_at_def)

lemma entry_nonzero: "4096 * q + 7 < 4294967296 \<Longrightarrow> of_nat (4096 * q + 7) \<noteq> (0 :: u32)"
  using of_nat_inj_u32 [of "4096 * q + 7" 0] by simp

lemma tables_mapped:
  assumes "tables_at n m" and "1024 \<le> n" and "n \<le> 262144" and x: "x < 4096 * n" "x < 1069547520"
  shows "walk m 0x100000 (0xc0000000 + of_nat x) = Some (of_nat x)"
proof -
  let ?d = "n div 1024" and ?l = "n mod 1024"
  have kp: "n = 1024 * ?d + ?l" and d: "?d \<le> 256" "?l < 1024"
    using assms(3) by simp_all
  have dl: "0 < ?l \<Longrightarrow> ?d \<le> 255"
    using kp assms(3) d(1) by linarith
  obtain e j off where s: "x = 4194304 * e + 4096 * j + off" "j < 1024" "off < (4096 :: nat)"
    using address_split .
  have e: "e < 255"
    using x(2) s(1) by simp
  have ed: "e \<le> ?d" and jl: "e = ?d \<Longrightarrow> j < ?l"
    using x(1) s kp d(2) by linarith+
  define q where "q = (if e = ?d then 258 + e else 257 + e)"
  have q: "q < 514"
    using e by (simp add: q_def)
  have pde: "read32 m (of_nat (1048576 + 4 * (768 + e))) = of_nat (4096 * q + 7)"
  proof (rule tables_read [OF assms(1)])
    show "table_word n (1048576 + 4 * (768 + e)) = of_nat (4096 * q + 7)"
      using e ed jl by (auto simp: table_word_def Let_def q_def algebra_simps)
  qed (use e q entry_nonzero [of q] in simp_all)
  have pte: "read32 m (of_nat (4096 * q + 4 * j)) = of_nat (4096 * (1024 * e + j) + 7)"
  proof (rule tables_read [OF assms(1)])
    have above: "\<not> (0 < ?l \<and> j * 4 + (1024 + e * 4096) = 4 * ?d)" "(4096 * e + 4 * j) div 4 = 1024 * e + j"
      using dl by (linarith, simp)
    then show "table_word n (4096 * q + 4 * j) = of_nat (4096 * (1024 * e + j) + 7)"
      using e ed jl s(2) by (auto simp: table_word_def Let_def q_def algebra_simps)
  qed (use e q s(2) entry_nonzero [of "1024 * e + j"] in \<open>auto simp: q_def\<close>)
  have "walk m 0x100000 (of_nat (4194304 * (768 + e) + 4096 * j + off)) = Some (of_nat (4096 * (1024 * e + j) + off))"
    by (rule walk_entry [OF _ s(2,3) _ _ pde pte]) (use e q s(2) in simp_all)
  then show ?thesis
    using s(1) by (simp add: algebra_simps)
qed

lemma tables_low:
  assumes "tables_at n m" and "a < 0xc0000000"
  shows "walk m 0x100000 a = None"
proof -
  obtain e j off where s: "unat a = 4194304 * e + 4096 * j + off" "j < 1024" "off < (4096 :: nat)"
    using address_split .
  have e: "e < 768"
    using assms(2) s(1) by (simp add: word_less_nat_alt)
  have "read32 m (of_nat (1048576 + 4 * e)) = 0"
    by (rule tables_read [OF assms(1)]) (use e in \<open>simp_all add: table_word_def Let_def\<close>)
  then have "walk m 0x100000 (of_nat (unat a)) = None"
    unfolding s(1) using e s(2,3) by (intro walk_absent) simp_all
  then show ?thesis
    by simp
qed

lemma tables_self: "tables_at n m \<Longrightarrow> read32 m (of_nat (1048576 + 4 * 1023)) = of_nat (4096 * 256 + 7)"
  by (rule tables_read) (simp_all add: table_word_def)

lemma tables_window:
  assumes "tables_at n m" and "j < 768" and "off < 4096"
  shows "walk m 0x100000 (of_nat (4194304 * 1023 + 4096 * j + off)) = None"
proof -
  have pte: "read32 m (of_nat (1048576 + 4 * j)) = 0"
    by (rule tables_read [OF assms(1)]) (use assms(2) in \<open>simp_all add: table_word_def Let_def\<close>)
  have "bit (0x100007 :: u32) 0" "0x100007 AND PAGE_MASK = (0x100000 :: u32)"
    by (simp_all add: PAGE_MASK_def)
  then show ?thesis
    using walk_split [of 1023 j off m] tables_self [OF assms(1)] pte assms(2,3) by (simp add: Let_def)
qed

text \<open>
  C7: The kernel is mapped linearly. For at least 4 MB of kernel pages, every address
  \<open>0xc0000000 + x\<close> with \<open>x\<close> below the size of kernel memory (and below 1020 MB, where the last entry of
  the page directory points to the directory itself) translates to the physical address \<open>x\<close>; no
  address below \<open>0xc0000000\<close> is mapped, and the last page of the address space shows the page
  directory.
\<close>

theorem kernel_mapped_linearly:
  assumes "1024 \<le> unat kp" and "unat kp \<le> 262144"
  shows "\<exists>m'. page_table_init kp m = Some (0x100000, m') \<and>
    (\<forall>x. x < 4096 * unat kp \<longrightarrow> x < 1069547520 \<longrightarrow> walk m' 0x100000 (0xc0000000 + of_nat x) = Some (of_nat x)) \<and>
    (\<forall>a. a < 0xc0000000 \<longrightarrow> walk m' 0x100000 a = None) \<and>
    (\<forall>off < 4096. walk m' 0x100000 (0xfffff000 + of_nat off) = Some (0x100000 + of_nat off))"
proof -
  obtain m' where init: "page_table_init kp m = Some (0x100000, m')" and tab: "tables_at (unat kp) m'"
    using page_table_init_tables [OF assms] .
  have "walk m' 0x100000 (0xfffff000 + of_nat off) = Some (0x100000 + of_nat off)" if "off < 4096" for off
    using walk_entry [of 1023 1023 off 256 256 m'] tables_self [OF tab] that by simp
  then show ?thesis
    using init tables_mapped [OF tab assms] tables_low [OF tab] by blast
qed

lemma total_kernel_pages_eq:
  "unat (total_kernel_pages (ucast (tot :: u32))) = (if 2147483648 \<le> unat tot then 262144 else unat tot div 8192)"
proof -
  have half: "unat (ucast tot div (2 :: u64)) = unat tot div 2"
    by (simp add: unat_div unat_ucast_up)
  have th: "ucast KERNEL_THRESHOLD \<le> (ucast tot :: u64) \<longleftrightarrow> 2147483648 \<le> unat tot"
    by (simp add: KERNEL_THRESHOLD_def word_le_nat_alt unat_ucast_up)
  have "unat (ucast (ucast tot div (2 :: u64)) :: u32) = unat tot div 2"
    using half unat_lt_2p32 [of tot] by (simp add: unat_ucast_down)
  then show ?thesis
    by (simp add: total_kernel_pages_def th KERNEL_MAX_SIZE_def PAGE_SIZE_def unat_div div_mult2_eq [symmetric])
qed

text \<open>
  C33: The page tables and the pools fit together up to 2040 MB: every byte of every page of the kernel pool
  is mapped, to the frame that the pool's own arithmetic gives the page. From 2 GB on the pool still
  contains the pages from \<open>0xffc00000\<close>, which the last directory entry does not map as memory: the
  first 768 of them are not mapped at all.
\<close>

theorem kernel_pool_mapped:
  assumes "33554432 \<le> unat tot" and "mem_pool_init (ucast (tot :: u32)) s = Some s1"
    and "page_table_init (total_kernel_pages (ucast tot)) m = Some (dir, m')" and "i < bm_bits (kvm s1)" and "off < 4096"
  shows "(unat tot \<le> 2139095040 \<longrightarrow> walk m' dir (page_at s1 i + of_nat off) = Some (phy_addr_start (kernel_pool s1) + of_nat (4096 * i + off))) \<and>
    (2147483648 \<le> unat tot \<longrightarrow> 257024 \<le> i \<longrightarrow> i < 257792 \<longrightarrow> walk m' dir (page_at s1 i + of_nat off) = None)"
proof -
  let ?k = "kernel_frames (unat tot)" and ?n = "total_kernel_pages (ucast tot)"
  have kv: "kernel_vm_pool s1 = \<lparr>vm_bitmap = \<lparr>bitmap_bytes_len = of_nat (?k div 8), bitmap = KERNEL_VM_BITMAP_BASE\<rparr>, vm_start = KERNEL_HEAP_BASE\<rparr>"
    and ph: "phy_addr_start (kernel_pool s1) = 0x1000000"
    using mem_pool_init_eq [OF assms(1), of s] assms(2) by (metis option.inject)+
  have k: "?k \<le> 258048"
    using frames_bounds [OF assms(1) unat_lt_2p32] by simp
  then have i: "i < ?k"
    using assms(4) kv by (simp add: bm_bits_def BIT_PER_LONG_def unat_word_ariths)
  have n: "unat ?n = (if 2147483648 \<le> unat tot then 262144 else unat tot div 8192)"
    by (rule total_kernel_pages_eq)
  then have nb: "1024 \<le> unat ?n" "unat ?n \<le> 262144"
    using assms(1) by auto
  obtain m2 where "page_table_init ?n m = Some (0x100000, m2)" "tables_at (unat ?n) m2"
    using page_table_init_tables [OF nb] .
  then have tab: "tables_at (unat ?n) m'" and dir: "dir = 0x100000"
    using assms(3) by simp_all
  have ad: "page_at s1 i + of_nat off = 0xc0000000 + of_nat (16777216 + (4096 * i + off))"
    by (simp add: page_at_def kv KERNEL_HEAP_BASE_def PAGE_SIZE_def algebra_simps)
  have "walk m' dir (page_at s1 i + of_nat off) = Some (phy_addr_start (kernel_pool s1) + of_nat (4096 * i + off))" if le: "unat tot \<le> 2139095040"
  proof -
    have "16777216 \<le> unat tot div 2"
      using assms(1) by simp
    then obtain c where c: "unat tot div 2 = 16777216 + c"
      using le_Suc_ex by blast
    have "?k = c div 4096" and "unat ?n = 4096 + c div 4096"
      using le n c by (simp_all add: kernel_frames_def)
    then have "16777216 + (4096 * i + off) < 4096 * unat ?n" and "16777216 + (4096 * i + off) < 1069547520"
      using i assms(5) c le by linarith+
    from tables_mapped [OF tab nb this] show ?thesis
      unfolding ad ph dir by simp
  qed
  moreover have "walk m' dir (page_at s1 i + of_nat off) = None" if ge: "257024 \<le> i" and lt: "i < 257792"
  proof -
    obtain j where j: "i = 257024 + j"
      using le_Suc_ex [OF ge] by blast
    then have j2: "j < 768"
      using lt by simp
    have "page_at s1 i + of_nat off = of_nat (4194304 * 1023 + 4096 * j + off)"
      using ad by (simp add: j)
    then show ?thesis
      unfolding dir using tables_window [OF tab j2 assms(5)] by simp
  qed
  ultimately show ?thesis
    by blast
qed

section \<open>Concrete tables\<close>

theorem kernel_mapped_linearly_witness:
  "\<exists>m'. page_table_init 4096 (\<lambda>_. 0xff) = Some (0x100000, m') \<and> walk m' 0x100000 0xc0b8123 = None \<and> walk m' 0x100000 0xc00b8123 = Some 0xb8123"
proof -
  have "\<exists>m'. page_table_init 4096 (\<lambda>_. 0xff) = Some (0x100000, m') \<and>
    (\<forall>x. x < 4096 * unat (4096 :: u32) \<longrightarrow> x < 1069547520 \<longrightarrow> walk m' 0x100000 (0xc0000000 + of_nat x) = Some (of_nat x)) \<and>
    (\<forall>a. a < 0xc0000000 \<longrightarrow> walk m' 0x100000 a = None)"
    using kernel_mapped_linearly [of 4096 "\<lambda>_. 0xff"] by auto
  then obtain m' where m': "page_table_init 4096 (\<lambda>_. 0xff) = Some (0x100000, m')"
      "\<forall>x. x < 16777216 \<longrightarrow> x < 1069547520 \<longrightarrow> walk m' 0x100000 (0xc0000000 + of_nat x) = Some (of_nat x)" "\<forall>a. a < 0xc0000000 \<longrightarrow> walk m' 0x100000 a = None"
    by auto
  from m'(2) [rule_format, of 753955] m'(3) [rule_format, of "0xc0b8123"] m'(1) show ?thesis
    by simp
qed

theorem kernel_pool_mapped_witness:
  "\<exists>s1 dir m'. mem_pool_init (ucast (0x4000000 :: u32)) demo_mm = Some s1 \<and>
     page_table_init (total_kernel_pages (ucast (0x4000000 :: u32))) (\<lambda>_. 0) = Some (dir, m') \<and> walk m' dir (page_at s1 1) = Some (phy_addr_start (kernel_pool s1) + 4096)"
proof -
  let ?t = "0x4000000 :: u32"
  have t: "33554432 \<le> unat ?t" and n: "1024 \<le> unat (total_kernel_pages (ucast ?t))" "unat (total_kernel_pages (ucast ?t)) \<le> 262144"
    using total_kernel_pages_eq [of ?t] by simp_all
  obtain s1 where s1: "mem_pool_init (ucast ?t) demo_mm = Some s1" "kernel_vm_pool s1 = \<lparr>vm_bitmap = \<lparr>bitmap_bytes_len = of_nat (kernel_frames (unat ?t) div 8),
      bitmap = KERNEL_VM_BITMAP_BASE\<rparr>, vm_start = KERNEL_HEAP_BASE\<rparr>"
    by (rule mem_pool_init_eq [OF t, of demo_mm]) (rule that; assumption)
  obtain m' where m': "page_table_init (total_kernel_pages (ucast ?t)) (\<lambda>_. 0) = Some (0x100000, m')"
    using page_table_init_tables [OF n] by blast
  have "1 < bm_bits (kvm s1)"
    by (simp add: s1(2) bm_bits_def kernel_frames_def BIT_PER_LONG_def)
  from kernel_pool_mapped [OF t s1(1) m' this, of 0] s1(1) m' show ?thesis
    by auto
qed

end
