(* ===== verification/Heap.thy ===== *)
theory Heap
  imports Paging
begin

text \<open>
  The small-block allocator of \<open>mm/memory.c\<close> and the initialisation of memory management. A page that
  serves small blocks starts with a \<open>struct arena\<close> of 8 bytes, which names its block descriptor and
  counts its free blocks; the free blocks of one size are linked through their first 8 bytes in
  the list of the descriptor. A request above 1024 bytes gets whole pages behind such a header.
\<close>

section \<open>Data\<close>

definition MEM_DESC_CNT :: nat where "MEM_DESC_CNT = 7"
definition sizeof_arena :: u32 where "sizeof_arena = 8"

text \<open>The addresses \<open>&block_desc_array[i]\<close>, \<open>&desc->free_list\<close> and \<open>task->user_block_desc_array\<close>.\<close>

definition desc_at :: "u32 \<Rightarrow> nat \<Rightarrow> u32" where "desc_at block_desc_array i = block_desc_array + 16 * of_nat i"
definition free_list :: "u32 \<Rightarrow> u32" where "free_list d = d + 8"
definition user_block_desc_array :: "u32 \<Rightarrow> u32" where "user_block_desc_array t = t + 84"

section \<open>Operations\<close>

text \<open>The loop of \<open>mem_block_desc_init\<close> after a number of rounds, with the \<open>uint16_t block_size\<close> of the next.\<close>

primrec desc_loop :: "nat \<Rightarrow> u32 \<Rightarrow> 'a mem_state_scheme \<Rightarrow> u16 \<times> 'a mem_state_scheme" where
  "desc_loop 0 block_desc_array s = (16, s)"
| "desc_loop (Suc desc_idx) block_desc_array s =
     (let (blk_size, s) = desc_loop desc_idx block_desc_array s;
          d = desc_at block_desc_array desc_idx;
          s = s\<lparr>block_descs := (block_descs s)(d :=
                \<lparr>block_size = ucast blk_size, blocks_each_arena = (PAGE_SIZE - sizeof_arena) div ucast blk_size\<rparr>)\<rparr>;
          s = s\<lparr>nodes := list_init (nodes s) (free_list d)\<rparr>
      in (blk_size * 2, s))"

definition mem_block_desc_init :: "u32 \<Rightarrow> 'a mem_state_scheme \<Rightarrow> 'a mem_state_scheme" where
  "mem_block_desc_init block_desc_array s = snd (desc_loop MEM_DESC_CNT block_desc_array s)"

definition arena_2_block :: "'a mem_state_scheme \<Rightarrow> u32 \<Rightarrow> u32 \<Rightarrow> u32" where
  "arena_2_block s a idx = a + sizeof_arena + idx * block_size (block_descs s (desc (arenas s a)))"

definition block_2_arena :: "u32 \<Rightarrow> u32" where
  "block_2_arena block = block AND PAGE_MASK"

text \<open>The first descriptor whose blocks are large enough.\<close>

function find_desc :: "'a mem_state_scheme \<Rightarrow> u32 \<Rightarrow> u32 \<Rightarrow> nat \<Rightarrow> nat" where
  "find_desc s block_desc sz desc_idx =
     (if desc_idx < MEM_DESC_CNT \<and> \<not> sz \<le> block_size (block_descs s (desc_at block_desc desc_idx))
      then find_desc s block_desc sz (Suc desc_idx) else desc_idx)"
  by pat_completeness auto
termination
  by (relation "measure (\<lambda>(s, block_desc, sz, desc_idx). MEM_DESC_CNT - desc_idx)") auto

declare find_desc.simps [simp del]

text \<open>The blocks of a new arena are appended to the free list, after a number of rounds.\<close>

primrec fill_loop :: "u32 \<Rightarrow> nat \<Rightarrow> 'a mem_state_scheme \<Rightarrow> 'a mem_state_scheme option" where
  "fill_loop a 0 s = Some s"
| "fill_loop a (Suc block_idx) s = do {
     s \<leftarrow> fill_loop a block_idx s;
     let block = arena_2_block s a (of_nat block_idx);
     found \<leftarrow> list_find_item (nodes s) (free_list (desc (arenas s a))) block;
     ASSERT (\<not> found);
     Some (s\<lparr>nodes := list_add_prev (nodes s) (free_list (desc (arenas s a))) block\<rparr>)
   }"

definition new_arena :: "pool_flags \<Rightarrow> u32 \<Rightarrow> 'a mem_state_scheme \<Rightarrow> (bool \<times> 'a mem_state_scheme) option" where
  "new_arena pf d s = do {
     (a, s) \<leftarrow> page_alloc pf 1 s;
     if a = NULL then Some (False, s)
     else do {
       s \<leftarrow> memset_pages a PAGE_SIZE s;
       let s = s\<lparr>arenas := (arenas s)(a := \<lparr>desc = d, cnt = blocks_each_arena (block_descs s d)\<rparr>)\<rparr>;
       let (old_intr, s) = local_irq_disable s;
       s \<leftarrow> fill_loop a (unat (blocks_each_arena (block_descs s d))) s;
       Some (True, set_intr_status old_intr s)
     }
   }"

definition take_block :: "u32 \<Rightarrow> 'a mem_state_scheme \<Rightarrow> (u32 \<times> 'a mem_state_scheme) option" where
  "take_block d s = do {
     let (block, h) = list_pop (nodes s) (free_list d);
     s \<leftarrow> memset_pages block (block_size (block_descs s d)) (s\<lparr>nodes := h\<rparr>);
     let a = block_2_arena block;
     Some (block, s\<lparr>arenas := (arenas s)(a := (arenas s a)\<lparr>cnt := cnt (arenas s a) - 1\<rparr>)\<rparr>)
   }"

text \<open>What runs under the lock; an index past the descriptors would be undefined behaviour.\<close>

definition malloc_body :: "pool_flags \<Rightarrow> u32 \<Rightarrow> u32 \<Rightarrow> 'a mem_state_scheme \<Rightarrow> (u32 \<times> 'a mem_state_scheme) option" where
  "malloc_body pf block_desc sz s =
     (if sz > 1024
      then do {
        let page_cnt = DIV_ROUND_UP (sz + sizeof_arena) PAGE_SIZE;
        (a, s) \<leftarrow> page_alloc pf page_cnt s;
        if a = NULL then Some (NULL, s)
        else do {
          s \<leftarrow> memset_pages a (page_cnt * PAGE_SIZE) s;
          let s = s\<lparr>arenas := (arenas s)(a := \<lparr>desc = NULL, cnt = page_cnt\<rparr>)\<rparr>;
          Some (a + sizeof_arena, s)
        }
      }
      else do {
        let desc_idx = find_desc s block_desc sz 0;
        ASSERT (desc_idx < MEM_DESC_CNT);
        let d = desc_at block_desc desc_idx;
        empty \<leftarrow> list_empty (nodes s) (free_list d);
        (ok, s) \<leftarrow> (if empty then new_arena pf d s else Some (True, s));
        if ok then take_block d s else Some (NULL, s)
      })"

definition sys_malloc :: "u32 \<Rightarrow> 'a mem_state_scheme \<Rightarrow> (u32 pool_result \<times> 'a mem_state_scheme) option" where
  "sys_malloc sz s =
     (let cur_task = get_cur_task s;
          (pf, mem_pool, block_desc) = (if pde_addr (tasks s cur_task) = NULL
             then (PF_KERNEL, kernel_pool s, kernel_block_desc_array s)
             else (PF_USER, user_pool s, user_block_desc_array cur_task))
      in if sz > pool_size mem_pool \<or> sz \<le> 0 then Some (Returned NULL, s)
         else pool_section (pool_lock mem_pool) (malloc_body pf block_desc sz) s)"

primrec unlink_loop :: "u32 \<Rightarrow> nat \<Rightarrow> 'a mem_state_scheme \<Rightarrow> 'a mem_state_scheme" where
  "unlink_loop a 0 s = s"
| "unlink_loop a (Suc block_idx) s =
     (let s = unlink_loop a block_idx s
      in s\<lparr>nodes := list_del_safe (nodes s) (arena_2_block s a (of_nat block_idx))\<rparr>)"

definition free_body :: "pool_flags \<Rightarrow> u32 \<Rightarrow> 'a mem_state_scheme \<Rightarrow> (unit \<times> 'a mem_state_scheme) option" where
  "free_body pf ptr s = do {
     let a = block_2_arena ptr;
     s \<leftarrow> (if desc (arenas s a) = NULL then page_free pf ptr (cnt (arenas s a)) s
           else do {
             let d = desc (arenas s a);
             let s = s\<lparr>nodes := list_add_prev (nodes s) (free_list d) ptr\<rparr>;
             let s = s\<lparr>arenas := (arenas s)(a := (arenas s a)\<lparr>cnt := cnt (arenas s a) + 1\<rparr>)\<rparr>;
             if cnt (arenas s a) = blocks_each_arena (block_descs s d)
             then page_free pf ptr 1 (unlink_loop a (unat (cnt (arenas s a))) s)
             else Some s
           });
     Some ((), s)
   }"

definition sys_free :: "u32 \<Rightarrow> 'a mem_state_scheme \<Rightarrow> (unit pool_result \<times> 'a mem_state_scheme) option" where
  "sys_free ptr s = do {
     ASSERT (ptr \<noteq> NULL);
     if pde_addr (tasks s (get_cur_task s)) = NULL
     then do {
       ASSERT (ptr \<ge> KERNEL_HEAP_BASE);
       pool_section (pool_lock (kernel_pool s)) (free_body PF_KERNEL ptr) s
     }
     else pool_section (pool_lock (user_pool s)) (free_body PF_USER ptr) s
   }"

text \<open>\<open>TOTAL_MEM\<close> is the word the loader leaves at \<open>0xb00\<close>.\<close>

definition mem_init :: "'a mem_state_scheme \<Rightarrow> 'a mem_state_scheme option" where
  "mem_init s = do {
     let s = put_lit (''memory initialization start\<newline>'') s;
     let total_mem = ucast (read32 (ram s) 0xb00);
     s \<leftarrow> mem_pool_init total_mem s;
     let kernel_pages = total_kernel_pages (ucast (read32 (ram s) 0xb00));
     (dir, m) \<leftarrow> page_table_init kernel_pages (ram s);
     let s = s\<lparr>ram := m, cr3 := dir\<rparr>;
     let s = mem_block_desc_init (kernel_block_desc_array s) s;
     let s = put_lit (''    kernel PDE and PTE reload completion\<newline>'') s;
     Some (put_lit (''memory initialization completion\<newline>'') s)
   }"

section \<open>Specification vocabulary\<close>

text \<open>Size class \<open>i\<close>: the size of its blocks, their number in a page, and the blocks of a page.\<close>

definition bsz :: "nat \<Rightarrow> nat" where "bsz i = 16 * 2 ^ i"
definition nblk :: "nat \<Rightarrow> nat" where "nblk i = 4088 div bsz i"
definition blk :: "u32 \<Rightarrow> nat \<Rightarrow> nat \<Rightarrow> u32" where "blk a i k = a + of_nat (8 + k * bsz i)"
definition blocks :: "u32 \<Rightarrow> nat \<Rightarrow> u32 list" where "blocks a i = map (blk a i) [0 ..< nblk i]"

definition kdesc :: "'a mem_state_scheme \<Rightarrow> nat \<Rightarrow> u32" where
  "kdesc s i = desc_at (kernel_block_desc_array s) i"

definition free_cell :: "'a mem_state_scheme \<Rightarrow> nat \<Rightarrow> u32" where
  "free_cell s i = free_list (kdesc s i)"

definition descs_ok :: "'a mem_state_scheme \<Rightarrow> bool" where
  "descs_ok s \<longleftrightarrow> kernel_block_desc_array s \<noteq> NULL \<and> unat (kernel_block_desc_array s) + 112 \<le> unat (vm_start (kernel_vm_pool s)) \<and>
     unat (pool_size (kernel_pool s)) \<le> 2147483648 \<and>
     (\<forall>i < 7. block_descs s (kdesc s i) = \<lparr>block_size = of_nat (bsz i), blocks_each_arena = of_nat (nblk i)\<rparr>)"

section \<open>Blocks and pages\<close>

lemma less_7_cases: "i < 7 \<Longrightarrow> i = 0 \<or> i = 1 \<or> i = 2 \<or> i = 3 \<or> i = 4 \<or> i = 5 \<or> i = (6 :: nat)"
  by auto

lemma class_sizes: "i < 7 \<Longrightarrow> 16 \<le> bsz i \<and> bsz i \<le> 1024 \<and> 3 \<le> nblk i \<and> nblk i \<le> 255 \<and> nblk i * bsz i \<le> 4080"
  by (drule less_7_cases) (elim disjE; simp add: bsz_def nblk_def)

lemma block_fits: "i < 7 \<Longrightarrow> k < nblk i \<Longrightarrow> 8 + (k + 1) * bsz i \<le> 4096"
  using class_sizes [of i] mult_le_mono1 [of "k + 1" "nblk i" "bsz i"] by simp

text \<open>A page: an address that is a multiple of 4096.\<close>

definition page :: "u32 \<Rightarrow> bool" where "page a \<longleftrightarrow> 4096 dvd unat a"

lemma page_end: "page a \<Longrightarrow> unat a + 4096 \<le> 4294967296"
proof -
  assume "page a"
  then obtain q where q: "unat a = 4096 * q"
    unfolding page_def by (rule dvdE)
  then have "4096 * q < 4096 * 1048576"
    using unat_lt_2p32 [of a] by linarith
  then have "q + 1 \<le> 1048576"
    by linarith
  then show ?thesis
    unfolding q by linarith
qed

lemma unat_in_page: "page a \<Longrightarrow> n < 4096 \<Longrightarrow> unat (a + of_nat n) = unat a + n"
  using page_end [of a] by (subst unat_add_u32) simp_all

lemma block_2_arena_in_page:
  assumes "page a" and "n < 4096"
  shows "block_2_arena (a + of_nat n) = a"
proof -
  obtain q where q: "unat a = 4096 * q"
    using assms(1) unfolding page_def by (rule dvdE)
  have "unat (block_2_arena (a + of_nat n)) = unat a"
    using assms(2) by (simp add: block_2_arena_def unat_page_mask unat_in_page [OF assms] q)
  then show ?thesis
    by (simp add: word_unat_eq_iff)
qed

lemma unat_blk: "page a \<Longrightarrow> i < 7 \<Longrightarrow> k < nblk i \<Longrightarrow> unat (blk a i k) = unat a + 8 + k * bsz i"
  unfolding blk_def using block_fits [of i k] class_sizes [of i] by (subst unat_in_page) simp_all

lemma block_2_arena_blk: "page a \<Longrightarrow> i < 7 \<Longrightarrow> k < nblk i \<Longrightarrow> block_2_arena (blk a i k) = a"
  unfolding blk_def using block_fits [of i k] class_sizes [of i] by (intro block_2_arena_in_page) simp_all

lemma in_blocks: "b \<in> set (blocks a i) \<longleftrightarrow> (\<exists>k < nblk i. b = blk a i k)"
  by (auto simp: blocks_def)

lemma distinct_blocks: "page a \<Longrightarrow> i < 7 \<Longrightarrow> distinct (blocks a i)"
proof -
  assume a: "page a" "i < 7"
  have "inj_on (blk a i) {0 ..< nblk i}"
  proof (rule inj_onI)
    fix k l assume kl: "k \<in> {0 ..< nblk i}" "l \<in> {0 ..< nblk i}" and eq: "blk a i k = blk a i l"
    have "unat a + 8 + k * bsz i = unat (blk a i l)"
      unfolding eq [symmetric] using unat_blk [OF a, of k] kl by simp
    also have "\<dots> = unat a + 8 + l * bsz i"
      using unat_blk [OF a, of l] kl by simp
    finally show "k = l"
      using class_sizes [OF a(2)] by simp
  qed
  then show ?thesis
    by (simp add: blocks_def distinct_map)
qed

text \<open>The bytes of a block; two blocks of pages in use share none.\<close>

definition block_range :: "nat \<Rightarrow> u32 \<Rightarrow> nat set" where
  "block_range i b = {unat b ..< unat b + bsz i}"

lemma block_range_page:
  assumes "page a" and "i < 7" and "b \<in> set (blocks a i)"
  shows "block_range i b \<subseteq> {unat a + 8 ..< unat a + 4096}"
proof -
  obtain k where "k < nblk i" "b = blk a i k"
    using assms(3) by (auto simp: in_blocks)
  then show ?thesis
    using unat_blk [OF assms(1,2), of k] block_fits [OF assms(2), of k] by (auto simp: block_range_def)
qed

lemma block_ranges_disjoint:
  assumes "page a" and "i < 7" and "b \<in> set (blocks a i)" and "c \<in> set (blocks a i)" and "b \<noteq> c"
  shows "block_range i b \<inter> block_range i c = {}"
proof -
  obtain k l where k: "k < nblk i" "b = blk a i k" and l: "l < nblk i" "c = blk a i l"
    using assms(3,4) by (auto simp: in_blocks)
  then have "k + 1 \<le> l \<or> l + 1 \<le> k"
    using assms(5) by (cases k l rule: linorder_cases) auto
  then have "k * bsz i + bsz i \<le> l * bsz i \<or> l * bsz i + bsz i \<le> k * bsz i"
    using mult_le_mono1 [of "k + 1" l "bsz i"] mult_le_mono1 [of "l + 1" k "bsz i"] by auto
  then show ?thesis
    using k l unat_blk [OF assms(1,2)] by (auto simp: block_range_def)
qed

lemma pages_apart: "page a \<Longrightarrow> page c \<Longrightarrow> a \<noteq> c \<Longrightarrow> unat a + 4096 \<le> unat c \<or> unat c + 4096 \<le> unat a"
proof -
  assume ac: "page a" "page c" "a \<noteq> c"
  obtain p where p: "unat a = 4096 * p"
    using ac(1) unfolding page_def by (rule dvdE)
  obtain q where q: "unat c = 4096 * q"
    using ac(2) unfolding page_def by (rule dvdE)
  have "p \<noteq> q"
    using ac(3) p q by (auto simp: word_unat_eq_iff)
  with p q have "unat a = 4096 * p" "unat c = 4096 * q" "p \<noteq> q"
    by simp_all
  then show ?thesis
    by (cases p q rule: linorder_cases) auto
qed

text \<open>A cell outside a range is not cleared with it.\<close>

lemma cleared_cell:
  fixes x p :: u32
  assumes "unat (x - p) + 8 \<le> n" and "unat p + n \<le> 4294967296"
  shows "unat p \<le> unat x \<and> unat x < unat p + n"
proof -
  have "unat (p + (x - p)) = unat p + unat (x - p)"
    using assms by (intro unat_add_u32) simp
  then show ?thesis
    using assms(1) by simp
qed

section \<open>The invariant of the heap\<close>

text \<open>
  What a heap page is used for: blocks of a size class, or the first of some pages of a large request.
  \<open>ledger\<close> is the set of page allocations behind it.
\<close>

datatype page_use = Small nat | Large u32

fun use_pages :: "page_use \<Rightarrow> u32" where
  "use_pages (Small i) = 1"
| "use_pages (Large n) = n"

type_synonym uses = "u32 \<Rightarrow> page_use option"

definition ledger :: "uses \<Rightarrow> (u32 \<times> u32) set" where
  "ledger U = {(a, n). \<exists>u. U a = Some u \<and> n = use_pages u}"

definition nfree :: "(nat \<Rightarrow> u32 list) \<Rightarrow> nat \<Rightarrow> u32 \<Rightarrow> nat" where
  "nfree F i a = length (filter (\<lambda>b. block_2_arena b = a) (F i))"

text \<open>The headers of the pages, and the free lists \<open>F i\<close> of the size classes.\<close>

definition arenas_ok :: "(u32 \<Rightarrow> arena) \<Rightarrow> (nat \<Rightarrow> u32) \<Rightarrow> uses \<Rightarrow> (nat \<Rightarrow> u32 list) \<Rightarrow> bool" where
  "arenas_ok ar kd U F \<longleftrightarrow>
     (\<forall>a i. U a = Some (Small i) \<longrightarrow> i < 7 \<and> ar a = \<lparr>desc = kd i, cnt = of_nat (nfree F i a)\<rparr>) \<and>
     (\<forall>a n. U a = Some (Large n) \<longrightarrow> ar a = \<lparr>desc = NULL, cnt = n\<rparr>)"

definition lists_ok :: "(nat \<Rightarrow> u32) \<Rightarrow> lheap \<Rightarrow> uses \<Rightarrow> (nat \<Rightarrow> u32 list) \<Rightarrow> bool" where
  "lists_ok fc h U F \<longleftrightarrow> (\<forall>i < 7. ring h (fc i # F i) \<and>
     (\<forall>b \<in> set (F i). U (block_2_arena b) = Some (Small i) \<and> b \<in> set (blocks (block_2_arena b) i)))"

definition heap_inv :: "'a mem_state_scheme \<Rightarrow> uses \<Rightarrow> (nat \<Rightarrow> u32 list) \<Rightarrow> bool" where
  "heap_inv s U F \<longleftrightarrow> kpage_inv (s, ledger U) \<and> descs_ok s \<and> arenas_ok (arenas s) (kdesc s) U F \<and> lists_ok (free_cell s) (nodes s) U F"

lemma heap_invD:
  assumes "heap_inv s U F"
  shows "kpage_inv (s, ledger U)" and "descs_ok s" and "arenas_ok (arenas s) (kdesc s) U F" and "lists_ok (free_cell s) (nodes s) U F"
    and "kpool_ok s" and "kpool_layout s"
  using assms by (simp_all add: heap_inv_def kpool_ok_def)

lemma lists_okD:
  assumes "lists_ok fc h U F" and "i < 7"
  shows "ring h (fc i # F i)" and "b \<in> set (F i) \<Longrightarrow> U (block_2_arena b) = Some (Small i)" and "b \<in> set (F i) \<Longrightarrow> b \<in> set (blocks (block_2_arena b) i)"
  using assms unfolding lists_ok_def by blast+

lemma arenas_okD:
  assumes "arenas_ok ar kd U F"
  shows "U a = Some (Small i) \<Longrightarrow> i < 7" and "U a = Some (Small i) \<Longrightarrow> ar a = \<lparr>desc = kd i, cnt = of_nat (nfree F i a)\<rparr>"
    and "U a = Some (Large n) \<Longrightarrow> ar a = \<lparr>desc = NULL, cnt = n\<rparr>"
  using assms unfolding arenas_ok_def by blast+

text \<open>Pages in use are pages of the pool; the free list heads lie below the heap.\<close>

lemma used_page:
  assumes "kpage_inv (s, ledger U)" and "U a = Some u"
  shows "page a" and "unat (vm_start (kernel_vm_pool s)) \<le> unat a" and "live_ok s (a, use_pages u)"
proof -
  have "(a, use_pages u) \<in> ledger U"
    using assms(2) by (simp add: ledger_def)
  then show live: "live_ok s (a, use_pages u)"
    using assms(1) by simp
  have lay: "kpool_layout s"
    using assms(1) by (simp add: kpool_ok_def)
  let ?i = "alloc_start s (a, use_pages u)"
  have a: "a = page_at s ?i" "?i < bm_bits (kvm s)" and d: "4096 dvd unat (vm_start (kernel_vm_pool s))"
    using live lay by (simp_all add: live_ok_def kpool_layout_def)
  have "unat a = unat (vm_start (kernel_vm_pool s)) + ?i * 4096"
    using unat_page_at [OF lay a(2), of 0] a(1) by simp
  then show "page a" "unat (vm_start (kernel_vm_pool s)) \<le> unat a"
    using d by (simp_all add: page_def)
qed

lemma free_cell_props:
  assumes "descs_ok s" and "i < 7"
  shows "unat (free_cell s i) = unat (kernel_block_desc_array s) + 16 * i + 8" and "unat (free_cell s i) < unat (vm_start (kernel_vm_pool s))"
    and "free_cell s i \<noteq> NULL" and "kdesc s i \<noteq> NULL"
proof -
  have b: "unat (kernel_block_desc_array s) + 112 \<le> unat (vm_start (kernel_vm_pool s))" and nz: "kernel_block_desc_array s \<noteq> NULL"
    using assms(1) by (simp_all add: descs_ok_def)
  have lim: "unat (kernel_block_desc_array s) + 112 < 4294967296"
    using b unat_lt_2p32 [of "vm_start (kernel_vm_pool s)"] by linarith
  have "free_cell s i = kernel_block_desc_array s + of_nat (16 * i + 8)" "kdesc s i = kernel_block_desc_array s + of_nat (16 * i)"
    by (simp_all add: free_cell_def kdesc_def desc_at_def free_list_def)
  then have u: "unat (free_cell s i) = unat (kernel_block_desc_array s) + (16 * i + 8)" "unat (kdesc s i) = unat (kernel_block_desc_array s) + 16 * i"
    using lim assms(2) by (simp_all only: unat_add_u32 unat_of_nat_u32)
  then show "unat (free_cell s i) = unat (kernel_block_desc_array s) + 16 * i + 8" "unat (free_cell s i) < unat (vm_start (kernel_vm_pool s))"
    using b assms(2) by simp_all
  show "free_cell s i \<noteq> NULL" "kdesc s i \<noteq> NULL"
    using u nz by (auto simp: NULL_def word_unat_eq_iff)
qed

definition cells_ok :: "(nat \<Rightarrow> u32) \<Rightarrow> uses \<Rightarrow> bool" where
  "cells_ok fc U \<longleftrightarrow> inj_on fc {..< 7} \<and> (\<forall>i < 7. U (block_2_arena (fc i)) = None)"

lemma heap_cells:
  assumes "kpage_inv (s, ledger U)" and "descs_ok s"
  shows "cells_ok (free_cell s) U"
proof -
  have "inj_on (free_cell s) {..< 7}"
    using free_cell_props(1) [OF assms(2)] by (auto simp: inj_on_def) (metis add_right_cancel add_left_cancel mult_cancel1 zero_neq_numeral)
  moreover have "U (block_2_arena (free_cell s i)) = None" if "i < 7" for i
  proof (rule ccontr)
    assume "U (block_2_arena (free_cell s i)) \<noteq> None"
    then have "unat (vm_start (kernel_vm_pool s)) \<le> unat (block_2_arena (free_cell s i))"
      using used_page(2) [OF assms(1)] by auto
    moreover have "unat (block_2_arena (free_cell s i)) \<le> unat (free_cell s i)"
      by (simp add: block_2_arena_def unat_page_mask div_times_less_eq_dividend)
    ultimately show False
      using free_cell_props(2) [OF assms(2) that] by simp
  qed
  ultimately show ?thesis
    by (simp add: cells_ok_def)
qed

text \<open>The lists of different classes have no cell in common.\<close>

lemma lists_disjoint:
  assumes "lists_ok fc h U F" and "cells_ok fc U" and "i < 7" and "j < 7" and "i \<noteq> j"
  shows "set (fc i # F i) \<inter> set (fc j # F j) = {}"
proof -
  have "fc i \<noteq> fc j" "U (block_2_arena (fc i)) = None" "U (block_2_arena (fc j)) = None"
    using assms(2-5) by (auto simp: cells_ok_def inj_on_def)
  moreover have "U (block_2_arena b) = Some (Small i)" if "b \<in> set (F i)" for b
    using lists_okD(2) [OF assms(1,3) that] .
  moreover have "U (block_2_arena b) = Some (Small j)" if "b \<in> set (F j)" for b
    using lists_okD(2) [OF assms(1,4) that] .
  ultimately show ?thesis
    using assms(5) by auto (metis option.inject page_use.inject(1))
qed

lemma lists_ok_upd:
  assumes "lists_ok fc h U F" and "i < 7" and "ring h' (fc i # xs)"
    and "\<And>b. b \<in> set xs \<Longrightarrow> U' (block_2_arena b) = Some (Small i) \<and> b \<in> set (blocks (block_2_arena b) i)"
    and "\<And>j p. j < 7 \<Longrightarrow> j \<noteq> i \<Longrightarrow> p \<in> set (fc j # F j) \<Longrightarrow> h' p = h p"
    and "\<And>j b. j < 7 \<Longrightarrow> j \<noteq> i \<Longrightarrow> b \<in> set (F j) \<Longrightarrow> U' (block_2_arena b) = U (block_2_arena b)"
  shows "lists_ok fc h' U' (F(i := xs))"
  unfolding lists_ok_def
proof (intro allI impI)
  fix j :: nat assume j: "j < 7"
  show "ring h' (fc j # (F(i := xs)) j) \<and> (\<forall>b \<in> set ((F(i := xs)) j). U' (block_2_arena b) = Some (Small j) \<and> b \<in> set (blocks (block_2_arena b) j))"
  proof (cases "j = i")
    case True
    then show ?thesis
      using assms(3,4) by simp
  next
    case False
    have "ring h' (fc j # F j)"
      by (rule ring_cong [OF lists_okD(1) [OF assms(1) j]]) (use assms(5) [OF j False] in simp)
    then show ?thesis
      using False assms(6) [OF j False] lists_okD(2,3) [OF assms(1) j] by simp
  qed
qed

section \<open>Clearing memory\<close>

definition heap_upd :: "mem \<Rightarrow> lheap \<Rightarrow> (u32 \<Rightarrow> arena) \<Rightarrow> 'a mem_state_scheme \<Rightarrow> 'a mem_state_scheme" where
  "heap_upd m h ar s = s\<lparr>ram := m, nodes := h, arenas := ar\<rparr>"

lemma heap_upd_simps [simp]:
  "ram (heap_upd m h ar s) = m" "nodes (heap_upd m h ar s) = h" "arenas (heap_upd m h ar s) = ar" "kernel_pool (heap_upd m h ar s) = kernel_pool s"
  "user_pool (heap_upd m h ar s) = user_pool s" "kernel_vm_pool (heap_upd m h ar s) = kernel_vm_pool s" "block_descs (heap_upd m h ar s) = block_descs s"
  "kernel_block_desc_array (heap_upd m h ar s) = kernel_block_desc_array s" "kdesc (heap_upd m h ar s) i = kdesc s i"
  "free_cell (heap_upd m h ar s) i = free_cell s i" "eflags (heap_upd m h ar s) = eflags s" "tasks (heap_upd m h ar s) = tasks s"
  "current_task (heap_upd m h ar s) = current_task s" "heap_upd m h ar (heap_upd m' h' ar' s) = heap_upd m h ar s"
  "kdesc (heap_upd m h ar s) = kdesc s" "free_cell (heap_upd m h ar s) = free_cell s"
  by (simp_all add: heap_upd_def kdesc_def free_cell_def fun_eq_iff)

lemma heap_upd_id: "heap_upd (ram s) (nodes s) (arenas s) s = s"
  by (simp add: heap_upd_def)

lemma heap_upd_folds:
  "s\<lparr>ram := m\<rparr> = heap_upd m (nodes s) (arenas s) s" "s\<lparr>nodes := h\<rparr> = heap_upd (ram s) h (arenas s) s" "s\<lparr>arenas := ar\<rparr> = heap_upd (ram s) (nodes s) ar s"
  by (simp_all add: heap_upd_def)

definition zero_mem :: "u32 \<Rightarrow> u32 \<Rightarrow> mem \<Rightarrow> mem" where
  "zero_mem p n m = (\<lambda>a. if a \<in> span p (unat n) then 0 else m a)"

definition zero_cells :: "u32 \<Rightarrow> u32 \<Rightarrow> lheap \<Rightarrow> lheap" where
  "zero_cells p n h = (\<lambda>a. if unat (a - p) + 8 \<le> unat n then \<lparr>l_prev = NULL, l_next = NULL\<rparr> else h a)"

definition zero_arenas :: "u32 \<Rightarrow> u32 \<Rightarrow> (u32 \<Rightarrow> arena) \<Rightarrow> u32 \<Rightarrow> arena" where
  "zero_arenas p n ar = (\<lambda>a. if unat (a - p) + 8 \<le> unat n then \<lparr>desc = NULL, cnt = 0\<rparr> else ar a)"

lemma zero_pages_heap_upd: "zero_pages p n s = heap_upd (zero_mem p n (ram s)) (zero_cells p n (nodes s)) (zero_arenas p n (arenas s)) s"
  by (simp add: zero_pages_def heap_upd_def zero_mem_def zero_cells_def zero_arenas_def)

text \<open>The page invariant only reads the bitmaps.\<close>

lemma kpage_inv_bits:
  assumes "kpage_inv (s, L)" and "kernel_vm_pool s' = kernel_vm_pool s" and "kernel_pool s' = kernel_pool s" and "user_pool s' = user_pool s"
    and "\<And>j. j < bm_bits (kvm s) \<Longrightarrow> bm_bit (ram s') (kvm s) j = bm_bit (ram s) (kvm s) j"
    and "\<And>j. j < bm_bits (kvm s) \<Longrightarrow> bm_bit (ram s') (kpm s) j = bm_bit (ram s) (kpm s) j"
  shows "kpage_inv (s', L)"
proof -
  have eqs: "kpool_layout s' = kpool_layout s" "alloc_start s' x = alloc_start s x" "alloc_pages s' x = alloc_pages s x" "page_at s' j = page_at s j" for x j
    by (simp_all add: kpool_layout_def alloc_start_def alloc_pages_def page_at_def assms(2-4))
  have "live_ok s' x" if "live_ok s x" for x
    using that live_pages_bound [OF that] assms(5) by (simp add: live_ok_def eqs assms(2))
  then show ?thesis
    using assms(1,5,6) by (simp add: kpool_ok_def eqs assms(2,3))
qed

lemma kpage_inv_zero:
  assumes "kpage_inv (s, L)" and "unat (vm_start (kernel_vm_pool s)) \<le> unat p" and "unat p + unat n \<le> 4294967296"
  shows "kpage_inv (heap_upd (zero_mem p n (ram s)) h ar s, L)"
proof (rule kpage_inv_bits [OF assms(1)])
  fix j assume "j < bm_bits (kvm s)"
  then show "bm_bit (ram (heap_upd (zero_mem p n (ram s)) h ar s)) (kvm s) j = bm_bit (ram s) (kvm s) j"
      "bm_bit (ram (heap_upd (zero_mem p n (ram s)) h ar s)) (kpm s) j = bm_bit (ram s) (kpm s) j"
    using zero_above_bits [OF _ assms(2,3), of j] assms(1) by (simp_all add: zero_pages_heap_upd kpool_ok_def)
qed simp_all

lemma kpage_inv_heap_upd: "kpage_inv (s, L) \<Longrightarrow> kpage_inv (heap_upd (ram s) h ar s, L)"
  by (erule kpage_inv_bits) simp_all

lemma descs_ok_heap_upd [simp]: "descs_ok (heap_upd m h ar s) = descs_ok s"
  by (simp add: descs_ok_def)

text \<open>An address in a block belongs to the page of the block and is not its start.\<close>

lemma in_block_arena:
  assumes "page a" and "i < 7" and "b \<in> set (blocks a i)" and "unat b \<le> unat x" and "unat x < unat b + bsz i"
  shows "block_2_arena x = a" and "x \<noteq> a"
proof -
  have "unat x \<in> block_range i b"
    using assms(4,5) by (simp add: block_range_def)
  then have x: "unat a + 8 \<le> unat x" "unat x < unat a + 4096"
    using block_range_page [OF assms(1-3)] by auto
  then have "x = a + of_nat (unat x - unat a)"
    by (simp add: of_nat_diff)
  then show "block_2_arena x = a"
    using block_2_arena_in_page [OF assms(1), of "unat x - unat a"] x by simp
  show "x \<noteq> a"
    using x by auto
qed

lemma block_end: "page a \<Longrightarrow> i < 7 \<Longrightarrow> b \<in> set (blocks a i) \<Longrightarrow> unat b + bsz i \<le> 4294967296"
  using page_end [of a] block_fits [of i] unat_blk [of a i] by (force simp: in_blocks)

lemma bsz_u32: "i < 7 \<Longrightarrow> unat (of_nat (bsz i) :: u32) = bsz i"
  using class_sizes [of i] by simp

text \<open>Clearing a block that is in no list leaves the lists and the headers alone.\<close>

lemma zero_block_cells:
  assumes "lists_ok fc h U F" and "cells_ok fc U" and "page a" and "U a = Some (Small i)" and "i < 7"
    and "b \<in> set (blocks a i)" and "b \<notin> set (F i)"
  shows "lists_ok fc (zero_cells b (of_nat (bsz i)) h) U F"
proof -
  let ?h = "zero_cells b (of_nat (bsz i)) h"
  have keep: "?h p = h p" if "j < 7" and "p \<in> set (fc j # F j)" for j p
  proof (rule ccontr)
    assume "?h p \<noteq> h p"
    then have "unat (p - b) + 8 \<le> bsz i"
      using bsz_u32 [OF assms(5)] by (auto simp: zero_cells_def split: if_splits)
    then have p: "unat b \<le> unat p" "unat p < unat b + bsz i"
      using cleared_cell [OF _ block_end [OF assms(3,5,6)]] by auto
    then have ar: "block_2_arena p = a"
      using in_block_arena(1) [OF assms(3,5,6)] by simp
    then have "p \<noteq> fc j"
      using assms(2,4) that(1) by (auto simp: cells_ok_def)
    then have "p \<in> set (F j)"
      using that(2) by simp
    then have "j = i" "p \<in> set (blocks a i)"
      using lists_okD(2,3) [OF assms(1) that(1), of p] ar assms(4) by auto
    then have "block_range i b \<inter> block_range i p = {}"
      using block_ranges_disjoint [OF assms(3,5,6)] \<open>p \<in> set (F j)\<close> assms(7) by metis
    moreover have "unat p \<in> block_range i b \<inter> block_range i p"
      using p class_sizes [OF assms(5)] by (simp add: block_range_def)
    ultimately show False
      by blast
  qed
  then have "ring ?h (fc j # F j)" if "j < 7" for j
    using ring_cong [OF lists_okD(1) [OF assms(1) that]] that by blast
  then show ?thesis
    using assms(1) by (simp add: lists_ok_def)
qed

lemma zero_block_arenas:
  assumes "page a" and "i < 7" and "b \<in> set (blocks a i)" and "page c"
  shows "zero_arenas b (of_nat (bsz i)) ar c = ar c"
proof (rule ccontr)
  assume "zero_arenas b (of_nat (bsz i)) ar c \<noteq> ar c"
  then have "unat (c - b) + 8 \<le> bsz i"
    using bsz_u32 [OF assms(2)] by (auto simp: zero_arenas_def split: if_splits)
  then have "unat b \<le> unat c" "unat c < unat b + bsz i"
    using cleared_cell [OF _ block_end [OF assms(1-3)]] by auto
  then have "block_2_arena c = a" "c \<noteq> a"
    using in_block_arena [OF assms(1-3)] by simp_all
  then show False
    using block_2_arena_in_page [OF assms(4), of 0] by simp
qed

section \<open>Taking and giving back a block\<close>

declare kpage_inv.simps [simp del]

lemma heap_inv_updI:
  "kpage_inv (heap_upd m h ar s, ledger U) \<Longrightarrow> descs_ok s \<Longrightarrow> arenas_ok ar (kdesc s) U F \<Longrightarrow> lists_ok (free_cell s) h U F \<Longrightarrow>
   heap_inv (heap_upd m h ar s) U F"
  by (simp add: heap_inv_def)

lemma free_block_props:
  assumes "heap_inv s U F" and "i < 7" and "b \<in> set (F i)"
  shows "U (block_2_arena b) = Some (Small i)" and "b \<in> set (blocks (block_2_arena b) i)" and "page (block_2_arena b)"
  using lists_okD(2,3) [OF heap_invD(4) [OF assms(1)] assms(2,3)] used_page(1) [OF heap_invD(1) [OF assms(1)]] by simp_all

lemma block_not_NULL: "page a \<Longrightarrow> i < 7 \<Longrightarrow> b \<in> set (blocks a i) \<Longrightarrow> b \<noteq> NULL"
  using unat_blk [of a i] by (auto simp: in_blocks NULL_def word_unat_eq_iff)

lemma kdesc_entry: "descs_ok s \<Longrightarrow> i < 7 \<Longrightarrow> block_descs s (kdesc s i) = \<lparr>block_size = of_nat (bsz i), blocks_each_arena = of_nat (nblk i)\<rparr>"
  by (simp add: descs_ok_def)

lemma arenas_ok_take:
  assumes "arenas_ok ar kd U F" and "F i = b # bs" and "U (block_2_arena b) = Some (Small i)" and "\<And>c u. U c = Some u \<Longrightarrow> ar' c = ar c"
  defines "a \<equiv> block_2_arena b"
  shows "arenas_ok (ar'(a := (ar' a)\<lparr>cnt := cnt (ar' a) - 1\<rparr>)) kd U (F(i := bs))"
proof -
  have "nfree (F(i := bs)) j c = nfree F j c" if "j \<noteq> i \<or> c \<noteq> a" for j c
    using that assms(2) by (auto simp: nfree_def a_def)
  moreover have "nfree F i a = Suc (nfree (F(i := bs)) i a)"
    using assms(2) by (simp add: nfree_def a_def)
  ultimately have "(ar'(a := (ar' a)\<lparr>cnt := cnt (ar' a) - 1\<rparr>)) c = \<lparr>desc = kd j, cnt = of_nat (nfree (F(i := bs)) j c)\<rparr>" if "U c = Some (Small j)" for c j
    using that arenas_okD(2) [OF assms(1) that] assms(4) [OF that] assms(3) by (cases "c = a") (simp_all add: a_def)
  moreover have "(ar'(a := (ar' a)\<lparr>cnt := cnt (ar' a) - 1\<rparr>)) c = \<lparr>desc = NULL, cnt = n\<rparr>" if "U c = Some (Large n)" for c n
    using that arenas_okD(3) [OF assms(1) that] assms(4) [OF that] assms(3) by (cases "c = a") (simp_all add: a_def)
  ultimately show ?thesis
    using arenas_okD(1) [OF assms(1)] by (simp add: arenas_ok_def)
qed

lemma lists_ok_take:
  assumes "lists_ok fc h U F" and "cells_ok fc U" and "i < 7" and "F i = b # bs"
  shows "lists_ok fc (list_del h b) U (F(i := bs))"
proof (rule lists_ok_upd [OF assms(1,3)])
  have r: "ring h (fc i # b # bs)"
    using lists_okD(1) [OF assms(1,3)] assms(4) by simp
  show "ring (list_del h b) (fc i # bs)"
    using list_del_member(1) [OF r, of b] by simp
  have r2: "ring h (b # bs @ [fc i])"
    using ring_rotate [of h "[fc i]" "b # bs"] r by simp
  show "list_del h b p = h p" if "j < 7" "j \<noteq> i" "p \<in> set (fc j # F j)" for j p
    using list_del_other(1) [OF r2, of p] lists_disjoint [OF assms(1,2,3) that(1)] that(2,3) assms(4) by auto
qed (use lists_okD(2,3) [OF assms(1,3)] assms(4) in auto)

lemma take_block_inv:
  assumes inv: "heap_inv s U F" and i: "i < 7" and F: "F i = b # bs"
  obtains m h ar where "take_block (kdesc s i) s = Some (b, heap_upd m h ar s)" and "heap_inv (heap_upd m h ar s) U (F(i := bs))"
    and "\<forall>x \<in> span b (bsz i). m x = 0"
proof -
  let ?a = "block_2_arena b" and ?n = "of_nat (bsz i) :: u32" and ?h1 = "list_del (nodes s) b"
  note parts = heap_invD [OF inv]
  have b: "U ?a = Some (Small i)" "b \<in> set (blocks ?a i)" "page ?a"
    using free_block_props [OF inv i, of b] F by simp_all
  have cells: "cells_ok (free_cell s) U"
    by (rule heap_cells [OF parts(1,2)])
  have r: "ring (nodes s) (free_cell s i # b # bs)"
    using lists_okD(1) [OF parts(4) i] F by simp
  then have nxt: "l_next (nodes s (free_cell s i)) = b" and fresh: "b \<notin> set ((F(i := bs)) i)"
    by simp_all
  let ?m = "zero_mem b ?n (ram s)" and ?h = "zero_cells b ?n ?h1" and ?ar = "zero_arenas b ?n (arenas s)"
  let ?ar2 = "?ar(?a := (?ar ?a)\<lparr>cnt := cnt (?ar ?a) - 1\<rparr>)"
  have "take_block (kdesc s i) s = Some (b, heap_upd ?m ?h ?ar2 s)"
    using nxt block_not_NULL [OF b(3) i b(2)] kdesc_entry [OF parts(2) i]
    by (simp add: take_block_def list_pop_def free_cell_def memset_pages_eq zero_pages_heap_upd) (simp add: heap_upd_def Let_def)
  moreover have "kpage_inv (heap_upd ?m ?h ?ar2 s, ledger U)"
  proof (rule kpage_inv_zero [OF parts(1)])
    show "unat (vm_start (kernel_vm_pool s)) \<le> unat b"
      using used_page(2) [OF parts(1) b(1)] block_range_page [OF b(3) i b(2)] class_sizes [OF i] by (force simp: block_range_def)
    show "unat b + unat ?n \<le> 4294967296"
      using block_end [OF b(3) i b(2)] bsz_u32 [OF i] by simp
  qed
  moreover have "arenas_ok ?ar2 (kdesc s) U (F(i := bs))"
    by (rule arenas_ok_take [OF parts(3) F b(1)]) (use zero_block_arenas [OF b(3) i b(2)] used_page(1) [OF parts(1)] in blast)
  moreover have "lists_ok (free_cell s) ?h U (F(i := bs))"
    by (rule zero_block_cells [OF lists_ok_take [OF parts(4) cells i F] cells b(3,1) i b(2) fresh])
  moreover have "\<forall>x \<in> span b (bsz i). ?m x = 0"
    using bsz_u32 [OF i] by (simp add: zero_mem_def)
  ultimately show ?thesis
    using heap_inv_updI [OF _ parts(2)] that by blast
qed

lemma arena_2_block_blk:
  assumes "descs_ok s" and "i < 7" and "desc (arenas s a) = kdesc s i"
  shows "arena_2_block s a (of_nat k) = blk a i k"
  using assms by (simp add: arena_2_block_def kdesc_entry blk_def sizeof_arena_def add.assoc)

lemma fill_loop_ring:
  assumes "descs_ok s" and "i < 7" and "desc (arenas s a) = kdesc s i" and "page a" and "ring (nodes s) [free_cell s i]"
    and "free_cell s i \<notin> set (blocks a i)" and "k \<le> nblk i"
  obtains h where "fill_loop a k s = Some (s\<lparr>nodes := h\<rparr>)" and "ring h (free_cell s i # map (blk a i) [0 ..< k])"
    and "\<And>p. p \<notin> set (free_cell s i # blocks a i) \<Longrightarrow> h p = nodes s p"
  using assms(7)
proof (induction k arbitrary: thesis)
  case 0
  then show ?case
    using "0.prems"(1) [of "nodes s"] assms(5) by simp
next
  case (Suc k)
  obtain h where h: "fill_loop a k s = Some (s\<lparr>nodes := h\<rparr>)" "ring h (free_cell s i # map (blk a i) [0 ..< k])"
      and fr: "\<And>p. p \<notin> set (free_cell s i # blocks a i) \<Longrightarrow> h p = nodes s p"
    using Suc.IH Suc.prems(2) by auto
  let ?b = "blk a i k" and ?l = "map (blk a i) [0 ..< k]"
  have k: "k < nblk i"
    using Suc.prems(2) by simp
  have mem: "?b \<in> set (blocks a i)" "set ?l \<subseteq> set (blocks a i)"
    using k by (auto simp: blocks_def)
  have inj: "inj_on (blk a i) {0 ..< nblk i}"
    using distinct_blocks [OF assms(4,2)] by (simp add: blocks_def distinct_map)
  have "?b \<notin> set ?l"
  proof
    assume "?b \<in> set ?l"
    then obtain x where "x < k" "?b = blk a i x"
      by auto
    then show False
      using inj_onD [OF inj, of k x] k by simp
  qed
  then have new: "?b \<notin> set (free_cell s i # ?l)"
    using mem(1) assms(6) by auto
  have "list_find_item h (free_cell s i) ?b = Some False"
    using list_find_item_ring [OF h(2) free_cell_props(3) [OF assms(1,2)] block_not_NULL [OF assms(4,2) mem(1)]] new
    by (auto dest!: in_set_butlastD)
  then have "fill_loop a (Suc k) s = Some (s\<lparr>nodes := list_add_prev h (free_cell s i) ?b\<rparr>)"
    using h(1) assms(3) arena_2_block_blk [of "s\<lparr>nodes := h\<rparr>" i a k] assms(1,2) by (simp add: free_cell_def kdesc_def descs_ok_def)
  moreover have "ring (list_add_prev h (free_cell s i) ?b) (free_cell s i # map (blk a i) [0 ..< Suc k])"
    using list_add_prev_ring [OF h(2) new] by simp
  moreover have "list_add_prev h (free_cell s i) ?b p = nodes s p" if "p \<notin> set (free_cell s i # blocks a i)" for p
    using list_add_other(2) [OF h(2), of p ?b] fr [OF that] that mem by auto
  ultimately show ?case
    by (rule Suc.prems(1))
qed

lemma fresh_page:
  assumes "kpage_inv (s, ledger U)" and "bm_free (ram s) (kvm s) w (unat n)" and "n \<noteq> 0" and "w < bm_bits (kvm s)"
  shows "U (page_at s w) = None"
proof (rule ccontr)
  assume "U (page_at s w) \<noteq> None"
  then obtain u where "U (page_at s w) = Some u"
    by auto
  from used_page(3) [OF assms(1) this] have live: "live_ok s (page_at s w, use_pages u)" .
  have "kpool_layout s"
    using assms(1) by (simp add: kpage_inv.simps kpool_ok_def)
  then have "alloc_start s (page_at s w, use_pages u) = w"
    using assms(4) by (rule alloc_start_page_at)
  then have "bm_bit (ram s) (kvm s) w"
    using live by (simp add: live_ok_def alloc_pages_def unat_gt_0)
  moreover have "0 < unat n"
    using assms(3) by (simp add: unat_gt_0)
  ultimately show False
    using assms(2) by (auto simp: bm_free_def dest: spec [of _ 0])
qed

lemma ledger_insert: "U a = None \<Longrightarrow> ledger (U(a \<mapsto> u)) = insert (a, use_pages u) (ledger U)"
  by (auto simp: ledger_def split: if_splits)

lemma ledger_delete: "U a = Some u \<Longrightarrow> ledger (U(a := None)) = ledger U - {(a, use_pages u)}"
  by (auto simp: ledger_def split: if_splits)

lemma page_self: "page a \<Longrightarrow> block_2_arena a = a"
  using block_2_arena_in_page [of a 0] by simp

lemma nblk_u32: "i < 7 \<Longrightarrow> unat (of_nat (nblk i) :: u32) = nblk i"
  using class_sizes [of i] by simp

lemma nfree_all: "page a \<Longrightarrow> i < 7 \<Longrightarrow> nfree (F(i := blocks a i)) i a = nblk i"
  by (simp add: nfree_def blocks_def filter_map comp_def block_2_arena_blk filter_id_conv [THEN iffD2])

text \<open>Clearing new pages touches no cell of a page in use and none below the heap.\<close>

lemma page_of_address:
  assumes "kpool_layout s" and "w + n \<le> bm_bits (kvm s)" and "unat (page_at s w) \<le> unat x" and "unat x < unat (page_at s w) + 4096 * n" and "w < bm_bits (kvm s)"
  obtains q where "q < n" and "block_2_arena x = page_at s (w + q)"
proof -
  define q r where "q = (unat x - unat (page_at s w)) div 4096" and "r = (unat x - unat (page_at s w)) mod 4096"
  have q: "q < n" and r: "r < 4096"
    using assms(3,4) by (simp_all add: q_def r_def less_mult_imp_div_less mult.commute)
  have w: "w + q < bm_bits (kvm s)"
    using q assms(2) by linarith
  have "unat x = unat (page_at s w) + (q * 4096 + r)"
    using assms(3) by (simp add: q_def r_def)
  then have "unat (page_at s (w + q) + of_nat r) = unat x"
    using unat_page_at [OF assms(1) w r] unat_page_at [OF assms(1,5), of 0] by simp
  then have x: "x = page_at s (w + q) + of_nat r"
    by (simp only: word_unat_eq_iff)
  have "4096 dvd unat (vm_start (kernel_vm_pool s))"
    using assms(1) by (simp add: kpool_layout_def)
  then have "page (page_at s (w + q))"
    using unat_page_at [OF assms(1) w, of 0] by (simp add: page_def)
  then have "block_2_arena x = page_at s (w + q)"
    unfolding x using r by (rule block_2_arena_in_page)
  with q show ?thesis
    by (rule that)
qed

lemma new_pages_clear:
  assumes "kpage_inv (s, ledger U)" and "w + unat n < bm_bits (kvm s)" and "bm_free (ram s) (kvm s) w (unat n)" and "n \<noteq> 0"
    and "U (block_2_arena x) \<noteq> None \<or> unat x < unat (vm_start (kernel_vm_pool s))"
  shows "zero_cells (page_at s w) (n * PAGE_SIZE) h x = h x" and "zero_arenas (page_at s w) (n * PAGE_SIZE) ar x = ar x"
proof -
  have lay: "kpool_layout s"
    using assms(1) by (simp add: kpage_inv.simps kpool_ok_def)
  note b = page_run_bounds [OF lay less_imp_le [OF assms(2)] assms(4)]
  have "\<not> unat (x - page_at s w) + 8 \<le> unat (n * PAGE_SIZE)"
  proof
    assume "unat (x - page_at s w) + 8 \<le> unat (n * PAGE_SIZE)"
    then have x: "unat (page_at s w) \<le> unat x" "unat x < unat (page_at s w) + 4096 * unat n"
      using cleared_cell [OF _ b(3)] b(1) by (simp_all add: mult.commute)
    obtain q where q: "q < unat n" "block_2_arena x = page_at s (w + q)"
      using page_of_address [OF lay less_imp_le [OF assms(2)] x] assms(2) by auto
    have "bm_free (ram s) (kvm s) (w + q) (unat (1 :: u32))"
      using assms(3) q(1) by (simp add: bm_free_def)
    then have "U (block_2_arena x) = None"
      using fresh_page [OF assms(1), of "w + q" 1] q assms(2) by simp
    then show False
      using assms(5) x(1) b(2) by simp
  qed
  then show "zero_cells (page_at s w) (n * PAGE_SIZE) h x = h x" "zero_arenas (page_at s w) (n * PAGE_SIZE) ar x = ar x"
    by (simp_all add: zero_cells_def zero_arenas_def)
qed

lemma heap_new_pages:
  assumes inv: "heap_inv s U F" and al: "page_alloc PF_KERNEL n s = Some (a, s1)" and "a \<noteq> NULL" and n: "n \<noteq> 0"
  obtains m where "s1 = s\<lparr>ram := m\<rparr>" and "U a = None" and "page a"
    and "\<And>h ar. kpage_inv (heap_upd (zero_mem a (n * PAGE_SIZE) m) h ar s, insert (a, n) (ledger U))"
    and "lists_ok (free_cell s) (zero_cells a (n * PAGE_SIZE) (nodes s)) U F"
    and "\<And>c u. U c = Some u \<Longrightarrow> zero_arenas a (n * PAGE_SIZE) (arenas s) c = arenas s c"
proof -
  note parts = heap_invD [OF inv]
  from parts(6) al n show ?thesis
  proof (cases rule: page_alloc_kernel_cases)
    case none
    with assms(3) show ?thesis by simp
  next
    case (run w m1 m2)
    have "0 < unat n"
      using n by (simp add: unat_gt_0)
    with run(3) have w: "w < bm_bits (kvm s)"
      by linarith
    have kp: "kpage_inv (s\<lparr>ram := m2\<rparr>, insert (a, n) (ledger U))"
      using kpage_inv_alloc [OF parts(1) n run(3-6)] run(1) by simp
    have Ua: "U a = None"
      using fresh_page [OF parts(1) run(4) n w] run(1) by simp
    have "4096 dvd unat (vm_start (kernel_vm_pool s))"
      using parts(6) by (simp add: kpool_layout_def)
    then have pg: "page a"
      using unat_page_at [OF parts(6) w, of 0] run(1) by (simp add: page_def)
    note b = page_run_bounds [OF parts(6) less_imp_le [OF run(3)] n]
    note clear = new_pages_clear [OF parts(1) run(3,4) n, folded run(1)]
    have "kpage_inv (heap_upd (zero_mem a (n * PAGE_SIZE) m2) h ar s, insert (a, n) (ledger U))" for h ar
      using kpage_inv_zero [OF kp, of a "n * PAGE_SIZE" h ar] b(2,3) run(1) by (simp add: heap_upd_def)
    moreover have "lists_ok (free_cell s) (zero_cells a (n * PAGE_SIZE) (nodes s)) U F"
      unfolding lists_ok_def
    proof (intro allI impI conjI)
      fix i :: nat assume i: "i < 7"
      show "ring (zero_cells a (n * PAGE_SIZE) (nodes s)) (free_cell s i # F i)"
      proof (rule ring_cong [OF lists_okD(1) [OF parts(4) i]])
        fix p assume "p \<in> set (free_cell s i # F i)"
        then show "zero_cells a (n * PAGE_SIZE) (nodes s) p = nodes s p"
          using clear(1) [of p] lists_okD(2) [OF parts(4) i, of p] free_cell_props(2) [OF parts(2) i] by auto
      qed
    qed (use lists_okD(2,3) [OF parts(4)] in blast)
    moreover have "zero_arenas a (n * PAGE_SIZE) (arenas s) c = arenas s c" if "U c = Some u" for c u
      using clear(2) [of c] page_self [OF used_page(1) [OF parts(1) that]] that by simp
    ultimately show ?thesis
      using that [of m2] run(2) Ua pg by blast
  qed
qed

lemma block_in_new_arena:
  assumes "page a" and "i < 7" and "b \<in> set (blocks a i)"
  shows "block_2_arena b = a"
  using assms block_2_arena_blk by (auto simp: in_blocks)

lemma arenas_ok_new:
  assumes "arenas_ok ar kd U F" and "U a = None" and "page a" and "i < 7" and "F i = []" and "\<And>c u. U c = Some u \<Longrightarrow> ar' c = ar c"
  shows "arenas_ok (ar'(a := \<lparr>desc = kd i, cnt = of_nat (nblk i)\<rparr>)) kd (U(a \<mapsto> Small i)) (F(i := blocks a i))"
proof -
  have "nfree (F(i := blocks a i)) j c = nfree F j c" if "c \<noteq> a" for j c
    using that assms(5) block_in_new_arena [OF assms(3,4)] by (auto simp: nfree_def filter_empty_conv)
  then show ?thesis
    using nfree_all [OF assms(3,4), of F] assms(4) arenas_okD [OF assms(1)] assms(6) by (simp add: arenas_ok_def)
qed

lemma cli_descs [simp]: "block_descs (cli s) = block_descs s"
  by (simp add: cli_def)

lemma new_arena_inv:
  assumes inv: "heap_inv s U F" and i: "i < 7" and F: "F i = []" and al: "page_alloc PF_KERNEL 1 s = Some (a, s1)" and a: "a \<noteq> NULL"
  obtains m h ar where "new_arena PF_KERNEL (kdesc s i) s = Some (True, heap_upd m h ar s)"
    and "heap_inv (heap_upd m h ar s) (U(a \<mapsto> Small i)) (F(i := blocks a i))" and "U a = None" and "page a"
proof -
  note parts = heap_invD [OF inv]
  obtain m where m: "s1 = s\<lparr>ram := m\<rparr>" "U a = None" "page a"
    and kp: "\<And>h ar. kpage_inv (heap_upd (zero_mem a (1 * PAGE_SIZE) m) h ar s, insert (a, 1) (ledger U))"
    and ls: "lists_ok (free_cell s) (zero_cells a (1 * PAGE_SIZE) (nodes s)) U F"
    and ar: "\<And>c u. U c = Some u \<Longrightarrow> zero_arenas a (1 * PAGE_SIZE) (arenas s) c = arenas s c"
    using heap_new_pages [OF inv al a one_neq_zero] by blast
  let ?U = "U(a \<mapsto> Small i)" and ?m = "zero_mem a PAGE_SIZE m" and ?h = "zero_cells a PAGE_SIZE (nodes s)"
    and ?ar = "(zero_arenas a PAGE_SIZE (arenas s))(a := \<lparr>desc = kdesc s i, cnt = of_nat (nblk i)\<rparr>)"
  let ?s = "cli (heap_upd ?m ?h ?ar s)"
  have kp': "kpage_inv (heap_upd ?m h ar s, ledger ?U)" for h ar
    using kp [of h ar] ledger_insert [of U a "Small i"] m(2) by simp
  then have cells: "cells_ok (free_cell s) ?U"
    using heap_cells [of "heap_upd ?m ?h ?ar s" ?U] parts(2) by simp
  then have fc: "free_cell s j \<notin> set (blocks a i)" if "j < 7" for j
    using that block_in_new_arena [OF m(3) i] by (auto simp: cells_ok_def split: if_splits)
  have st: "descs_ok ?s" "desc (arenas ?s a) = kdesc ?s i" "ring (nodes ?s) [free_cell ?s i]" "free_cell ?s i = free_cell s i"
    using parts(2) lists_okD(1) [OF ls i] F by (simp_all add: cli_def descs_ok_def kdesc_def free_cell_def)
  then have fc': "free_cell ?s i \<notin> set (blocks a i)"
    using fc [OF i] by simp
  obtain h where h: "fill_loop a (nblk i) ?s = Some (?s\<lparr>nodes := h\<rparr>)" "ring h (free_cell s i # blocks a i)"
      and fr: "\<And>p. p \<notin> set (free_cell s i # blocks a i) \<Longrightarrow> h p = ?h p"
    using fill_loop_ring [OF st(1) i st(2) m(3) st(3) fc' order_refl] unfolding st(4) by (auto simp: blocks_def cli_def)
  have irq: "set_intr_status (get_intr_status (heap_upd ?m ?h ?ar s)) (?s\<lparr>nodes := h\<rparr>) = heap_upd ?m h ?ar s"
    using irq_restore_eflags [of "?s\<lparr>nodes := h\<rparr>" "heap_upd ?m ?h ?ar s"] by (simp add: cli_def) (simp add: heap_upd_def)
  have "memset_pages a PAGE_SIZE s1 = Some (heap_upd ?m ?h (zero_arenas a PAGE_SIZE (arenas s)) s)"
    using a m(1) by (simp add: memset_pages_eq zero_pages_heap_upd) (simp add: heap_upd_def)
  moreover have "(heap_upd ?m ?h (zero_arenas a PAGE_SIZE (arenas s)) s)\<lparr>arenas := ?ar\<rparr> = heap_upd ?m ?h ?ar s"
    by (simp add: heap_upd_def)
  ultimately have "new_arena PF_KERNEL (kdesc s i) s = Some (True, heap_upd ?m h ?ar s)"
    using al a kdesc_entry [OF parts(2) i] h(1) irq nblk_u32 [OF i] by (simp add: new_arena_def local_irq_disable_eq cli_descs)
  moreover have "arenas_ok ?ar (kdesc s) ?U (F(i := blocks a i))"
    by (rule arenas_ok_new [OF parts(3) m(2,3) i F]) (use ar in simp)
  moreover have "lists_ok (free_cell s) h ?U (F(i := blocks a i))"
  proof (rule lists_ok_upd [OF ls [simplified] i h(2)])
    fix j p assume j: "j < 7" "j \<noteq> i" "p \<in> set (free_cell s j # F j)"
    have "p \<notin> set (free_cell s i # F i)"
      using lists_disjoint [OF parts(4) heap_cells [OF parts(1,2)] i j(1)] j by auto
    moreover have "p \<notin> set (blocks a i)"
      using j(3) fc [OF j(1)] lists_okD(2) [OF parts(4) j(1), of p] block_in_new_arena [OF m(3) i, of p] m(2) by auto
    ultimately show "h p = zero_cells a PAGE_SIZE (nodes s) p"
      using fr by simp
  qed (use block_in_new_arena [OF m(3) i] lists_okD(2) [OF parts(4)] m(2) in auto)
  ultimately show ?thesis
    using heap_inv_updI [OF kp' parts(2)] that m(2,3) by blast
qed

lemma unlink_loop_ring:
  assumes "descs_ok s" and "i < 7" and "desc (arenas s a) = kdesc s i" and "page a" and "ring (nodes s) (free_cell s i # xs)"
    and "set (blocks a i) \<subseteq> set xs" and "k \<le> nblk i"
  obtains h where "unlink_loop a k s = s\<lparr>nodes := h\<rparr>" and "ring h (free_cell s i # filter (\<lambda>x. x \<notin> blk a i ` {..< k}) xs)"
    and "\<And>p. p \<notin> set (free_cell s i # xs) \<Longrightarrow> h p = nodes s p"
  using assms(7)
proof (induction k arbitrary: thesis)
  case 0
  then show ?case
    using "0.prems"(1) [of "nodes s"] assms(5) by simp
next
  case (Suc k)
  let ?f = "\<lambda>k. filter (\<lambda>x. x \<notin> blk a i ` {..< k}) xs"
  obtain h where h: "unlink_loop a k s = s\<lparr>nodes := h\<rparr>" "ring h (free_cell s i # ?f k)"
      and fr: "\<And>p. p \<notin> set (free_cell s i # xs) \<Longrightarrow> h p = nodes s p"
    using Suc.IH Suc.prems(2) by auto
  let ?b = "blk a i k"
  have k: "k < nblk i"
    using Suc.prems(2) by simp
  then have "?b \<in> set (blocks a i)"
    by (auto simp: in_blocks)
  moreover have inj: "inj_on (blk a i) {0 ..< nblk i}"
    using distinct_blocks [OF assms(4,2)] by (simp add: blocks_def distinct_map)
  have "?b \<notin> blk a i ` {..< k}"
  proof
    assume "?b \<in> blk a i ` {..< k}"
    then obtain x where "x < k" "?b = blk a i x"
      by auto
    then show False
      using inj_onD [OF inj, of k x] k by simp
  qed
  ultimately have mem: "?b \<in> set (?f k)"
    using assms(6) by auto
  have dis: "distinct (?f k)"
    using ring_distinct [OF h(2)] by simp
  have "remove1 ?b (?f k) = ?f (Suc k)"
    unfolding distinct_remove1_removeAll [OF dis] removeAll_filter_not_eq filter_filter by (rule filter_cong) (auto simp: lessThan_Suc)
  then have "ring (list_del_safe h ?b) (free_cell s i # ?f (Suc k))"
    using list_del_member(2) [OF h(2) mem] by simp
  moreover have "unlink_loop a (Suc k) s = s\<lparr>nodes := list_del_safe h ?b\<rparr>"
    using h(1) arena_2_block_blk [of "s\<lparr>nodes := h\<rparr>" i a k] assms(1-3) by (simp add: Let_def kdesc_def descs_ok_def)
  moreover have "list_del_safe h ?b p = nodes s p" if p: "p \<notin> set (free_cell s i # xs)" for p
  proof -
    obtain ys zs where sp: "?f k = ys @ ?b # zs"
      using split_list [OF mem] by blast
    have "ring h (?b # zs @ free_cell s i # ys)"
      using ring_rotate [of h "free_cell s i # ys" "?b # zs"] h(2) sp by simp
    moreover have "set (?b # zs @ free_cell s i # ys) \<subseteq> set (free_cell s i # xs)"
      using arg_cong [OF sp, of set] by auto
    ultimately have "list_del_safe h ?b p = h p"
      using list_del_other(2) p by blast
    then show ?thesis
      using fr [OF p] by simp
  qed
  ultimately show ?case
    using Suc.prems(1) by blast
qed

text \<open>The number of free blocks of a page is that of the page exactly when all of them are free.\<close>

lemma free_in_page:
  assumes "lists_ok fc h U F" and "i < 7" and "page a"
  shows "set (filter (\<lambda>b. block_2_arena b = a) (F i)) \<subseteq> set (blocks a i)" and "nfree F i a \<le> nblk i"
    and "nfree F i a = nblk i \<Longrightarrow> set (blocks a i) \<subseteq> set (F i)"
proof -
  let ?l = "filter (\<lambda>b. block_2_arena b = a) (F i)"
  have dis: "distinct ?l"
    using ring_distinct [OF lists_okD(1) [OF assms(1,2)]] by simp
  show sub: "set ?l \<subseteq> set (blocks a i)"
    using lists_okD(3) [OF assms(1,2)] by auto
  have card: "card (set (blocks a i)) = nblk i" "card (set ?l) = nfree F i a"
    using distinct_card [OF distinct_blocks [OF assms(3,2)]] distinct_card [OF dis] by (simp_all add: blocks_def nfree_def)
  then show "nfree F i a \<le> nblk i"
    using card_mono [OF _ sub] by simp
  assume "nfree F i a = nblk i"
  then have "set ?l = set (blocks a i)"
    using card_subset_eq [OF _ sub] card by simp
  then show "set (blocks a i) \<subseteq> set (F i)"
    by auto
qed

lemma lists_ok_give:
  assumes "lists_ok fc h U F" and "cells_ok fc U" and "i < 7" and "U (block_2_arena b) = Some (Small i)" and "b \<in> set (blocks (block_2_arena b) i)" and "b \<notin> set (F i)"
  shows "lists_ok fc (list_add_prev h (fc i) b) U (F(i := F i @ [b]))"
proof (rule lists_ok_upd [OF assms(1,3)])
  note r = lists_okD(1) [OF assms(1,3)]
  have "U (block_2_arena (fc j)) = None" if "j < 7" for j
    using assms(2) that by (simp add: cells_ok_def)
  then have ne: "b \<noteq> fc j" if "j < 7" for j
    using that assms(4) by auto
  then have "b \<notin> set (fc i # F i)"
    using assms(3,6) by simp
  then show "ring (list_add_prev h (fc i) b) (fc i # F i @ [b])"
    by (rule list_add_prev_ring [OF r])
  show "list_add_prev h (fc i) b p = h p" if "j < 7" "j \<noteq> i" "p \<in> set (fc j # F j)" for j p
  proof (rule list_add_other(2) [OF r])
    have "p \<notin> set (fc i # F i)"
      using lists_disjoint [OF assms(1,2,3) that(1)] that(2,3) by auto
    moreover have "p \<noteq> b"
      using ne [OF that(1)] lists_okD(2) [OF assms(1) that(1), of p] that(2,3) assms(4) by auto
    ultimately show "p \<notin> set (b # fc i # F i)"
      by simp
  qed
qed (use lists_okD(2,3) [OF assms(1,3)] assms(4,5) in auto)

lemma arenas_ok_give:
  assumes "arenas_ok ar kd U F" and "U (block_2_arena b) = Some (Small i)"
  defines "a \<equiv> block_2_arena b"
  shows "arenas_ok (ar(a := (ar a)\<lparr>cnt := cnt (ar a) + 1\<rparr>)) kd U (F(i := F i @ [b]))"
proof -
  have "nfree (F(i := F i @ [b])) j c = nfree F j c" if "j \<noteq> i \<or> c \<noteq> a" for j c
    using that by (auto simp: nfree_def a_def)
  moreover have "nfree (F(i := F i @ [b])) i a = Suc (nfree F i a)"
    by (simp add: nfree_def a_def)
  ultimately have "(ar(a := (ar a)\<lparr>cnt := cnt (ar a) + 1\<rparr>)) c = \<lparr>desc = kd j, cnt = of_nat (nfree (F(i := F i @ [b])) j c)\<rparr>" if "U c = Some (Small j)" for c j
    using that arenas_okD(2) [OF assms(1) that] assms(2) by (cases "c = a") (simp_all add: a_def)
  moreover have "(ar(a := (ar a)\<lparr>cnt := cnt (ar a) + 1\<rparr>)) c = \<lparr>desc = NULL, cnt = n\<rparr>" if "U c = Some (Large n)" for c n
    using that arenas_okD(3) [OF assms(1) that] assms(2) by (cases "c = a") (simp_all add: a_def)
  ultimately show ?thesis
    using arenas_okD(1) [OF assms(1)] by (simp add: arenas_ok_def)
qed

text \<open>Dropping the blocks of a page that is given back.\<close>

definition without_page :: "u32 \<Rightarrow> u32 list \<Rightarrow> u32 list" where
  "without_page a xs = filter (\<lambda>x. block_2_arena x \<noteq> a) xs"

lemma lists_ok_drop:
  assumes "lists_ok fc h U F" and "cells_ok fc U" and "i < 7" and "U a = Some (Small i)" and "ring h' (fc i # without_page a (F i))"
    and "\<And>p. p \<notin> set (fc i # F i) \<Longrightarrow> h' p = h p"
  shows "lists_ok fc h' (U(a := None)) (F(i := without_page a (F i)))"
proof (rule lists_ok_upd [OF assms(1,3,5)])
  show "h' p = h p" if "j < 7" "j \<noteq> i" "p \<in> set (fc j # F j)" for j p
    using lists_disjoint [OF assms(1-3) that(1)] that(2,3) assms(6) by blast
  show "(U(a := None)) (block_2_arena b) = U (block_2_arena b)" if "j < 7" "j \<noteq> i" "b \<in> set (F j)" for j b
    using lists_okD(2) [OF assms(1) that(1,3)] that(2) assms(4) by auto
qed (use lists_okD(2,3) [OF assms(1,3)] in \<open>auto simp: without_page_def\<close>)

lemma arenas_ok_drop:
  assumes "arenas_ok ar kd U F"
  shows "arenas_ok ar kd (U(a := None)) (F(i := without_page a (F i)))"
proof -
  have "nfree (F(i := without_page a (F i))) j c = nfree F j c" if "c \<noteq> a" for j c
    using that by (auto simp: nfree_def without_page_def intro!: arg_cong [of _ _ length] filter_cong)
  then show ?thesis
    using assms by (simp add: arenas_ok_def)
qed

lemma arenas_ok_remove: "arenas_ok ar kd U F \<Longrightarrow> arenas_ok ar kd (U(a := None)) F"
  by (simp add: arenas_ok_def)

lemma block_offset:
  assumes "page a" and "i < 7" and "b \<in> set (blocks a i)"
  obtains off where "b = a + of_nat off" and "off < 4096"
proof -
  obtain k where k: "k < nblk i" "b = blk a i k"
    using assms(3) by (auto simp: in_blocks)
  then have "8 + k * bsz i < 4096"
    using block_fits [OF assms(2) k(1)] class_sizes [OF assms(2)] by simp
  then show ?thesis
    using k(2) that unfolding blk_def by blast
qed

section \<open>Blocks that are handed out\<close>

text \<open>The live small blocks with their class, and the live large allocations.\<close>

definition live_small :: "uses \<Rightarrow> (nat \<Rightarrow> u32 list) \<Rightarrow> (u32 \<times> nat) set" where
  "live_small U F = {(b, i). U (block_2_arena b) = Some (Small i) \<and> b \<in> set (blocks (block_2_arena b) i) \<and> b \<notin> set (F i)}"

definition live_large :: "uses \<Rightarrow> (u32 \<times> u32) set" where
  "live_large U = {(a, n). U a = Some (Large n)}"

lemma live_give:
  assumes "(b, i) \<in> live_small U F"
  shows "live_small U (F(i := F i @ [b])) = live_small U F - {(b, i)}"
  using assms by (auto simp: live_small_def split: if_splits)

lemma live_drop:
  assumes "U a = Some (Small i)" and "set (blocks a i) \<subseteq> set (F i)"
  shows "live_small (U(a := None)) (F(i := without_page a (F i))) = live_small U F"
  using assms by (auto simp: live_small_def without_page_def split: if_splits)

lemma live_large_small [simp]: "U a = Some (Small i) \<Longrightarrow> live_large (U(a := None)) = live_large U"
  by (auto simp: live_large_def split: if_splits)

text \<open>The pages of a large request.\<close>

definition large_pages :: "u32 \<Rightarrow> u32" where
  "large_pages sz = DIV_ROUND_UP (sz + sizeof_arena) PAGE_SIZE"

lemma large_pages:
  assumes "unat sz \<le> 2147483648"
  shows "unat (large_pages sz) = (unat sz + 4103) div 4096" and "unat sz + 8 \<le> 4096 * unat (large_pages sz)" and "large_pages sz \<noteq> 0"
proof -
  have "large_pages sz = (sz + of_nat 4103) div 4096"
    by (simp add: large_pages_def DIV_ROUND_UP_def PAGE_SIZE_def sizeof_arena_def add.commute)
  then have "unat (large_pages sz) = unat (sz + of_nat 4103) div 4096"
    by (simp add: unat_div)
  also have "unat (sz + of_nat 4103) = unat sz + 4103"
    using assms by (subst unat_add_u32) simp_all
  finally show eq: "unat (large_pages sz) = (unat sz + 4103) div 4096" .
  then show "unat sz + 8 \<le> 4096 * unat (large_pages sz)"
    by simp
  have "0 < unat (large_pages sz)"
    unfolding eq by simp
  then show "large_pages sz \<noteq> 0"
    by (simp add: unat_gt_0)
qed

lemma free_small_inv:
  assumes inv: "heap_inv s U F" and live: "(b, i) \<in> live_small U F"
  obtains m h ar U' F' where "free_body PF_KERNEL b s = Some ((), heap_upd m h ar s)" and "heap_inv (heap_upd m h ar s) U' F'"
    and "live_small U' F' = live_small U F - {(b, i)}" and "live_large U' = live_large U"
proof -
  let ?a = "block_2_arena b"
  note parts = heap_invD [OF inv]
  have b: "U ?a = Some (Small i)" "b \<in> set (blocks ?a i)" "b \<notin> set (F i)"
    using live by (simp_all add: live_small_def)
  have i: "i < 7" and hdr: "arenas s ?a = \<lparr>desc = kdesc s i, cnt = of_nat (nfree F i ?a)\<rparr>"
    using arenas_okD(1,2) [OF parts(3)] b(1) by auto
  have pg: "page ?a"
    by (rule used_page(1) [OF parts(1) b(1)])
  note cells = heap_cells [OF parts(1,2)]
  let ?F = "F(i := F i @ [b])" and ?h = "list_add_prev (nodes s) (free_cell s i) b"
    and ?ar = "(arenas s)(?a := (arenas s ?a)\<lparr>cnt := cnt (arenas s ?a) + 1\<rparr>)"
  let ?s = "heap_upd (ram s) ?h ?ar s"
  have ls: "lists_ok (free_cell s) ?h U ?F" and ars: "arenas_ok ?ar (kdesc s) U ?F"
    by (rule lists_ok_give [OF parts(4) cells i b], rule arenas_ok_give [OF parts(3) b(1)])
  have kp: "kpage_inv (?s, ledger U)"
    by (rule kpage_inv_heap_upd [OF parts(1)])
  have dn: "kdesc s i \<noteq> NULL" "free_list (kdesc s i) = free_cell s i"
    using free_cell_props(4) [OF parts(2) i] by (simp_all add: free_cell_def)
  have nf: "nfree ?F i ?a = Suc (nfree F i ?a)"
    by (simp add: nfree_def)
  have bnd: "nfree ?F i ?a \<le> nblk i"
    by (rule free_in_page(2) [OF ls i pg])
  have cn: "cnt (?ar ?a) = of_nat (nfree ?F i ?a)"
    using hdr nf by simp
  have full: "cnt (?ar ?a) = of_nat (nblk i) \<longleftrightarrow> nfree ?F i ?a = nblk i"
    unfolding cn using bnd class_sizes [OF i] by (intro of_nat_inj_u32) simp_all
  have body: "free_body PF_KERNEL b s =
      (if nfree ?F i ?a = nblk i then map_option (Pair ()) (page_free PF_KERNEL b 1 (unlink_loop ?a (nblk i) ?s)) else Some ((), ?s))"
  proof -
    have "free_body PF_KERNEL b s = (if cnt (?ar ?a) = of_nat (nblk i)
        then map_option (Pair ()) (page_free PF_KERNEL b 1 (unlink_loop ?a (unat (cnt (?ar ?a))) ?s)) else Some ((), ?s))"
      using hdr dn kdesc_entry [OF parts(2) i]
      by (simp add: free_body_def heap_upd_def Let_def map_option_case split: option.split)
    moreover have "unat (cnt (?ar ?a)) = nblk i" if "nfree ?F i ?a = nblk i"
      unfolding cn that by (rule nblk_u32 [OF i])
    ultimately show ?thesis
      unfolding full by (cases "nfree ?F i ?a = nblk i") (simp_all only: if_True if_False)
  qed
  show ?thesis
  proof (cases "nfree ?F i ?a = nblk i")
    case False
    have "heap_inv ?s U ?F"
      by (rule heap_inv_updI [OF kp parts(2) ars ls])
    then show ?thesis
      using that [of "ram s" ?h ?ar U ?F] body False live_give [OF live] by simp
  next
    case True
    note all = free_in_page(3) [OF ls i pg True]
    have "ring (nodes ?s) (free_cell ?s i # ?F i)" "desc (arenas ?s ?a) = kdesc ?s i" "descs_ok ?s"
      using lists_okD(1) [OF ls i] hdr parts(2) by simp_all
    then obtain h where h: "unlink_loop ?a (nblk i) ?s = ?s\<lparr>nodes := h\<rparr>" "ring h (free_cell ?s i # filter (\<lambda>x. x \<notin> blk ?a i ` {..< nblk i}) (?F i))"
        and fr: "\<And>p. p \<notin> set (free_cell ?s i # ?F i) \<Longrightarrow> h p = nodes ?s p"
      using unlink_loop_ring [of ?s i ?a "?F i" "nblk i"] i pg all by blast
    have "filter (\<lambda>x. x \<notin> blk ?a i ` {..< nblk i}) (?F i) = without_page ?a (?F i)"
      unfolding without_page_def
    proof (rule filter_cong [OF refl])
      fix x assume x: "x \<in> set (?F i)"
      show "x \<notin> blk ?a i ` {..< nblk i} \<longleftrightarrow> block_2_arena x \<noteq> ?a"
        using lists_okD(3) [OF ls i x] block_2_arena_blk [OF pg i] by (auto simp: in_blocks)
    qed
    then have lsd: "lists_ok (free_cell s) h (U(?a := None)) (?F(i := without_page ?a (?F i)))"
      using lists_ok_drop [OF ls cells i b(1), of h] h(2) fr by simp
    have arsd: "arenas_ok ?ar (kdesc s) (U(?a := None)) (?F(i := without_page ?a (?F i)))"
      by (rule arenas_ok_drop [OF ars])
    obtain off where off: "b = ?a + of_nat off" "off < 4096"
      using block_offset [OF pg i b(2)] .
    have "kpage_inv (heap_upd (ram s) h ?ar s, ledger U)"
      by (rule kpage_inv_heap_upd [OF parts(1)])
    moreover have "(?a, 1) \<in> ledger U"
      using b(1) by (simp add: ledger_def)
    ultimately obtain m where m: "page_free PF_KERNEL (?a + of_nat off) 1 (heap_upd (ram s) h ?ar s) = Some ((heap_upd (ram s) h ?ar s)\<lparr>ram := m\<rparr>)"
        "kpage_inv ((heap_upd (ram s) h ?ar s)\<lparr>ram := m\<rparr>, ledger U - {(?a, 1)})"
      using kpage_inv_free [OF _ _ off(2)] by blast
    have pf: "page_free PF_KERNEL b 1 (unlink_loop ?a (nblk i) ?s) = Some (heap_upd m h ?ar s)"
    proof -
      have "?s\<lparr>nodes := h\<rparr> = heap_upd (ram s) h ?ar s" and "(heap_upd (ram s) h ?ar s)\<lparr>ram := m\<rparr> = heap_upd m h ?ar s"
        by (simp_all add: heap_upd_def)
      then show ?thesis
        using m(1) unfolding h(1) off(1) [symmetric] by (simp only:)
    qed
    have st: "(heap_upd (ram s) h ?ar s)\<lparr>ram := m\<rparr> = heap_upd m h ?ar s"
      by (simp add: heap_upd_def)
    have "ledger U - {(?a, 1)} = ledger (U(?a := None))"
      using ledger_delete [of U ?a "Small i"] b(1) by simp
    then have "kpage_inv (heap_upd m h ?ar s, ledger (U(?a := None)))"
      using m(2) unfolding st by simp
    then have hi: "heap_inv (heap_upd m h ?ar s) (U(?a := None)) (?F(i := without_page ?a (?F i)))"
      using lsd arsd by (intro heap_inv_updI parts(2))
    have ll: "live_small (U(?a := None)) (?F(i := without_page ?a (?F i))) = live_small U F - {(b, i)}"
      using live_drop [of U ?a i ?F] b(1) all live_give [OF live] by simp
    have "free_body PF_KERNEL b s = Some ((), heap_upd m h ?ar s)"
      unfolding body pf using True by simp
    then show ?thesis
      using that hi ll live_large_small [of U ?a i] b(1) by blast
  qed
qed

text \<open>The smallest class whose blocks hold \<open>n\<close> bytes.\<close>

definition size_class :: "nat \<Rightarrow> nat" where
  "size_class n = length (takeWhile (\<lambda>i. bsz i < n) [0 ..< 7])"

lemma size_class:
  assumes "n \<le> 1024"
  shows "size_class n < 7" and "n \<le> bsz (size_class n)" and "j < size_class n \<Longrightarrow> bsz j < n"
proof -
  let ?P = "\<lambda>i. bsz i < n"
  have "size_class n \<noteq> 7"
  proof
    assume "size_class n = 7"
    then have "length (takeWhile ?P [0 ..< 7]) = length [0 ..< (7 :: nat)]"
      by (simp add: size_class_def)
    then have "takeWhile ?P [0 ..< 7] = [0 ..< 7]"
      by (metis takeWhile_eq_take take_all order_refl)
    then have "\<forall>i \<in> set [0 ..< 7]. ?P i"
      by (simp only: takeWhile_eq_all_conv)
    then show False
      using assms by (auto simp: bsz_def dest!: bspec [of _ _ 6])
  qed
  moreover have "size_class n \<le> 7"
    using length_takeWhile_le [of ?P "[0 ..< 7]"] by (simp add: size_class_def)
  ultimately show lt: "size_class n < 7"
    by simp
  then show "n \<le> bsz (size_class n)"
    using nth_length_takeWhile [of ?P "[0 ..< 7]"] by (simp add: size_class_def)
  assume "j < size_class n"
  then show "bsz j < n"
    using takeWhile_nth [of j ?P "[0 ..< 7]"] set_takeWhileD [OF nth_mem, of j ?P "[0 ..< 7]"] lt by (simp add: size_class_def)
qed

lemma size_class_u32: "sz \<le> 1024 \<Longrightarrow> size_class (unat sz) < 7 \<and> unat sz \<le> bsz (size_class (unat sz))" for sz :: u32
  using size_class(1,2) [of "unat sz"] by (simp add: word_le_nat_alt)

lemma find_desc_class:
  assumes "descs_ok s" and "sz \<le> 1024" and "k \<le> size_class (unat sz)"
  shows "find_desc s (kernel_block_desc_array s) sz k = size_class (unat sz)"
  using assms(3)
proof (induction k rule: inc_induct)
  have sz: "unat sz \<le> 1024"
    using assms(2) by (simp add: word_le_nat_alt)
  note c = size_class [OF sz]
  have le: "sz \<le> block_size (block_descs s (desc_at (kernel_block_desc_array s) j)) \<longleftrightarrow> unat sz \<le> bsz j" if "j < 7" for j
    using kdesc_entry [OF assms(1) that] bsz_u32 [OF that] by (simp add: kdesc_def word_le_nat_alt)
  {
    case base
    show ?case
      using le [OF c(1)] c(2) by (subst find_desc.simps) simp
  next
    case (step j)
    then have "j < 7" "bsz j < unat sz"
      using c(1) c(3) [of j] by simp_all
    with step le [of j] show ?case
      by (subst find_desc.simps) (simp add: MEM_DESC_CNT_def)
  }
qed

lemma live_take:
  assumes "F i = b # bs" and "U (block_2_arena b) = Some (Small i)" and "b \<in> set (blocks (block_2_arena b) i)" and "distinct (b # bs)"
  shows "live_small U (F(i := bs)) = insert (b, i) (live_small U F)" and "(b, i) \<notin> live_small U F"
  using assms by (auto simp: live_small_def split: if_splits)

lemma live_new_arena:
  assumes "U a = None" and "page a" and "i < 7" and "F i = []"
  shows "live_small (U(a \<mapsto> Small i)) (F(i := blocks a i)) = live_small U F" and "live_large (U(a \<mapsto> Small i)) = live_large U"
proof -
  have "(x, j) \<in> live_small (U(a \<mapsto> Small i)) (F(i := blocks a i)) \<longleftrightarrow> (x, j) \<in> live_small U F" for x j
  proof (cases "block_2_arena x = a")
    case True
    then show ?thesis
      using assms(1) by (simp add: live_small_def)
  next
    case False
    then have "x \<notin> set (blocks a i)"
      using block_in_new_arena [OF assms(2,3)] by blast
    then show ?thesis
      using False assms(4) by (simp add: live_small_def)
  qed
  then show "live_small (U(a \<mapsto> Small i)) (F(i := blocks a i)) = live_small U F"
    by (intro set_eqI) (simp only: split_paired_all)
  show "live_large (U(a \<mapsto> Small i)) = live_large U"
    using assms(1) by (auto simp: live_large_def split: if_splits)
qed

lemma live_new_large:
  assumes "U a = None"
  shows "live_small (U(a \<mapsto> Large n)) F = live_small U F" and "live_large (U(a \<mapsto> Large n)) = insert (a, n) (live_large U)"
  using assms by (auto simp: live_small_def live_large_def split: if_splits)

lemma ring_length: "ring h (c # xs) \<Longrightarrow> length xs < 4294967296"
  using card_mono [of "UNIV :: u32 set" "set (c # xs)"] distinct_card [of "c # xs"] ring_distinct [of h "c # xs"] by (simp add: card_word)

lemma malloc_body_small:
  assumes inv: "heap_inv s U F" and "sz \<le> 1024"
  defines "i \<equiv> size_class (unat sz)"
  shows "malloc_body PF_KERNEL (kernel_block_desc_array s) sz s = do {
     (ok, t) \<leftarrow> (if F i = [] then new_arena PF_KERNEL (kdesc s i) s else Some (True, s));
     if ok then take_block (kdesc s i) t else Some (NULL, t) }"
proof -
  note parts = heap_invD [OF inv]
  have i: "i < 7"
    using size_class_u32 [OF assms(2)] by (simp add: i_def)
  have fd: "find_desc s (kernel_block_desc_array s) sz 0 = i"
    using find_desc_class [OF parts(2) assms(2)] by (simp add: i_def)
  note r = lists_okD(1) [OF parts(4) i]
  have em: "list_empty (nodes s) (free_list (kdesc s i)) = Some (F i = [])"
    using list_empty_ring [OF r ring_length [OF r]] by (simp add: free_cell_def)
  show ?thesis
    using assms(2) i em by (simp add: malloc_body_def fd MEM_DESC_CNT_def ASSERT_def kdesc_def [symmetric] Let_def linorder_not_less [symmetric] split del: if_split)
qed

lemma malloc_small_inv:
  assumes inv: "heap_inv s U F" and sz: "sz \<le> 1024" and body: "malloc_body PF_KERNEL (kernel_block_desc_array s) sz s = Some (p, s')"
  defines "i \<equiv> size_class (unat sz)"
  obtains (none) "p = NULL" and "s' = s"
  | (block) m h ar U' F' where "s' = heap_upd m h ar s" and "heap_inv s' U' F'" and "(p, i) \<notin> live_small U F"
      and "live_small U' F' = insert (p, i) (live_small U F)" and "live_large U' = live_large U" and "p \<noteq> NULL" and "\<forall>x \<in> span p (bsz i). ram s' x = 0"
      and "U (block_2_arena p) = None \<or> U (block_2_arena p) = Some (Small i)"
proof -
  note parts = heap_invD [OF inv]
  have i: "i < 7"
    using size_class(1) [of "unat sz"] sz by (simp add: i_def word_le_nat_alt)
  have body': "do { (ok, t) \<leftarrow> (if F i = [] then new_arena PF_KERNEL (kdesc s i) s else Some (True, s));
      if ok then take_block (kdesc s i) t else Some (NULL, t) } = Some (p, s')"
    using malloc_body_small [OF inv sz] body by (simp only: i_def)
  have got: thesis if t: "heap_inv t U1 F1" "t = heap_upd m0 h0 ar0 s" "F1 i = b # bs" "take_block (kdesc s i) t = Some (p, s')"
      "live_small U1 F1 = live_small U F" "live_large U1 = live_large U" "U (block_2_arena b) = None \<or> U (block_2_arena b) = Some (Small i)"
    for t U1 F1 m0 h0 ar0 b bs
  proof -
    have kd: "kdesc t i = kdesc s i"
      unfolding t(2) by simp
    obtain m h ar where tk: "take_block (kdesc s i) t = Some (b, heap_upd m h ar t)" "heap_inv (heap_upd m h ar t) U1 (F1(i := bs))" "\<forall>x \<in> span b (bsz i). m x = 0"
      using take_block_inv [OF t(1) i t(3)] unfolding kd by metis
    have bp: "U1 (block_2_arena b) = Some (Small i)" "b \<in> set (blocks (block_2_arena b) i)" "page (block_2_arena b)"
      using free_block_props [OF t(1) i, of b] t(3) by simp_all
    have "distinct (b # bs)"
      using ring_distinct [OF lists_okD(1) [OF heap_invD(4) [OF t(1)] i]] t(3) by simp
    note live = live_take [of F1 i b bs U1, OF t(3) bp(1,2) this]
    have eq: "p = b" "s' = heap_upd m h ar s"
      using tk(1) t(2,4) by simp_all
    have "heap_upd m h ar t = heap_upd m h ar s"
      unfolding t(2) by simp
    then show thesis
      using block [of m h ar U1 "F1(i := bs)"] tk(2,3) live t(5-7) block_not_NULL [OF bp(3) i bp(2)] unfolding eq by simp
  qed
  show ?thesis
  proof (cases "F i")
    case (Cons b bs)
    have "take_block (kdesc s i) s = Some (p, s')"
      using body' Cons by simp
    moreover have "U (block_2_arena b) = Some (Small i)"
      using free_block_props(1) [OF inv i, of b] Cons by simp
    ultimately show ?thesis
      using got [OF inv heap_upd_id [symmetric] Cons] by blast
  next
    case Nil
    obtain ok s1 where na: "new_arena PF_KERNEL (kdesc s i) s = Some (ok, s1)" and tk: "(if ok then take_block (kdesc s i) s1 else Some (NULL, s1)) = Some (p, s')"
      using body' Nil by (auto split: bind_splits)
    obtain a s0 where al: "page_alloc PF_KERNEL 1 s = Some (a, s0)"
      using na by (auto simp: new_arena_def split: bind_splits)
    show ?thesis
    proof (cases "a = NULL")
      case True
      then have "s0 = s"
        by (cases rule: page_alloc_kernel_cases [OF parts(6) al one_neq_zero]) (use page_at_not_NULL [OF parts(6)] True in auto)
      then show ?thesis
        using none na al tk True by (simp add: new_arena_def)
    next
      case False
      obtain m h ar where new: "new_arena PF_KERNEL (kdesc s i) s = Some (True, heap_upd m h ar s)"
          "heap_inv (heap_upd m h ar s) (U(a \<mapsto> Small i)) (F(i := blocks a i))" "U a = None" "page a"
        using new_arena_inv [OF inv i Nil al False] .
      have "0 < nblk i"
        using class_sizes [OF i] by simp
      then have "blk a i 0 \<in> set (blocks a i)"
        unfolding in_blocks by blast
      then obtain b bs where bs: "blocks a i = b # bs"
        by (cases "blocks a i") auto
      then have "block_2_arena b = a"
        using block_in_new_arena [OF new(4) i, of b] by simp
      then show ?thesis
        using got [OF new(2) refl, of b bs] bs na new(1,3) tk live_new_arena [of U a i F, OF new(3,4) i Nil] by simp
    qed
  qed
qed

lemma arenas_ok_large:
  assumes "arenas_ok ar kd U F" and "U a = None" and "page a" and "lists_ok fc h U F" and "\<And>c u. U c = Some u \<Longrightarrow> ar' c = ar c"
  shows "arenas_ok (ar'(a := \<lparr>desc = NULL, cnt = n\<rparr>)) kd (U(a \<mapsto> Large n)) F"
  using arenas_okD [OF assms(1)] assms(2,5) by (auto simp: arenas_ok_def)

lemma lists_ok_add:
  assumes "lists_ok fc h U F" and "U a = None"
  shows "lists_ok fc h (U(a \<mapsto> u)) F"
  using assms by (auto simp: lists_ok_def)

lemma lists_ok_remove:
  assumes "lists_ok fc h U F" and "U a = Some (Large n)"
  shows "lists_ok fc h (U(a := None)) F"
  using assms unfolding lists_ok_def by (auto dest: bspec)

lemma malloc_body_large:
  "1024 < sz \<Longrightarrow> malloc_body PF_KERNEL d sz s = do {
     (a, t) \<leftarrow> page_alloc PF_KERNEL (large_pages sz) s;
     if a = NULL then Some (NULL, t)
     else do {
       t \<leftarrow> memset_pages a (large_pages sz * PAGE_SIZE) t;
       Some (a + 8, t\<lparr>arenas := (arenas t)(a := \<lparr>desc = NULL, cnt = large_pages sz\<rparr>)\<rparr>)
     }
   }"
  by (simp add: malloc_body_def large_pages_def sizeof_arena_def Let_def cong: if_cong)

lemma malloc_large_inv:
  assumes inv: "heap_inv s U F" and sz: "1024 < sz" "unat sz \<le> 2147483648" and body: "malloc_body PF_KERNEL d sz s = Some (p, s')"
  obtains (none) "p = NULL" and "s' = s"
  | (pages) m h ar a where "s' = heap_upd m h ar s" and "p = a + 8" and "page a" and "U a = None" and "heap_inv s' (U(a \<mapsto> Large (large_pages sz))) F"
      and "\<forall>x \<in> span a (4096 * unat (large_pages sz)). m x = 0"
proof -
  note parts = heap_invD [OF inv]
  let ?n = "large_pages sz"
  note n = large_pages [OF sz(2)]
  obtain a s1 where al: "page_alloc PF_KERNEL ?n s = Some (a, s1)"
    using body by (auto simp: malloc_body_large [OF sz(1)] split: bind_splits)
  show ?thesis
  proof (cases "a = NULL")
    case True
    then have "s1 = s"
      by (cases rule: page_alloc_kernel_cases [OF parts(6) al n(3)]) (use page_at_not_NULL [OF parts(6)] True in auto)
    then show ?thesis
      using none body al True by (simp add: malloc_body_large [OF sz(1)])
  next
    case False
    obtain m where m: "s1 = s\<lparr>ram := m\<rparr>" "U a = None" "page a"
      and kp: "\<And>h ar. kpage_inv (heap_upd (zero_mem a (?n * PAGE_SIZE) m) h ar s, insert (a, ?n) (ledger U))"
      and ls: "lists_ok (free_cell s) (zero_cells a (?n * PAGE_SIZE) (nodes s)) U F"
      and ar: "\<And>c u. U c = Some u \<Longrightarrow> zero_arenas a (?n * PAGE_SIZE) (arenas s) c = arenas s c"
      using heap_new_pages [OF inv al False n(3)] by blast
    let ?m = "zero_mem a (?n * PAGE_SIZE) m" and ?h = "zero_cells a (?n * PAGE_SIZE) (nodes s)" and ?az = "zero_arenas a (?n * PAGE_SIZE) (arenas s)"
    let ?ar = "?az(a := \<lparr>desc = NULL, cnt = ?n\<rparr>)" and ?U = "U(a \<mapsto> Large ?n)"
    have "memset_pages a (?n * PAGE_SIZE) s1 = Some (heap_upd ?m ?h ?az s)"
      using False m(1) by (simp add: memset_pages_eq zero_pages_heap_upd) (simp add: heap_upd_def)
    moreover have "(heap_upd ?m ?h ?az s)\<lparr>arenas := ?ar\<rparr> = heap_upd ?m ?h ?ar s"
      by (simp add: heap_upd_def)
    ultimately have eq: "p = a + 8" "s' = heap_upd ?m ?h ?ar s"
      using body al False by (simp_all add: malloc_body_large [OF sz(1)])
    have "heap_inv (heap_upd ?m ?h ?ar s) ?U F"
    proof (rule heap_inv_updI [OF _ parts(2)])
      show "kpage_inv (heap_upd ?m ?h ?ar s, ledger ?U)"
        using kp [of ?h ?ar] ledger_insert [of U a "Large ?n"] m(2) by simp
      show "arenas_ok ?ar (kdesc s) ?U F"
        by (rule arenas_ok_large [OF parts(3) m(2,3) parts(4) ar])
      show "lists_ok (free_cell s) ?h ?U F"
        by (rule lists_ok_add [OF ls m(2)])
    qed
    moreover have "span a (unat (?n * PAGE_SIZE)) = span a (4096 * unat ?n)"
      using n(1) sz(2) by (simp add: PAGE_SIZE_def unat_word_ariths mult.commute)
    then have "\<forall>x \<in> span a (4096 * unat ?n). ?m x = 0"
      by (simp add: zero_mem_def)
    ultimately show ?thesis
      using pages [OF eq(2,1) m(3,2)] unfolding eq by blast
  qed
qed

lemma free_large_inv:
  assumes inv: "heap_inv s U F" and live: "U a = Some (Large n)"
  obtains m where "free_body PF_KERNEL (a + 8) s = Some ((), heap_upd m (nodes s) (arenas s) s)" and "heap_inv (heap_upd m (nodes s) (arenas s) s) (U(a := None)) F"
proof -
  note parts = heap_invD [OF inv]
  have pg: "page a"
    by (rule used_page(1) [OF parts(1) live])
  then have b2a: "block_2_arena (a + 8) = a"
    using block_2_arena_in_page [of a 8] by simp
  have hdr: "arenas s a = \<lparr>desc = NULL, cnt = n\<rparr>"
    by (rule arenas_okD(3) [OF parts(3) live])
  have mem: "(a, n) \<in> ledger U"
    unfolding ledger_def using live by auto
  obtain m where m: "page_free PF_KERNEL (a + of_nat 8) n s = Some (s\<lparr>ram := m\<rparr>)" "kpage_inv (s\<lparr>ram := m\<rparr>, ledger U - {(a, n)})"
    by (rule kpage_inv_free [OF parts(1) mem, of 8]) simp_all
  have st: "s\<lparr>ram := m\<rparr> = heap_upd m (nodes s) (arenas s) s"
    by (simp add: heap_upd_def)
  have "free_body PF_KERNEL (a + 8) s = Some ((), heap_upd m (nodes s) (arenas s) s)"
    using m(1) unfolding st by (simp add: free_body_def b2a hdr)
  moreover have "ledger U - {(a, n)} = ledger (U(a := None))"
    using ledger_delete [of U a "Large n"] live by simp
  then have "kpage_inv (heap_upd m (nodes s) (arenas s) s, ledger (U(a := None)))"
    using m(2) unfolding st by simp
  then have "heap_inv (heap_upd m (nodes s) (arenas s) s) (U(a := None)) F"
    by (rule heap_inv_updI [OF _ parts(2) arenas_ok_remove [OF parts(3)] lists_ok_remove [OF parts(4) live]])
  ultimately show ?thesis
    by (rule that)
qed

section \<open>Calls of the allocator\<close>

text \<open>
  What a caller holds: the pointer and the size it asked for. \<open>heap_step\<close> is a call of \<open>sys_malloc\<close> or of
  \<open>sys_free\<close> on a pointer held, by a kernel thread that finds the pool unlocked, or what a caller does with the block of a pointer
  held: it writes any bytes of it.
\<close>

inductive heap_step :: "'a mem_state_scheme \<times> (u32 \<times> u32) set \<Rightarrow> 'a mem_state_scheme \<times> (u32 \<times> u32) set \<Rightarrow> bool" where
  malloc: "sys_malloc sz s = Some (Returned p, s') \<Longrightarrow> p \<noteq> NULL \<Longrightarrow> heap_step (s, L) (s', insert (p, sz) L)"
| no_room: "sys_malloc sz s = Some (Returned NULL, s') \<Longrightarrow> heap_step (s, L) (s', L)"
| free: "(p, sz) \<in> L \<Longrightarrow> sys_free p s = Some (Returned (), s') \<Longrightarrow> heap_step (s, L) (s', L - {(p, sz)})"
| client: "(p, sz) \<in> L \<Longrightarrow> (\<forall>a. a \<notin> span p (unat sz) \<longrightarrow> m a = ram s a) \<Longrightarrow> heap_step (s, L) (s\<lparr>ram := m\<rparr>, L)"

definition kernel_caller :: "'a mem_state_scheme \<Rightarrow> bool" where
  "kernel_caller s \<longleftrightarrow> pde_addr (tasks s (current_task s)) = NULL \<and> lock_free (pool_lock (kernel_pool s)) s \<and> KERNEL_HEAP_BASE \<le> vm_start (kernel_vm_pool s)"

text \<open>A heap in which every block is free or given back.\<close>

definition heap_ready :: "'a mem_state_scheme \<Rightarrow> bool" where
  "heap_ready s \<longleftrightarrow> kernel_caller s \<and> kpool_ok s \<and> descs_ok s \<and> (\<forall>i < 7. ring (nodes s) [free_cell s i])"

fun owns :: "uses \<Rightarrow> (nat \<Rightarrow> u32 list) \<Rightarrow> u32 \<times> u32 \<Rightarrow> bool" where
  "owns U F (p, sz) \<longleftrightarrow> (if sz \<le> 1024 then (p, size_class (unat sz)) \<in> live_small U F
     else unat sz \<le> 2147483648 \<and> p = block_2_arena p + 8 \<and> (block_2_arena p, large_pages sz) \<in> live_large U)"

fun call_inv :: "'a mem_state_scheme \<times> (u32 \<times> u32) set \<Rightarrow> bool" where
  "call_inv (s, L) \<longleftrightarrow> kernel_caller s \<and> inj_on fst L \<and> (\<exists>U F. heap_inv s U F \<and> (\<forall>x \<in> L. owns U F x))"

lemma lock_held_heap [simp]: "heap_inv (lock_held l s) U F = heap_inv s U F" "descs_ok (lock_held l s) = descs_ok s" "kdesc (lock_held l s) = kdesc s"
proof -
  show kd: "kdesc (lock_held l s) = kdesc s"
    by (simp add: kdesc_def fun_eq_iff)
  show "descs_ok (lock_held l s) = descs_ok s"
    by (simp add: descs_ok_def kd)
  moreover have "kpage_inv (lock_held l s, L) = kpage_inv (s, L)" for L
    by (simp add: kpage_inv.simps live_ok_def alloc_pages_def alloc_start_def)
  moreover have "free_cell (lock_held l s) = free_cell s"
    by (simp add: free_cell_def kd fun_eq_iff)
  ultimately show "heap_inv (lock_held l s) U F = heap_inv s U F"
    by (simp add: heap_inv_def kd)
qed

lemma lock_held_heap_upd: "heap_upd m h ar (lock_held l s) = lock_held l (heap_upd m h ar s)"
  by (simp add: heap_upd_def lock_held_upd_mem)

lemma lock_free_heap_upd [simp]: "lock_free l (heap_upd m h ar s) = lock_free l s"
  by (simp add: heap_upd_def)

lemma kernel_caller_heap_upd [simp]: "kernel_caller (heap_upd m h ar s) = kernel_caller s"
  by (simp add: kernel_caller_def)

text \<open>A section under the lock that changes only the heap.\<close>

lemma pool_section_heap:
  assumes "lock_free l s" and "body (lock_held l s) = Some (r, heap_upd m h ar (lock_held l s))"
  shows "pool_section l body s = Some (Returned r, heap_upd m h ar s)"
  using assms by (intro pool_section_free) (simp_all add: lock_held_heap_upd)

lemma sys_malloc_section:
  assumes "kernel_caller s" and "sz \<noteq> 0" and "sz \<le> pool_size (kernel_pool s)"
  shows "sys_malloc sz s = pool_section (pool_lock (kernel_pool s)) (malloc_body PF_KERNEL (kernel_block_desc_array s) sz) s"
  using assms by (auto simp: sys_malloc_def kernel_caller_def get_cur_task_def Let_def)

lemma sys_malloc_invalid:
  assumes "kernel_caller s" and "sz = 0 \<or> pool_size (kernel_pool s) < sz"
  shows "sys_malloc sz s = Some (Returned NULL, s)"
  using assms by (auto simp: sys_malloc_def kernel_caller_def get_cur_task_def Let_def)

text \<open>What a call that returned did.\<close>

lemma sys_malloc_inv:
  assumes inv: "heap_inv s U F" and kc: "kernel_caller s" and call: "sys_malloc sz s = Some (Returned p, s')"
  obtains (none) "p = NULL" and "s' = s"
  | (block) m h ar U' F' where "s' = heap_upd m h ar s" and "heap_inv s' U' F'" and "p \<noteq> NULL" and "sz \<le> 1024" and "(p, size_class (unat sz)) \<notin> live_small U F"
      and "live_small U' F' = insert (p, size_class (unat sz)) (live_small U F)" and "live_large U' = live_large U" and "\<forall>x \<in> span p (bsz (size_class (unat sz))). ram s' x = 0"
      and "U (block_2_arena p) = None \<or> U (block_2_arena p) = Some (Small (size_class (unat sz)))"
  | (pages) m h ar where "s' = heap_upd m h ar s" and "p = block_2_arena p + 8" and "U (block_2_arena p) = None" and "1024 < sz" and "unat sz \<le> 2147483648"
      and "heap_inv s' (U(block_2_arena p \<mapsto> Large (large_pages sz))) F" and "\<forall>x \<in> span (block_2_arena p) (4096 * unat (large_pages sz)). ram s' x = 0"
proof (cases "sz = 0 \<or> pool_size (kernel_pool s) < sz")
  case True
  show ?thesis
    using none sys_malloc_invalid [OF kc True] call by simp
next
  case False
  let ?l = "pool_lock (kernel_pool s)" and ?b = "malloc_body PF_KERNEL (kernel_block_desc_array s) sz"
  have lk: "lock_free ?l s"
    using kc by (simp add: kernel_caller_def)
  have sec: "pool_section ?l ?b s = Some (Returned p, s')"
    using sys_malloc_section [OF kc, of sz] call False by (simp add: not_less)
  obtain q t where body: "?b (lock_held ?l s) = Some (q, t)"
    using sec lk by (auto simp: pool_section_def klock.acquire_free split: bind_splits)
  have inv': "heap_inv (lock_held ?l s) U F"
    using inv by simp
  have fin: "q = p \<and> s' = heap_upd m h ar s" if "t = heap_upd m h ar (lock_held ?l s)" for m h ar
    using pool_section_heap [OF lk, of ?b q m h ar] body that sec by simp
  have same: "q = p \<and> s' = s" if "t = lock_held ?l s"
    using fin [of "ram s" "nodes s" "arenas s"] heap_upd_id [of "lock_held ?l s"] heap_upd_id [of s] that by simp
  have upd: "heap_inv (heap_upd m h ar (lock_held ?l s)) U' F' = heap_inv (heap_upd m h ar s) U' F'" for m h ar U' F'
    by (simp add: lock_held_heap_upd)
  show ?thesis
  proof (cases "sz \<le> 1024")
    case True
    have body': "malloc_body PF_KERNEL (kernel_block_desc_array (lock_held ?l s)) sz (lock_held ?l s) = Some (q, t)"
      using body by simp
    show ?thesis
    proof (cases rule: malloc_small_inv [OF inv' True body'])
      case 1
      then show ?thesis
        using none same by simp
    next
      case (2 m h ar U' F')
      with fin [OF 2(1)] upd show ?thesis
        using block [of m h ar U' F'] True by simp
    qed
  next
    case False
    have "unat sz \<le> 2147483648"
      using \<open>\<not> (sz = 0 \<or> pool_size (kernel_pool s) < sz)\<close> heap_invD(2) [OF inv] by (auto simp: descs_ok_def word_le_nat_alt not_less)
    note sz = this
    have gt: "1024 < sz"
      using False by simp
    show ?thesis
    proof (cases rule: malloc_large_inv [OF inv' gt sz body])
      case 1
      then show ?thesis
        using none same by simp
    next
      case (2 m h ar a)
      have "block_2_arena (a + 8) = a"
        using block_2_arena_in_page [OF 2(3), of 8] by simp
      with 2 fin [OF 2(1)] upd show ?thesis
        using pages [of m h ar] gt sz by simp
    qed
  qed
qed

text \<open>A pointer held names a page in use, and lies in it.\<close>

lemma owns_page:
  assumes inv: "heap_inv s U F" and own: "owns U F (p, sz)"
  defines "a \<equiv> block_2_arena p"
  obtains u where "U a = Some u" and "page a" and "unat (vm_start (kernel_vm_pool s)) < unat p"
    and "{unat p ..< unat p + unat sz} \<subseteq> {unat a ..< unat a + 4096 * unat (use_pages u)}"
    and "u = (if sz \<le> 1024 then Small (size_class (unat sz)) else Large (large_pages sz))"
proof -
  note parts = heap_invD [OF inv]
  let ?i = "size_class (unat sz)"
  show ?thesis
  proof (cases "sz \<le> 1024")
    case True
    have U: "U a = Some (Small ?i)" and b: "p \<in> set (blocks a ?i)"
      using own True by (simp_all add: live_small_def a_def)
    note u = used_page [OF parts(1) U] and i = size_class_u32 [OF True]
    have sub: "block_range ?i p \<subseteq> {unat a + 8 ..< unat a + 4096}"
      using block_range_page [OF u(1) _ b] i by simp
    have "unat p \<in> block_range ?i p"
      using class_sizes [of ?i] i by (simp add: block_range_def)
    then have "unat a + 8 \<le> unat p"
      using sub by auto
    moreover have "{unat p ..< unat p + unat sz} \<subseteq> {unat a ..< unat a + 4096}"
      using sub i by (force simp: block_range_def)
    ultimately show ?thesis
      using that U u True by simp
  next
    case False
    have U: "U a = Some (Large (large_pages sz))" and p: "p = a + 8" and sz: "unat sz \<le> 2147483648"
      using own False by (simp_all add: live_large_def a_def)
    note u = used_page [OF parts(1) U]
    have "unat p = unat a + 8"
      unfolding p using unat_in_page [OF u(1), of 8] by simp
    then show ?thesis
      using that U u False large_pages(2) [OF sz] by auto
  qed
qed

text \<open>What a caller writes in its block does not disturb the heap.\<close>

lemma owns_above:
  assumes inv: "heap_inv s U F" and own: "owns U F (p, sz)" and a: "a \<in> span p (unat sz)"
  shows "vm_start (kernel_vm_pool s) \<le> a"
proof -
  obtain u where u: "U (block_2_arena p) = Some u" "unat (vm_start (kernel_vm_pool s)) < unat p"
      "{unat p ..< unat p + unat sz} \<subseteq> {unat (block_2_arena p) ..< unat (block_2_arena p) + 4096 * unat (use_pages u)}"
    by (rule owns_page [OF inv own])
  obtain k where k: "k < unat sz" "a = p + of_nat k"
    using a by (auto simp: span_def)
  have "(block_2_arena p, use_pages u) \<in> ledger U"
    using u(1) by (simp add: ledger_def)
  then have "unat (block_2_arena p) + 4096 * unat (use_pages u) \<le> unat (vm_start (kernel_vm_pool s)) + 4096 * bm_bits (kvm s)"
    using kpage_range [OF heap_invD(1) [OF inv]] by (simp add: mult.commute)
  also have "\<dots> \<le> 4294967296"
    using heap_invD(6) [OF inv] by (simp add: kpool_layout_def)
  finally have le: "unat (block_2_arena p) + 4096 * unat (use_pages u) \<le> 4294967296" .
  have "unat p + k \<in> {unat p ..< unat p + unat sz}"
    using k(1) by simp
  then have "unat p + k < 4294967296"
    using subsetD [OF u(3)] le by fastforce
  then have "unat a = unat p + k"
    unfolding k(2) by (subst unat_add_u32) (use k(1) in \<open>simp_all add: unat_of_nat_u32\<close>)
  then show ?thesis
    using u(2) by (simp add: word_le_nat_alt)
qed

lemma heap_inv_client:
  assumes inv: "heap_inv s U F" and own: "owns U F (p, sz)" and m: "\<forall>a. a \<notin> span p (unat sz) \<longrightarrow> m a = ram s a"
  shows "heap_inv (s\<lparr>ram := m\<rparr>) U F"
proof -
  note parts = heap_invD [OF inv]
  have below: "m a = ram s a" if "a \<in> bm_span (kvm s) \<union> bm_span (kpm s)" for a
  proof -
    have "a < vm_start (kernel_vm_pool s)"
      using parts(6) that by (simp add: kpool_layout_def)
    then show ?thesis
      using m owns_above [OF inv own, of a] by (auto simp: not_le [symmetric])
  qed
  have "kpage_inv (heap_upd m (nodes s) (arenas s) s, ledger U)"
  proof (rule kpage_inv_bits [OF parts(1)])
    fix j assume j: "j < bm_bits (kvm s)"
    show "bm_bit (ram (heap_upd m (nodes s) (arenas s) s)) (kvm s) j = bm_bit (ram s) (kvm s) j"
      by (rule bm_bit_frame [OF kpool_layoutD(1) [OF parts(6)] j]) (use below in simp)
    show "bm_bit (ram (heap_upd m (nodes s) (arenas s) s)) (kpm s) j = bm_bit (ram s) (kpm s) j"
      by (rule bm_bit_frame [OF kpool_layoutD(2) [OF parts(6)]]) (use below j kpool_layoutD(3) [OF parts(6)] in simp_all)
  qed simp_all
  from heap_inv_updI [OF this parts(2,3,4)] show ?thesis
    unfolding heap_upd_folds(1) .
qed

text \<open>Two pointers held have no byte in common.\<close>

lemma owns_disjoint:
  assumes inv: "heap_inv s U F" and x: "owns U F (p, sz)" and y: "owns U F (q, sz')" and "p \<noteq> q"
  shows "{unat p ..< unat p + unat sz} \<inter> {unat q ..< unat q + unat sz'} = {}"
proof -
  let ?a = "block_2_arena p" and ?c = "block_2_arena q"
  obtain u where u: "U ?a = Some u" "page ?a" "unat (vm_start (kernel_vm_pool s)) < unat p"
      "{unat p ..< unat p + unat sz} \<subseteq> {unat ?a ..< unat ?a + 4096 * unat (use_pages u)}"
      "u = (if sz \<le> 1024 then Small (size_class (unat sz)) else Large (large_pages sz))"
    by (rule owns_page [OF inv x])
  obtain w where w: "U ?c = Some w" "page ?c" "unat (vm_start (kernel_vm_pool s)) < unat q"
      "{unat q ..< unat q + unat sz'} \<subseteq> {unat ?c ..< unat ?c + 4096 * unat (use_pages w)}"
      "w = (if sz' \<le> 1024 then Small (size_class (unat sz')) else Large (large_pages sz'))"
    by (rule owns_page [OF inv y])
  show ?thesis
  proof (cases "?a = ?c")
    case False
    have "(?a, use_pages u) \<in> ledger U" "(?c, use_pages w) \<in> ledger U"
      unfolding ledger_def using u(1) w(1) by auto
    then have "{unat ?a ..< unat ?a + unat (use_pages u) * 4096} \<inter> {unat ?c ..< unat ?c + unat (use_pages w) * 4096} = {}"
      using kpage_apart [OF heap_invD(1) [OF inv]] False by blast
    then show ?thesis
      using u(4) w(4) unfolding mult.commute [of "4096 :: nat"] by blast
  next
    case True
    then have "u = w"
      using u(1) w(1) by simp
    show ?thesis
    proof (cases "sz \<le> 1024")
      case small: True
      then have small': "sz' \<le> 1024" and i: "size_class (unat sz') = size_class (unat sz)"
        using \<open>u = w\<close> u(5) w(5) by (auto split: if_splits)
      let ?i = "size_class (unat sz)"
      have "p \<in> set (blocks ?a ?i)" "q \<in> set (blocks ?a ?i)"
        using x y small small' i True by (simp_all add: live_small_def)
      then have "block_range ?i p \<inter> block_range ?i q = {}"
        using block_ranges_disjoint [OF u(2)] size_class_u32 [OF small] assms(4) by simp
      moreover have "unat sz \<le> bsz ?i" "unat sz' \<le> bsz ?i"
        using size_class_u32 [OF small] size_class_u32 [OF small'] i by simp_all
      then have "{unat p ..< unat p + unat sz} \<subseteq> block_range ?i p" "{unat q ..< unat q + unat sz'} \<subseteq> block_range ?i q"
        by (auto simp: block_range_def)
      ultimately show ?thesis
        by blast
    next
      case False
      then have "\<not> sz' \<le> 1024"
        using \<open>u = w\<close> u(5) w(5) by (auto split: if_splits)
      then have "p = ?a + 8" "q = ?c + 8"
        using x y False by (simp_all only: owns.simps if_False)
      then show ?thesis
        using True assms(4) by simp
    qed
  qed
qed

lemma sys_free_section:
  assumes "kernel_caller s" and "p \<noteq> NULL" and "KERNEL_HEAP_BASE \<le> p"
  shows "sys_free p s = pool_section (pool_lock (kernel_pool s)) (free_body PF_KERNEL p) s"
  using assms by (simp add: sys_free_def kernel_caller_def get_cur_task_def ASSERT_def)

lemma sys_free_run:
  assumes "call_inv (s, L)" and "(p, sz) \<in> L"
  shows "\<exists>m h ar. sys_free p s = Some (Returned (), heap_upd m h ar s) \<and> call_inv (heap_upd m h ar s, L - {(p, sz)})"
proof -
  obtain U F where kc: "kernel_caller s" and inj: "inj_on fst L" and inv: "heap_inv s U F" and own: "\<And>x. x \<in> L \<Longrightarrow> owns U F x"
    using assms(1) by auto
  let ?l = "pool_lock (kernel_pool s)" and ?i = "size_class (unat sz)" and ?L = "L - {(p, sz)}"
  have ne: "q \<noteq> p" if "(q, sz') \<in> ?L" for q sz'
    using inj_onD [OF inj, of "(q, sz')" "(p, sz)"] that assms(2) by auto
  have lk: "lock_free ?l s"
    using kc by (simp add: kernel_caller_def)
  have hp: "unat (vm_start (kernel_vm_pool s)) < unat p"
    by (rule owns_page [OF inv own [OF assms(2)]])
  have "p \<noteq> NULL"
    using hp by (auto simp: NULL_def)
  moreover have "KERNEL_HEAP_BASE \<le> p"
    using kc hp by (simp add: kernel_caller_def word_le_nat_alt)
  ultimately have call: "sys_free p s = pool_section ?l (free_body PF_KERNEL p) s"
    by (rule sys_free_section [OF kc])
  have inv': "heap_inv (lock_held ?l s) U F"
    using inv by simp
  have fin: ?thesis if "free_body PF_KERNEL p (lock_held ?l s) = Some ((), heap_upd m h ar (lock_held ?l s))"
      "heap_inv (heap_upd m h ar (lock_held ?l s)) U' F'" "\<And>x. x \<in> ?L \<Longrightarrow> owns U' F' x" for m h ar U' F'
  proof -
    have "sys_free p s = Some (Returned (), heap_upd m h ar s)"
      unfolding call using pool_section_heap [OF lk, of "free_body PF_KERNEL p"] that(1) by simp
    moreover have "heap_inv (heap_upd m h ar s) U' F'"
      using that(2) by (simp add: lock_held_heap_upd)
    moreover have "inj_on fst ?L"
      using inj by (rule inj_on_diff)
    ultimately show ?thesis
      using kc that(3) by (metis call_inv.simps kernel_caller_heap_upd)
  qed
  show ?thesis
  proof (cases "sz \<le> 1024")
    case True
    then have "(p, ?i) \<in> live_small U F"
      using own [OF assms(2)] by simp
    from free_small_inv [OF inv' this] obtain m h ar U' F' where
      f: "free_body PF_KERNEL p (lock_held ?l s) = Some ((), heap_upd m h ar (lock_held ?l s))" "heap_inv (heap_upd m h ar (lock_held ?l s)) U' F'"
        "live_small U' F' = live_small U F - {(p, ?i)}" "live_large U' = live_large U" .
    have "owns U' F' x" if "x \<in> ?L" for x
      using own [of x] that f(3,4) ne [of "fst x" "snd x"] by (cases x) auto
    then show ?thesis
      by (rule fin [OF f(1,2)])
  next
    case False
    let ?a = "block_2_arena p"
    have p: "p = ?a + 8" and U: "U ?a = Some (Large (large_pages sz))"
      using own [OF assms(2)] False by (simp_all add: live_large_def)
    from free_large_inv [OF inv' U] obtain m where
      f: "free_body PF_KERNEL (?a + 8) (lock_held ?l s) = Some ((), heap_upd m (nodes (lock_held ?l s)) (arenas (lock_held ?l s)) (lock_held ?l s))"
        "heap_inv (heap_upd m (nodes (lock_held ?l s)) (arenas (lock_held ?l s)) (lock_held ?l s)) (U(?a := None)) F" .
    have "owns (U(?a := None)) F x" if x: "x \<in> ?L" for x
    proof (cases x)
      case (Pair q sz')
      have "block_2_arena q \<noteq> ?a"
      proof
        assume eq: "block_2_arena q = ?a"
        have o: "owns U F (q, sz')"
          using own [of x] x unfolding Pair by blast
        have "\<not> sz' \<le> 1024"
          using o U eq by (auto simp: live_small_def)
        then have "q = block_2_arena q + 8"
          using o by (simp only: owns.simps if_False)
        then have "q = ?a + 8"
          unfolding eq .
        then have "q = p"
          using p by (rule trans [OF _ sym])
        then show False
          using ne [of q sz'] x unfolding Pair by blast
      qed
      then have "(q, i) \<in> live_small (U(?a := None)) F \<longleftrightarrow> (q, i) \<in> live_small U F"
          "(block_2_arena q, n) \<in> live_large (U(?a := None)) \<longleftrightarrow> (block_2_arena q, n) \<in> live_large U" for i n
        by (simp_all add: live_small_def live_large_def)
      moreover have "owns U F (q, sz')"
        using own [of x] x unfolding Pair by blast
      ultimately show ?thesis
        unfolding Pair by (simp only: owns.simps)
    qed
    then show ?thesis
      by (rule fin [OF f(1) [folded p] f(2)])
  qed
qed

lemma sys_free_inv:
  assumes "call_inv (s, L)" and "(p, sz) \<in> L"
  obtains s' where "sys_free p s = Some (Returned (), s')" and "call_inv (s', L - {(p, sz)})"
  using sys_free_run [OF assms] by blast

lemma owns_fresh:
  assumes "heap_inv s U F" and "owns U F (q, sz')" and "sz \<le> 1024" and "(p, size_class (unat sz)) \<notin> live_small U F"
    and "U (block_2_arena p) = None \<or> U (block_2_arena p) = Some (Small (size_class (unat sz)))"
  shows "q \<noteq> p"
proof
  assume eq: "q = p"
  obtain u where u: "U (block_2_arena q) = Some u" "page (block_2_arena q)" "unat (vm_start (kernel_vm_pool s)) < unat q"
      "{unat q ..< unat q + unat sz'} \<subseteq> {unat (block_2_arena q) ..< unat (block_2_arena q) + 4096 * unat (use_pages u)}"
      "u = (if sz' \<le> 1024 then Small (size_class (unat sz')) else Large (large_pages sz'))"
    by (rule owns_page [OF assms(1,2)])
  then have "sz' \<le> 1024" "size_class (unat sz') = size_class (unat sz)"
    using assms(5) eq by (auto split: if_splits)
  then show False
    using assms(2,4) eq by simp
qed

text \<open>A pointer that is handed out was not held.\<close>

lemma sys_malloc_fresh:
  assumes "call_inv (s, L)" and call: "sys_malloc sz s = Some (Returned p, s')" and "p \<noteq> NULL" and x: "x \<in> L"
  shows "fst x \<noteq> p"
proof -
  obtain U F where kc: "kernel_caller s" and inv: "heap_inv s U F" and own: "owns U F (fst x, snd x)"
    using assms(1) x unfolding call_inv.simps prod.collapse by blast
  from inv kc call show ?thesis
  proof (cases rule: sys_malloc_inv)
    case (block m h ar U' F')
    show ?thesis
      by (rule owns_fresh [OF inv own block(4,5,9)])
  next
    case (pages m h ar)
    then show ?thesis
      using owns_page [OF inv own] by (metis option.distinct(1))
  qed (use assms(3) in simp)
qed

lemma heap_step_inv: "heap_step c d \<Longrightarrow> call_inv c \<Longrightarrow> call_inv d"
proof (induction rule: heap_step.induct)
  case (malloc sz s p s' L)
  then obtain U F where kc: "kernel_caller s" and inj: "inj_on fst L" and inv: "heap_inv s U F" and own: "\<And>x. x \<in> L \<Longrightarrow> owns U F x"
    by auto
  from inv kc malloc(1) show ?case
  proof (cases rule: sys_malloc_inv)
    case none
    with malloc(2) show ?thesis by simp
  next
    case (block m h ar U' F')
    have "fst x \<noteq> p" if "x \<in> L" for x
      using owns_fresh [OF inv _ block(4,5,9), of "fst x" "snd x"] own [OF that] by simp
    then have "inj_on fst (insert (p, sz) L)"
      using inj by (auto simp: inj_on_insert)
    moreover have "owns U' F' x" if "x \<in> L" for x
      using own [OF that] block(6,7) by (cases x) (simp split: if_splits)
    moreover have "owns U' F' (p, sz)"
      using block(4,6) by simp
    moreover have "kernel_caller s'"
      using kc unfolding block(1) by simp
    ultimately show ?thesis
      using block(2) by (simp del: owns.simps) blast
  next
    case (pages m h ar)
    let ?a = "block_2_arena p" and ?u = "Large (large_pages sz)"
    have ne: "block_2_arena (fst x) \<noteq> ?a" if "x \<in> L" for x
      using owns_page [OF inv, of "fst x" "snd x"] own [OF that] pages(3) by (metis option.distinct(1) prod.collapse)
    then have "fst x \<noteq> p" if "x \<in> L" for x
      using that by blast
    then have "inj_on fst (insert (p, sz) L)"
      using inj by (auto simp: inj_on_insert)
    moreover have "owns (U(?a \<mapsto> ?u)) F x" if "x \<in> L" for x
    proof -
      obtain q z where x: "x = (q, z)"
        by (cases x)
      have "(q, i) \<in> live_small (U(?a \<mapsto> ?u)) F \<longleftrightarrow> (q, i) \<in> live_small U F"
          "(block_2_arena q, n) \<in> live_large (U(?a \<mapsto> ?u)) \<longleftrightarrow> (block_2_arena q, n) \<in> live_large U" for i n
        using ne [OF that] unfolding x by (simp_all add: live_small_def live_large_def)
      then show ?thesis
        using own [OF that] unfolding x by (simp only: owns.simps)
    qed
    moreover have "\<not> sz \<le> 1024" "(?a, large_pages sz) \<in> live_large (U(?a \<mapsto> ?u))"
      using pages(4) by (simp_all add: live_large_def)
    then have "owns (U(?a \<mapsto> ?u)) F (p, sz)"
      using pages(2,5) unfolding owns.simps by (simp only: if_False simp_thms)
    moreover have "kernel_caller s'"
      using kc unfolding pages(1) by simp
    ultimately show ?thesis
      using pages(6) by (simp del: owns.simps) blast
  qed
next
  case (no_room sz s s' L)
  then obtain U F where kc: "kernel_caller s" and inv: "heap_inv s U F"
    by auto
  from inv kc no_room(1) have "s' = s"
  proof (cases rule: sys_malloc_inv)
    case (pages m h ar)
    then have "unat (vm_start (kernel_vm_pool s')) \<le> unat (block_2_arena NULL)" "block_2_arena NULL = NULL"
      using used_page(2) [OF heap_invD(1) [OF pages(6)], of "block_2_arena NULL" "Large (large_pages sz)"] by (simp_all add: block_2_arena_def NULL_def)
    then show ?thesis
      using pages(2) by (simp add: NULL_def)
  qed simp_all
  with no_room.prems show ?case by simp
next
  case (free p sz L s s')
  obtain t where "sys_free p s = Some (Returned (), t)" "call_inv (t, L - {(p, sz)})"
    by (rule sys_free_inv [OF free.prems free(1)])
  with free(2) show ?case by simp
next
  case (client p sz L m s)
  then obtain U F where kc: "kernel_caller s" and inj: "inj_on fst L" and inv: "heap_inv s U F" and own: "\<And>x. x \<in> L \<Longrightarrow> owns U F x"
    by auto
  have "heap_inv (s\<lparr>ram := m\<rparr>) U F"
    by (rule heap_inv_client [OF inv own [OF client(1)] client(2)])
  moreover have "kernel_caller (s\<lparr>ram := m\<rparr>)"
    using kc unfolding heap_upd_folds(1) by simp
  ultimately show ?case
    using inj own unfolding call_inv.simps by blast
qed

definition held_region :: "u32 \<times> u32 \<Rightarrow> nat set" where
  "held_region x = {unat (fst x) ..< unat (fst x) + unat (snd x)}"

interpretation kheap: region_allocator heap_step call_inv held_region
proof
  fix s :: "'a mem_state_scheme" and L x y
  assume inv: "call_inv (s, L)" and x: "x \<in> L"
  obtain U F where hi: "heap_inv s U F" and own: "\<And>x. x \<in> L \<Longrightarrow> owns U F x" and inj: "inj_on fst L"
    using inv by auto
  show "held_region x \<inter> held_region y = {}" if "y \<in> L" "x \<noteq> y"
  proof -
    have "fst x \<noteq> fst y"
      using inj_onD [OF inj _ x that(1)] that(2) by blast
    moreover have "owns U F (fst x, snd x)" "owns U F (fst y, snd y)"
      using own [OF x] own [OF that(1)] by (simp_all only: prod.collapse)
    ultimately show ?thesis
      unfolding held_region_def by (intro owns_disjoint [OF hi])
  qed
  have "(fst x, snd x) \<in> L"
    using x by simp
  then obtain s' where "sys_free (fst x) s = Some (Returned (), s')"
    by (rule sys_free_inv [OF inv])
  then show "\<exists>s'. heap_step (s, L) (s', L - {x})"
    using heap_step.free [of "fst x" "snd x" L s] x by auto
qed (rule heap_step_inv)

lemma heap_ready_inv:
  assumes "heap_ready s"
  shows "heap_inv s Map.empty (\<lambda>_. [])" and "call_inv (s, {})"
proof -
  have "ledger Map.empty = {}"
    by (simp add: ledger_def)
  then show "heap_inv s Map.empty (\<lambda>_. [])"
    using assms by (simp add: heap_inv_def heap_ready_def kpage_inv.simps arenas_ok_def lists_ok_def)
  then show "call_inv (s, {})"
    using assms by (auto simp: heap_ready_def)
qed

text \<open>A run of free pages is found.\<close>

lemma page_alloc_succeeds:
  assumes "kpool_layout s" and "n \<noteq> 0" and "bm_free (ram s) (kvm s) w (unat n)" and "w + unat n < bm_bits (kvm s)"
  obtains a t where "page_alloc PF_KERNEL n s = Some (a, t)" and "a \<noteq> NULL"
proof -
  define v where "v = (LEAST j. bm_free (ram s) (kvm s) j (unat n))"
  have v: "bm_free (ram s) (kvm s) v (unat n)" "v \<le> w" "\<And>j. j < v \<Longrightarrow> \<not> bm_free (ram s) (kvm s) j (unat n)"
    unfolding v_def using assms(3) by (auto intro: LeastI Least_le dest: not_less_Least)
  then have lt: "v + unat n < bm_bits (kvm s)"
    using assms(4) by simp
  have n: "1 \<le> unat n"
    using assms(2) by (simp add: Suc_le_eq unat_gt_0)
  then have "bitmap_apply (ram s) (kvm s) n = Some (of_nat v)"
    using bitmap_apply_fit_aux [OF _ _ v(1) lt v(3)] kpool_layoutD(1) [OF assms(1)] by (simp add: bm_ok_def)
  then obtain m where "page_alloc PF_KERNEL n s = Some (page_at s v, s\<lparr>ram := m\<rparr>)"
    using page_alloc_kernel [OF assms(1) _ less_imp_le [OF lt] assms(2)] by metis
  moreover have "v < bm_bits (kvm s)"
    using lt by linarith
  ultimately show ?thesis
    using that page_at_not_NULL [OF assms(1)] by blast
qed

lemma malloc_body_succeeds:
  assumes inv: "heap_inv s U F" and n: "n = (if sz \<le> 1024 then 1 else large_pages sz)" and "unat sz \<le> 2147483648"
    and "bm_free (ram s) (kvm s) w (unat n)" and "w + unat n < bm_bits (kvm s)"
  obtains p t where "malloc_body PF_KERNEL (kernel_block_desc_array s) sz s = Some (p, t)" and "p \<noteq> NULL"
proof -
  note parts = heap_invD [OF inv]
  have "n \<noteq> 0"
    using n large_pages(3) [OF assms(3)] by (simp split: if_splits)
  then obtain a s1 where al: "page_alloc PF_KERNEL n s = Some (a, s1)" "a \<noteq> NULL"
    by (rule page_alloc_succeeds [OF parts(6) _ assms(4,5)])
  show ?thesis
  proof (cases "sz \<le> 1024")
    case True
    let ?i = "size_class (unat sz)"
    have i: "?i < 7"
      using size_class_u32 [OF True] by simp
    have got: ?thesis if t: "heap_inv t U1 F1" "t = heap_upd m0 h0 ar0 s" "F1 ?i = b # bs"
        "(if F ?i = [] then new_arena PF_KERNEL (kdesc s ?i) s else Some (True, s)) = Some (True, t)" for t U1 F1 m0 h0 ar0 b bs
    proof -
      have kd: "kdesc t ?i = kdesc s ?i"
        unfolding t(2) by simp
      obtain m h ar where "take_block (kdesc s ?i) t = Some (b, heap_upd m h ar t)"
        using take_block_inv [OF t(1) i t(3)] unfolding kd by metis
      moreover have "b \<noteq> NULL"
        using free_block_props [OF t(1) i, of b] t(3) block_not_NULL i by auto
      ultimately show ?thesis
        using malloc_body_small [OF inv True] t(4) \<open>\<And>p t. \<lbrakk>malloc_body PF_KERNEL (kernel_block_desc_array s) sz s = Some (p, t); p \<noteq> NULL\<rbrakk> \<Longrightarrow> thesis\<close> by simp
    qed
    show ?thesis
    proof (cases "F ?i")
      case (Cons b bs)
      then show ?thesis
        using got [OF inv heap_upd_id [symmetric] Cons] by simp
    next
      case Nil
      have "page_alloc PF_KERNEL 1 s = Some (a, s1)"
        using al n True by simp
      then obtain m h ar where new: "new_arena PF_KERNEL (kdesc s ?i) s = Some (True, heap_upd m h ar s)"
          "heap_inv (heap_upd m h ar s) (U(a \<mapsto> Small ?i)) (F(?i := blocks a ?i))"
        using new_arena_inv [OF inv i Nil _ al(2)] by metis
      have "blocks a ?i \<noteq> []"
        using class_sizes [OF i] by (simp add: blocks_def)
      then obtain b bs where "blocks a ?i = b # bs"
        by (cases "blocks a ?i") simp_all
      then show ?thesis
        using got [OF new(2) refl, of b bs] new(1) Nil by simp
    qed
  next
    case False
    then have gt: "1024 < sz"
      by simp
    have "page_alloc PF_KERNEL (large_pages sz) s = Some (a, s1)"
      using al n False by simp
    moreover from this obtain m where "s1 = s\<lparr>ram := m\<rparr>" "page a"
      using heap_new_pages [OF inv _ al(2), of "large_pages sz"] large_pages(3) [OF assms(3)] by metis
    moreover have "a + 8 \<noteq> NULL"
      using unat_in_page [OF \<open>page a\<close>, of 8] by (auto simp: NULL_def)
    ultimately show ?thesis
      using that al(2) by (simp add: malloc_body_large [OF gt] memset_pages_eq)
  qed
qed

lemma sys_malloc_room:
  assumes inv: "heap_inv s U F" and kc: "kernel_caller s" and "sz \<noteq> 0" and "sz \<le> pool_size (kernel_pool s)"
    and "bm_free (ram s) (kvm s) w (if sz \<le> 1024 then 1 else (unat sz + 4103) div 4096)"
    and "w + (if sz \<le> 1024 then 1 else (unat sz + 4103) div 4096) < bm_bits (kvm s)"
  obtains p s' where "sys_malloc sz s = Some (Returned p, s')" and "p \<noteq> NULL"
proof -
  let ?l = "pool_lock (kernel_pool s)" and ?n = "if sz \<le> 1024 then 1 else large_pages sz"
  let ?t = "lock_held ?l s" and ?b = "malloc_body PF_KERNEL (kernel_block_desc_array s) sz"
  have lk: "lock_free ?l s"
    using kc by (simp add: kernel_caller_def)
  have sz: "unat sz \<le> 2147483648"
    using assms(4) heap_invD(2) [OF inv] by (simp add: descs_ok_def word_le_nat_alt)
  have n: "unat ?n = (if sz \<le> 1024 then 1 else (unat sz + 4103) div 4096)"
    using large_pages(1) [OF sz] by simp
  have inv': "heap_inv ?t U F"
    using inv by simp
  obtain p t where body: "?b ?t = Some (p, t)" "p \<noteq> NULL"
    using malloc_body_succeeds [OF inv' refl sz, of w] assms(5,6) unfolding n [symmetric] by auto
  obtain m h ar where t: "t = heap_upd m h ar ?t"
  proof (cases "sz \<le> 1024")
    case True
    have body': "malloc_body PF_KERNEL (kernel_block_desc_array ?t) sz ?t = Some (p, t)"
      using body(1) by simp
    from malloc_small_inv [OF inv' True body'] body(2) that show ?thesis
      by metis
  next
    case False
    then have "1024 < sz"
      by simp
    from malloc_large_inv [OF inv' this sz body(1)] body(2) that show ?thesis
      by metis
  qed
  have "sys_malloc sz s = Some (Returned p, heap_upd m h ar s)"
    using pool_section_heap [OF lk, of ?b p m h ar] body(1) t sys_malloc_section [OF kc assms(3,4)] by simp
  then show ?thesis
    using that body(2) by blast
qed

section \<open>Properties of the heap\<close>

text \<open>
  C4: Blocks of the heap never overlap. From a heap with nothing handed out, after any sequence of calls of
  \<open>sys_malloc\<close>, of \<open>sys_free\<close> on pointers held and of writes to the blocks held, the bytes of a pointer held lie in the kernel heap and
  are disjoint from those of every other pointer held, and \<open>sys_free\<close> returns for it.
\<close>

theorem heap_blocks_disjoint:
  assumes "heap_ready s0" and "heap_step\<^sup>*\<^sup>* (s0, {}) (s, L)" and "(p, sz) \<in> L"
  shows "(\<forall>q sz'. (q, sz') \<in> L \<longrightarrow> (q, sz') \<noteq> (p, sz) \<longrightarrow> {unat p ..< unat p + unat sz} \<inter> {unat q ..< unat q + unat sz'} = {}) \<and>
    unat (vm_start (kernel_vm_pool s)) < unat p \<and>
    unat p + unat sz \<le> unat (vm_start (kernel_vm_pool s)) + 4096 * bm_bits (kvm s) \<and>
    (\<exists>s'. sys_free p s = Some (Returned (), s'))"
proof -
  have inv: "call_inv (s, L)"
    by (rule kheap.reachable_inv [OF assms(2) heap_ready_inv(2) [OF assms(1)]])
  then obtain U F where hi: "heap_inv s U F" and own: "owns U F (p, sz)"
    using assms(3) unfolding call_inv.simps by blast
  obtain u where u: "U (block_2_arena p) = Some u" "page (block_2_arena p)" "unat (vm_start (kernel_vm_pool s)) < unat p"
      "{unat p ..< unat p + unat sz} \<subseteq> {unat (block_2_arena p) ..< unat (block_2_arena p) + 4096 * unat (use_pages u)}"
      "u = (if sz \<le> 1024 then Small (size_class (unat sz)) else Large (large_pages sz))"
    by (rule owns_page [OF hi own])
  have "(block_2_arena p, use_pages u) \<in> ledger U"
    unfolding ledger_def using u(1) by auto
  note range = kpage_range [OF heap_invD(1) [OF hi] this]
  have "unat p + unat sz \<le> unat (block_2_arena p) + 4096 * unat (use_pages u)"
  proof (cases "unat sz = 0")
    case True
    then have "sz \<le> 1024"
      by (simp add: word_le_nat_alt)
    with u(5) show ?thesis
      using unat_page_mask [of p] True by (simp add: block_2_arena_def)
  next
    case False
    then show ?thesis
      using u(4) by simp
  qed
  moreover have "{unat p ..< unat p + unat sz} \<inter> {unat q ..< unat q + unat sz'} = {}" if "(q, sz') \<in> L" "(q, sz') \<noteq> (p, sz)" for q sz'
    using kheap.apart [OF inv assms(3) that(1)] that(2) by (auto simp: held_region_def)
  moreover obtain s' where "sys_free p s = Some (Returned (), s')"
    by (rule sys_free_inv [OF inv assms(3)])
  ultimately show ?thesis
    using range u(3) by (auto simp: mult.commute)
qed

text \<open>A call of \<open>sys_malloc\<close> that found a block.\<close>

lemma sys_malloc_block:
  assumes "heap_inv s U F" and "kernel_caller s" and "sys_malloc sz s = Some (Returned p, s')" and "p \<noteq> NULL"
  shows "(\<forall>k < unat sz. ram s' (p + of_nat k) = 0) \<and> unat p mod 8 = 0 \<and> sz \<noteq> 0 \<and> sz \<le> pool_size (kernel_pool s) \<and> (\<exists>m h ar. s' = heap_upd m h ar s)"
proof -
  have "\<not> (sz = 0 \<or> pool_size (kernel_pool s) < sz)"
    using sys_malloc_invalid [OF assms(2), of sz] assms(3,4) by auto
  then have sz: "sz \<noteq> 0" "sz \<le> pool_size (kernel_pool s)"
    by (simp_all add: not_less)
  from assms(1-3) show ?thesis
  proof (cases rule: sys_malloc_inv)
    case none
    with assms(4) show ?thesis by simp
  next
    case (block m h ar U' F')
    let ?i = "size_class (unat sz)"
    have "(p, ?i) \<in> live_small U' F'"
      using block(6) by simp
    then have U: "U' (block_2_arena p) = Some (Small ?i)" and b: "p \<in> set (blocks (block_2_arena p) ?i)"
      by (simp_all add: live_small_def)
    note pg = used_page(1) [OF heap_invD(1) [OF block(2)] U] and i = size_class_u32 [OF block(4)]
    obtain k where k: "k < nblk ?i" "p = blk (block_2_arena p) ?i k"
      using b unfolding in_blocks by blast
    have "unat p = unat (block_2_arena p) + 8 + k * bsz ?i"
      using unat_blk [OF pg _ k(1)] i k(2) by metis
    moreover have "8 dvd unat (block_2_arena p)"
      using pg dvd_trans [of 8 4096 "unat (block_2_arena p)"] by (simp add: page_def)
    ultimately have "8 dvd unat p"
      by (simp add: bsz_def dvd_add)
    moreover have "ram s' (p + of_nat k) = 0" if "k < unat sz" for k
      using block(8) i that span_memI [of k "bsz ?i" p] by simp
    ultimately show ?thesis
      using sz block(1) by (auto simp: mod_eq_0_iff_dvd)
  next
    case (pages m h ar)
    let ?a = "block_2_arena p"
    have U: "(U(?a \<mapsto> Large (large_pages sz))) ?a = Some (Large (large_pages sz))"
      by simp
    note pg = used_page(1) [OF heap_invD(1) [OF pages(6)] U]
    have "unat p = unat ?a + 8"
      using unat_in_page [OF pg, of 8] pages(2) by simp
    moreover have "8 dvd unat ?a"
      using pg dvd_trans [of 8 4096 "unat ?a"] by (simp add: page_def)
    ultimately have "8 dvd unat p"
      by simp
    moreover have "ram s' (p + of_nat k) = 0" if "k < unat sz" for k
    proof -
      have "?a + of_nat (8 + k) \<in> span ?a (4096 * unat (large_pages sz))"
        using large_pages(2) [OF pages(5)] that by (intro span_memI) simp
      moreover have "?a + of_nat (8 + k) = p + of_nat k"
        using pages(2) by (metis (no_types) add.assoc of_nat_add of_nat_numeral)
      ultimately have "p + of_nat k \<in> span ?a (4096 * unat (large_pages sz))"
        by (simp only:)
      then show ?thesis
        using pages(7) by blast
    qed
    ultimately show ?thesis
      using sz pages(1) by (auto simp: mod_eq_0_iff_dvd)
  qed
qed

text \<open>
  C14: What \<open>sys_malloc\<close> hands out in such a run is a cleared block, whatever earlier owners wrote to the memory: the bytes asked for are zero, the
  pointer is a multiple of 8, and the request was not empty and not above the size of the pool.
\<close>

theorem sys_malloc_clears:
  assumes "heap_ready s0" and "heap_step\<^sup>*\<^sup>* (s0, {}) (s, L)" and "sys_malloc sz s = Some (Returned p, s')" and "p \<noteq> NULL"
  shows "(\<forall>k < unat sz. ram s' (p + of_nat k) = 0) \<and> unat p mod 8 = 0 \<and> sz \<noteq> 0 \<and> sz \<le> pool_size (kernel_pool s)"
proof -
  have "call_inv (s, L)"
    by (rule kheap.reachable_inv [OF assms(2) heap_ready_inv(2) [OF assms(1)]])
  then obtain U F where hi: "heap_inv s U F" and kc: "kernel_caller s"
    by auto
  from sys_malloc_block [OF this assms(3,4)] show ?thesis
    by blast
qed

text \<open>
  The descriptor search of \<open>sys_malloc\<close> finds the smallest class whose blocks hold the request.
\<close>

theorem find_desc_least:
  assumes "descs_ok s" and "sz \<le> 1024"
  shows "let i = find_desc s (kernel_block_desc_array s) sz 0
    in i < MEM_DESC_CNT \<and> sz \<le> block_size (block_descs s (kdesc s i)) \<and> (\<forall>j < i. block_size (block_descs s (kdesc s j)) < sz)"
proof -
  let ?i = "size_class (unat sz)"
  have "find_desc s (kernel_block_desc_array s) sz 0 = ?i"
    using find_desc_class [OF assms] by simp
  moreover have i: "?i < 7" "unat sz \<le> bsz ?i"
    using size_class_u32 [OF assms(2)] by simp_all
  moreover have "block_size (block_descs s (kdesc s j)) < sz" if "j < ?i" for j
  proof -
    have "bsz j < unat sz"
      using size_class(3) [OF _ that] assms(2) by (simp add: word_le_nat_alt)
    then show ?thesis
      using kdesc_entry [OF assms(1), of j] bsz_u32 [of j] that i(1) by (simp add: word_less_nat_alt)
  qed
  ultimately show ?thesis
    using kdesc_entry [OF assms(1) i(1)] bsz_u32 [OF i(1)] by (simp add: MEM_DESC_CNT_def word_le_nat_alt)
qed

text \<open>
  A request of no bytes or of more than the pool holds gets the null pointer and changes nothing, in a
  kernel thread and in a user process; \<open>sys_free\<close> does not return for the null pointer, nor in a kernel
  thread for an address below the kernel heap.
\<close>

theorem heap_errors:
  "(sz = 0 \<longrightarrow> sys_malloc sz s = Some (Returned NULL, s)) \<and>
   (pde_addr (tasks s (current_task s)) = NULL \<longrightarrow> pool_size (kernel_pool s) < sz \<longrightarrow> sys_malloc sz s = Some (Returned NULL, s)) \<and>
   (pde_addr (tasks s (current_task s)) \<noteq> NULL \<longrightarrow> pool_size (user_pool s) < sz \<longrightarrow> sys_malloc sz s = Some (Returned NULL, s)) \<and>
   sys_free NULL s = None \<and>
   (pde_addr (tasks s (current_task s)) = NULL \<longrightarrow> p < KERNEL_HEAP_BASE \<longrightarrow> sys_free p s = None)"
  by (auto simp: sys_malloc_def sys_free_def get_cur_task_def ASSERT_def Let_def)

text \<open>
  C15: \<open>sys_malloc\<close> succeeds while there is room: in every such run a request that is not empty and fits the
  pool gets a pointer if the pages it may need are free in a row that does not reach the end of the pool.
\<close>

theorem sys_malloc_succeeds:
  assumes "heap_ready s0" and "heap_step\<^sup>*\<^sup>* (s0, {}) (s, L)" and "sz \<noteq> 0" and "sz \<le> pool_size (kernel_pool s)"
    and "bm_free (ram s) (kvm s) w (if sz \<le> 1024 then 1 else (unat sz + 4103) div 4096)"
    and "w + (if sz \<le> 1024 then 1 else (unat sz + 4103) div 4096) < bm_bits (kvm s)"
  shows "\<exists>p s'. sys_malloc sz s = Some (Returned p, s') \<and> p \<noteq> NULL \<and> heap_step (s, L) (s', insert (p, sz) L)"
proof -
  have "call_inv (s, L)"
    by (rule kheap.reachable_inv [OF assms(2) heap_ready_inv(2) [OF assms(1)]])
  then obtain U F where "heap_inv s U F" "kernel_caller s"
    by auto
  then obtain p s' where "sys_malloc sz s = Some (Returned p, s')" "p \<noteq> NULL"
    using sys_malloc_room [OF _ _ assms(3-6)] by blast
  then show ?thesis
    using heap_step.malloc by blast
qed

section \<open>Initialisation\<close>

lemma desc_at_eq: "i < 7 \<Longrightarrow> j < 7 \<Longrightarrow> desc_at a i = desc_at a j \<longleftrightarrow> i = j"
proof -
  assume ij: "i < 7" "j < 7"
  have "desc_at a i = desc_at a j \<longleftrightarrow> (of_nat (16 * i) :: u32) = of_nat (16 * j)"
    by (simp add: desc_at_def)
  also have "\<dots> \<longleftrightarrow> 16 * i = 16 * j"
    using ij by (intro of_nat_inj_u32) simp_all
  finally show ?thesis
    by simp
qed

lemma desc_loop_result:
  assumes "k \<le> 7"
  shows "fst (desc_loop k a s) = of_nat (bsz k) \<and>
    (\<forall>i < k. block_descs (snd (desc_loop k a s)) (desc_at a i) = \<lparr>block_size = of_nat (bsz i), blocks_each_arena = of_nat (nblk i)\<rparr> \<and>
       ring (nodes (snd (desc_loop k a s))) [free_list (desc_at a i)])"
  using assms
proof (induction k)
  case 0
  then show ?case by (simp add: bsz_def)
next
  case (Suc k)
  obtain b t where bt: "desc_loop k a s = (b, t)"
    by (cases "desc_loop k a s")
  have k: "k < 7"
    using Suc.prems by simp
  have IH: "b = of_nat (bsz k)" "\<forall>i < k. block_descs t (desc_at a i) = \<lparr>block_size = of_nat (bsz i), blocks_each_arena = of_nat (nblk i)\<rparr> \<and>
       ring (nodes t) [free_list (desc_at a i)]"
    using Suc bt by simp_all
  have ne: "desc_at a i \<noteq> desc_at a k" "free_list (desc_at a i) \<noteq> free_list (desc_at a k)" if "i < k" for i
    using desc_at_eq [of i k a] that k by (simp_all add: free_list_def)
  have "ucast b = (of_nat (bsz k) :: u32)" "(PAGE_SIZE - sizeof_arena) div ucast b = of_nat (nblk k)" "b * 2 = of_nat (bsz (Suc k))"
    using less_7_cases [OF k] unfolding IH(1) by (elim disjE; simp add: bsz_def nblk_def PAGE_SIZE_def sizeof_arena_def)+
  then show ?case
    using IH(2) ne by (auto simp: bt Let_def less_Suc_eq list_init_def)
qed

text \<open>
  \<open>mem_block_desc_init\<close> sets up seven size classes with blocks of 16, 32, up to 1024 bytes, counts how
  many of them fit in a page behind the header, and empties the free lists.
\<close>

theorem mem_block_desc_init_classes:
  assumes "i < MEM_DESC_CNT"
  shows "block_descs (mem_block_desc_init a s) (desc_at a i) = \<lparr>block_size = 16 * 2 ^ i, blocks_each_arena = [255, 127, 63, 31, 15, 7, 3] ! i\<rparr> \<and>
    sizeof_arena + blocks_each_arena (block_descs (mem_block_desc_init a s) (desc_at a i)) * block_size (block_descs (mem_block_desc_init a s) (desc_at a i)) \<le> PAGE_SIZE \<and>
    list_empty (nodes (mem_block_desc_init a s)) (free_list (desc_at a i)) = Some True"
proof -
  have i: "i < 7"
    using assms by (simp add: MEM_DESC_CNT_def)
  have d: "block_descs (mem_block_desc_init a s) (desc_at a i) = \<lparr>block_size = of_nat (bsz i), blocks_each_arena = of_nat (nblk i)\<rparr>"
      and r: "ring (nodes (mem_block_desc_init a s)) [free_list (desc_at a i)]"
    using desc_loop_result [of 7 a s] i by (simp_all add: mem_block_desc_init_def MEM_DESC_CNT_def)
  have "list_empty (nodes (mem_block_desc_init a s)) (free_list (desc_at a i)) = Some True"
    using list_empty_ring [OF r] by simp
  moreover have "(of_nat (bsz i) :: u32) = 16 * 2 ^ i \<and> (of_nat (nblk i) :: u32) = [255, 127, 63, 31, 15, 7, 3] ! i \<and>
      sizeof_arena + [255, 127, 63, 31, 15, 7, 3] ! i * (16 * 2 ^ i) \<le> PAGE_SIZE"
    using less_7_cases [OF i] by (elim disjE; simp add: bsz_def nblk_def sizeof_arena_def PAGE_SIZE_def)
  ultimately show ?thesis
    unfolding d by simp
qed

text \<open>The page tables are written below 4 MB.\<close>

lemma write32_below: "unat p + 3 < unat a \<Longrightarrow> write32 m p v a = m a"
proof -
  assume lt: "unat p + 3 < unat a"
  have "unat (p + of_nat k) = unat p + k" if "k \<le> 3" for k
    using that lt unat_lt_2p32 [of a] by (subst unat_add_u32) simp_all
  from this [of 0] this [of 1] this [of 2] this [of 3] have "a \<noteq> p" "a \<noteq> p + 1" "a \<noteq> p + 2" "a \<noteq> p + 3"
    using lt by auto
  then show ?thesis
    by (simp add: write32_def)
qed

lemma pde_loop_below: "n \<le> 1024 \<Longrightarrow> 4194304 \<le> unat a \<Longrightarrow> pde_loop n m a = m a"
proof (induction n)
  case (Suc k)
  have "unat (PAGE_DIR_TABLE + 4 * (768 + of_nat k)) = 1048576 + 4 * (768 + k)"
    using Suc.prems(1) by (simp add: PAGE_DIR_TABLE_def unat_word_ariths)
  then show ?case
    using Suc by (simp add: Let_def write32_below)
qed simp

lemma pte_loop_below: "unat pt + 4 * n \<le> 4194304 \<Longrightarrow> 4194304 \<le> unat a \<Longrightarrow> pte_loop pt ma n m a = m a"
proof (induction n)
  case (Suc k)
  have u: "unat (of_nat (4 * k) :: u32) = 4 * k"
    using Suc.prems(1) by (intro unat_of_nat_u32) simp
  then have "unat (pt + of_nat (4 * k)) = unat pt + 4 * k"
    using Suc.prems(1) by (subst unat_add_u32) simp_all
  then show ?case
    using Suc by (simp add: Let_def write32_below)
qed simp

lemma pt_at: "i \<le> 512 \<Longrightarrow> unat (page_table_base + push_bit 12 (of_nat i)) = 1052672 + 4096 * i"
  by (simp add: page_table_base_def PAGE_DIR_TABLE_def push_bit_eq_mult unat_word_ariths)

lemma pt_loop_below: "n \<le> 512 \<Longrightarrow> 4194304 \<le> unat a \<Longrightarrow> snd (pt_loop n m) a = m a"
  by (induction n) (simp_all add: Let_def pte_loop_below pt_at)

lemma page_table_init_below:
  assumes "1024 \<le> unat kp" and "unat kp \<le> 262144" and "page_table_init kp m = Some (dir, m')" and "4194304 \<le> unat a"
  shows "m' a = m a"
proof -
  let ?d = "unat kp div 1024" and ?l = "unat kp mod 1024"
  have bytes: "unat (kp * PAGE_SIZE) = unat kp * 4096"
    using assms(2) by (simp add: PAGE_SIZE_def unat_word_ariths)
  have d: "unat ((kp * PAGE_SIZE) div ONE_PAGE_DIR_SIZE) = ?d" "?d \<le> 256"
    using assms(2) bytes by (simp_all add: unat_div ONE_PAGE_DIR_SIZE_def)
  then have dw: "(kp * PAGE_SIZE) div ONE_PAGE_DIR_SIZE = of_nat ?d"
    by (simp add: word_unat_eq_iff)
  have sub: "unat (kp * PAGE_SIZE - ONE_PAGE_DIR_SIZE * of_nat ?d) = 4096 * ?l"
  proof -
    have "unat (ONE_PAGE_DIR_SIZE * of_nat ?d) = 4194304 * ?d"
      using d(2) by (simp add: ONE_PAGE_DIR_SIZE_def unat_word_ariths)
    moreover have "unat kp * 4096 = 4194304 * ?d + 4096 * ?l"
      using mult_div_mod_eq [of 1024 "unat kp"] by linarith
    ultimately show ?thesis
      using bytes by (subst unat_sub) (simp_all add: word_le_nat_alt)
  qed
  define n where "n = unat (if (kp * PAGE_SIZE) mod ONE_PAGE_DIR_SIZE = 0 then 0 else (kp * PAGE_SIZE - ONE_PAGE_DIR_SIZE * of_nat ?d) div PAGE_SIZE)"
  have n: "n \<le> 1024"
    unfolding n_def using sub by (simp add: unat_div PAGE_SIZE_def)
  have at: "unat (page_table_base + (of_nat ?d + 1) * 0x1000) = 1052672 + 4096 * (?d + 1)" "unat (PAGE_DIR_TABLE + 4 * (768 + of_nat ?d)) = 1048576 + 4 * (768 + ?d)"
      "unat (PAGE_DIR_TABLE + 4 * 1023) = 1052668"
    using d(2) by (simp_all add: page_table_base_def PAGE_DIR_TABLE_def unat_word_ariths)
  have "a \<notin> span 0x100000 1048576"
    using assms(4) by (simp add: span_interval)
  then have ms: "memset m PAGE_DIR_TABLE 0 (1024 * 1024) = Some m0 \<Longrightarrow> m0 a = m a" for m0
    by (auto simp: memset_eq PAGE_DIR_TABLE_def NULL_def)
  have pl: "pte_loop (page_table_base + (of_nat ?d + 1) * 0x1000) ma n m1 a = m1 a" for ma m1
    using at(1) d(2) n assms(4) by (intro pte_loop_below) simp_all
  have w: "write32 m1 (PAGE_DIR_TABLE + 4 * (768 + of_nat ?d)) v a = m1 a" "write32 m1 (PAGE_DIR_TABLE + 4 * 1023) v a = m1 a" for m1 v
    using at(2,3) d(2) assms(4) by (intro write32_below; simp)+
  have lp: "pde_loop ?d m1 a = m1 a" "snd (pt_loop ?d m1) a = m1 a" for m1
    using d(2) assms(4) by (simp_all add: pde_loop_below pt_loop_below)
  obtain m0 where m0: "memset m PAGE_DIR_TABLE 0 (1024 * 1024) = Some m0"
    using assms(3) by (auto simp: page_table_init_def Let_def split: bind_splits)
  let ?p = "pt_loop ?d (pde_loop ?d m0)"
  have "m' = write32 (if n \<noteq> 0 then write32 (pte_loop (page_table_base + (of_nat ?d + 1) * 0x1000) (fst ?p + ONE_PAGE_DIR_SIZE) n (snd ?p))
      (PAGE_DIR_TABLE + 4 * (768 + of_nat ?d)) (page_table_base + (of_nat ?d + 1) * 0x1000 + ucast kernel_page_mark) else snd ?p)
      (PAGE_DIR_TABLE + 4 * 1023) (PAGE_DIR_TABLE + ucast kernel_page_mark)"
    using assms(3) d m0 unfolding page_table_init_def dw n_def by (simp add: Let_def case_prod_beta unat_eq_0 cong: if_cong)
  then show ?thesis
    using w pl lp ms [OF m0] by (simp split: if_splits)
qed

text \<open>Memory that the page tables do not touch keeps the pools as they are.\<close>

lemma kpool_ok_ram:
  assumes "kpool_ok s" and "\<And>a. 0xc0000000 \<le> unat a \<Longrightarrow> m a = ram s a" and "\<And>a. a \<in> bm_span (kvm s) \<union> bm_span (kpm s) \<Longrightarrow> 0xc0000000 \<le> unat a"
  shows "kpool_ok (s\<lparr>ram := m, cr3 := d\<rparr>)"
proof -
  note lay = kpool_okD(1) [OF assms(1)]
  have m: "m a = ram s a" if "a \<in> bm_span (kvm s) \<union> bm_span (kpm s)" for a
    using assms(2) [OF assms(3) [OF that]] .
  have b: "bm_bit m (kvm s) i = bm_bit (ram s) (kvm s) i" "bm_bit m (kpm s) i = bm_bit (ram s) (kpm s) i" if "i < bm_bits (kvm s)" for i
  proof -
    show "bm_bit m (kvm s) i = bm_bit (ram s) (kvm s) i"
      by (rule bm_bit_frame [OF kpool_layoutD(1) [OF lay] that]) (use m in blast)
    have "i < bm_bits (kpm s)"
      using that kpool_layoutD(3) [OF lay] by simp
    then show "bm_bit m (kpm s) i = bm_bit (ram s) (kpm s) i"
      by (rule bm_bit_frame [OF kpool_layoutD(2) [OF lay]]) (use m in blast)
  qed
  have "kpool_layout (s\<lparr>ram := m, cr3 := d\<rparr>) = kpool_layout s"
    by (simp add: kpool_layout_def)
  then show ?thesis
    using b lay kpool_okD(2) [OF assms(1)] by (simp add: kpool_ok_def)
qed

lemma desc_loop_frame: "\<exists>bd h. snd (desc_loop k a s) = s\<lparr>block_descs := bd, nodes := h\<rparr>"
proof (induction k)
  case 0
  have "s = s\<lparr>block_descs := block_descs s, nodes := nodes s\<rparr>"
    by simp
  then show ?case
    unfolding desc_loop.simps snd_conv by blast
next
  case (Suc k)
  obtain b t where bt: "desc_loop k a s = (b, t)"
    by (cases "desc_loop k a s")
  then obtain bd h where "t = s\<lparr>block_descs := bd, nodes := h\<rparr>"
    using Suc by auto
  then show ?case
    using bt by (simp add: Let_def) blast
qed

text \<open>The state after \<open>mem_init\<close>.\<close>

lemma mem_init_run:
  assumes "33554432 \<le> unat (read32 (ram s) 0xb00)" and "kernel_block_desc_array s \<noteq> NULL" and "unat (kernel_block_desc_array s) + 112 \<le> unat KERNEL_HEAP_BASE"
  obtains s' where "mem_init s = Some s'" and "cr3 s' = PAGE_DIR_TABLE" and "kpool_ok s'" and "descs_ok s'" and "\<And>i. i < 7 \<Longrightarrow> ring (nodes s') [free_cell s' i]"
    and "\<And>t. t \<noteq> NULL \<Longrightarrow> lock_free (pool_lock (kernel_pool s')) (s'\<lparr>current_task := t\<rparr>)" and "vm_start (kernel_vm_pool s') = KERNEL_HEAP_BASE"
    and "bm_bits (kvm s') = 8 * (kernel_frames (unat (read32 (ram s) 0xb00)) div 8)"
    and "\<And>a. a \<in> bm_span (kvm s') \<union> bm_span (kpm s') \<Longrightarrow> 0xc0075000 \<le> unat a \<and> unat a < 0xc009e000 \<and> ram s' a = 0"
    and "\<And>a. 0xc0000000 \<le> unat a \<Longrightarrow> unat a < 0xc0075000 \<Longrightarrow> ram s' a = ram s a"
    and "\<exists>m kp up vm se lo c bd h x. s' = s\<lparr>ram := m, kernel_pool := kp, user_pool := up, kernel_vm_pool := vm, semas := se, locks := lo, cr3 := c, block_descs := bd, nodes := h, screen := x\<rparr>"
proof -
  let ?tot = "read32 (ram s) 0xb00"
  let ?k = "kernel_frames (unat ?tot)" and ?u = "user_frames (unat ?tot)"
  let ?start = "s\<lparr>screen := screen s @ lit_text (''memory initialization start\<newline>'')\<rparr>"
  obtain s1 where s1: "mem_pool_init (ucast ?tot) ?start = Some s1" and ok: "kpool_ok s1" and vm: "vm_start (kernel_vm_pool s1) = KERNEL_HEAP_BASE"
    and in_k: "\<And>a. a \<in> bm_span (kpm s1) \<longleftrightarrow> 0xc007e000 \<le> unat a \<and> unat a < 0xc007e000 + ?k div 8"
    and "\<And>a. a \<in> bm_span (pool_bitmap (user_pool s1)) \<longleftrightarrow> 0xc007e000 + ?k div 8 \<le> unat a \<and> unat a < 0xc007e000 + ?k div 8 + ?u div 8"
    and in_v: "\<And>a. a \<in> bm_span (kvm s1) \<longleftrightarrow> 0xc0075000 \<le> unat a \<and> unat a < 0xc0075000 + ?k div 8"
    and zero: "\<forall>a \<in> bm_span (kpm s1) \<union> bm_span (pool_bitmap (user_pool s1)) \<union> bm_span (kvm s1). ram s1 a = 0"
    and "unat (phy_addr_start (user_pool s1)) = 16777216 + 4096 * ?k" and ps: "unat (pool_size (kernel_pool s1)) = 4096 * ?k"
    and "unat (pool_size (user_pool s1)) = 4096 * ?u" and "unat (phy_addr_start (kernel_pool s1)) = 16777216"
    and fr0: "tasks s1 = tasks ?start \<and> block_descs s1 = block_descs ?start \<and> kernel_block_desc_array s1 = kernel_block_desc_array ?start \<and>
      (\<forall>t. t \<noteq> NULL \<longrightarrow> lock_free (pool_lock (kernel_pool s1)) (s1\<lparr>current_task := t\<rparr>)) \<and> (\<forall>a < 0xc0075000. ram s1 a = ram ?start a)"
    and sh: "\<exists>m kp up vm se lo x. s1 = ?start\<lparr>ram := m, kernel_pool := kp, user_pool := up, kernel_vm_pool := vm, semas := se, locks := lo, screen := x\<rparr>"
    and nb: "bm_bits (kvm s1) = 8 * (?k div 8)"
    by (rule mem_pool_init_layout [OF assms(1), of ?start]) (rule that; assumption)
  have fr: "tasks s1 = tasks s \<and> block_descs s1 = block_descs s \<and> kernel_block_desc_array s1 = kernel_block_desc_array s \<and>
      (\<forall>t. t \<noteq> NULL \<longrightarrow> lock_free (pool_lock (kernel_pool s1)) (s1\<lparr>current_task := t\<rparr>)) \<and> (\<forall>a < 0xc0075000. ram s1 a = ram s a)"
    using fr0 by simp
  have k: "?k \<le> 258048"
    by (rule frames_bounds(1) [OF assms(1) unat_lt_2p32])
  have sp: "0xc0000000 \<le> unat a" if "a \<in> bm_span (kvm s1) \<union> bm_span (kpm s1)" for a
    using that in_k [of a] in_v [of a] by auto
  have ps: "unat (pool_size (kernel_pool s1)) \<le> 2147483648"
    using ps k by simp
  have rd: "read32 (ram s1) 0xb00 = ?tot"
    using fr by (simp add: read32_def)
  let ?n = "total_kernel_pages (ucast ?tot)"
  have n: "1024 \<le> unat ?n" "unat ?n \<le> 262144"
  proof -
    have "33554432 div 8192 \<le> unat ?tot div 8192" "unat ?tot div 8192 \<le> 4294967296 div 8192"
      using assms(1) unat_lt_2p32 [of ?tot] by (intro div_le_mono; simp)+
    then show "1024 \<le> unat ?n" "unat ?n \<le> 262144"
      unfolding total_kernel_pages_eq by auto
  qed
  obtain m' where m': "page_table_init ?n (ram s1) = Some (0x100000, m')"
    by (rule page_table_init_tables [OF n])
  let ?s2 = "s1\<lparr>ram := m', cr3 := 0x100000\<rparr>" and ?a = "kernel_block_desc_array s"
  let ?s = "mem_block_desc_init ?a ?s2"
  let ?s3 = "?s\<lparr>screen := screen ?s @ lit_text (''    kernel PDE and PTE reload completion\<newline>'') @ lit_text (''memory initialization completion\<newline>'')\<rparr>"
  have init: "mem_init s = Some ?s3"
    unfolding mem_init_def Let_def put_lit_text using s1 m' fr by (simp add: rd)
  obtain bd h where s2: "?s = ?s2\<lparr>block_descs := bd, nodes := h\<rparr>"
    unfolding mem_block_desc_init_def using desc_loop_frame by blast
  then obtain x where s3: "?s3 = ?s2\<lparr>block_descs := bd, nodes := h, screen := x\<rparr>"
    by simp
  have m's: "m' a = ram s1 a" if "0xc0000000 \<le> unat a" for a
    using that by (intro page_table_init_below [OF n m']) simp
  have "kpool_ok ?s2"
    using m's by (intro kpool_ok_ram [OF ok _ sp]) simp_all
  moreover have "kpool_ok ?s3 = kpool_ok ?s2"
    unfolding s3 by (simp add: kpool_ok_def kpool_layout_def)
  ultimately have "kpool_ok ?s3"
    by blast
  moreover have cls: "block_descs ?s3 (desc_at ?a i) = \<lparr>block_size = of_nat (bsz i), blocks_each_arena = of_nat (nblk i)\<rparr>" "ring (nodes ?s3) [free_list (desc_at ?a i)]" if "i < 7" for i
    using desc_loop_result [of 7 ?a ?s2] that by (simp_all add: mem_block_desc_init_def MEM_DESC_CNT_def del: ring.simps)
  have "descs_ok ?s3"
    using cls(1) assms(2,3) fr vm ps unfolding s3 by (simp add: descs_ok_def kdesc_def)
  moreover have "ring (nodes ?s3) [free_cell ?s3 i]" if "i < 7" for i
    using cls(2) [OF that] fr unfolding s3 by (simp add: free_cell_def kdesc_def)
  moreover have "lock_free (pool_lock (kernel_pool ?s3)) (?s3\<lparr>current_task := t\<rparr>)" if "t \<noteq> NULL" for t
    using fr that unfolding s3 by (auto simp: lock_free_def)
  moreover have "0xc0075000 \<le> unat a \<and> unat a < 0xc009e000 \<and> ram ?s3 a = 0" if "a \<in> bm_span (kvm ?s3) \<union> bm_span (kpm ?s3)" for a
    using that in_k [of a] in_v [of a] zero k m's [of a] unfolding s3 by auto
  moreover have "ram ?s3 a = ram s a" if "0xc0000000 \<le> unat a" "unat a < 0xc0075000" for a
    using m's [OF that(1)] fr that(2) unfolding s3 by (simp add: word_less_nat_alt)
  moreover have "\<exists>m kp up vm se lo c bd h x. ?s3 = s\<lparr>ram := m, kernel_pool := kp, user_pool := up, kernel_vm_pool := vm, semas := se, locks := lo, cr3 := c, block_descs := bd, nodes := h, screen := x\<rparr>"
  proof -
    obtain m kp up vm se lo y where e: "s1 = ?start\<lparr>ram := m, kernel_pool := kp, user_pool := up, kernel_vm_pool := vm, semas := se, locks := lo, screen := y\<rparr>"
      using sh by blast
    have "?s2\<lparr>block_descs := bd, nodes := h, screen := x\<rparr> = s\<lparr>ram := m', kernel_pool := kp, user_pool := up, kernel_vm_pool := vm, semas := se, locks := lo, cr3 := 0x100000, block_descs := bd, nodes := h, screen := x\<rparr>"
      unfolding e by simp
    then show ?thesis
      unfolding s3 by blast
  qed
  moreover have "cr3 ?s3 = PAGE_DIR_TABLE" "vm_start (kernel_vm_pool ?s3) = KERNEL_HEAP_BASE" "bm_bits (kvm ?s3) = 8 * (?k div 8)"
    unfolding s3 using vm nb by (simp_all add: PAGE_DIR_TABLE_def)
  ultimately show ?thesis
    using that [OF init] by blast
qed

text \<open>
  C21: Initialisation of memory management. For 32 MB up to 4 GB of memory \<open>mem_init\<close> returns, switches to the
  new page directory, and leaves a heap from which every kernel thread can allocate: the pools are
  consistent, the classes set up, the free lists empty, the lock of the pool free.
\<close>

theorem mem_init_heap_ready:
  assumes "33554432 \<le> unat (read32 (ram s) 0xb00)" and "kernel_block_desc_array s \<noteq> NULL" and "unat (kernel_block_desc_array s) + 112 \<le> unat KERNEL_HEAP_BASE"
  shows "\<exists>s'. mem_init s = Some s' \<and> cr3 s' = PAGE_DIR_TABLE \<and>
    (\<forall>t. t \<noteq> NULL \<longrightarrow> pde_addr (tasks s t) = NULL \<longrightarrow> heap_ready (s'\<lparr>current_task := t\<rparr>))"
proof -
  obtain s' where s': "mem_init s = Some s'" "cr3 s' = PAGE_DIR_TABLE" "kpool_ok s'" "descs_ok s'" "\<And>i. i < 7 \<Longrightarrow> ring (nodes s') [free_cell s' i]"
      "\<And>t. t \<noteq> NULL \<Longrightarrow> lock_free (pool_lock (kernel_pool s')) (s'\<lparr>current_task := t\<rparr>)" "vm_start (kernel_vm_pool s') = KERNEL_HEAP_BASE"
      "\<exists>m kp up vm se lo c bd h x. s' = s\<lparr>ram := m, kernel_pool := kp, user_pool := up, kernel_vm_pool := vm, semas := se, locks := lo, cr3 := c, block_descs := bd, nodes := h, screen := x\<rparr>"
    by (rule mem_init_run [OF assms]) (rule that)
  have "heap_ready (s'\<lparr>current_task := t\<rparr>)" if "t \<noteq> NULL" "pde_addr (tasks s t) = NULL" for t
    using s'(3-8) that by (auto simp: heap_ready_def kernel_caller_def kpool_ok_def kpool_layout_def descs_ok_def kdesc_def free_cell_def simp del: ring.simps)
  with s'(1,2) show ?thesis
    by blast
qed

section \<open>Witnesses\<close>

definition demo_heap :: mem_state where
  "demo_heap = mem_block_desc_init 0x7000 demo_mm"

lemma demo_heap_mm: "\<exists>bd h. demo_heap = demo_mm\<lparr>block_descs := bd, nodes := h\<rparr>"
  unfolding demo_heap_def mem_block_desc_init_def by (rule desc_loop_frame)

lemma demo_heap_screen: "screen demo_heap = []"
proof -
  obtain bd h where d: "demo_heap = demo_mm\<lparr>block_descs := bd, nodes := h\<rparr>"
    using demo_heap_mm by blast
  show ?thesis
    unfolding d by (simp add: demo_mm_def)
qed

lemma demo_heap_ready: "heap_ready demo_heap"
proof -
  obtain bd h where d: "demo_heap = demo_mm\<lparr>block_descs := bd, nodes := h\<rparr>"
    using demo_heap_mm by blast
  have cls: "block_descs demo_heap (desc_at 0x7000 i) = \<lparr>block_size = of_nat (bsz i), blocks_each_arena = of_nat (nblk i)\<rparr>"
      "ring (nodes demo_heap) [free_list (desc_at 0x7000 i)]" if "i < 7" for i
    using desc_loop_result [of 7 "0x7000" demo_mm] that by (simp_all add: demo_heap_def mem_block_desc_init_def MEM_DESC_CNT_def)
  have kb: "kernel_block_desc_array demo_heap = 0x7000"
    unfolding d by (simp add: demo_mm_def)
  have "kernel_caller demo_heap"
    unfolding d using demo_mm_ok(2) by (simp add: kernel_caller_def lock_free_def demo_mm_def demo_task_def KERNEL_HEAP_BASE_def NULL_def)
  moreover have "kpool_ok demo_heap = kpool_ok demo_mm"
    unfolding d by (simp add: kpool_ok_def kpool_layout_def)
  moreover have "descs_ok demo_heap"
    unfolding descs_ok_def kdesc_def kb using cls(1) unfolding d by (simp add: demo_mm_def NULL_def)
  moreover have "\<forall>i < 7. ring (nodes demo_heap) [free_cell demo_heap i]"
    unfolding free_cell_def kdesc_def kb using cls(2) by blast
  ultimately show ?thesis
    using demo_mm_ok(1) by (simp add: heap_ready_def)
qed

lemma demo_heap_facts: "pool_size (kernel_pool demo_heap) = 0x10000" "bm_bits (kvm demo_heap) = 16" "bm_free (ram demo_heap) (kvm demo_heap) 0 n"
proof -
  obtain bd h where d: "demo_heap = demo_mm\<lparr>block_descs := bd, nodes := h\<rparr>"
    using demo_heap_mm by blast
  show "pool_size (kernel_pool demo_heap) = 0x10000" "bm_bits (kvm demo_heap) = 16" "bm_free (ram demo_heap) (kvm demo_heap) 0 n"
    unfolding d by (simp_all add: demo_mm_bits) (simp add: demo_mm_def)
qed

theorem sys_malloc_succeeds_witness:
  "\<exists>p s'. sys_malloc 100 demo_heap = Some (Returned p, s') \<and> p \<noteq> NULL \<and> heap_step (demo_heap, {}) (s', {(p, 100)})"
  using sys_malloc_succeeds [OF demo_heap_ready rtranclp.rtrancl_refl, of 100 0] demo_heap_facts by simp

lemma demo_malloc: "\<exists>p s'. sys_malloc 100 demo_heap = Some (Returned p, s') \<and> p \<noteq> NULL \<and> heap_step\<^sup>*\<^sup>* (demo_heap, {}) (s', {(p, 100)})"
proof -
  have "kernel_caller demo_heap"
    using demo_heap_ready by (simp add: heap_ready_def)
  then obtain p s' where "sys_malloc 100 demo_heap = Some (Returned p, s')" "p \<noteq> NULL"
    by (rule sys_malloc_room [OF heap_ready_inv(1) [OF demo_heap_ready], of 100 0]) (simp_all add: demo_heap_facts)
  then show ?thesis
    using heap_step.malloc [of 100 demo_heap p _ "{}"] by blast
qed

theorem heap_blocks_disjoint_witness:
  "\<exists>p s. heap_step\<^sup>*\<^sup>* (demo_heap, {}) (s, {(p, 100)}) \<and> (\<exists>s'. sys_free p s = Some (Returned (), s'))"
  using demo_malloc heap_blocks_disjoint [OF demo_heap_ready, of _ "{(p, 100)}" p 100 for p] by fastforce

text \<open>A block is handed out, and another one after the first was written and given back.\<close>

theorem sys_malloc_clears_witness:
  "\<exists>p s' s2 s3. sys_malloc 100 demo_heap = Some (Returned p, s') \<and> ram s' (p + 99) = 0 \<and> unat p mod 8 = 0 \<and>
     s2 = s'\<lparr>ram := (ram s')(p := 0xaa)\<rparr> \<and> sys_free p s2 = Some (Returned (), s3) \<and>
     (\<forall>q s4. sys_malloc 100 s3 = Some (Returned q, s4) \<and> q \<noteq> NULL \<longrightarrow> ram s4 (q + 99) = 0)"
proof -
  obtain p s' where p: "sys_malloc 100 demo_heap = Some (Returned p, s')" "p \<noteq> NULL"
    using demo_malloc by blast
  let ?s2 = "s'\<lparr>ram := (ram s')(p := 0xaa)\<rparr>"
  have r1: "heap_step (demo_heap, {}) (s', {(p, 100)})"
    using heap_step.malloc [OF p] by simp
  have "p \<in> span p (unat (100 :: u32))"
    using span_memI [of 0 100 p] by simp
  then have r2: "heap_step (s', {(p, 100)}) (?s2, {(p, 100)})"
    by (intro heap_step.client [of p 100]) auto
  have "call_inv (?s2, {(p, 100)})"
    using heap_step_inv [OF r2] heap_step_inv [OF r1] heap_ready_inv(2) [OF demo_heap_ready] by blast
  then obtain s3 where s3: "sys_free p ?s2 = Some (Returned (), s3)"
    by (rule sys_free_inv [of _ _ p 100]) simp_all
  have r3: "heap_step (?s2, {(p, 100)}) (s3, {})"
    using heap_step.free [OF _ s3, of 100 "{(p, 100)}"] by simp
  have run: "heap_step\<^sup>*\<^sup>* (demo_heap, {}) (s3, {})"
    using r1 r2 r3 by (meson converse_rtranclp_into_rtranclp rtranclp.rtrancl_refl)
  have "ram s4 (q + 99) = 0" if "sys_malloc 100 s3 = Some (Returned q, s4)" "q \<noteq> NULL" for q s4
    using sys_malloc_clears [OF demo_heap_ready run that] by (auto dest: spec [of _ 99])
  moreover have "ram s' (p + 99) = 0 \<and> unat p mod 8 = 0"
    using sys_malloc_clears [OF demo_heap_ready rtranclp.rtrancl_refl p] by (auto dest: spec [of _ 99])
  ultimately show ?thesis
    using p(1) s3 by (intro exI [of _ p] exI [of _ s'] exI [of _ ?s2] exI [of _ s3]) simp
qed

theorem find_desc_least_witness: "find_desc demo_heap (kernel_block_desc_array demo_heap) 100 0 < 7 \<and>
    (100 :: u32) \<le> block_size (block_descs demo_heap (kdesc demo_heap (find_desc demo_heap (kernel_block_desc_array demo_heap) 100 0)))"
proof -
  have "descs_ok demo_heap"
    using demo_heap_ready by (simp add: heap_ready_def)
  from find_desc_least [OF this, of 100] show ?thesis
    by (simp add: Let_def MEM_DESC_CNT_def)
qed

theorem heap_errors_witness: "sys_malloc 0x10001 demo_heap = Some (Returned NULL, demo_heap) \<and> sys_free 0xc0ffffff demo_heap = None"
proof -
  have k: "pde_addr (tasks demo_heap (current_task demo_heap)) = NULL"
    using demo_heap_ready by (simp add: heap_ready_def kernel_caller_def)
  show ?thesis
    using heap_errors [of "0x10001" demo_heap "0xc0ffffff"] k by (simp add: demo_heap_facts KERNEL_HEAP_BASE_def)
qed

theorem mem_block_desc_init_classes_witness:
  "block_descs (mem_block_desc_init 0x7000 demo_mm) (desc_at 0x7000 3) = \<lparr>block_size = 128, blocks_each_arena = 31\<rparr>"
  using mem_block_desc_init_classes [of 3 "0x7000" demo_mm] by (simp add: MEM_DESC_CNT_def)

theorem mem_init_heap_ready_witness:
  "\<exists>s'. mem_init (demo_mm\<lparr>ram := write32 (\<lambda>_. 0) 0xb00 0x4000000\<rparr>) = Some s' \<and> heap_ready (s'\<lparr>current_task := 0xc009e000\<rparr>)"
proof -
  let ?s = "demo_mm\<lparr>ram := write32 (\<lambda>_. 0) 0xb00 0x4000000\<rparr>"
  have "read32 (ram ?s) 0xb00 = 0x4000000"
    using read32_write32_same [of "\<lambda>_. 0" "0xb00" "0x4000000"] by simp
  moreover have "kernel_block_desc_array ?s = 0x7000" "pde_addr (tasks ?s t) = NULL" for t
    by (simp_all add: demo_mm_def demo_task_def NULL_def)
  ultimately show ?thesis
    using mem_init_heap_ready [of ?s] by (auto simp: KERNEL_HEAP_BASE_def NULL_def)
qed

end
