(* ===== verification/Thread.thy ===== *)
theory Thread
  imports Heap
begin

text \<open>
  Creation of kernel threads and the start of the scheduler (\<open>thread/thread.c\<close>). A task structure is one page
  from \<open>get_kernel_pages\<close>; \<open>pcb_init\<close> clears and fills it, \<open>thread_creat\<close> writes the frame from which
  \<open>switch_to\<close> starts the thread, \<open>thread_start\<close> links it into the ready queue and the list of all threads.
  A call that finds a lock taken stops with \<open>In_lock\<close>; what is left of it is the second argument of
  \<open>and_then\<close>. Addresses the linker chooses (code and string literals) are fields of the state.
\<close>

section \<open>Data\<close>

record thread_state = mem_state +
  pid_lock :: u32
  next_pid :: u16
  kernel_func :: u32
  cpu_idle_func :: u32
  main_name :: u32
  cpu_idle_name :: u32

definition PCB_SIZE :: u32 where "PCB_SIZE = PAGE_SIZE * 1"
definition sizeof_task_struct :: u32 where "sizeof_task_struct = 200"
definition sizeof_intr_stack :: u32 where "sizeof_intr_stack = 76"
definition sizeof_thread_stack :: u32 where "sizeof_thread_stack = 32"

text \<open>A task structure of zero bytes, and the address of its field \<open>name\<close>.\<close>

definition zero_task :: task_struct where
  "zero_task = \<lparr>self_kernel_stack = 0, status = TASK_RUNNING, priority = 0, pid = 0, ticks = 0, elapsed_ticks = 0, tname = replicate 32 0,
     pde_addr = 0, userprog_vaddr = \<lparr>vm_bitmap = \<lparr>bitmap_bytes_len = 0, bitmap = 0\<rparr>, vm_start = 0\<rparr>, stack_boundary = 0\<rparr>"

definition task_name :: "u32 \<Rightarrow> u32" where "task_name t = t + 20"

section \<open>Operations\<close>

definition and_then ::
  "('r pool_result \<times> 's) option \<Rightarrow> ('r \<Rightarrow> 's \<Rightarrow> ('q pool_result \<times> 's) option) \<Rightarrow> ('q pool_result \<times> 's) option" where
  "and_then x f = do {
     (r, s) \<leftarrow> x;
     case r of Returned r \<Rightarrow> f r s | In_lock old i \<Rightarrow> Some (In_lock old i, s)
   }"

text \<open>\<open>next_pid\<close> is a static variable of type \<open>int16_t\<close>; it is read again after the lock is released.\<close>

definition alloc_pid :: "'a thread_state_scheme \<Rightarrow> (u16 pool_result \<times> 'a thread_state_scheme) option" where
  "alloc_pid s = and_then (pool_section (pid_lock s) (\<lambda>s. Some ((), s\<lparr>next_pid := next_pid s + 1\<rparr>)) s)
     (\<lambda>_ s. Some (Returned (next_pid s), s))"

text \<open>\<open>memset(pthread, 0, sizeof( *pthread))\<close>\<close>

definition memset_task :: "u32 \<Rightarrow> 'a thread_state_scheme \<Rightarrow> 'a thread_state_scheme option" where
  "memset_task pthread s = do {
     s \<leftarrow> memset_pages pthread sizeof_task_struct s;
     let s = upd_task pthread (\<lambda>_. zero_task) s;
     Some (s\<lparr>block_descs := (\<lambda>a. if unat (a - pthread) + 16 \<le> unat sizeof_task_struct
       then \<lparr>block_size = 0, blocks_each_arena = 0\<rparr> else block_descs s a)\<rparr>)
   }"

text \<open>The part of \<open>pcb_init\<close> after the pid is there. \<open>pthread + PCB_SIZE\<close> is pointer arithmetic on task structures.\<close>

definition pcb_init_fields :: "u32 \<Rightarrow> u32 \<Rightarrow> u16 \<Rightarrow> 'a thread_state_scheme \<Rightarrow> 'a thread_state_scheme" where
  "pcb_init_fields pthread prio new_pid s =
     upd_task pthread (\<lambda>t. t\<lparr>pid := new_pid, status := (if pthread = main_thread s then TASK_RUNNING else TASK_READY),
       ticks := ucast prio, priority := ucast prio, elapsed_ticks := 0, pde_addr := NULL,
       self_kernel_stack := pthread + PCB_SIZE * sizeof_task_struct, stack_boundary := 0x20130901\<rparr>) s"

text \<open>A name that does not fit the 32 bytes of the field would be undefined behaviour.\<close>

definition pcb_init :: "u32 \<Rightarrow> u32 \<Rightarrow> u32 \<Rightarrow> 'a thread_state_scheme \<Rightarrow> (unit pool_result \<times> 'a thread_state_scheme) option" where
  "pcb_init pthread name prio s = do {
     s \<leftarrow> memset_task pthread s;
     len \<leftarrow> strlen (ram s) name;
     if 32 \<le> len then None
     else do {
       m \<leftarrow> strcpy (ram s) (task_name pthread) name;
       let s = upd_task pthread (tname_update (\<lambda>_. bytes_at m (task_name pthread) 32)) (s\<lparr>ram := m\<rparr>);
       and_then (alloc_pid s) (\<lambda>new_pid s. Some (Returned (), pcb_init_fields pthread prio new_pid s))
     }
   }"

text \<open>\<open>self_kernel_stack\<close> is a \<open>uint32_t *\<close>, so a step of one is four bytes.\<close>

definition thread_creat :: "u32 \<Rightarrow> u32 \<Rightarrow> u32 \<Rightarrow> 'a thread_state_scheme \<Rightarrow> 'a thread_state_scheme" where
  "thread_creat pthread function func_argc s =
     (let s = upd_task pthread (self_kernel_stack_update (\<lambda>p. p - 4 * sizeof_intr_stack)) s;
          s = upd_task pthread (self_kernel_stack_update (\<lambda>p. p - 4 * sizeof_thread_stack)) s;
          kernel_stack = self_kernel_stack (tasks s pthread);
          m = write32 (ram s) (kernel_stack + 16) (kernel_func s);
          m = write32 m (kernel_stack + 28) func_argc;
          m = write32 m (kernel_stack + 24) function;
          m = write32 m kernel_stack 0;
          m = write32 m (kernel_stack + 4) 0;
          m = write32 m (kernel_stack + 8) 0;
          m = write32 m (kernel_stack + 12) 0
      in s\<lparr>ram := m\<rparr>)"

text \<open>\<open>thread_start\<close> after \<open>pcb_init\<close>.\<close>

definition thread_start_link :: "u32 \<Rightarrow> u32 \<Rightarrow> u32 \<Rightarrow> 'a thread_state_scheme \<Rightarrow> (u32 pool_result \<times> 'a thread_state_scheme) option" where
  "thread_start_link thread function func_argc s = do {
     let s = thread_creat thread function func_argc s;
     found \<leftarrow> list_find_item (nodes s) (front (thread_ready_queue s)) (thread_dispatch_queue thread);
     ASSERT (\<not> found);
     (h, q) \<leftarrow> queue_in (nodes s) (thread_ready_queue s) (thread_dispatch_queue thread);
     let s = s\<lparr>nodes := h, thread_ready_queue := q\<rparr>;
     found \<leftarrow> list_find_item (nodes s) (thread_total_list s) (thread_list thread);
     ASSERT (\<not> found);
     Some (Returned thread, s\<lparr>nodes := list_add (nodes s) (thread_total_list s) (thread_list thread)\<rparr>)
   }"

definition thread_start ::
  "u32 \<Rightarrow> u32 \<Rightarrow> u32 \<Rightarrow> u32 \<Rightarrow> 'a thread_state_scheme \<Rightarrow> (u32 pool_result \<times> 'a thread_state_scheme) option" where
  "thread_start name prio function func_argc s =
     and_then (get_kernel_pages (PCB_SIZE div PAGE_SIZE) s) (\<lambda>thread s.
     and_then (pcb_init thread name prio s) (\<lambda>_ s.
     thread_start_link thread function func_argc s))"

definition init_main_thread :: "'a thread_state_scheme \<Rightarrow> (unit pool_result \<times> 'a thread_state_scheme) option" where
  "init_main_thread s = (let s = s\<lparr>main_thread := get_cur_task s\<rparr> in
     and_then (pcb_init (main_thread s) (main_name s) 1 s) (\<lambda>_ s. do {
       found \<leftarrow> list_find_item (nodes s) (thread_total_list s) (thread_list (main_thread s));
       ASSERT (\<not> found);
       Some (Returned (), s\<lparr>nodes := list_add (nodes s) (thread_total_list s) (thread_list (main_thread s))\<rparr>)
     }))"

definition thread_init :: "'a thread_state_scheme \<Rightarrow> (unit pool_result \<times> 'a thread_state_scheme) option" where
  "thread_init s =
     (let s = put_lit (''thread initialization start\<newline>'') s;
          s = s\<lparr>nodes := list_init (nodes s) (thread_total_list s)\<rparr>;
          s = s\<lparr>thread_ready_queue := queue_init\<rparr>;
          s = lock_init (pid_lock s) s;
          s = s\<lparr>current_task := 0xc009e000\<rparr>
      in and_then (init_main_thread s) (\<lambda>_ s.
         and_then (thread_start (cpu_idle_name s) 1 (cpu_idle_func s) NULL s) (\<lambda>thread s.
         let s = s\<lparr>idle_thread := thread\<rparr>
         in Some (Returned (), put_lit (''thread initialization completion\<newline>'') s))))"

text \<open>
  The first code of a thread, and one round of \<open>cpu_idle\<close>: it blocks; continued, it prints, enables interrupts, halts
  until one arrives, and blocks again.
\<close>

definition kernel_func_run :: "(u32 \<Rightarrow> 'a thread_state_scheme \<Rightarrow> 'b) \<Rightarrow> u32 \<Rightarrow> 'a thread_state_scheme \<Rightarrow> 'b" where
  "kernel_func_run function func_argc s = function func_argc (snd (local_irq_enable s))"

definition cpu_idle_block :: "'a thread_state_scheme \<Rightarrow> (intr_status \<times> 'a thread_state_scheme) option" where
  "cpu_idle_block s = thread_block TASK_BLOCKED s"

definition cpu_idle_halt :: "intr_status \<Rightarrow> 'a thread_state_scheme \<Rightarrow> 'a thread_state_scheme" where
  "cpu_idle_halt old_status s = sti (put_lit (''CPU IDLE\<newline>'') (thread_block_resume old_status s))"

section \<open>Specification vocabulary\<close>

text \<open>A task structure that \<open>pcb_init\<close> has filled.\<close>

definition new_task :: "u32 \<Rightarrow> u8 list \<Rightarrow> u32 \<Rightarrow> u16 \<Rightarrow> task_status \<Rightarrow> task_struct" where
  "new_task stack name prio p st = \<lparr>self_kernel_stack = stack, status = st, priority = ucast prio, pid = p, ticks = ucast prio,
     elapsed_ticks = 0, tname = name @ replicate (32 - length name) 0, pde_addr = NULL,
     userprog_vaddr = \<lparr>vm_bitmap = \<lparr>bitmap_bytes_len = 0, bitmap = 0\<rparr>, vm_start = 0\<rparr>, stack_boundary = 0x20130901\<rparr>"

section \<open>Identifiers and task structures\<close>

lemma and_then_simps [simp]:
  "and_then (Some (Returned r, s)) f = f r s" "and_then (Some (In_lock old i, s)) f = Some (In_lock old i, s)" "and_then None f = None"
  by (simp_all add: and_then_def)

lemma lock_held_thread [simp]:
  "next_pid (lock_held l s) = next_pid s" "pid_lock (lock_held l s) = pid_lock s"
  "(lock_held l s)\<lparr>next_pid := n\<rparr> = lock_held l (s\<lparr>next_pid := n\<rparr>)"
  by (simp_all add: lock_held_def upd_lock_def upd_sema_def)

lemma alloc_pid_free:
  assumes "lock_free (pid_lock s) s"
  shows "alloc_pid s = Some (Returned (next_pid s + 1), s\<lparr>next_pid := next_pid s + 1\<rparr>)"
proof -
  have "pool_section (pid_lock s) (\<lambda>s. Some ((), s\<lparr>next_pid := next_pid s + 1\<rparr>)) s = Some (Returned (), s\<lparr>next_pid := next_pid s + 1\<rparr>)"
    using assms by (intro pool_section_free) (simp_all add: lock_free_def)
  then show ?thesis
    by (simp add: alloc_pid_def)
qed

text \<open>The bytes of the name after the copy into a cleared field.\<close>

lemma name_bytes:
  assumes "cstring m d cs" and "length cs < n" and "n < 4294967296" and "\<And>a. a \<in> span d n \<Longrightarrow> a \<notin> span d (Suc (length cs)) \<Longrightarrow> m a = 0"
  shows "bytes_at m d n = cs @ replicate (n - length cs) 0"
proof (rule nth_equalityI)
  fix k assume "k < length (bytes_at m d n)"
  then have k: "k < n"
    by (simp add: bytes_at_def)
  have "m (d + of_nat k) = (if k < length cs then cs ! k else 0)"
  proof (cases "k \<le> length cs")
    case True
    then show ?thesis
      using assms(1) by (cases "k = length cs") (auto simp: cstring_alt)
  next
    case False
    have "d + of_nat k \<notin> span d (Suc (length cs))"
    proof
      assume "d + of_nat k \<in> span d (Suc (length cs))"
      then obtain j where j: "j < Suc (length cs)" "(of_nat k :: u32) = of_nat j"
        by (auto simp: span_def)
      then have "k = j"
        using of_nat_inj_u32 [of k j] k assms(2,3) by simp
      then show False
        using j(1) False by simp
    qed
    then show ?thesis
      using assms(4) [OF span_memI [OF k]] False by simp
  qed
  then show "bytes_at m d n ! k = (cs @ replicate (n - length cs) 0) ! k"
    using k by (simp add: bytes_at_def nth_append)
qed (use assms(2) in \<open>simp add: bytes_at_def\<close>)

lemma pcb_init_eq:
  assumes "p \<noteq> NULL" and "unat p + 200 \<le> 4294967296" and "cstring (ram s) name cs" and "length cs < 32" and "name \<noteq> NULL"
    and "span name (Suc (length cs)) \<inter> span p 200 = {}" and "lock_free (pid_lock s) s"
  defines "st \<equiv> (if p = main_thread s then TASK_RUNNING else TASK_READY)"
  obtains m bd where "pcb_init p name prio s = Some (Returned (), (zero_pages p 200 s)\<lparr>ram := m, block_descs := bd,
      tasks := (tasks s)(p := new_task (p + 819200) cs prio (next_pid s + 1) st), next_pid := next_pid s + 1\<rparr>)"
    and "\<And>a. a \<notin> span p 200 \<Longrightarrow> m a = ram s a" and "\<And>a. 200 < unat (a - p) + 16 \<Longrightarrow> bd a = block_descs s a"
proof -
  let ?z = "zero_pages p 200 s" and ?d = "task_name p"
  let ?bd = "\<lambda>a. if unat (a - p) + 16 \<le> 200 then \<lparr>block_size = 0, blocks_each_arena = 0\<rparr> else block_descs s a"
  have clr: "memset_task p s = Some ((upd_task p (\<lambda>_. zero_task) ?z)\<lparr>block_descs := ?bd\<rparr>)"
    using assms(1) by (simp add: memset_task_def memset_pages_eq sizeof_task_struct_def upd_task_def Let_def cong: if_cong)
  have dn: "?d = p + of_nat 20" "unat ?d = unat p + 20"
    using assms(2) by (simp_all add: task_name_def unat_add_u32)
  then have "?d \<noteq> NULL"
    by (auto simp: NULL_def)
  have sub: "span ?d n \<subseteq> span p 200" if "n \<le> 32" for n
    unfolding dn(1) using that by (intro span_shift_subset) simp
  have ram: "ram ?z a = (if a \<in> span p 200 then 0 else ram s a)" for a
    by (simp add: zero_pages_def)
  have str: "cstring (ram ?z) name cs"
    using assms(3) assms(6) by (subst cstring_cong [where m' = "ram s"]) (auto simp: ram)
  have "span ?d (Suc (length cs)) \<inter> span name (Suc (length cs)) = {}"
    using sub [of "Suc (length cs)"] assms(4,6) by auto
  then obtain m where m: "strcpy_loop (ram ?z) ?d name = Some m" "cstring m ?d cs" "\<And>a. a \<notin> span ?d (Suc (length cs)) \<Longrightarrow> m a = ram ?z a"
    using strcpy_loop_cstring [OF str, of ?d] assms(4) by auto
  have cp: "strcpy (ram ?z) ?d name = Some m"
    using m(1) \<open>?d \<noteq> NULL\<close> assms(5) by (simp add: strcpy_def)
  let ?s1 = "upd_task p (tname_update (\<lambda>_. cs @ replicate (32 - length cs) 0)) ((upd_task p (\<lambda>_. zero_task) ?z)\<lparr>block_descs := ?bd, ram := m\<rparr>)"
  have "bytes_at m ?d 32 = cs @ replicate (32 - length cs) 0"
    using m(2) assms(4)
  proof (rule name_bytes)
    fix a assume "a \<in> span ?d 32" and "a \<notin> span ?d (Suc (length cs))"
    then show "m a = 0"
      using m(3) [of a] sub [of 32] ram by auto
  qed simp
  moreover have "strlen (ram ?z) name = Some (of_nat (length cs))" "\<not> (32 :: u32) \<le> of_nat (length cs)"
    using strlen_cstring [OF str assms(5)] assms(4) by (simp_all add: word_le_nat_alt)
  ultimately have run: "pcb_init p name prio s = and_then (alloc_pid ?s1) (\<lambda>new_pid s. Some (Returned (), pcb_init_fields p prio new_pid s))"
    using clr cp by (simp add: pcb_init_def upd_task_def Let_def)
  have "lock_free (pid_lock ?s1) ?s1"
    using assms(7) by (simp add: lock_free_def zero_pages_def upd_task_def)
  then have "pcb_init p name prio s = Some (Returned (), ?z\<lparr>ram := m, block_descs := ?bd,
      tasks := (tasks s)(p := new_task (p + 819200) cs prio (next_pid s + 1) st), next_pid := next_pid s + 1\<rparr>)"
    by (simp add: run alloc_pid_free) (simp add: pcb_init_fields_def upd_task_def zero_pages_def new_task_def zero_task_def st_def PCB_SIZE_def PAGE_SIZE_def sizeof_task_struct_def)
  moreover have "m a = ram s a" if "a \<notin> span p 200" for a
    using m(3) [of a] ram [of a] that sub [of "Suc (length cs)"] assms(4) by auto
  ultimately show ?thesis
    by (rule that) auto
qed

section \<open>The start frame\<close>

lemma write_frame:
  fixes k kf arg f :: u32 and m :: mem
  assumes "4 dvd unat k" and "unat k + 32 \<le> 4294967296"
  defines "m' \<equiv> write32 (write32 (write32 (write32 (write32 (write32 (write32 m (k + 16) kf) (k + 28) arg) (k + 24) f) k 0) (k + 4) 0) (k + 8) 0) (k + 12) 0"
  shows "read32 m' (k + 16) = kf" and "read32 m' (k + 24) = f" and "read32 m' (k + 28) = arg"
    and "read32 m' k = 0" and "read32 m' (k + 4) = 0" and "read32 m' (k + 8) = 0" and "read32 m' (k + 12) = 0"
proof -
  have at: "k + i = of_nat (unat k + unat i)" "4 dvd unat k + unat i" "unat k + unat i < 4294967296" if "4 dvd unat i" "unat i \<le> 28" for i :: u32
    using that assms(1,2) by (simp_all add: dvd_add)
  have off: "read32 (write32 m (k + i) v) (k + j) = (if i = j then v else read32 m (k + j))"
    if "4 dvd unat i" "unat i \<le> 28" "4 dvd unat j" "unat j \<le> 28" for m v and i j :: u32
    using read32_write32 [OF at(2) [OF that(1,2)] at(2) [OF that(3,4)] at(3) [OF that(1,2)] at(3) [OF that(3,4)], of m v]
    unfolding at(1) [OF that(1,2)] at(1) [OF that(3,4)] by (simp add: word_unat_eq_iff)
  show "read32 m' (k + 16) = kf" "read32 m' (k + 24) = f" "read32 m' (k + 28) = arg"
      "read32 m' k = 0" "read32 m' (k + 4) = 0" "read32 m' (k + 8) = 0" "read32 m' (k + 12) = 0"
    unfolding m'_def using off [of 0] off [of _ 0] off [of 0 0] by (simp_all add: off)
qed

text \<open>The frame is \<open>struct thread_stack\<close> with the arguments of \<open>kernel_func\<close>.\<close>

definition start_frame :: "'a thread_state_scheme \<Rightarrow> u32 \<Rightarrow> u32 \<Rightarrow> u32 \<Rightarrow> bool" where
  "start_frame s k function func_argc \<longleftrightarrow> read32 (ram s) (k + 16) = kernel_func s \<and> read32 (ram s) (k + 24) = function \<and> read32 (ram s) (k + 28) = func_argc \<and>
     read32 (ram s) k = 0 \<and> read32 (ram s) (k + 4) = 0 \<and> read32 (ram s) (k + 8) = 0 \<and> read32 (ram s) (k + 12) = 0"

lemma write32_out: "unat p + 4 \<le> 4294967296 \<Longrightarrow> a \<notin> span p 4 \<Longrightarrow> write32 m p v a = m a"
proof -
  have "span p 4 = {p, p + 1, p + 2, p + 3}"
    using span_Suc [of p 3] span_Suc [of "p + 1" 2] span_2 [of "p + 2"] by (simp add: eval_nat_numeral add.assoc)
  then show "a \<notin> span p 4 \<Longrightarrow> write32 m p v a = m a"
    by (simp add: write32_def)
qed

lemma thread_creat_eq:
  assumes "self_kernel_stack (tasks s t) = k + 432" and "4 dvd unat k" and "unat k + 32 \<le> 4294967296"
  obtains m where "thread_creat t f arg s = (upd_task t (self_kernel_stack_update (\<lambda>_. k)) s)\<lparr>ram := m\<rparr>"
    and "start_frame (s\<lparr>ram := m\<rparr>) k f arg" and "\<And>a. a \<notin> span k 32 \<Longrightarrow> m a = ram s a"
proof -
  let ?m = "write32 (write32 (write32 (write32 (write32 (write32 (write32 (ram s) (k + 16) (kernel_func s)) (k + 28) arg) (k + 24) f) k 0) (k + 4) 0) (k + 8) 0) (k + 12) 0"
  have "thread_creat t f arg s = (upd_task t (self_kernel_stack_update (\<lambda>_. k)) s)\<lparr>ram := ?m\<rparr>"
  proof -
    have upd: "self_kernel_stack_update ((\<lambda>p. p - 128) \<circ> (\<lambda>p. p - 304)) (tasks s t) = (tasks s t)\<lparr>self_kernel_stack := k\<rparr>"
      using assms(1) by (cases "tasks s t") simp
    show ?thesis
      using assms(1) by (simp add: upd thread_creat_def Let_def upd_task_def sizeof_intr_stack_def sizeof_thread_stack_def add.commute [of k])
  qed
  moreover have "start_frame (s\<lparr>ram := ?m\<rparr>) k f arg"
    using write_frame [OF assms(2,3)] by (simp add: start_frame_def)
  moreover have "?m a = ram s a" if a: "a \<notin> span k 32" for a
  proof -
    have "a \<notin> span (k + of_nat n) 4" "unat (k + of_nat n) + 4 \<le> 4294967296" if "n + 4 \<le> 32" for n
      using a that span_shift_subset [OF that, of k] assms(3) by (auto simp: unat_add_u32)
    from this [of 0] this [of 4] this [of 8] this [of 12] this [of 16] this [of 24] this [of 28] show ?thesis
      by (simp add: write32_out)
  qed
  ultimately show ?thesis
    by (rule that)
qed

section \<open>The threads of the kernel\<close>

text \<open>
  \<open>rq\<close> are the ready threads and \<open>ts\<close> all threads, newest first. The task structures do not overlap, and the
  head of the list of threads lies in none of them.
\<close>

definition task_range :: "u32 \<Rightarrow> nat set" where
  "task_range t = {unat t ..< unat t + 200}"

definition threads_ok :: "'a thread_state_scheme \<Rightarrow> u32 list \<Rightarrow> u32 list \<Rightarrow> bool" where
  "threads_ok s rq ts \<longleftrightarrow> sched_ok s rq \<and> set (current_task s # rq) \<subseteq> set ts \<and> thread_total_list s \<noteq> NULL \<and>
     ring (nodes s) (thread_total_list s # map thread_list ts) \<and>
     (\<forall>t \<in> set ts. unat t + 200 \<le> 4294967296 \<and> unat (thread_total_list s) \<notin> task_range t) \<and>
     (\<forall>t \<in> set ts. \<forall>u \<in> set ts. t \<noteq> u \<longrightarrow> task_range t \<inter> task_range u = {})"

lemma task_cells:
  assumes "unat t + 200 \<le> 4294967296"
  shows "unat (thread_dispatch_queue t) = unat t + 52" and "unat (thread_list t) = unat t + 60"
  using assms by (simp_all add: thread_dispatch_queue_def thread_list_def unat_add_u32)

lemma task_cells_range:
  assumes "unat t + 200 \<le> 4294967296"
  shows "unat (thread_dispatch_queue t) \<in> task_range t" and "unat (thread_list t) \<in> task_range t" and "thread_dispatch_queue t \<noteq> NULL" and "thread_list t \<noteq> NULL"
    and "thread_dispatch_queue t \<noteq> thread_list t"
  using task_cells [OF assms] by (auto simp: task_range_def NULL_def)

lemma length_tasks: "distinct xs \<Longrightarrow> (\<And>x. x \<in> set xs \<Longrightarrow> unat (x :: u32) + 200 \<le> 4294967296) \<Longrightarrow> length xs \<le> 4294967097"
proof -
  assume xs: "distinct xs" "\<And>x. x \<in> set xs \<Longrightarrow> unat (x :: u32) + 200 \<le> 4294967296"
  have "unat x \<le> 4294967096" if "x \<in> set xs" for x
    using xs(2) [OF that] by simp
  then have "unat ` set xs \<subseteq> {..4294967096}"
    by auto
  then have "card (unat ` set xs) \<le> card {..4294967096 :: nat}"
    by (intro card_mono) simp_all
  also have "inj_on unat (set xs)"
    by (simp add: inj_on_def word_unat_eq_iff)
  then have "card (unat ` set xs) = length xs"
    using xs(1) by (simp add: card_image distinct_card)
  finally show ?thesis
    by simp
qed

lemma threads_okD:
  assumes "threads_ok s rq ts"
  shows "sched_ok s rq" and "set rq \<subseteq> set ts" and "current_task s \<in> set ts" and "thread_total_list s \<noteq> NULL" and "ring (nodes s) (thread_total_list s # map thread_list ts)"
    and "u \<in> set ts \<Longrightarrow> unat u + 200 \<le> 4294967296" and "u \<in> set ts \<Longrightarrow> unat (thread_total_list s) \<notin> task_range u"
    and "u \<in> set ts \<Longrightarrow> v \<in> set ts \<Longrightarrow> u \<noteq> v \<Longrightarrow> task_range u \<inter> task_range v = {}"
  using assms by (auto simp: threads_ok_def)

text \<open>A thread that is not linked yet: its structure is apart from those of the others.\<close>

definition fresh_thread :: "'a thread_state_scheme \<Rightarrow> u32 list \<Rightarrow> u32 \<Rightarrow> bool" where
  "fresh_thread s ts t \<longleftrightarrow> unat t + 200 \<le> 4294967296 \<and> unat (thread_total_list s) \<notin> task_range t \<and> (\<forall>u \<in> set ts. task_range u \<inter> task_range t = {})"

lemma fresh_cells:
  assumes "threads_ok s rq ts" and "fresh_thread s ts t"
  shows "t \<notin> set ts" and "u \<in> set ts \<Longrightarrow> thread_dispatch_queue t \<noteq> thread_list u" and "u \<in> set ts \<Longrightarrow> thread_list t \<noteq> thread_dispatch_queue u"
    and "thread_list t \<noteq> thread_total_list s" and "thread_dispatch_queue t \<noteq> thread_total_list s" and "u \<in> set ts \<Longrightarrow> thread_list t \<noteq> thread_list u"
    and "u \<in> set ts \<Longrightarrow> thread_dispatch_queue u \<noteq> thread_total_list s" and "u \<in> set ts \<Longrightarrow> v \<in> set ts \<Longrightarrow> thread_dispatch_queue u \<noteq> thread_list v"
proof -
  have t: "unat t + 200 \<le> 4294967296" "unat (thread_total_list s) \<notin> task_range t"
    using assms(2) by (simp_all add: fresh_thread_def)
  note tc = task_cells_range [OF t(1)]
  have apart: "x \<noteq> y" if "u \<in> set ts" "unat x \<in> task_range t" "unat y \<in> task_range u" for u x y
    using assms(2) that by (auto simp: fresh_thread_def)
  note uc = task_cells_range [OF threads_okD(6) [OF assms(1)]]
  show "t \<notin> set ts"
    using apart [of t t t] by (auto simp: task_range_def)
  show "thread_dispatch_queue t \<noteq> thread_list u" "thread_list t \<noteq> thread_dispatch_queue u" "thread_list t \<noteq> thread_list u" if "u \<in> set ts"
    by (rule apart [OF that], rule tc uc [OF that], rule tc uc [OF that])+
  show "thread_list t \<noteq> thread_total_list s" "thread_dispatch_queue t \<noteq> thread_total_list s"
    using t(2) tc(1,2) by auto
  show "thread_dispatch_queue u \<noteq> thread_total_list s" if "u \<in> set ts"
    using threads_okD(7) [OF assms(1) that] uc(1) [OF that] by auto
  show "thread_dispatch_queue u \<noteq> thread_list v" if "u \<in> set ts" "v \<in> set ts"
    using threads_okD(8) [OF assms(1) that] uc [OF that(1)] uc [OF that(2)] by (cases "u = v") auto
qed

lemma thread_link:
  assumes ok: "threads_ok (thread_creat t f arg s) rq ts" and fresh: "fresh_thread (thread_creat t f arg s) ts t"
    and ready: "status (tasks (thread_creat t f arg s) t) = TASK_READY"
  obtains h q where "thread_start_link t f arg s = Some (Returned t, (thread_creat t f arg s)\<lparr>nodes := h, thread_ready_queue := q\<rparr>)"
    and "threads_ok ((thread_creat t f arg s)\<lparr>nodes := h, thread_ready_queue := q\<rparr>) (rq @ [t]) (t # ts)"
    and "\<And>p. p \<notin> set (thread_total_list (thread_creat t f arg s) # map thread_list (t # ts)) \<Longrightarrow> p \<notin> thread_dispatch_queue ` set (t # rq) \<Longrightarrow>
      h p = nodes (thread_creat t f arg s) p"
proof -
  let ?s = "thread_creat t f arg s"
  let ?d = "thread_dispatch_queue" and ?tl = "thread_total_list ?s"
  have t: "unat t + 200 \<le> 4294967296"
    using fresh by (simp add: fresh_thread_def)
  note tc = task_cells_range [OF t] and fc = fresh_cells [OF ok fresh] and ts = threads_okD [OF ok]
  have rep: "queue_rep (nodes ?s) (thread_ready_queue ?s) (map ?d rq)" and st: "\<And>u. u \<in> set rq \<Longrightarrow> status (tasks ?s u) = TASK_READY"
    using ts(1) by (simp_all add: sched_ok_def)
  have trq: "t \<notin> set rq" "t \<noteq> current_task ?s"
    using fc(1) ts(2,3) by auto
  have "distinct rq"
    using queue_rep_distinct [OF rep] by (simp add: distinct_map)
  then have len: "length (rq @ [t]) \<le> 4294967097"
    using length_tasks [of "rq @ [t]"] trq(1) ts(2,6) t by auto
  obtain h1 q where q: "queue_in (nodes ?s) (thread_ready_queue ?s) (?d t) = Some (h1, q)" "queue_rep h1 q (map ?d (rq @ [t]))"
      "\<And>p. p \<notin> ?d ` set (t # rq) \<Longrightarrow> h1 p = nodes ?s p"
    using ready_queue_in [OF rep trq(1) tc(3)] len by auto
  have out: "p \<notin> ?d ` set (t # rq)" if "p \<in> set (?tl # map thread_list ts)" for p
  proof
    assume "p \<in> ?d ` set (t # rq)"
    then obtain u where u: "p = ?d u" "u = t \<or> u \<in> set ts"
      using ts(2) by auto
    then show False
      using that fc(2,5,7,8) by auto
  qed
  have r1: "ring h1 (?tl # map thread_list ts)"
    by (rule ring_cong [OF ts(5)], rule q(3), rule out)
  have new: "thread_list t \<notin> set (?tl # map thread_list ts)"
    using fc(4,6) by auto
  let ?h = "list_add h1 ?tl (thread_list t)"
  have "list_find_item (nodes ?s) (front (thread_ready_queue ?s)) (?d t) = Some False"
    using queue_rep_find [OF rep] trq(1) by simp
  moreover have "list_find_item h1 ?tl (thread_list t) = Some False"
    using list_find_item_ring [OF r1 ts(4) tc(4)] new by (auto dest: in_set_butlastD)
  ultimately have run: "thread_start_link t f arg s = Some (Returned t, ?s\<lparr>nodes := ?h, thread_ready_queue := q\<rparr>)"
    using q(1) by (simp add: thread_start_link_def Let_def)
  have "ring ?h (?tl # map thread_list (t # ts))"
    using list_add_ring [OF r1 new] by simp
  moreover have "queue_rep ?h q (map ?d (rq @ [t]))"
  proof (rule kq.rep_local [OF q(2)])
    fix p assume "p \<in> set (map ?d (rq @ [t]))"
    then have p: "p \<in> ?d ` set (t # rq)"
      by auto
    then obtain u where u: "p = ?d u" "u = t \<or> u \<in> set ts"
      using ts(2) by auto
    then have "p \<noteq> thread_list t"
      using fc(3) [of u] tc(5) by auto
    then have "p \<notin> set (thread_list t # ?tl # map thread_list ts)"
      using p out by auto
    then show "?h p = h1 p"
      by (rule list_add_other(1) [OF r1])
  qed
  then have "sched_ok (?s\<lparr>nodes := ?h, thread_ready_queue := q\<rparr>) (rq @ [t])"
    using ts(1) st ready trq len by (auto simp: sched_ok_def)
  moreover have "\<forall>u \<in> set (t # ts). \<forall>v \<in> set (t # ts). u \<noteq> v \<longrightarrow> task_range u \<inter> task_range v = {}"
    using ts(8) fresh by (auto simp: fresh_thread_def)
  ultimately have ok': "threads_ok (?s\<lparr>nodes := ?h, thread_ready_queue := q\<rparr>) (rq @ [t]) (t # ts)"
    using ts(2-4,6,7) fresh by (simp add: threads_ok_def fresh_thread_def) blast
  have "?h p = nodes ?s p" if "p \<notin> set (?tl # map thread_list (t # ts))" "p \<notin> ?d ` set (t # rq)" for p
    using list_add_other(1) [OF r1, of p "thread_list t"] q(3) [OF that(2)] that(1) by auto
  then show ?thesis
    by (rule that [OF run ok'])
qed

section \<open>Starting a thread\<close>

text \<open>
  The page \<open>w\<close> is the first free one, nobody holds the two locks, and neither the name of the new thread nor the
  other threads are in the way.
\<close>

definition thread_room :: "'a thread_state_scheme \<Rightarrow> u32 list \<Rightarrow> nat \<Rightarrow> u32 \<Rightarrow> u8 list \<Rightarrow> bool" where
  "thread_room s ts w name cs \<longleftrightarrow> kpool_ok s \<and> lock_free (pool_lock (kernel_pool s)) s \<and> lock_free (pid_lock s) s \<and>
     bm_free (ram s) (kvm s) w 1 \<and> w + 200 < bm_bits (kvm s) \<and> (\<forall>j < w. \<not> bm_free (ram s) (kvm s) j 1) \<and>
     (\<forall>u \<in> set ts. task_range u \<inter> {unat (page_at s w) ..< unat (page_at s w) + 4096} = {}) \<and>
     unat (thread_total_list s) \<notin> {unat (page_at s w) ..< unat (page_at s w) + 4096} \<and> main_thread s \<noteq> page_at s w \<and>
     cstring (ram s) name cs \<and> length cs < 32 \<and> name \<noteq> NULL \<and>
     span name (Suc (length cs)) \<inter> (span (page_at s w) 4096 \<union> bm_span (kvm s) \<union> bm_span (kpm s)) = {}"

lemma zero_pages_thread [simp]:
  "thread_ready_queue (zero_pages p n s) = thread_ready_queue s" "thread_total_list (zero_pages p n s) = thread_total_list s"
  "main_thread (zero_pages p n s) = main_thread s" "pid_lock (zero_pages p n s) = pid_lock s" "next_pid (zero_pages p n s) = next_pid s"
  "kernel_func (zero_pages p n s) = kernel_func s"
  by (simp_all add: zero_pages_def)

lemma zero_pages_cell: "unat (a - p) + 8 > unat n \<Longrightarrow> nodes (zero_pages p n s) a = nodes s a"
  by (simp add: zero_pages_def)

text \<open>\<open>threads_ok\<close> reads only the cells and structures of the threads.\<close>

lemma threads_ok_cong:
  assumes "threads_ok s rq ts" and "thread_ready_queue s' = thread_ready_queue s" and "thread_total_list s' = thread_total_list s"
    and "current_task s' = current_task s" and "\<And>u. u \<in> set ts \<Longrightarrow> tasks s' u = tasks s u"
    and "\<And>a. (\<exists>u \<in> set ts. unat a \<in> task_range u) \<or> a = thread_total_list s \<Longrightarrow> nodes s' a = nodes s a"
  shows "threads_ok s' rq ts"
proof -
  note ts = threads_okD [OF assms(1)]
  note cells = task_cells_range [OF ts(6)]
  have "queue_rep (nodes s') (thread_ready_queue s) (map thread_dispatch_queue rq)"
  proof (rule kq.rep_local)
    show "queue_rep (nodes s) (thread_ready_queue s) (map thread_dispatch_queue rq)"
      using ts(1) by (simp add: sched_ok_def)
    fix p assume "p \<in> set (map thread_dispatch_queue rq)"
    then obtain u where "u \<in> set ts" "p = thread_dispatch_queue u"
      using ts(2) by auto
    then show "nodes s' p = nodes s p"
      using assms(6) cells(1) by blast
  qed
  moreover have "ring (nodes s') (thread_total_list s # map thread_list ts)"
  proof (rule ring_cong [OF ts(5)])
    fix p assume "p \<in> set (thread_total_list s # map thread_list ts)"
    then have "p = thread_total_list s \<or> (\<exists>u \<in> set ts. p = thread_list u)"
      by auto
    then show "nodes s' p = nodes s p"
      using assms(6) cells(2) by blast
  qed
  moreover have "\<forall>u \<in> set rq. status (tasks s' u) = TASK_READY"
    using ts(1,2) assms(5) by (auto simp: sched_ok_def)
  ultimately show ?thesis
    using ts assms(2-4) by (auto simp: threads_ok_def sched_ok_def)
qed

lemma outside_page:
  fixes a p :: u32
  assumes "unat p + n \<le> 4294967296" and "unat a \<notin> {unat p ..< unat p + n}" and "8 \<le> n"
  shows "n < unat (a - p) + 8"
proof (rule ccontr)
  assume "\<not> n < unat (a - p) + 8"
  then have d: "unat (a - p) + 8 \<le> n"
    by simp
  have "unat (p + (a - p)) = unat p + unat (a - p)"
    using d assms(1,3) by (intro unat_add_u32) linarith
  then show False
    using d assms(2,3) by simp
qed

lemma thread_start_run:
  assumes ok: "threads_ok s rq ts" and room: "thread_room s ts w name cs"
  defines "t \<equiv> page_at s w" and "k \<equiv> page_at s w + 818768"
  obtains s' where "thread_start name prio f arg s = Some (Returned t, s')" and "threads_ok s' (rq @ [t]) (t # ts)"
    and "tasks s' = (tasks s)(t := new_task k cs prio (next_pid s + 1) TASK_READY)" and "start_frame s' k f arg"
    and "next_pid s' = next_pid s + 1" and "current_task s' = current_task s" and "main_thread s' = main_thread s" and "kernel_vm_pool s' = kernel_vm_pool s"
    and "\<And>j. j < bm_bits (kvm s) \<Longrightarrow> bm_bit (ram s') (kvm s) j = (j = w \<or> bm_bit (ram s) (kvm s) j)"
    and "unat t + 819200 \<le> 4294967296" and "unat k = unat t + 818768" and "kpool_ok s'"
    and "\<And>a. a \<notin> span t 4096 \<union> span k 32 \<union> bm_span (kvm s) \<union> bm_span (kpm s) \<Longrightarrow> ram s' a = ram s a"
    and "\<And>a. unat a \<notin> {unat t ..< unat t + 4096} \<Longrightarrow> a \<noteq> thread_total_list s \<Longrightarrow> \<forall>u \<in> set ts. unat a \<notin> task_range u \<Longrightarrow> nodes s' a = nodes s a"
    and "\<And>a. 200 < unat (a - t) + 16 \<Longrightarrow> block_descs s' a = block_descs s a"
    and "\<exists>m h ar bd tk q n. s' = s\<lparr>ram := m, nodes := h, arenas := ar, block_descs := bd, tasks := tk, thread_ready_queue := q, next_pid := n\<rparr>"
proof -
  have kp: "kpool_ok s" and lk: "lock_free (pool_lock (kernel_pool s)) s" "lock_free (pid_lock s) s"
    and fr: "bm_free (ram s) (kvm s) w 1" and w: "w + 200 < bm_bits (kvm s)" and first: "\<And>j. j < w \<Longrightarrow> \<not> bm_free (ram s) (kvm s) j 1"
    and apart: "\<And>u. u \<in> set ts \<Longrightarrow> task_range u \<inter> {unat t ..< unat t + 4096} = {}" and tl: "unat (thread_total_list s) \<notin> {unat t ..< unat t + 4096}"
    and mt: "main_thread s \<noteq> t" and name: "cstring (ram s) name cs" "length cs < 32" "name \<noteq> NULL"
    and nsp: "span name (Suc (length cs)) \<inter> (span t 4096 \<union> bm_span (kvm s) \<union> bm_span (kpm s)) = {}"
    using room by (simp_all add: thread_room_def t_def)
  note lay = kpool_okD(1) [OF kp]
  have t: "unat t = unat (vm_start (kernel_vm_pool s)) + w * 4096" "unat t + 819200 \<le> 4294967296" "4096 dvd unat t"
    using unat_page_at [OF lay, of w 0] w lay by (simp_all add: t_def kpool_layout_def)
  have k: "unat k = unat t + 818768"
    using t(2) by (simp add: k_def t_def [symmetric] unat_add_u32)
  have "4 dvd unat t"
    using t(3) dvd_trans [of 4 4096 "unat t"] by simp
  then have k4: "4 dvd unat k"
    unfolding k by (simp add: dvd_add)
  obtain m1 m2 where get: "get_kernel_pages 1 s = Some (Returned t, zero_pages t PAGE_SIZE (s\<lparr>ram := m2\<rparr>))"
      and "bm_upd (ram s) (kvm s) {w ..< w + unat (1 :: u32)} True m1" and m2: "bm_upd m1 (kpm s) {w} True m2"
    unfolding t_def by (rule get_kernel_pages_eq [OF kp lk(1) one_neq_zero, of w]) (use fr w first in simp_all)
  then have m: "bm_upd (ram s) (kvm s) {w} True m1" "bm_upd m1 (kpm s) {w} True m2"
    by simp_all
  let ?s1 = "zero_pages t PAGE_SIZE (s\<lparr>ram := m2\<rparr>)"
  have tn: "t \<noteq> NULL"
    using page_at_not_NULL [OF lay, of w] w by (simp add: t_def)
  have r1: "ram ?s1 a = ram s a" if "a \<notin> span t 4096 \<union> bm_span (kvm s) \<union> bm_span (kpm s)" for a
    using that bm_updD(2) [OF m(1), of a] bm_updD(2) [OF m(2), of a] by (simp add: zero_pages_def PAGE_SIZE_def)
  have str: "cstring (ram ?s1) name cs"
    using name(1) nsp r1 by (subst cstring_cong [where m' = "ram s"]) auto
  have sp: "span name (Suc (length cs)) \<inter> span t 200 = {}"
    using nsp span_shift_subset [of 0 200 4096 t] by auto
  have lk1: "lock_free (pid_lock ?s1) ?s1"
    using lk(2) by simp
  have u200: "unat t + 200 \<le> 4294967296"
    using t(2) by simp
  let ?st = "if t = main_thread ?s1 then TASK_RUNNING else TASK_READY"
  have st: "?st = TASK_READY"
    using mt by simp
  obtain m3 bd where pcb: "pcb_init t name prio ?s1 = Some (Returned (), (zero_pages t 200 ?s1)\<lparr>ram := m3, block_descs := bd,
      tasks := (tasks ?s1)(t := new_task (t + 819200) cs prio (next_pid ?s1 + 1) TASK_READY), next_pid := next_pid ?s1 + 1\<rparr>)"
      and m3: "\<And>a. a \<notin> span t 200 \<Longrightarrow> m3 a = ram ?s1 a" and bd: "\<And>a. 200 < unat (a - t) + 16 \<Longrightarrow> bd a = block_descs ?s1 a"
    by (rule pcb_init_eq [OF tn u200 str name(2,3) sp lk1, of prio, unfolded st]) (rule that)
  let ?s2 = "(zero_pages t 200 ?s1)\<lparr>ram := m3, block_descs := bd,
      tasks := (tasks ?s1)(t := new_task (t + 819200) cs prio (next_pid ?s1 + 1) TASK_READY), next_pid := next_pid ?s1 + 1\<rparr>"
  have sks: "self_kernel_stack (tasks ?s2 t) = k + 432"
    by (simp add: new_task_def k_def t_def)
  obtain m4 where cr: "thread_creat t f arg ?s2 = (upd_task t (self_kernel_stack_update (\<lambda>_. k)) ?s2)\<lparr>ram := m4\<rparr>"
      and frame: "start_frame (?s2\<lparr>ram := m4\<rparr>) k f arg" and m4: "\<And>a. a \<notin> span k 32 \<Longrightarrow> m4 a = ram ?s2 a"
    by (rule thread_creat_eq [OF sks k4]) (use k t(2) in simp, rule that)
  let ?s3 = "thread_creat t f arg ?s2"
  have tasks3: "tasks ?s3 = (tasks s)(t := new_task k cs prio (next_pid s + 1) TASK_READY)"
    by (subst cr) (simp add: upd_task_def new_task_def)
  have same: "thread_ready_queue ?s3 = thread_ready_queue s" "thread_total_list ?s3 = thread_total_list s" "current_task ?s3 = current_task s"
      "next_pid ?s3 = next_pid s + 1" "kernel_vm_pool ?s3 = kernel_vm_pool s" "ram ?s3 = m4" "main_thread ?s3 = main_thread s"
    by (subst cr, simp add: upd_task_def)+
  have unt: "t \<notin> set ts"
    using apart [of t] by (auto simp: task_range_def)
  have nodes3: "nodes ?s3 a = nodes s a" if "unat a \<notin> {unat t ..< unat t + 4096}" for a
  proof -
    have "4096 < unat (a - t) + 8"
      by (rule outside_page [OF _ that]) (use t(2) in simp_all)
    then show ?thesis
      by (subst cr) (simp add: zero_pages_cell PAGE_SIZE_def)
  qed
  have ok3: "threads_ok ?s3 rq ts"
  proof (rule threads_ok_cong [OF ok])
    fix u assume "u \<in> set ts"
    then show "tasks ?s3 u = tasks s u"
      using unt tasks3 by auto
  next
    fix a assume "(\<exists>u \<in> set ts. unat a \<in> task_range u) \<or> a = thread_total_list s"
    then have "unat a \<notin> {unat t ..< unat t + 4096}"
      using apart tl by blast
    then show "nodes ?s3 a = nodes s a"
      by (rule nodes3)
  qed (simp_all only: same)
  have sub: "task_range t \<subseteq> {unat t ..< unat t + 4096}"
    by (auto simp: task_range_def)
  then have "task_range u \<inter> task_range t = {}" if "u \<in> set ts" for u
    using apart [OF that] by blast
  then have fresh: "fresh_thread ?s3 ts t"
    using tl sub u200 unfolding fresh_thread_def same by blast
  have "status (tasks ?s3 t) = TASK_READY"
    unfolding tasks3 by (simp add: new_task_def)
  then obtain h q where link: "thread_start_link t f arg ?s2 = Some (Returned t, ?s3\<lparr>nodes := h, thread_ready_queue := q\<rparr>)"
      and ok': "threads_ok (?s3\<lparr>nodes := h, thread_ready_queue := q\<rparr>) (rq @ [t]) (t # ts)"
      and hfr: "\<And>p. p \<notin> set (thread_total_list ?s3 # map thread_list (t # ts)) \<Longrightarrow> p \<notin> thread_dispatch_queue ` set (t # rq) \<Longrightarrow> h p = nodes ?s3 p"
    by (rule thread_link [OF ok3 fresh]) (rule that)
  let ?s' = "?s3\<lparr>nodes := h, thread_ready_queue := q\<rparr>"
  have "PCB_SIZE div PAGE_SIZE = 1"
    by (simp add: PCB_SIZE_def PAGE_SIZE_def)
  then have res: "thread_start name prio f arg s = Some (Returned t, ?s')"
    using get pcb link by (simp add: thread_start_def)
  have fr': "start_frame ?s' k f arg"
    using frame unfolding cr by (simp add: start_frame_def upd_task_def)
  have below: "unat a < unat t" if "a \<in> bm_span (kvm s) \<union> bm_span (kpm s)" for a
  proof -
    have "a < vm_start (kernel_vm_pool s)"
      using lay that by (simp add: kpool_layout_def)
    then show ?thesis
      using t(1) by (simp add: word_less_nat_alt)
  qed
  have keep: "ram ?s' a = m2 a" if "a \<notin> span t 4096" "a \<notin> span k 32" for a
  proof -
    have "a \<notin> span t 200"
      using that(1) span_shift_subset [of 0 200 4096 t] by auto
    then have "m4 a = m2 a"
      using m4 [OF that(2)] m3 [of a] that(1) by (simp add: zero_pages_def PAGE_SIZE_def)
    then show ?thesis
      using same(6) by simp
  qed
  have "ram ?s' a = m2 a" if "a \<in> bm_span (kvm s) \<union> bm_span (kpm s)" for a
    using below [OF that] k t(2) by (intro keep) (simp_all add: span_interval)
  then have bits: "bm_bit (ram ?s') (kvm s) j = (j = w \<or> bm_bit (ram s) (kvm s) j)" "bm_bit (ram ?s') (kpm s) j = (j = w \<or> bm_bit (ram s) (kpm s) j)"
    if "j < bm_bits (kvm s)" for j
    using alloc_bits [OF lay m that] that bm_bit_frame [OF kpool_layoutD(1) [OF lay] that, of "ram ?s'" m2]
      bm_bit_frame [OF kpool_layoutD(2) [OF lay], of j "ram ?s'" m2] kpool_layoutD(3) [OF lay] by auto
  have pools: "kernel_pool ?s' = kernel_pool s" "user_pool ?s' = user_pool s" "kernel_vm_pool ?s' = kernel_vm_pool s"
    by (subst cr, simp add: upd_task_def)+
  have "kpool_layout ?s' = kpool_layout s"
    unfolding kpool_layout_def pools ..
  then have kp': "kpool_ok ?s'"
    using lay bits kpool_okD(2) [OF kp] unfolding kpool_ok_def pools by simp
  have out: "ram ?s' a = ram s a" if "a \<notin> span t 4096 \<union> span k 32 \<union> bm_span (kvm s) \<union> bm_span (kpm s)" for a
    using keep [of a] that bm_updD(2) [OF m(1), of a] bm_updD(2) [OF m(2), of a] by simp
  have nfr: "nodes ?s' a = nodes s a"
    if a: "unat a \<notin> {unat t ..< unat t + 4096}" "a \<noteq> thread_total_list s" "\<forall>u \<in> set ts. unat a \<notin> task_range u" for a
  proof -
    have "unat (thread_dispatch_queue u) \<in> task_range u \<and> unat (thread_list u) \<in> task_range u" if "u \<in> set (t # ts)" for u
      using that task_cells_range [OF u200] task_cells_range [OF threads_okD(6) [OF ok]] by auto
    moreover have "unat a \<notin> task_range u" if "u \<in> set (t # ts)" for u
      using that a(1,3) sub by auto
    moreover have "set (t # rq) \<subseteq> set (t # ts)"
      using threads_okD(2) [OF ok] by auto
    ultimately have "a \<notin> set (map thread_list (t # ts))" "a \<notin> thread_dispatch_queue ` set (t # rq)"
      by auto
    moreover have "a \<noteq> thread_total_list ?s3"
      using a(2) unfolding same(2) .
    ultimately have "h a = nodes ?s3 a"
      by (intro hfr) simp_all
    then show ?thesis
      using nodes3 [OF a(1)] by simp
  qed
  have bfr: "block_descs ?s' a = block_descs s a" if "200 < unat (a - t) + 16" for a
    using bd [OF that] by (subst cr) (simp add: upd_task_def zero_pages_def)
  have sh: "\<exists>m h ar bd tk q n. ?s' = s\<lparr>ram := m, nodes := h, arenas := ar, block_descs := bd, tasks := tk, thread_ready_queue := q, next_pid := n\<rparr>"
  proof -
    have "?s' = s\<lparr>ram := ram ?s', nodes := nodes ?s', arenas := arenas ?s', block_descs := block_descs ?s', tasks := tasks ?s',
        thread_ready_queue := thread_ready_queue ?s', next_pid := next_pid ?s'\<rparr>"
      unfolding cr by (simp add: upd_task_def zero_pages_def)
    then show ?thesis
      by blast
  qed
  show ?thesis
    by (rule that [OF res ok' _ fr' _ _ _ _ bits(1) t(2) k kp' out nfr bfr sh]) (use tasks3 same in simp_all)
qed

section \<open>Properties of threads\<close>

text \<open>
  C22: \<open>thread_start\<close> creates a thread. If a page is free and nobody holds the locks, it returns the address of
  the first free page; the structure there is ready, with the name, the priority and the next identifier;
  its start frame calls \<open>kernel_func\<close> with the function and the argument; the thread is last in the ready
  queue and first in the list of all threads; no other thread changes, and the threads stay consistent.
\<close>

theorem thread_start_creates:
  assumes "threads_ok s rq ts" and "thread_room s ts w name cs"
  shows "\<exists>s'. thread_start name prio f arg s = Some (Returned (page_at s w), s') \<and> threads_ok s' (rq @ [page_at s w]) (page_at s w # ts) \<and>
    tasks s' = (tasks s)(page_at s w := new_task (page_at s w + 818768) cs prio (next_pid s + 1) TASK_READY) \<and>
    start_frame s' (self_kernel_stack (tasks s' (page_at s w))) f arg \<and> next_pid s' = next_pid s + 1 \<and> current_task s' = current_task s"
proof -
  obtain s' where "thread_start name prio f arg s = Some (Returned (page_at s w), s')" "threads_ok s' (rq @ [page_at s w]) (page_at s w # ts)"
      "tasks s' = (tasks s)(page_at s w := new_task (page_at s w + 818768) cs prio (next_pid s + 1) TASK_READY)"
      "start_frame s' (page_at s w + 818768) f arg" "next_pid s' = next_pid s + 1" "current_task s' = current_task s"
    by (rule thread_start_run [OF assms]) (rule that)
  then show ?thesis
    by (intro exI [of _ s']) (simp add: new_task_def)
qed

text \<open>
  The stack of a new thread is not in the memory of the thread. \<open>pthread + PCB_SIZE\<close> counts task structures, so
  the stack starts 819200 bytes above the structure, in the page 199 pages further on, which the page
  allocator still regards as free if it was free before.
\<close>

theorem thread_stack_unallocated:
  assumes "threads_ok s rq ts" and "thread_room s ts w name cs" and "\<not> bm_bit (ram s) (kvm s) (w + 199)"
  shows "\<exists>s'. thread_start name prio f arg s = Some (Returned (page_at s w), s') \<and>
    unat (page_at s (w + 199)) \<le> unat (self_kernel_stack (tasks s' (page_at s w))) \<and>
    unat (self_kernel_stack (tasks s' (page_at s w))) + 32 \<le> unat (page_at s (w + 199)) + 4096 \<and>
    \<not> bm_bit (ram s') (kvm s') (w + 199)"
proof -
  obtain s' where s': "thread_start name prio f arg s = Some (Returned (page_at s w), s')"
      "tasks s' = (tasks s)(page_at s w := new_task (page_at s w + 818768) cs prio (next_pid s + 1) TASK_READY)" "kernel_vm_pool s' = kernel_vm_pool s"
      "\<And>j. j < bm_bits (kvm s) \<Longrightarrow> bm_bit (ram s') (kvm s) j = (j = w \<or> bm_bit (ram s) (kvm s) j)"
      "unat (page_at s w + 818768) = unat (page_at s w) + 818768"
    by (rule thread_start_run [OF assms(1,2)]) (rule that)
  have w: "w + 199 < bm_bits (kvm s)" and lay: "kpool_layout s"
    using assms(2) by (simp_all add: thread_room_def kpool_ok_def)
  have "unat (page_at s (w + 199)) = unat (page_at s w) + 815104"
    using unat_page_at [OF lay w, of 0] unat_page_at [OF lay, of w 0] w by simp
  then show ?thesis
    using s' assms(3) w by (intro exI [of _ s']) (simp add: new_task_def)
qed

text \<open>\<open>n\<close> identifiers in a row.\<close>

primrec alloc_pids :: "nat \<Rightarrow> 'a thread_state_scheme \<Rightarrow> (u16 list \<times> 'a thread_state_scheme) option" where
  "alloc_pids 0 s = Some ([], s)"
| "alloc_pids (Suc n) s = do {
     (r, s) \<leftarrow> alloc_pid s;
     case r of In_lock old i \<Rightarrow> None
     | Returned p \<Rightarrow> do { (ps, s) \<leftarrow> alloc_pids n s; Some (p # ps, s) }
   }"

lemma alloc_pids_eq:
  "lock_free (pid_lock s) s \<Longrightarrow> alloc_pids n s = Some (map (\<lambda>k. next_pid s + 1 + of_nat k) [0 ..< n], s\<lparr>next_pid := next_pid s + of_nat n\<rparr>)"
proof (induction n arbitrary: s)
  case (Suc n)
  let ?t = "s\<lparr>next_pid := next_pid s + 1\<rparr>"
  have "lock_free (pid_lock ?t) ?t"
    using Suc.prems by (simp add: lock_free_def)
  then have "alloc_pids n ?t = Some (map (\<lambda>k. next_pid s + 1 + 1 + of_nat k) [0 ..< n], ?t\<lparr>next_pid := next_pid s + 1 + of_nat n\<rparr>)"
    using Suc.IH [of ?t] by simp
  moreover have "map (\<lambda>k. next_pid s + 1 + of_nat k) [0 ..< Suc n] = (next_pid s + 1) # map (\<lambda>k. next_pid s + 1 + 1 + of_nat k) [0 ..< n]"
    by (simp add: upt_conv_Cons map_Suc_upt [symmetric] add.assoc del: upt_Suc)
  ultimately show ?case
    using Suc.prems by (simp add: alloc_pid_free add.assoc add.commute del: upt_Suc)
qed simp

lemma sint_u16_pos: "0 < sint (x :: u16) \<longleftrightarrow> 0 < unat x \<and> unat x < 32768"
proof -
  define n where "n = unat x"
  have n: "n < 65536"
    using unsigned_less [of x] by (simp add: n_def)
  have eq: "sint x = (int n + 32768) mod 65536 - 32768"
    by (simp add: n_def sint_uint signed_take_bit_eq_take_bit_shift take_bit_eq_mod)
  show ?thesis
    unfolding n_def [symmetric]
  proof (cases "n < 32768")
    case False
    then obtain y where y: "n = 32768 + y"
      using le_Suc_ex [of 32768 n] by auto
    then have "int n + 32768 = 65536 + int y"
      by simp
    then have "(int n + 32768) mod 65536 = int y"
      using n y by (simp only: mod_add_self1) simp
    then show "0 < sint x \<longleftrightarrow> 0 < n \<and> n < 32768"
      using eq n y False by simp
  next
    case True
    then have "(int n + 32768) mod 65536 = int n + 32768"
      by (intro mod_pos_pos_trivial) simp_all
    then show "0 < sint x \<longleftrightarrow> 0 < n \<and> n < 32768"
      using eq True by simp
  qed
qed

text \<open>
  Identifiers do not repeat before they wrap around: up to 65536 of them in a row are distinct. Counted from
  the start, the first 32767 are positive; the next one is negative, because \<open>pid_t\<close> is a 16 bit integer.
\<close>

theorem pids_distinct:
  assumes "lock_free (pid_lock s) s" and "n \<le> 65536"
  shows "\<exists>ps s'. alloc_pids n s = Some (ps, s') \<and> length ps = n \<and> distinct ps \<and>
    (next_pid s = 0 \<longrightarrow> (\<forall>k < n. (0 < sint (ps ! k)) = (k < 32767)))"
proof -
  let ?ps = "map (\<lambda>k. next_pid s + 1 + of_nat k) [0 ..< n]"
  have inj: "inj_on (\<lambda>k. next_pid s + 1 + of_nat k :: u16) {0 ..< n}"
  proof (rule inj_onI)
    fix j k assume jk: "j \<in> {0 ..< n}" "k \<in> {0 ..< n}" "next_pid s + 1 + of_nat j = next_pid s + 1 + (of_nat k :: u16)"
    then have "(of_nat j :: u16) = of_nat k"
      by simp
    then have "j mod 65536 = k mod 65536"
      by (simp add: word_unat_eq_iff unat_of_nat)
    then show "j = k"
      using jk(1,2) assms(2) by simp
  qed
  have sgn: "0 < sint (1 + of_nat k :: u16) \<longleftrightarrow> k < 32767" if "k < n" for k
  proof -
    have k: "k < 65536"
      using that assms(2) by simp
    have "unat (1 + of_nat k :: u16) = (k + 1) mod 65536"
    proof -
      have "(1 + of_nat k :: u16) = of_nat (k + 1)"
        by simp
      then show ?thesis
        by (simp only: unat_of_nat) (simp add: take_bit_eq_mod)
    qed
    also have "\<dots> = (if k = 65535 then 0 else k + 1)"
      using k by auto
    finally show ?thesis
      using k by (auto simp: sint_u16_pos)
  qed
  have "distinct ?ps"
    using inj by (simp add: distinct_map)
  then show ?thesis
    using alloc_pids_eq [OF assms(1), of n] sgn by (intro exI [of _ ?ps]) auto
qed

section \<open>The start of the scheduler\<close>

definition main_pcb :: u32 where "main_pcb = 0xc009e000"

lemma lock_init_keeps_free: "lock_free l (s\<lparr>current_task := t\<rparr>) \<Longrightarrow> lock_free l ((lock_init l' s)\<lparr>current_task := t\<rparr>)"
  by (auto simp: lock_free_def lock_init_eq)

lemma lock_init_now_free: "t \<noteq> NULL \<Longrightarrow> lock_free l ((lock_init l s)\<lparr>current_task := t\<rparr>)"
  by (auto simp: lock_free_def lock_init_eq)

lemma kpool_ok_frame:
  assumes "kpool_ok s" and "kernel_pool s' = kernel_pool s" and "user_pool s' = user_pool s" and "kernel_vm_pool s' = kernel_vm_pool s"
    and "\<And>a. a \<in> bm_span (kvm s) \<union> bm_span (kpm s) \<Longrightarrow> ram s' a = ram s a"
  shows "kpool_ok s'" and "i < bm_bits (kvm s) \<Longrightarrow> bm_bit (ram s') (kvm s) i = bm_bit (ram s) (kvm s) i"
proof -
  note lay = kpool_okD(1) [OF assms(1)]
  show b: "bm_bit (ram s') (kvm s) i = bm_bit (ram s) (kvm s) i" if "i < bm_bits (kvm s)" for i
    by (rule bm_bit_frame [OF kpool_layoutD(1) [OF lay] that]) (use assms(5) in blast)
  have b2: "bm_bit (ram s') (kpm s) i = bm_bit (ram s) (kpm s) i" if "i < bm_bits (kvm s)" for i
  proof (rule bm_bit_frame [OF kpool_layoutD(2) [OF lay]])
    show "i < bm_bits (kpm s)"
      using that kpool_layoutD(3) [OF lay] by simp
  qed (use assms(5) in blast)
  have "kpool_layout s' = kpool_layout s"
    using assms(2-4) by (simp add: kpool_layout_def)
  then show "kpool_ok s'"
    using lay b b2 kpool_okD(2) [OF assms(1)] assms(2,4) by (simp add: kpool_ok_def)
qed

text \<open>
  What \<open>thread_init\<close> finds: consistent pools whose bitmaps end below the structure of the main thread, a free page
  \<open>w\<close>, and the names of the two threads.
\<close>

definition boot_room :: "'a thread_state_scheme \<Rightarrow> nat \<Rightarrow> u8 list \<Rightarrow> u8 list \<Rightarrow> bool" where
  "boot_room s w mcs ics \<longleftrightarrow> kpool_ok s \<and> lock_free (pool_lock (kernel_pool s)) (s\<lparr>current_task := main_pcb\<rparr>) \<and>
     (\<forall>a \<in> bm_span (kvm s) \<union> bm_span (kpm s). a < main_pcb) \<and> KERNEL_HEAP_BASE \<le> vm_start (kernel_vm_pool s) \<and>
     bm_free (ram s) (kvm s) w 1 \<and> w + 200 < bm_bits (kvm s) \<and> (\<forall>j < w. \<not> bm_free (ram s) (kvm s) j 1) \<and>
     thread_total_list s \<noteq> NULL \<and> unat (thread_total_list s) \<notin> task_range main_pcb \<and>
     unat (thread_total_list s) \<notin> {unat (page_at s w) ..< unat (page_at s w) + 4096} \<and>
     cstring (ram s) (main_name s) mcs \<and> length mcs < 32 \<and> main_name s \<noteq> NULL \<and> span (main_name s) (Suc (length mcs)) \<inter> span main_pcb 200 = {} \<and>
     cstring (ram s) (cpu_idle_name s) ics \<and> length ics < 32 \<and> cpu_idle_name s \<noteq> NULL \<and>
     span (cpu_idle_name s) (Suc (length ics)) \<inter> (span main_pcb 200 \<union> span (page_at s w) 4096 \<union> bm_span (kvm s) \<union> bm_span (kpm s)) = {}"

lemma thread_state_simps [simp]:
  "pid_lock (lock_init l s) = pid_lock s" "next_pid (lock_init l s) = next_pid s" "main_name (lock_init l s) = main_name s"
  "cpu_idle_name (lock_init l s) = cpu_idle_name s" "cpu_idle_func (lock_init l s) = cpu_idle_func s" "kernel_func (lock_init l s) = kernel_func s"
  "thread_total_list (lock_init l s) = thread_total_list s" "thread_ready_queue (lock_init l s) = thread_ready_queue s" "nodes (lock_init l s) = nodes s"
  "main_name (zero_pages p n s) = main_name s" "cpu_idle_name (zero_pages p n s) = cpu_idle_name s" "cpu_idle_func (zero_pages p n s) = cpu_idle_func s"
  by (simp_all add: lock_init_eq zero_pages_def)

text \<open>The main thread: the state after \<open>init_main_thread\<close>.\<close>

lemma init_main_run:
  assumes room: "boot_room s w mcs ics"
  defines "s0 \<equiv> (lock_init (pid_lock s) (s\<lparr>nodes := list_init (nodes s) (thread_total_list s), thread_ready_queue := queue_init\<rparr>))\<lparr>current_task := main_pcb\<rparr>"
  obtains t where "init_main_thread s0 = Some (Returned (), t)" and "threads_ok t [] [main_pcb]" and "thread_room t [main_pcb] w (cpu_idle_name t) ics"
    and "tasks t = (tasks s)(main_pcb := new_task (main_pcb + 819200) mcs 1 (next_pid s + 1) TASK_RUNNING)"
    and "next_pid t = next_pid s + 1" and "main_thread t = main_pcb" and "current_task t = main_pcb" and "page_at t w = page_at s w"
    and "cpu_idle_func t = cpu_idle_func s" and "\<And>l. lock_free l (s\<lparr>current_task := main_pcb\<rparr>) \<Longrightarrow> lock_free l t"
    and "\<And>a. a \<notin> span main_pcb 200 \<Longrightarrow> ram t a = ram s a"
    and "\<And>a. unat a \<notin> task_range main_pcb \<Longrightarrow> a \<noteq> thread_total_list s \<Longrightarrow> nodes t a = nodes s a"
    and "\<And>a. 200 < unat (a - main_pcb) + 16 \<Longrightarrow> block_descs t a = block_descs s a"
    and "\<exists>m h ar bd tk q n se lo c mt. t = s\<lparr>ram := m, nodes := h, arenas := ar, block_descs := bd, tasks := tk, thread_ready_queue := q, next_pid := n,
      semas := se, locks := lo, current_task := c, main_thread := mt\<rparr>"
proof -
  have r: "kpool_ok s" "lock_free (pool_lock (kernel_pool s)) (s\<lparr>current_task := main_pcb\<rparr>)" "\<And>a. a \<in> bm_span (kvm s) \<union> bm_span (kpm s) \<Longrightarrow> a < main_pcb"
      "KERNEL_HEAP_BASE \<le> vm_start (kernel_vm_pool s)" "bm_free (ram s) (kvm s) w 1" "w + 200 < bm_bits (kvm s)" "\<And>j. j < w \<Longrightarrow> \<not> bm_free (ram s) (kvm s) j 1"
      "thread_total_list s \<noteq> NULL" "unat (thread_total_list s) \<notin> task_range main_pcb" "unat (thread_total_list s) \<notin> {unat (page_at s w) ..< unat (page_at s w) + 4096}"
    and mn: "cstring (ram s) (main_name s) mcs" "length mcs < 32" "main_name s \<noteq> NULL" "span (main_name s) (Suc (length mcs)) \<inter> span main_pcb 200 = {}"
    and idn: "cstring (ram s) (cpu_idle_name s) ics" "length ics < 32" "cpu_idle_name s \<noteq> NULL"
      "span (cpu_idle_name s) (Suc (length ics)) \<inter> (span main_pcb 200 \<union> span (page_at s w) 4096 \<union> bm_span (kvm s) \<union> bm_span (kpm s)) = {}"
    using room unfolding boot_room_def by blast+
  have um: "unat main_pcb = 0xc009e000" and mnn: "main_pcb \<noteq> NULL"
    by (simp_all add: main_pcb_def NULL_def)
  let ?s1 = "s0\<lparr>main_thread := main_pcb\<rparr>"
  have lk: "lock_free (pid_lock ?s1) ?s1"
    using lock_init_now_free [OF mnn, of "pid_lock s"] by (simp add: s0_def lock_free_def)
  have u: "unat main_pcb + 200 \<le> 4294967296"
    by (simp add: um)
  have "cstring (ram ?s1) (main_name s) mcs"
    using mn(1) by (simp add: s0_def)
  then obtain m bd where pcb: "pcb_init main_pcb (main_name s) 1 ?s1 = Some (Returned (), (zero_pages main_pcb 200 ?s1)\<lparr>ram := m, block_descs := bd,
      tasks := (tasks ?s1)(main_pcb := new_task (main_pcb + 819200) mcs 1 (next_pid ?s1 + 1) (if main_pcb = main_thread ?s1 then TASK_RUNNING else TASK_READY)), next_pid := next_pid ?s1 + 1\<rparr>)"
      and m: "\<And>a. a \<notin> span main_pcb 200 \<Longrightarrow> m a = ram ?s1 a" and bd: "\<And>a. 200 < unat (a - main_pcb) + 16 \<Longrightarrow> bd a = block_descs ?s1 a"
    by (rule pcb_init_eq [OF mnn u _ mn(2,3,4) lk, of 1]) (rule that)
  let ?s2 = "(zero_pages main_pcb 200 ?s1)\<lparr>ram := m, block_descs := bd,
      tasks := (tasks ?s1)(main_pcb := new_task (main_pcb + 819200) mcs 1 (next_pid ?s1 + 1) (if main_pcb = main_thread ?s1 then TASK_RUNNING else TASK_READY)), next_pid := next_pid ?s1 + 1\<rparr>"
  let ?tl = "thread_total_list s"
  have "200 < unat (?tl - main_pcb) + 8"
    by (rule outside_page [OF u]) (use r(9) in \<open>simp_all add: task_range_def\<close>)
  then have "nodes ?s2 ?tl = nodes s0 ?tl"
    by (simp add: zero_pages_cell)
  moreover have "ring (nodes s0) [?tl]"
    using list_init_ring by (simp add: s0_def del: ring.simps)
  ultimately have r1: "ring (nodes ?s2) [?tl]"
    by (auto elim: ring_cong)
  note mc = task_cells_range [OF u]
  have new: "thread_list main_pcb \<notin> set [?tl]"
    using mc(2) r(9) by auto
  have find: "list_find_item (nodes ?s2) ?tl (thread_list main_pcb) = Some False"
    using list_find_item_ring [OF r1 r(8) mc(4)] by simp
  let ?t = "?s2\<lparr>nodes := list_add (nodes ?s2) ?tl (thread_list main_pcb)\<rparr>"
  have s2: "thread_total_list ?s2 = ?tl" "main_thread ?s2 = main_pcb" "get_cur_task s0 = main_pcb" "main_name s0 = main_name s" "thread_total_list s0 = ?tl"
    by (simp_all add: s0_def get_cur_task_def)
  have run: "init_main_thread s0 = Some (Returned (), ?t)"
    using pcb find by (simp add: init_main_thread_def s2 Let_def)
  have t: "kernel_pool ?t = kernel_pool s" "user_pool ?t = user_pool s" "kernel_vm_pool ?t = kernel_vm_pool s" "page_at ?t i = page_at s i"
      "thread_total_list ?t = ?tl" "thread_ready_queue ?t = queue_init" "current_task ?t = main_pcb" "main_thread ?t = main_pcb" "pid_lock ?t = pid_lock s"
      "next_pid ?t = next_pid s + 1" "cpu_idle_name ?t = cpu_idle_name s" "cpu_idle_func ?t = cpu_idle_func s" "ram ?t = m" for i
    by (simp_all add: s0_def page_at_def)
  have s0_here: "thread_ready_queue s0 = queue_init" "current_task s0 = main_pcb" "thread_total_list s0 = ?tl"
    by (simp_all add: s0_def)
  have "ring (nodes ?t) (?tl # map thread_list [main_pcb])"
    using list_add_ring [OF r1 new] by (simp del: ring.simps)
  moreover have "queue_rep (nodes ?t) queue_init (map thread_dispatch_queue [])"
    by (simp add: queue_rep_Nil)
  ultimately have ok: "threads_ok ?t [] [main_pcb]"
    using mc(3) r(8,9) u by (simp add: threads_ok_def sched_ok_def s0_here t del: ring.simps)
  have fin: "tasks ?t = (tasks s)(main_pcb := new_task (main_pcb + 819200) mcs 1 (next_pid s + 1) TASK_RUNNING)"
    by (simp add: s0_def)
  have m': "m a = ram s a" if "a \<notin> span main_pcb 200" for a
    using m [OF that] by (simp add: s0_def)
  have out: "a \<notin> span main_pcb 200" if "a \<in> bm_span (kvm s) \<union> bm_span (kpm s)" for a
    using r(3) [OF that] by (simp add: span_interval um word_less_nat_alt)
  have kp: "kpool_ok ?t" and bits: "\<And>i. i < bm_bits (kvm s) \<Longrightarrow> bm_bit m (kvm s) i = bm_bit (ram s) (kvm s) i"
    using kpool_ok_frame [OF r(1) t(1-3)] m' out t(13) by auto
  have free: "bm_free m (kvm s) j 1 \<longleftrightarrow> bm_free (ram s) (kvm s) j 1" if "j \<le> w" for j
    using bits [of j] that r(6) by (simp add: bm_free_def)
  have lk0: "lock_free l ((lock_init (pid_lock s) s)\<lparr>current_task := main_pcb\<rparr>) \<Longrightarrow> lock_free l ?t" for l
    by (simp add: s0_def lock_free_def lock_init_eq)
  have lkp: "lock_free (pool_lock (kernel_pool ?t)) ?t"
    unfolding t(1) by (rule lk0) (rule lock_init_keeps_free [OF r(2)])
  have lkt: "lock_free (pid_lock ?t) ?t"
    using lk unfolding t(9) by (simp add: s0_def lock_free_def)
  have pg: "unat main_pcb + 200 \<le> unat (page_at s w)"
    using unat_page_at [OF kpool_okD(1) [OF r(1)], of w 0] r(4,6) by (simp add: um KERNEL_HEAP_BASE_def word_le_nat_alt)
  have "cstring m (cpu_idle_name s) ics"
    using idn(1,4) m' by (subst cstring_cong [where m' = "ram s"]) auto
  moreover have "lock_free (pool_lock (kernel_pool s)) ?t" "lock_free (pid_lock s) ?t"
    using lkp lkt unfolding t .
  moreover have "task_range u \<inter> {unat (page_at s w) ..< unat (page_at s w) + 4096} = {}" if "u \<in> set [main_pcb]" for u
    using pg that by (auto simp: task_range_def)
  moreover have "main_pcb \<noteq> page_at s w"
    using pg by auto
  moreover have "span (cpu_idle_name s) (Suc (length ics)) \<inter> (span (page_at s w) 4096 \<union> bm_span (kvm s) \<union> bm_span (kpm s)) = {}"
    using idn(4) by blast
  ultimately have "thread_room ?t [main_pcb] w (cpu_idle_name ?t) ics"
    unfolding thread_room_def t using kp r(5-7,10) free idn(2,3) by (intro conjI ballI allI impI) (simp_all del: One_nat_def)
  then show ?thesis
  proof (rule that [OF run ok])
    show "lock_free l ?t" if "lock_free l (s\<lparr>current_task := main_pcb\<rparr>)" for l
      by (rule lk0) (rule lock_init_keeps_free [OF that])
    show "ram ?t a = ram s a" if "a \<notin> span main_pcb 200" for a
      using m' [OF that] by simp
    show "nodes ?t a = nodes s a" if a: "unat a \<notin> task_range main_pcb" "a \<noteq> ?tl" for a
    proof -
      have "a \<noteq> thread_list main_pcb"
        using a(1) mc(2) by auto
      then have "nodes ?t a = nodes ?s2 a"
        using list_add_other(1) [OF r1, of a "thread_list main_pcb"] a(2) by simp
      also have "200 < unat (a - main_pcb) + 8"
        by (rule outside_page [OF u]) (use a(1) in \<open>simp_all add: task_range_def\<close>)
      then have "nodes ?s2 a = nodes s a"
        using a(2) by (simp add: zero_pages_cell) (simp add: s0_def list_init_def set_prev_def set_next_def)
      finally show ?thesis .
    qed
    show "block_descs ?t a = block_descs s a" if "200 < unat (a - main_pcb) + 16" for a
      using bd [OF that] by (simp add: s0_def)
    have "?t = s\<lparr>ram := ram ?t, nodes := nodes ?t, arenas := arenas ?t, block_descs := block_descs ?t, tasks := tasks ?t, thread_ready_queue := queue_init,
        next_pid := next_pid ?t, semas := semas s0, locks := locks s0, current_task := main_pcb, main_thread := main_pcb\<rparr>"
      by (simp add: s0_def lock_init_eq zero_pages_def)
    then show "\<exists>m h ar bd tk q n se lo c mt. ?t = s\<lparr>ram := m, nodes := h, arenas := ar, block_descs := bd, tasks := tk, thread_ready_queue := q, next_pid := n,
      semas := se, locks := lo, current_task := c, main_thread := mt\<rparr>"
      by blast
  qed (rule fin t)+
qed

lemma thread_init_run_from:
  assumes room: "boot_room v w mcs ics" and v: "put_lit (''thread initialization start\<newline>'') s = v"
  obtains s' where "thread_init s = Some (Returned (), s')" and "threads_ok s' [page_at v w] [page_at v w, main_pcb]"
    and "tasks s' = (tasks v)(main_pcb := new_task (main_pcb + 819200) mcs 1 (next_pid v + 1) TASK_RUNNING,
       page_at v w := new_task (page_at v w + 818768) ics 1 (next_pid v + 2) TASK_READY)" and "page_at v w \<noteq> main_pcb"
    and "main_thread s' = main_pcb" and "current_task s' = main_pcb" and "idle_thread s' = page_at v w" and "kpool_ok s'"
    and "\<And>j. j < bm_bits (kvm v) \<Longrightarrow> bm_bit (ram s') (kvm v) j = (j = w \<or> bm_bit (ram v) (kvm v) j)"
    and "\<And>l. lock_free l (v\<lparr>current_task := main_pcb\<rparr>) \<Longrightarrow> lock_free l s'" and "lock_free (pid_lock v) s'"
    and "\<And>a. a \<notin> span main_pcb 200 \<union> span (page_at v w) 4096 \<union> span (page_at v w + 818768) 32 \<union> bm_span (kvm v) \<union> bm_span (kpm v) \<Longrightarrow> ram s' a = ram v a"
    and "\<And>a. unat a \<notin> task_range main_pcb \<Longrightarrow> unat a \<notin> {unat (page_at v w) ..< unat (page_at v w) + 4096} \<Longrightarrow> a \<noteq> thread_total_list v \<Longrightarrow> nodes s' a = nodes v a"
    and "\<And>a. 200 < unat (a - main_pcb) + 16 \<Longrightarrow> 200 < unat (a - page_at v w) + 16 \<Longrightarrow> block_descs s' a = block_descs v a"
    and "\<exists>m h ar bd tk q n se lo c mt it x. s' = v\<lparr>ram := m, nodes := h, arenas := ar, block_descs := bd, tasks := tk, thread_ready_queue := q, next_pid := n,
      semas := se, locks := lo, current_task := c, main_thread := mt, idle_thread := it, screen := x\<rparr>"
proof -
  let ?q0 = "(lock_init (pid_lock v) (v\<lparr>nodes := list_init (nodes v) (thread_total_list v), thread_ready_queue := queue_init\<rparr>))\<lparr>current_task := main_pcb\<rparr>"
  obtain t where t: "init_main_thread ?q0 = Some (Returned (), t)" "threads_ok t [] [main_pcb]" "thread_room t [main_pcb] w (cpu_idle_name t) ics"
      "tasks t = (tasks v)(main_pcb := new_task (main_pcb + 819200) mcs 1 (next_pid v + 1) TASK_RUNNING)"
      "next_pid t = next_pid v + 1" "main_thread t = main_pcb" "current_task t = main_pcb" "page_at t w = page_at v w" "cpu_idle_func t = cpu_idle_func v"
      "\<And>l. lock_free l (v\<lparr>current_task := main_pcb\<rparr>) \<Longrightarrow> lock_free l t" "\<And>a. a \<notin> span main_pcb 200 \<Longrightarrow> ram t a = ram v a"
      "\<And>a. unat a \<notin> task_range main_pcb \<Longrightarrow> a \<noteq> thread_total_list v \<Longrightarrow> nodes t a = nodes v a"
      "\<And>a. 200 < unat (a - main_pcb) + 16 \<Longrightarrow> block_descs t a = block_descs v a"
      "\<exists>m h ar bd tk q n se lo c mt. t = v\<lparr>ram := m, nodes := h, arenas := ar, block_descs := bd, tasks := tk, thread_ready_queue := q, next_pid := n,
        semas := se, locks := lo, current_task := c, main_thread := mt\<rparr>"
    by (rule init_main_run [OF room]) (rule that)
  obtain s' where s': "thread_start (cpu_idle_name t) 1 (cpu_idle_func t) NULL t = Some (Returned (page_at t w), s')"
      "threads_ok s' ([] @ [page_at t w]) [page_at t w, main_pcb]"
      "tasks s' = (tasks t)(page_at t w := new_task (page_at t w + 818768) ics 1 (next_pid t + 1) TASK_READY)" "current_task s' = current_task t"
      "main_thread s' = main_thread t" "\<And>j. j < bm_bits (kvm t) \<Longrightarrow> bm_bit (ram s') (kvm t) j = (j = w \<or> bm_bit (ram t) (kvm t) j)" "kpool_ok s'"
      "\<And>a. a \<notin> span (page_at t w) 4096 \<union> span (page_at t w + 818768) 32 \<union> bm_span (kvm t) \<union> bm_span (kpm t) \<Longrightarrow> ram s' a = ram t a"
      "\<And>a. unat a \<notin> {unat (page_at t w) ..< unat (page_at t w) + 4096} \<Longrightarrow> a \<noteq> thread_total_list t \<Longrightarrow> \<forall>u \<in> set [main_pcb]. unat a \<notin> task_range u \<Longrightarrow>
        nodes s' a = nodes t a"
      "\<And>a. 200 < unat (a - page_at t w) + 16 \<Longrightarrow> block_descs s' a = block_descs t a"
      "\<exists>m h ar bd tk q n. s' = t\<lparr>ram := m, nodes := h, arenas := ar, block_descs := bd, tasks := tk, thread_ready_queue := q, next_pid := n\<rparr>"
    by (rule thread_start_run [OF t(2,3)]) (rule that)
  let ?x = "screen s' @ lit_text (''thread initialization completion\<newline>'')"
  let ?r = "s'\<lparr>idle_thread := page_at t w, screen := ?x\<rparr>"
  have pools: "kvm t = kvm v" "kpm t = kpm v" "thread_total_list t = thread_total_list v" "pid_lock t = pid_lock v"
    using t(14) by auto
  have run: "thread_init s = Some (Returned (), ?r)"
    unfolding thread_init_def Let_def v main_pcb_def [symmetric] by (simp add: t(1) s'(1) put_lit_text)
  have "threads_ok ?r Q L = threads_ok s' Q L" for Q L
    by (simp add: threads_ok_def sched_ok_def)
  then have ok: "threads_ok ?r [page_at v w] [page_at v w, main_pcb]"
    using s'(2) unfolding t(8) by simp
  have ne: "page_at v w \<noteq> main_pcb" and pid: "lock_free (pid_lock t) t"
    using t(3) unfolding thread_room_def t(6,8) by auto
  have keep: "lock_free l ?r = lock_free l t" for l
    using s'(11) by (auto simp: lock_free_def)
  have "kpool_ok ?r = kpool_ok s'"
    by (simp add: kpool_ok_def kpool_layout_def)
  then have kp: "kpool_ok ?r"
    using s'(7) by blast
  have bits: "bm_bit (ram ?r) (kvm v) j = (j = w \<or> bm_bit (ram v) (kvm v) j)" if "j < bm_bits (kvm v)" for j
  proof -
    have "bm_bit (ram t) (kvm v) j = bm_bit (ram v) (kvm v) j"
    proof (rule bm_bit_frame [OF _ that])
      show "bm_ok (kvm v)"
        using room kpool_layoutD(1) [OF kpool_okD(1)] by (auto simp: boot_room_def)
      fix a assume "a \<in> bm_span (kvm v)"
      then have "a < main_pcb"
        using room by (simp add: boot_room_def)
      then show "ram t a = ram v a"
        by (intro t(11)) (simp add: span_interval main_pcb_def word_less_nat_alt)
    qed
    then show ?thesis
      using s'(6) [of j] that unfolding pools by simp
  qed
  show ?thesis
  proof (rule that [OF run ok])
    show "tasks ?r = (tasks v)(main_pcb := new_task (main_pcb + 819200) mcs 1 (next_pid v + 1) TASK_RUNNING,
       page_at v w := new_task (page_at v w + 818768) ics 1 (next_pid v + 2) TASK_READY)"
      using s'(3) t(4,5,8) by (simp add: add.assoc)
    show "lock_free l ?r" if "lock_free l (v\<lparr>current_task := main_pcb\<rparr>)" for l
      using t(10) [OF that] keep by blast
    show "lock_free (pid_lock v) ?r"
      using pid keep pools(4) by simp
    show "ram ?r a = ram v a" if "a \<notin> span main_pcb 200 \<union> span (page_at v w) 4096 \<union> span (page_at v w + 818768) 32 \<union> bm_span (kvm v) \<union> bm_span (kpm v)" for a
      using s'(8) [of a] t(11) [of a] that unfolding t(8) pools by simp
    show "nodes ?r a = nodes v a" if "unat a \<notin> task_range main_pcb" "unat a \<notin> {unat (page_at v w) ..< unat (page_at v w) + 4096}" "a \<noteq> thread_total_list v" for a
      using s'(9) [of a] t(12) [OF that(1,3)] that unfolding t(8) pools by simp
    show "block_descs ?r a = block_descs v a" if "200 < unat (a - main_pcb) + 16" "200 < unat (a - page_at v w) + 16" for a
      using s'(10) [of a] t(13) [OF that(1)] that(2) unfolding t(8) by simp
    obtain m h ar bd tk q n m1 h1 ar1 bd1 tk1 q1 n1 se lo c mt where "s' = t\<lparr>ram := m, nodes := h, arenas := ar, block_descs := bd, tasks := tk, thread_ready_queue := q, next_pid := n\<rparr>"
        "t = v\<lparr>ram := m1, nodes := h1, arenas := ar1, block_descs := bd1, tasks := tk1, thread_ready_queue := q1, next_pid := n1, semas := se, locks := lo, current_task := c, main_thread := mt\<rparr>"
      using s'(11) t(14) by blast
    then have "?r = v\<lparr>ram := m, nodes := h, arenas := ar, block_descs := bd, tasks := tk, thread_ready_queue := q, next_pid := n,
        semas := se, locks := lo, current_task := c, main_thread := mt, idle_thread := page_at t w, screen := ?x\<rparr>"
      by simp
    then show "\<exists>m h ar bd tk q n se lo c mt it x. ?r = v\<lparr>ram := m, nodes := h, arenas := ar, block_descs := bd, tasks := tk, thread_ready_queue := q, next_pid := n,
        semas := se, locks := lo, current_task := c, main_thread := mt, idle_thread := it, screen := x\<rparr>"
      by blast
  qed (use s'(4,5) t(6-8) ne kp bits in simp_all)
qed

lemma thread_init_run:
  assumes room: "boot_room s w mcs ics"
  obtains s' where "thread_init s = Some (Returned (), s')" and "threads_ok s' [page_at s w] [page_at s w, main_pcb]"
    and "tasks s' = (tasks s)(main_pcb := new_task (main_pcb + 819200) mcs 1 (next_pid s + 1) TASK_RUNNING,
       page_at s w := new_task (page_at s w + 818768) ics 1 (next_pid s + 2) TASK_READY)" and "page_at s w \<noteq> main_pcb"
    and "main_thread s' = main_pcb" and "current_task s' = main_pcb" and "idle_thread s' = page_at s w" and "kpool_ok s'"
    and "\<And>j. j < bm_bits (kvm s) \<Longrightarrow> bm_bit (ram s') (kvm s) j = (j = w \<or> bm_bit (ram s) (kvm s) j)"
    and "\<And>l. lock_free l (s\<lparr>current_task := main_pcb\<rparr>) \<Longrightarrow> lock_free l s'" and "lock_free (pid_lock s) s'"
    and "\<And>a. a \<notin> span main_pcb 200 \<union> span (page_at s w) 4096 \<union> span (page_at s w + 818768) 32 \<union> bm_span (kvm s) \<union> bm_span (kpm s) \<Longrightarrow> ram s' a = ram s a"
    and "\<And>a. unat a \<notin> task_range main_pcb \<Longrightarrow> unat a \<notin> {unat (page_at s w) ..< unat (page_at s w) + 4096} \<Longrightarrow> a \<noteq> thread_total_list s \<Longrightarrow> nodes s' a = nodes s a"
    and "\<And>a. 200 < unat (a - main_pcb) + 16 \<Longrightarrow> 200 < unat (a - page_at s w) + 16 \<Longrightarrow> block_descs s' a = block_descs s a"
    and "\<exists>m h ar bd tk q n se lo c mt it x. s' = s\<lparr>ram := m, nodes := h, arenas := ar, block_descs := bd, tasks := tk, thread_ready_queue := q, next_pid := n,
      semas := se, locks := lo, current_task := c, main_thread := mt, idle_thread := it, screen := x\<rparr>"
proof -
  let ?v = "s\<lparr>screen := screen s @ lit_text (''thread initialization start\<newline>'')\<rparr>"
  have "kpool_ok ?v = kpool_ok s"
    by (simp add: kpool_ok_def kpool_layout_def)
  then have room1: "boot_room ?v w mcs ics"
    using room by (simp add: boot_room_def lock_free_def page_at_def)
  have pg: "page_at ?v w = page_at s w"
    by (simp add: page_at_def)
  obtain s' where s': "thread_init s = Some (Returned (), s')"
      "threads_ok s' [page_at ?v w] [page_at ?v w, main_pcb]"
      "tasks s' = (tasks ?v)(main_pcb := new_task (main_pcb + 819200) mcs 1 (next_pid ?v + 1) TASK_RUNNING,
       page_at ?v w := new_task (page_at ?v w + 818768) ics 1 (next_pid ?v + 2) TASK_READY)"
      "page_at ?v w \<noteq> main_pcb"
      "main_thread s' = main_pcb"
      "current_task s' = main_pcb"
      "idle_thread s' = page_at ?v w"
      "kpool_ok s'"
      "\<And>j. j < bm_bits (kvm ?v) \<Longrightarrow> bm_bit (ram s') (kvm ?v) j = (j = w \<or> bm_bit (ram ?v) (kvm ?v) j)"
      "\<And>l. lock_free l (?v\<lparr>current_task := main_pcb\<rparr>) \<Longrightarrow> lock_free l s'"
      "lock_free (pid_lock ?v) s'"
      "\<And>a. a \<notin> span main_pcb 200 \<union> span (page_at ?v w) 4096 \<union> span (page_at ?v w + 818768) 32 \<union> bm_span (kvm ?v) \<union> bm_span (kpm ?v) \<Longrightarrow> ram s' a = ram ?v a"
      "\<And>a. unat a \<notin> task_range main_pcb \<Longrightarrow> unat a \<notin> {unat (page_at ?v w) ..< unat (page_at ?v w) + 4096} \<Longrightarrow> a \<noteq> thread_total_list ?v \<Longrightarrow> nodes s' a = nodes ?v a"
      "\<And>a. 200 < unat (a - main_pcb) + 16 \<Longrightarrow> 200 < unat (a - page_at ?v w) + 16 \<Longrightarrow> block_descs s' a = block_descs ?v a"
      "\<exists>m h ar bd tk q n se lo c mt it x. s' = ?v\<lparr>ram := m, nodes := h, arenas := ar, block_descs := bd, tasks := tk, thread_ready_queue := q, next_pid := n,
      semas := se, locks := lo, current_task := c, main_thread := mt, idle_thread := it, screen := x\<rparr>"
    by (rule thread_init_run_from [OF room1 put_lit_text]) (rule that)
  have lf: "lock_free l (?v\<lparr>current_task := main_pcb\<rparr>) = lock_free l (s\<lparr>current_task := main_pcb\<rparr>)" for l
    by (simp add: lock_free_def)
  obtain m h ar bd tk q n se lo c mt it x where "s' = ?v\<lparr>ram := m, nodes := h, arenas := ar, block_descs := bd, tasks := tk, thread_ready_queue := q, next_pid := n,
      semas := se, locks := lo, current_task := c, main_thread := mt, idle_thread := it, screen := x\<rparr>"
    using s'(15) by blast
  then have sh: "s' = s\<lparr>ram := m, nodes := h, arenas := ar, block_descs := bd, tasks := tk, thread_ready_queue := q, next_pid := n,
      semas := se, locks := lo, current_task := c, main_thread := mt, idle_thread := it, screen := x\<rparr>"
    by simp
  show ?thesis
  proof (rule that [OF s'(1)])
    show "\<exists>m h ar bd tk q n se lo c mt it x. s' = s\<lparr>ram := m, nodes := h, arenas := ar, block_descs := bd, tasks := tk, thread_ready_queue := q, next_pid := n,
      semas := se, locks := lo, current_task := c, main_thread := mt, idle_thread := it, screen := x\<rparr>"
      using sh by blast
  qed (use s'(2-14) in \<open>simp_all add: pg lf\<close>)
qed

text \<open>
  C23: \<open>thread_init\<close> makes the running code the thread \<open>main\<close> and starts \<open>cpu_idle\<close>: it returns with the structures of
  both set up, \<open>main\<close> running with the first identifier, \<open>cpu_idle\<close> the only ready thread with the second one
  and \<open>idle_thread\<close>, and both in the list of all threads.
\<close>

theorem thread_init_starts:
  assumes "boot_room s w mcs ics"
  shows "\<exists>s'. thread_init s = Some (Returned (), s') \<and> threads_ok s' [page_at s w] [page_at s w, main_pcb] \<and>
    tasks s' main_pcb = new_task (main_pcb + 819200) mcs 1 (next_pid s + 1) TASK_RUNNING \<and>
    tasks s' (page_at s w) = new_task (page_at s w + 818768) ics 1 (next_pid s + 2) TASK_READY \<and>
    main_thread s' = main_pcb \<and> current_task s' = main_pcb \<and> idle_thread s' = page_at s w"
proof -
  obtain s' where "thread_init s = Some (Returned (), s')" "threads_ok s' [page_at s w] [page_at s w, main_pcb]"
      "tasks s' = (tasks s)(main_pcb := new_task (main_pcb + 819200) mcs 1 (next_pid s + 1) TASK_RUNNING,
       page_at s w := new_task (page_at s w + 818768) ics 1 (next_pid s + 2) TASK_READY)" "page_at s w \<noteq> main_pcb"
      "main_thread s' = main_pcb" "current_task s' = main_pcb" "idle_thread s' = page_at s w"
    by (rule thread_init_run [OF assms]) (rule that)
  then show ?thesis
    by (intro exI [of _ s']) simp
qed

section \<open>A concrete machine\<close>

text \<open>
  The demonstration machine with \<open>256\<close> kernel pages, one running thread at \<open>0x1000\<close> that is alone in the list of
  all threads, and the one-letter name ``a'' at \<open>0x200\<close>.
\<close>

definition demo_thread :: thread_state where
  "demo_thread = mem_state.extend (demo_mm\<lparr>
       nodes := (\<lambda>_. \<lparr>l_prev = 0, l_next = 0\<rparr>)(0x500 := \<lparr>l_prev = 0x103c, l_next = 0x103c\<rparr>, 0x103c := \<lparr>l_prev = 0x500, l_next = 0x500\<rparr>),
       ram := (\<lambda>_. 0)(0x200 := 0x61),
       kernel_pool := \<lparr>pool_bitmap = \<lparr>bitmap_bytes_len = 32, bitmap = 0xc007e000\<rparr>, phy_addr_start = 0x1000000, pool_size = 0x100000, pool_lock = 0x6010\<rparr>,
       user_pool := \<lparr>pool_bitmap = \<lparr>bitmap_bytes_len = 2, bitmap = 0xc007e020\<rparr>, phy_addr_start = 0x1100000, pool_size = 0x10000, pool_lock = 0x6040\<rparr>,
       kernel_vm_pool := \<lparr>vm_bitmap = \<lparr>bitmap_bytes_len = 32, bitmap = 0xc0075000\<rparr>, vm_start = 0xc1000000\<rparr>\<rparr>)
     (thread_state.fields 0x6070 0 0xc0002000 0xc0002100 0x200 0x200)"

lemma demo_thread_sel: "kernel_pool demo_thread = \<lparr>pool_bitmap = \<lparr>bitmap_bytes_len = 32, bitmap = 0xc007e000\<rparr>, phy_addr_start = 0x1000000, pool_size = 0x100000, pool_lock = 0x6010\<rparr>"
  "user_pool demo_thread = \<lparr>pool_bitmap = \<lparr>bitmap_bytes_len = 2, bitmap = 0xc007e020\<rparr>, phy_addr_start = 0x1100000, pool_size = 0x10000, pool_lock = 0x6040\<rparr>"
  "kernel_vm_pool demo_thread = \<lparr>vm_bitmap = \<lparr>bitmap_bytes_len = 32, bitmap = 0xc0075000\<rparr>, vm_start = 0xc1000000\<rparr>"
  "ram demo_thread = (\<lambda>_. 0)(0x200 := 0x61)" "thread_total_list demo_thread = 0x500" "thread_ready_queue demo_thread = queue_init"
  "current_task demo_thread = 0x1000" "main_thread demo_thread = 0x1000" "pid_lock demo_thread = 0x6070" "next_pid demo_thread = 0"
  "main_name demo_thread = 0x200" "cpu_idle_name demo_thread = 0x200" "locks demo_thread = (\<lambda>_. \<lparr>holder = NULL, holder_repeat_cnt = 0\<rparr>)"
  "semas demo_thread = (\<lambda>_. \<lparr>sem_value = 1, waiter_queue = queue_init\<rparr>)"
  "nodes demo_thread = (\<lambda>_. \<lparr>l_prev = 0, l_next = 0\<rparr>)(0x500 := \<lparr>l_prev = 0x103c, l_next = 0x103c\<rparr>, 0x103c := \<lparr>l_prev = 0x500, l_next = 0x500\<rparr>)"
  by (simp_all add: demo_thread_def mem_state.defs thread_state.defs demo_mm_def)

lemma demo_thread_spans: "a \<in> span 0xc0075000 32 \<longleftrightarrow> 0xc0075000 \<le> unat a \<and> unat a < 0xc0075020"
    "a \<in> span 0xc007e000 32 \<longleftrightarrow> 0xc007e000 \<le> unat a \<and> unat a < 0xc007e020"
    "a \<in> span 0x200 (Suc (Suc 0)) \<longleftrightarrow> 0x200 \<le> unat a \<and> unat a < 0x202"
    "a \<in> span 0xc1000000 4096 \<longleftrightarrow> 0xc1000000 \<le> unat a \<and> unat a < 0xc1001000"
    "a \<in> span main_pcb 200 \<longleftrightarrow> 0xc009e000 \<le> unat a \<and> unat a < 0xc009e0c8"
  by (simp_all add: span_interval main_pcb_def)

lemma demo_thread_bits: "bm_bits (kvm demo_thread) = 256" "i < 256 \<Longrightarrow> \<not> bm_bit (ram demo_thread) (kvm demo_thread) i"
    "i < 256 \<Longrightarrow> \<not> bm_bit (ram demo_thread) (kpm demo_thread) i" "page_at demo_thread 0 = 0xc1000000"
proof -
  have ok: "bm_ok (kvm demo_thread)" "bm_ok (kpm demo_thread)"
    by (simp_all add: demo_thread_sel bm_ok_def NULL_def)
  show b: "bm_bits (kvm demo_thread) = 256"
    by (simp add: demo_thread_sel bm_bits_def BIT_PER_LONG_def)
  have b': "bm_bits (kpm demo_thread) = 256"
    by (simp add: demo_thread_sel bm_bits_def BIT_PER_LONG_def)
  have z: "ram demo_thread a = 0" if "a \<in> span 0xc0075000 32 \<or> a \<in> span 0xc007e000 32" for a
    using that unfolding demo_thread_spans by (auto simp: demo_thread_sel)
  show "\<not> bm_bit (ram demo_thread) (kvm demo_thread) i" if "i < 256"
    using z [of "bitmap (kvm demo_thread) + of_nat (i div 8)"] bm_byte_in_span [OF ok(1), of i] that b
    by (simp add: bm_bit_def bm_span_def) (simp add: demo_thread_sel)
  show "\<not> bm_bit (ram demo_thread) (kpm demo_thread) i" if "i < 256"
    using z [of "bitmap (kpm demo_thread) + of_nat (i div 8)"] bm_byte_in_span [OF ok(2), of i] that b'
    by (simp add: bm_bit_def bm_span_def) (simp add: demo_thread_sel)
  show "page_at demo_thread 0 = 0xc1000000"
    by (simp add: page_at_def demo_thread_sel)
qed

lemma demo_thread_pool: "kpool_ok demo_thread"
proof -
  have sp: "bm_span (kvm demo_thread) = span 0xc0075000 32" "bm_span (kpm demo_thread) = span 0xc007e000 32"
    by (simp_all add: bm_span_def demo_thread_sel)
  have ok: "bm_ok (kvm demo_thread)" "bm_ok (kpm demo_thread)"
    by (simp_all add: demo_thread_sel bm_ok_def NULL_def)
  have "span 0xc0075000 32 \<inter> span 0xc007e000 32 = {}" "\<forall>a \<in> span 0xc0075000 32 \<union> span 0xc007e000 32. a < 0xc1000000"
    by (auto simp: demo_thread_spans word_less_nat_alt)
  then have "kpool_layout demo_thread"
    unfolding kpool_layout_def demo_thread_bits sp using ok by (simp add: demo_thread_sel PAGE_OFFEST_def pa_def)
  then show ?thesis
    using demo_thread_bits by (simp add: kpool_ok_def)
qed

lemma demo_thread_room: "threads_ok demo_thread [] [0x1000]" "thread_room demo_thread [0x1000] 0 0x200 [0x61]" "boot_room demo_thread 0 [0x61] [0x61]"
    "lock_free (pid_lock demo_thread) demo_thread"
proof -
  have sp: "bm_span (kvm demo_thread) = span 0xc0075000 32" "bm_span (kpm demo_thread) = span 0xc007e000 32"
    by (simp_all add: bm_span_def demo_thread_sel)
  have l: "lock_free l demo_thread" "lock_free l (demo_thread\<lparr>current_task := main_pcb\<rparr>)" for l
    by (simp_all add: lock_free_def demo_thread_sel NULL_def main_pcb_def)
  then show "lock_free (pid_lock demo_thread) demo_thread"
    by simp
  have fr: "bm_free (ram demo_thread) (kvm demo_thread) 0 1"
    using demo_thread_bits by (simp add: bm_free_def)
  have s1: "span 0x200 (Suc (length [0x61 :: u8])) \<inter> (span 0xc1000000 4096 \<union> span 0xc0075000 32 \<union> span 0xc007e000 32) = {}"
      and s2: "span 0x200 (Suc (length [0x61 :: u8])) \<inter> (span main_pcb 200 \<union> span 0xc1000000 4096 \<union> span 0xc0075000 32 \<union> span 0xc007e000 32) = {}"
      and s3: "span 0x200 (Suc (length [0x61 :: u8])) \<inter> span main_pcb 200 = {}"
    by (auto simp: demo_thread_spans)
  have s4: "\<forall>a \<in> span 0xc0075000 32 \<union> span 0xc007e000 32. a < main_pcb"
    by (auto simp: demo_thread_spans main_pcb_def word_less_nat_alt)
  show "threads_ok demo_thread [] [0x1000]"
    by (simp add: threads_ok_def sched_ok_def demo_thread_sel queue_rep_Nil thread_dispatch_queue_def thread_list_def task_range_def NULL_def)
  show "thread_room demo_thread [0x1000] 0 0x200 [0x61]"
    unfolding thread_room_def sp demo_thread_bits(1,4) using demo_thread_pool l fr s1
    by (intro conjI) (simp_all add: demo_thread_sel task_range_def NULL_def)
  show "boot_room demo_thread 0 [0x61] [0x61]"
    unfolding boot_room_def sp demo_thread_bits(1,4) using demo_thread_pool l fr s2 s3 s4
    by (intro conjI) (simp_all add: demo_thread_sel task_range_def NULL_def main_pcb_def KERNEL_HEAP_BASE_def)
qed

theorem thread_start_creates_witness:
  "\<exists>s'. thread_start 0x200 31 0xc0003000 7 demo_thread = Some (Returned 0xc1000000, s') \<and>
    threads_ok s' [0xc1000000] [0xc1000000, 0x1000] \<and> current_task s' = 0x1000"
  using thread_start_creates [OF demo_thread_room(1,2), of 31 "0xc0003000" 7] by (auto simp: demo_thread_bits demo_thread_sel)

theorem thread_stack_unallocated_witness:
  "\<exists>s'. thread_start 0x200 31 0xc0003000 7 demo_thread = Some (Returned 0xc1000000, s') \<and> \<not> bm_bit (ram s') (kvm s') 199"
  using thread_stack_unallocated [OF demo_thread_room(1,2), of 31 "0xc0003000" 7] by (auto simp: demo_thread_bits)

theorem pids_distinct_witness:
  "\<exists>ps s'. alloc_pids 40000 demo_thread = Some (ps, s') \<and> distinct ps \<and> sint (ps ! 32767) \<le> 0"
proof -
  obtain ps s' where p: "alloc_pids 40000 demo_thread = Some (ps, s')" "distinct ps" "\<forall>k < 40000. (0 < sint (ps ! k)) = (k < 32767)"
    using pids_distinct [OF demo_thread_room(4), of 40000] by (auto simp: demo_thread_sel)
  have "\<not> 0 < sint (ps ! 32767)"
    using p(3) by simp
  with p(1,2) show ?thesis
    by (intro exI [of _ ps] exI [of _ s'] conjI) (simp_all only: not_less)
qed

theorem thread_init_starts_witness:
  "\<exists>s'. thread_init demo_thread = Some (Returned (), s') \<and> threads_ok s' [0xc1000000] [0xc1000000, main_pcb] \<and> idle_thread s' = 0xc1000000"
  using thread_init_starts [OF demo_thread_room(3)] by (auto simp: demo_thread_bits)

end
