(* ===== verification/Console.thy ===== *)
theory Console
  imports Stdio Thread
begin

text \<open>
  The console (\<open>device/console.c\<close>, \<open>kernel/debug.c\<close>), and \<open>put_str\<close> of \<open>lib/kernel/print.S\<close> on a string in
  memory. \<open>console_str\<close>, \<open>console_char\<close> and \<open>console_hex\<close> print under the lock of the console. \<open>debug_report\<close> is
  the state in which \<open>debug_out\<close> spins for ever.
\<close>

section \<open>Data\<close>

record console_state = thread_state +
  console_lock :: u32

section \<open>Operations\<close>

partial_function (option) put_str :: "u32 \<Rightarrow> 'a console_state_scheme \<Rightarrow> 'a console_state_scheme option" where
  "put_str p s = (if ram s p = 0 then Some s else put_str (p + 1) (put_char (ram s p) s))"

definition console_init :: "'a console_state_scheme \<Rightarrow> 'a console_state_scheme" where
  "console_init s = lock_init (console_lock s) s"

definition console_str :: "u32 \<Rightarrow> 'a console_state_scheme \<Rightarrow> (unit pool_result \<times> 'a console_state_scheme) option" where
  "console_str str s = pool_section (console_lock s) (\<lambda>s. do { s \<leftarrow> put_str str s; Some ((), s) }) s"

definition console_char :: "u8 \<Rightarrow> 'a console_state_scheme \<Rightarrow> (unit pool_result \<times> 'a console_state_scheme) option" where
  "console_char ch s = pool_section (console_lock s) (\<lambda>s. Some ((), put_char ch s)) s"

definition console_hex :: "u32 \<Rightarrow> 'a console_state_scheme \<Rightarrow> (unit pool_result \<times> 'a console_state_scheme) option" where
  "console_hex hex s = pool_section (console_lock s) (\<lambda>s. Some ((), put_hex hex s)) s"

text \<open>\<open>debug_out\<close> prints with the interrupts off and hangs; \<open>line\<close> is printed in hexadecimal.\<close>

definition debug_report :: "u32 \<Rightarrow> u32 \<Rightarrow> u32 \<Rightarrow> u32 \<Rightarrow> 'a console_state_scheme \<Rightarrow> 'a console_state_scheme option" where
  "debug_report filename line func condition s = do {
     let s = snd (local_irq_disable s);
     let s = put_lit (''\<newline>\<newline>======SYSTEM HANG UP======\<newline>'') s;
     let s = put_lit ''filename: '' s;
     s \<leftarrow> put_str filename s;
     let s = put_lit ''\<newline>'' s;
     let s = put_lit ''line: '' s;
     let s = put_hex line s;
     let s = put_lit ''\<newline>'' s;
     let s = put_lit ''function: '' s;
     s \<leftarrow> put_str func s;
     let s = put_lit ''\<newline>'' s;
     let s = put_lit ''condition: '' s;
     s \<leftarrow> put_str condition s;
     Some (put_lit ''\<newline>'' s)
   }"

definition debug_out :: "u32 \<Rightarrow> u32 \<Rightarrow> u32 \<Rightarrow> u32 \<Rightarrow> 'a console_state_scheme \<Rightarrow> 'a console_state_scheme option" where
  "debug_out filename line func condition s = do {
     s \<leftarrow> debug_report filename line func condition s;
     None
   }"

section \<open>Lemmas\<close>

lemma put_str_prints: "cstring (ram s) p cs \<Longrightarrow> put_str p s = Some (s\<lparr>screen := screen s @ cs\<rparr>)"
proof (induction cs arbitrary: p s)
  case Nil
  then show ?case
    by (subst put_str.simps) simp
next
  case (Cons c cs)
  then show ?case
    using Cons.IH [of "put_char c s" "p + 1"] by (subst put_str.simps) (auto simp: put_char_def)
qed

text \<open>The digits \<open>put_hex\<close> prints are those of \<open>itoa\<close>: the number in base 16 without leading zeros.\<close>

primrec padded :: "nat \<Rightarrow> nat \<Rightarrow> u8 list" where
  "padded 0 n = []"
| "padded (Suc k) n = padded k (n div 16) @ [digit_char (n mod 16)]"

lemma dropWhile_snoc: "dropWhile P (xs @ ys) = (if dropWhile P xs = [] then dropWhile P ys else dropWhile P xs @ ys)"
  by (induction xs) simp_all

lemma digit_char_eq_48: "n < 16 \<Longrightarrow> digit_char n = 48 \<longleftrightarrow> n = 0"
proof -
  assume "n < 16"
  then have "unat (digit_char n) = (if n < 10 then n + 48 else n + 55)"
    by (simp add: digit_char_def unat_of_nat del: of_nat_add of_nat_diff)
  then show ?thesis
    by (auto simp: word_unat_eq_iff split: if_splits)
qed

lemma padded_digits: "n < 16 ^ k \<Longrightarrow> dropWhile (\<lambda>c. c = 48) (padded k n) = (if n = 0 then [] else digits 16 n)"
proof (induction k arbitrary: n)
  case (Suc k)
  have "n div 16 < 16 ^ k"
    using Suc.prems by (simp add: less_mult_imp_div_less mult.commute)
  then have ih: "dropWhile (\<lambda>c. c = 48) (padded k (n div 16)) = (if n div 16 = 0 then [] else digits 16 (n div 16))"
    by (rule Suc.IH)
  have ne: "digits 16 m \<noteq> []" for m
    by (subst digits.simps) simp
  show ?case
  proof (cases "n < 16")
    case True
    then show ?thesis
      using ih by (simp add: dropWhile_snoc digit_char_eq_48 digits.simps [of 16 n])
  next
    case False
    then show ?thesis
      using ih ne by (simp add: dropWhile_snoc digits.simps [of 16 n] div_eq_0_iff)
  qed
qed simp

lemma hex_digit_char: "hex_digit (drop_bit (4 * j) n AND 0xf) = digit_char (unat n div 16 ^ j mod 16)"
proof -
  let ?d = "unat n div 16 ^ j mod 16"
  have d: "unat (drop_bit (4 * j) n AND 0xf) = ?d"
  proof -
    have "(2 :: nat) ^ (4 * j) = 16 ^ j"
      by (simp add: power_mult)
    moreover have "unat (x AND 0xf) = unat x mod 16" for x :: u32
    proof -
      have "(0xf :: u32) = mask 4"
        by (simp add: mask_eq_exp_minus_1)
      then show ?thesis
        by (simp only: flip: take_bit_eq_mask) (simp add: take_bit_eq_mod unat_mod)
    qed
    moreover have "unat (drop_bit (4 * j) n) = unat n div 2 ^ (4 * j)"
      by (simp only: unat_drop_bit_eq) (simp only: drop_bit_eq_div)
    ultimately show ?thesis
      by simp
  qed
  have lt: "?d < 16"
    by simp
  have e: "drop_bit (4 * j) n AND 0xf = of_nat ?d"
    unfolding d [symmetric] by simp
  have "hex_digit (of_nat m) = digit_char m" if "m < 16" for m
  proof -
    have c: "ucast (of_nat i :: u32) = (of_nat i :: u8)" for i
      by (simp add: unsigned_of_nat word_of_nat_eq_iff take_bit_take_bit)
    have "(of_nat m :: u32) \<le> 9 \<longleftrightarrow> m < 10"
      using that by (auto simp: word_le_nat_alt)
    moreover have "(of_nat m :: u32) - 10 = of_nat (m - 10)" if "10 \<le> m"
      using that by (simp add: of_nat_diff)
    ultimately show ?thesis
      using c [of m] c [of "m - 10"] by (auto simp: hex_digit_def digit_char_def not_less add.commute)
  qed
  then show ?thesis
    unfolding e using lt by blast
qed

lemma padded_map: "padded k n = map (\<lambda>i. digit_char (n div 16 ^ (k - 1 - i) mod 16)) [0 ..< k]"
proof (induction k arbitrary: n)
  case (Suc k)
  have "n div 16 div 16 ^ (k - 1 - i) = n div 16 ^ (k - i)" if "i < k" for i
    using that Suc_diff_Suc [of i k] by (simp add: div_mult2_eq [symmetric] del: power_Suc flip: power_Suc)
  then show ?case
    by (simp add: Suc.IH)
qed simp

lemma put_hex_prints: "put_hex n s = s\<lparr>screen := screen s @ digits 16 (unat n)\<rparr>"
proof -
  have buf: "map (\<lambda>i. hex_digit (drop_bit (4 * (7 - i)) n AND 0xf)) [0 ..< 8] = padded 8 (unat n)"
    unfolding hex_digit_char padded_map by simp
  have "unat n < 16 ^ 8"
    using unat_lt_2p32 [of n] by simp
  then have ds: "dropWhile (\<lambda>c. c = 48) (padded 8 (unat n)) = (if unat n = 0 then [] else digits 16 (unat n))"
    by (rule padded_digits)
  have z: "digits 16 0 = [48]"
    by (simp add: digits.simps digit_char_def)
  have ne: "digits 16 m \<noteq> []" for m
    by (subst digits.simps) simp
  have "put_hex n s = fold put_char (digits 16 (unat n)) s"
    unfolding put_hex_def buf Let_def ds using ne by (simp add: z)
  also have "\<dots> = s\<lparr>screen := screen s @ digits 16 (unat n)\<rparr>"
    by (rule fold_put_char) (rule digits_nz; simp)
  finally show ?thesis .
qed

text \<open>A section under the lock of the console whose body only prints.\<close>

lemma lock_held_screen [simp]: "lock_held l (s\<lparr>screen := x\<rparr>) = (lock_held l s)\<lparr>screen := x\<rparr>" "screen (lock_held l s) = screen s"
    "lock_free l (s\<lparr>screen := x\<rparr>) = lock_free l s"
  by (simp_all add: lock_held_def upd_lock_def upd_sema_def lock_free_def)

lemma console_section:
  assumes "lock_free l s" and "f (lock_held l s) = Some ((), (lock_held l s)\<lparr>screen := screen s @ cs\<rparr>)"
  shows "pool_section l f s = Some (Returned (), s\<lparr>screen := screen s @ cs\<rparr>)"
  using assms klock.acquire_free [OF assms(1)] klock.release_held [of l "s\<lparr>screen := screen s @ cs\<rparr>"] by (simp add: pool_section_def)

lemma console_str_eq:
  assumes "lock_free (console_lock s) s" and "cstring (ram s) str cs"
  shows "console_str str s = Some (Returned (), s\<lparr>screen := screen s @ cs\<rparr>)"
proof -
  have "ram (lock_held (console_lock s) s) = ram s"
    by (simp add: lock_held_def upd_lock_def upd_sema_def)
  then show ?thesis
    unfolding console_str_def using assms by (intro console_section) (simp_all add: put_str_prints)
qed

section \<open>Properties\<close>

text \<open>
  When the lock of the console is free, a console routine prints its argument (a string, a character, a
  number in base 16), gives the lock back and changes nothing else.
\<close>

theorem console_prints:
  assumes "lock_free (console_lock s) s" and "cstring (ram s) str cs" and "ch \<noteq> 0"
  shows "console_str str s = Some (Returned (), s\<lparr>screen := screen s @ cs\<rparr>) \<and>
    console_char ch s = Some (Returned (), s\<lparr>screen := screen s @ [ch]\<rparr>) \<and>
    console_hex n s = Some (Returned (), s\<lparr>screen := screen s @ digits 16 (unat n)\<rparr>)"
  unfolding console_char_def console_hex_def using assms
  by (intro conjI console_str_eq console_section) (simp_all add: put_char_def put_hex_prints)

text \<open>
  A failed assertion is reported and the system stops: \<open>debug_out\<close> never returns, and the state in which it
  hangs has the interrupts off and the names of the file, of the function and of the condition on the screen.
\<close>

theorem debug_out_hangs:
  assumes "cstring (ram s) filename fn" and "cstring (ram s) func fu" and "cstring (ram s) condition co"
  shows "debug_out filename line func condition s = None \<and>
    debug_report filename line func condition s = Some ((snd (local_irq_disable s))\<lparr>screen := screen s @
      map of_char (''\<newline>\<newline>======SYSTEM HANG UP======\<newline>'' @ ''filename: '') @ fn @ map of_char (''\<newline>line: '') @ digits 16 (unat line) @
      map of_char (''\<newline>function: '') @ fu @ map of_char (''\<newline>condition: '') @ co @ map of_char (''\<newline>'')\<rparr>) \<and>
    get_intr_status (snd (local_irq_disable s)) = INTR_OFF"
proof -
  let ?s = "snd (local_irq_disable s)"
  have lit: "put_lit (''\<newline>\<newline>======SYSTEM HANG UP======\<newline>'') s = s\<lparr>screen := screen s @ map of_char (''\<newline>\<newline>======SYSTEM HANG UP======\<newline>'')\<rparr>"
      "put_lit ''filename: '' s = s\<lparr>screen := screen s @ map of_char ''filename: ''\<rparr>"
      "put_lit ''\<newline>'' s = s\<lparr>screen := screen s @ map of_char ''\<newline>''\<rparr>"
      "put_lit ''line: '' s = s\<lparr>screen := screen s @ map of_char ''line: ''\<rparr>"
      "put_lit ''function: '' s = s\<lparr>screen := screen s @ map of_char ''function: ''\<rparr>"
      "put_lit ''condition: '' s = s\<lparr>screen := screen s @ map of_char ''condition: ''\<rparr>" for s :: "'a console_state_scheme"
    unfolding put_lit_def by (rule fold_put_char, simp)+
  have r: "ram ?s = ram s" "screen ?s = screen s"
    by (simp_all add: local_irq_disable_eq cli_def)
  have p: "put_str filename (?s\<lparr>screen := x\<rparr>) = Some (?s\<lparr>screen := x @ fn\<rparr>)" "put_str func (?s\<lparr>screen := x\<rparr>) = Some (?s\<lparr>screen := x @ fu\<rparr>)"
      "put_str condition (?s\<lparr>screen := x\<rparr>) = Some (?s\<lparr>screen := x @ co\<rparr>)" for x
    using assms put_str_prints [of "?s\<lparr>screen := x\<rparr>"] by (simp_all add: r)
  show ?thesis
    by (simp add: debug_out_def debug_report_def Let_def lit p r put_hex_prints)
qed

section \<open>A concrete console\<close>

text \<open>The machine of the threads with a screen that is empty.\<close>

definition demo_console :: console_state where
  "demo_console = thread_state.extend demo_thread (console_state.fields 0x6090)"

lemma demo_console_sel: "ram demo_console = (\<lambda>_. 0)(0x200 := 0x61)" "console_lock demo_console = 0x6090" "screen demo_console = []"
  "lock_free l demo_console"
  by (simp_all add: demo_console_def console_state.defs thread_state.defs mem_state.defs demo_thread_def demo_mm_def lock_free_def NULL_def)

theorem console_prints_witness:
  "console_str 0x200 demo_console = Some (Returned (), demo_console\<lparr>screen := [0x61]\<rparr>) \<and>
   console_hex 0x1f demo_console = Some (Returned (), demo_console\<lparr>screen := [0x31, 0x46]\<rparr>)"
proof -
  have "digits 16 31 = [0x31, 0x46]"
    by (simp add: digits.simps digit_char_def)
  then show ?thesis
    using console_prints [of demo_console "0x200" "[0x61]" "0x41" "0x1f"] by (simp add: demo_console_sel)
qed

theorem debug_out_hangs_witness: "debug_out 0x200 7 0x200 0x200 demo_console = None \<and> debug_report 0x200 7 0x200 0x200 demo_console \<noteq> None"
  using debug_out_hangs [where s = demo_console and filename = "0x200" and func = "0x200" and condition = "0x200" and line = 7 and fn = "[0x61]" and fu = "[0x61]" and co = "[0x61]"] by (simp add: demo_console_sel)

end
