(* ===== verification/Tss.thy ===== *)
theory Tss
  imports Console
begin

text \<open>
  Segments and the task state segment (\<open>userprog/tss.c\<close>, constants of \<open>include/os/global.h\<close>). The descriptor table
  of the loader is raw memory at \<open>0xc0000900\<close>; \<open>tss_init\<close> writes three descriptors into it and loads the two
  registers. The specification reads a descriptor the way the processor does: base, limit, granularity and
  rights from the eight bytes a selector names.
\<close>

section \<open>Constants\<close>

definition RPL0 :: u32 where "RPL0 = 0"
definition RPL3 :: u32 where "RPL3 = 3"
definition TI_GDT :: u32 where "TI_GDT = 0"
definition SELECTOR_K_DATA :: u32 where "SELECTOR_K_DATA = push_bit 3 2 + push_bit 2 TI_GDT + RPL0"
definition SELECTOR_K_STACK :: u32 where "SELECTOR_K_STACK = SELECTOR_K_DATA"
definition SELECTOR_K_GS :: u32 where "SELECTOR_K_GS = push_bit 3 3 + push_bit 2 TI_GDT + RPL0"
definition SELECTOR_U_CODE :: u32 where "SELECTOR_U_CODE = push_bit 3 5 + push_bit 2 TI_GDT + RPL3"
definition SELECTOR_U_DATA :: u32 where "SELECTOR_U_DATA = push_bit 3 6 + push_bit 2 TI_GDT + RPL3"
definition SELECTOR_U_STACK :: u32 where "SELECTOR_U_STACK = SELECTOR_U_DATA"
definition SELECTOR_TSS :: u32 where "SELECTOR_TSS = push_bit 3 4 + push_bit 2 TI_GDT + RPL0"

definition GDT_DESC_G_4K :: u8 where "GDT_DESC_G_4K = 1"
definition GDT_DESC_D_32 :: u8 where "GDT_DESC_D_32 = 1"
definition GDT_DESC_L :: u8 where "GDT_DESC_L = 0"
definition GDT_DESC_AVL :: u8 where "GDT_DESC_AVL = 0"
definition GDT_DESC_P :: u8 where "GDT_DESC_P = 1"
definition GDT_DESC_DPL_0 :: u8 where "GDT_DESC_DPL_0 = 0"
definition GDT_DESC_DPL_3 :: u8 where "GDT_DESC_DPL_3 = 3"
definition GDT_DESC_S_CODE :: u8 where "GDT_DESC_S_CODE = 1"
definition GDT_DESC_S_DATA :: u8 where "GDT_DESC_S_DATA = GDT_DESC_S_CODE"
definition GDT_DESC_S_SYS :: u8 where "GDT_DESC_S_SYS = 0"
definition GDT_DESC_TYPE_CODE :: u8 where "GDT_DESC_TYPE_CODE = 8"
definition GDT_DESC_TYPE_DATA :: u8 where "GDT_DESC_TYPE_DATA = 2"
definition GDT_DESC_TYPE_TSS :: u8 where "GDT_DESC_TYPE_TSS = 9"
definition TSS_DESC_D :: u8 where "TSS_DESC_D = 0"

definition GDT_ATTR_HIGH :: u8 where
  "GDT_ATTR_HIGH = push_bit 7 GDT_DESC_G_4K + push_bit 6 GDT_DESC_D_32 + push_bit 5 GDT_DESC_L + push_bit 4 GDT_DESC_AVL"
definition GDT_CODE_ATTR_LOW_DPL3 :: u8 where
  "GDT_CODE_ATTR_LOW_DPL3 = push_bit 7 GDT_DESC_P + push_bit 5 GDT_DESC_DPL_3 + push_bit 4 GDT_DESC_S_CODE + GDT_DESC_TYPE_CODE"
definition GDT_DATA_ATTR_LOW_DPL3 :: u8 where
  "GDT_DATA_ATTR_LOW_DPL3 = push_bit 7 GDT_DESC_P + push_bit 5 GDT_DESC_DPL_3 + push_bit 4 GDT_DESC_S_DATA + GDT_DESC_TYPE_DATA"
definition TSS_ATTR_HIGH :: u8 where
  "TSS_ATTR_HIGH = push_bit 7 GDT_DESC_G_4K + push_bit 6 TSS_DESC_D + push_bit 5 GDT_DESC_L + push_bit 4 GDT_DESC_AVL + 0"
definition TSS_ATTR_LOW :: u8 where
  "TSS_ATTR_LOW = push_bit 7 GDT_DESC_P + push_bit 5 GDT_DESC_DPL_0 + push_bit 4 GDT_DESC_S_SYS + GDT_DESC_TYPE_TSS"

section \<open>Data\<close>

record gdt_desc =
  limit_low_16 :: u16
  base_low_16 :: u16
  base_mid_8 :: u8
  attr_low_8 :: u8
  limit_high_attr_high_8 :: u8
  base_high_8 :: u8

record tss_struct =
  prve_tss :: u32
  esp0 :: u32
  ss0 :: u32
  esp1 :: u32
  ss1 :: u32
  esp2 :: u32
  ss2 :: u32
  tss_cr3 :: u32
  tss_eip :: u32
  tss_eflags :: u32
  tss_eax :: u32
  tss_ecx :: u32
  tss_edx :: u32
  tss_ebx :: u32
  tss_esp :: u32
  tss_ebp :: u32
  tss_esi :: u32
  tss_edi :: u32
  tss_es :: u32
  tss_cs :: u32
  tss_ss :: u32
  tss_ds :: u32
  tss_fs :: u32
  tss_gs :: u32
  tss_ldt :: u32
  tss_trace :: u32
  io_base :: u32

definition zero_tss :: tss_struct where
  "zero_tss = \<lparr>prve_tss = 0, esp0 = 0, ss0 = 0, esp1 = 0, ss1 = 0, esp2 = 0, ss2 = 0, tss_cr3 = 0, tss_eip = 0, tss_eflags = 0, tss_eax = 0,
     tss_ecx = 0, tss_edx = 0, tss_ebx = 0, tss_esp = 0, tss_ebp = 0, tss_esi = 0, tss_edi = 0, tss_es = 0, tss_cs = 0, tss_ss = 0, tss_ds = 0,
     tss_fs = 0, tss_gs = 0, tss_ldt = 0, tss_trace = 0, io_base = 0\<rparr>"

definition sizeof_tss :: u32 where "sizeof_tss = 108"

text \<open>\<open>tss_addr\<close> is the address the linker gives to \<open>tss\<close>; \<open>gdtr\<close> and \<open>tr\<close> are the registers of the processor.\<close>

record seg_state = console_state +
  tss :: tss_struct
  tss_addr :: u32
  gdtr :: u64
  tr :: u16

section \<open>Operations\<close>

definition creat_gdt_desc :: "u32 \<Rightarrow> u32 \<Rightarrow> u8 \<Rightarrow> u8 \<Rightarrow> gdt_desc" where
  "creat_gdt_desc desc_addr limit attr_low attr_high =
     (let desc_base = desc_addr
      in \<lparr>limit_low_16 = ucast (limit AND 0x0000ffff),
          base_low_16 = ucast (desc_base AND 0x0000ffff),
          base_mid_8 = ucast (drop_bit 16 (desc_base AND 0x00ff0000)),
          attr_low_8 = attr_low,
          limit_high_attr_high_8 = ucast (drop_bit 16 (limit AND 0x000f0000) + ucast attr_high),
          base_high_8 = ucast (drop_bit 24 desc_base)\<rparr>)"

text \<open>A descriptor stored in memory: the fields in order, low byte first.\<close>

definition write_desc :: "mem \<Rightarrow> u32 \<Rightarrow> gdt_desc \<Rightarrow> mem" where
  "write_desc m p d = m(p := ucast (limit_low_16 d), p + 1 := ucast (drop_bit 8 (limit_low_16 d)),
     p + 2 := ucast (base_low_16 d), p + 3 := ucast (drop_bit 8 (base_low_16 d)),
     p + 4 := base_mid_8 d, p + 5 := attr_low_8 d, p + 6 := limit_high_attr_high_8 d, p + 7 := base_high_8 d)"

definition set_tss_esp0 :: "u32 \<Rightarrow> 'a seg_state_scheme \<Rightarrow> 'a seg_state_scheme" where
  "set_tss_esp0 ptask s = s\<lparr>tss := (tss s)\<lparr>esp0 := ptask + PAGE_SIZE\<rparr>\<rparr>"

definition tss_init :: "'a seg_state_scheme \<Rightarrow> 'a seg_state_scheme" where
  "tss_init s =
     (let s = put_lit (''tss initialization start\<newline>'') s;
          tss_size = sizeof_tss;
          s = s\<lparr>tss := zero_tss\<lparr>ss0 := SELECTOR_K_STACK, io_base := tss_size\<rparr>\<rparr>;
          m = write_desc (ram s) 0xc0000920 (creat_gdt_desc (tss_addr s) (tss_size - 1) TSS_ATTR_LOW TSS_ATTR_HIGH);
          m = write_desc m 0xc0000928 (creat_gdt_desc 0 0xfffff GDT_CODE_ATTR_LOW_DPL3 GDT_ATTR_HIGH);
          m = write_desc m 0xc0000930 (creat_gdt_desc 0 0xfffff GDT_DATA_ATTR_LOW_DPL3 GDT_ATTR_HIGH);
          gdt_addr = (8 * 7 - 1) OR push_bit 16 (ucast (0xc0000900 :: u32));
          s = s\<lparr>ram := m, gdtr := gdt_addr, tr := ucast SELECTOR_TSS\<rparr>
      in put_lit (''tss initialization completion\<newline>'') s)"

section \<open>Specification: how the processor reads a descriptor\<close>

definition read_desc :: "mem \<Rightarrow> u32 \<Rightarrow> gdt_desc" where
  "read_desc m p = \<lparr>limit_low_16 = ucast (m p) OR push_bit 8 (ucast (m (p + 1))), base_low_16 = ucast (m (p + 2)) OR push_bit 8 (ucast (m (p + 3))),
     base_mid_8 = m (p + 4), attr_low_8 = m (p + 5), limit_high_attr_high_8 = m (p + 6), base_high_8 = m (p + 7)\<rparr>"

definition gdt_base :: "u64 \<Rightarrow> u32" where "gdt_base g = ucast (drop_bit 16 g)"
definition gdt_limit :: "u64 \<Rightarrow> u16" where "gdt_limit g = ucast g"

text \<open>The descriptor a selector names; a selector beyond the limit of the table faults.\<close>

definition segment :: "'a seg_state_scheme \<Rightarrow> u32 \<Rightarrow> gdt_desc option" where
  "segment s sel = (if unat (sel AND 0xfff8) + 7 \<le> unat (gdt_limit (gdtr s)) then Some (read_desc (ram s) (gdt_base (gdtr s) + (sel AND 0xfff8))) else None)"

definition desc_base :: "gdt_desc \<Rightarrow> u32" where
  "desc_base d = ucast (base_low_16 d) OR push_bit 16 (ucast (base_mid_8 d)) OR push_bit 24 (ucast (base_high_8 d))"

definition desc_limit :: "gdt_desc \<Rightarrow> u32" where
  "desc_limit d = ucast (limit_low_16 d) OR push_bit 16 (ucast (limit_high_attr_high_8 d AND 0xf))"

text \<open>The last valid offset: with the granularity bit the limit counts pages.\<close>

definition desc_last :: "gdt_desc \<Rightarrow> u32" where
  "desc_last d = (if bit (limit_high_attr_high_8 d) 7 then push_bit 12 (desc_limit d) OR 0xfff else desc_limit d)"

definition desc_present :: "gdt_desc \<Rightarrow> bool" where "desc_present d = bit (attr_low_8 d) 7"
definition desc_dpl :: "gdt_desc \<Rightarrow> u8" where "desc_dpl d = drop_bit 5 (attr_low_8 d) AND 3"
definition desc_type :: "gdt_desc \<Rightarrow> u8" where "desc_type d = attr_low_8 d AND 0x1f"

section \<open>Lemmas\<close>

lemmas selector_defs = SELECTOR_K_DATA_def SELECTOR_K_STACK_def SELECTOR_K_GS_def SELECTOR_U_CODE_def SELECTOR_U_DATA_def SELECTOR_U_STACK_def SELECTOR_TSS_def
  TI_GDT_def RPL0_def RPL3_def

lemma selectors [simp]: "SELECTOR_K_DATA = 0x10" "SELECTOR_K_STACK = 0x10" "SELECTOR_K_GS = 0x18" "SELECTOR_U_CODE = 0x2b" "SELECTOR_U_DATA = 0x33"
    "SELECTOR_U_STACK = 0x33" "SELECTOR_TSS = 0x20"
  by (simp_all add: selector_defs)

lemma attributes [simp]: "GDT_ATTR_HIGH = 0xc0" "GDT_CODE_ATTR_LOW_DPL3 = 0xf8" "GDT_DATA_ATTR_LOW_DPL3 = 0xf2" "TSS_ATTR_HIGH = 0x80" "TSS_ATTR_LOW = 0x89"
  by (simp_all add: GDT_ATTR_HIGH_def GDT_CODE_ATTR_LOW_DPL3_def GDT_DATA_ATTR_LOW_DPL3_def TSS_ATTR_HIGH_def TSS_ATTR_LOW_def
      GDT_DESC_G_4K_def GDT_DESC_D_32_def GDT_DESC_L_def GDT_DESC_AVL_def GDT_DESC_P_def GDT_DESC_DPL_0_def GDT_DESC_DPL_3_def
      GDT_DESC_S_CODE_def GDT_DESC_S_DATA_def GDT_DESC_S_SYS_def GDT_DESC_TYPE_CODE_def GDT_DESC_TYPE_DATA_def GDT_DESC_TYPE_TSS_def TSS_DESC_D_def)

lemma bytes_u16: "ucast (ucast v :: u8) OR push_bit 8 (ucast (ucast (drop_bit 8 v) :: u8)) = (v :: u16)"
proof (rule bit_word_eqI)
  fix n assume "n < LENGTH(16)"
  then have "n < 8 \<or> 8 \<le> n \<and> n < 16"
    by auto
  then show "bit (ucast (ucast v :: u8) OR push_bit 8 (ucast (ucast (drop_bit 8 v) :: u8)) :: u16) n = bit v n"
    by (elim disjE) (auto simp: bit_simps)
qed

lemma read_write_desc: "read_desc (write_desc m p d) p = d"
  by (cases d) (simp add: read_desc_def write_desc_def bytes_u16)

lemma write_desc_other: "8 \<le> unat (a - p) \<Longrightarrow> write_desc m p d a = m a"
proof -
  assume "8 \<le> unat (a - p)"
  then have "a \<noteq> p + of_nat i" if "i < 8" for i
    using that by auto
  from this [of 0] this [of 1] this [of 2] this [of 3] this [of 4] this [of 5] this [of 6] this [of 7] show ?thesis
    by (simp add: write_desc_def)
qed

text \<open>The limit and the upper rights share a byte; they do not overlap when the low half of the rights is clear.\<close>

lemma limit_byte:
  assumes "hi AND 0xf = (0 :: u8)"
  shows "ucast (drop_bit 16 (l AND 0x000f0000) + ucast hi) = (ucast (drop_bit 16 l) AND 0xf) OR hi" (is "?b = ?c")
    and "((ucast (drop_bit 16 (l :: u32)) AND 0xf) OR hi) AND 0xf = (ucast (drop_bit 16 l) AND 0xf :: u8)"
    and "((ucast (drop_bit 16 l) AND 0xf) OR hi) AND 0xf0 = hi"
proof -
  have hi: "bit hi n \<Longrightarrow> 4 \<le> n" for n
  proof (rule ccontr)
    assume b: "bit hi n" and n: "\<not> 4 \<le> n"
    have "bit (mask 4 :: u8) n"
      using n by (simp add: bit_mask_iff)
    moreover have "(0xf :: u8) = mask 4"
      by (simp add: mask_eq_exp_minus_1)
    ultimately have "bit (hi AND 0xf) n"
      using b by (simp add: bit_and_iff)
    then show False
      using assms by simp
  qed
  have m: "(0x000f0000 :: u32) = push_bit 16 (mask 4)" "(0xf :: u8) = mask 4" "(0xf0 :: u8) = push_bit 4 (mask 4)"
    by (simp_all add: mask_eq_exp_minus_1 push_bit_eq_mult)
  have d: "drop_bit 16 (l AND 0x000f0000) AND ucast hi = 0"
    unfolding m by (rule bit_word_eqI) (auto simp: bit_simps dest: hi)
  have "drop_bit 16 (l AND 0x000f0000) + ucast hi = drop_bit 16 (l AND 0x000f0000) OR ucast hi"
    by (rule disjunctive_add_eq_or) (rule d)
  then show "?b = ?c"
    unfolding m by simp (rule bit_word_eqI; auto simp: bit_simps)
  show "((ucast (drop_bit 16 l) AND 0xf) OR hi) AND 0xf = (ucast (drop_bit 16 l) AND 0xf :: u8)"
    unfolding m by (rule bit_word_eqI) (auto simp: bit_simps dest: hi)
  show "((ucast (drop_bit 16 l) AND 0xf) OR hi) AND 0xf0 = hi"
    unfolding m by (rule bit_word_eqI) (auto simp: bit_simps dest: hi)
qed

lemma base_parts:
  "ucast (ucast ((b :: u32) AND 0xffff) :: u16) OR push_bit 16 (ucast (ucast (drop_bit 16 (b AND 0x00ff0000)) :: u8)) OR push_bit 24 (ucast (ucast (drop_bit 24 b) :: u8)) = (b :: u32)"
proof -
  have m: "(0xffff :: u32) = mask 16" "(0x00ff0000 :: u32) = push_bit 16 (mask 8)"
    by (simp_all add: mask_eq_exp_minus_1 push_bit_eq_mult)
  show ?thesis
    unfolding m
  proof (rule bit_word_eqI)
    fix n assume "n < LENGTH(32)"
    then have "n < 16 \<or> 16 \<le> n \<and> n < 24 \<or> 24 \<le> n \<and> n < 32"
      by auto
    then show "bit (ucast (ucast (b AND mask 16) :: u16) OR push_bit 16 (ucast (ucast (drop_bit 16 (b AND push_bit 16 (mask 8))) :: u8)) OR
        push_bit 24 (ucast (ucast (drop_bit 24 b) :: u8)) :: u32) n = bit b n"
      by (elim disjE) (auto simp: bit_simps)
  qed
qed

lemma limit_parts: "ucast (ucast ((l :: u32) AND 0xffff) :: u16) OR push_bit 16 (ucast (ucast (drop_bit 16 l) AND 0xf :: u8)) = (l AND 0xfffff :: u32)"
proof -
  have m: "(0xffff :: u32) = mask 16" "(0xf :: u8) = mask 4" "(0xfffff :: u32) = mask 20"
    by (simp_all add: mask_eq_exp_minus_1)
  show ?thesis
    unfolding m
  proof (rule bit_word_eqI)
    fix n assume "n < LENGTH(32)"
    then have "n < 16 \<or> 16 \<le> n \<and> n < 20 \<or> 20 \<le> n \<and> n < 32"
      by auto
    then show "bit (ucast (ucast (l AND mask 16) :: u16) OR push_bit 16 (ucast (ucast (drop_bit 16 l) AND mask 4 :: u8)) :: u32) n = bit (l AND mask 20) n"
      by (elim disjE) (auto simp: bit_simps)
  qed
qed

lemma creat_gdt_desc_parts:
  assumes "hi AND 0xf = 0"
  shows "desc_base (creat_gdt_desc a l lo hi) = a" and "desc_limit (creat_gdt_desc a l lo hi) = l AND 0xfffff"
    and "attr_low_8 (creat_gdt_desc a l lo hi) = lo" and "limit_high_attr_high_8 (creat_gdt_desc a l lo hi) AND 0xf0 = hi"
  unfolding creat_gdt_desc_def Let_def desc_base_def desc_limit_def gdt_desc.simps limit_byte [OF assms]
  by (rule base_parts limit_parts refl)+

lemma tss_init_table: "ram (tss_init s) = write_desc (write_desc (write_desc (ram s) 0xc0000920 (creat_gdt_desc (tss_addr s) 107 TSS_ATTR_LOW TSS_ATTR_HIGH))
      0xc0000928 (creat_gdt_desc 0 0xfffff GDT_CODE_ATTR_LOW_DPL3 GDT_ATTR_HIGH)) 0xc0000930 (creat_gdt_desc 0 0xfffff GDT_DATA_ATTR_LOW_DPL3 GDT_ATTR_HIGH)"
    "gdt_base (gdtr (tss_init s)) = 0xc0000900" "gdt_limit (gdtr (tss_init s)) = 55"
    "tr (tss_init s) = 0x20" "tss (tss_init s) = zero_tss\<lparr>ss0 := SELECTOR_K_STACK, io_base := 108\<rparr>"
  by (simp_all add: tss_init_def Let_def put_lit_eq sizeof_tss_def gdt_base_def gdt_limit_def)

lemma read_desc_other:
  assumes "8 \<le> unat (q - p)" and "unat (q - p) \<le> 4294967288"
  shows "read_desc (write_desc m p d) q = read_desc m q"
proof -
  have "write_desc m p d (q + of_nat i) = m (q + of_nat i)" if "i < 8" for i
  proof (rule write_desc_other)
    have "unat (q + of_nat i - p) = unat (q - p) + i"
      using that assms(2) unat_add_u32 [of "q - p" "of_nat i"] by (simp add: algebra_simps)
    then show "8 \<le> unat (q + of_nat i - p)"
      using assms(1) by simp
  qed
  from this [of 0] this [of 1] this [of 2] this [of 3] this [of 4] this [of 5] this [of 6] this [of 7] show ?thesis
    by (simp add: read_desc_def)
qed

lemma tss_init_segments: "segment (tss_init s) SELECTOR_TSS = Some (creat_gdt_desc (tss_addr s) 107 TSS_ATTR_LOW TSS_ATTR_HIGH)"
    "segment (tss_init s) SELECTOR_U_CODE = Some (creat_gdt_desc 0 0xfffff GDT_CODE_ATTR_LOW_DPL3 GDT_ATTR_HIGH)"
    "segment (tss_init s) SELECTOR_U_DATA = Some (creat_gdt_desc 0 0xfffff GDT_DATA_ATTR_LOW_DPL3 GDT_ATTR_HIGH)"
  by (simp_all add: segment_def tss_init_table read_desc_other read_write_desc)

section \<open>Properties\<close>

text \<open>
  \<open>creat_gdt_desc\<close> scatters base, limit and rights over the eight bytes such that the processor reads them
  back: the base, the low twenty bits of the limit and both halves of the rights.
\<close>

theorem creat_gdt_desc_roundtrip:
  assumes "attr_high AND 0xf = 0"
  shows "let d = read_desc (write_desc m p (creat_gdt_desc desc_addr limit attr_low attr_high)) p
    in desc_base d = desc_addr \<and> desc_limit d = limit AND 0xfffff \<and> attr_low_8 d = attr_low \<and> limit_high_attr_high_8 d AND 0xf0 = attr_high"
  unfolding read_write_desc Let_def using creat_gdt_desc_parts [OF assms(1)] by blast

theorem creat_gdt_desc_roundtrip_witness: "desc_base (read_desc (write_desc (\<lambda>_. 0) 0x920 (creat_gdt_desc 0xc0012345 0x6b 0x89 0x80)) 0x920) = 0xc0012345"
  using creat_gdt_desc_roundtrip [of "0x80" "\<lambda>_. 0" "0x920" "0xc0012345" "0x6b" "0x89"] by (simp add: Let_def)

text \<open>
  C27: After \<open>tss_init\<close> each selector of the kernel names the segment it is meant for: \<open>SELECTOR_TSS\<close> a present task
  state segment at \<open>tss\<close> for the kernel, \<open>SELECTOR_U_CODE\<close> and \<open>SELECTOR_U_DATA\<close> code and writable data of
  privilege 3 over the whole address space. The task register is loaded, the stack segment for entries from user
  mode is the kernel's, and no other byte of memory changes.
\<close>

theorem tss_init_descriptors:
  "(\<exists>d. segment (tss_init s) SELECTOR_TSS = Some d \<and> desc_base d = tss_addr s \<and> desc_limit d = 107 \<and> desc_present d \<and> desc_dpl d = 0 \<and> desc_type d = 0x09) \<and>
   (\<exists>d. segment (tss_init s) SELECTOR_U_CODE = Some d \<and> desc_base d = 0 \<and> desc_last d = 0xffffffff \<and> desc_present d \<and> desc_dpl d = 3 \<and> desc_type d = 0x18) \<and>
   (\<exists>d. segment (tss_init s) SELECTOR_U_DATA = Some d \<and> desc_base d = 0 \<and> desc_last d = 0xffffffff \<and> desc_present d \<and> desc_dpl d = 3 \<and> desc_type d = 0x12) \<and>
   tr (tss_init s) = ucast SELECTOR_TSS \<and> ss0 (tss (tss_init s)) = SELECTOR_K_STACK \<and>
   {a. ram (tss_init s) a \<noteq> ram s a} \<subseteq> span 0xc0000920 24"
proof -
  have hi: "(0x80 :: u8) AND 0xf = 0" "(0xc0 :: u8) AND 0xf = 0"
    by simp_all
  have "{a. ram (tss_init s) a \<noteq> ram s a} \<subseteq> span 0xc0000920 24"
  proof
    fix a assume "a \<in> {a. ram (tss_init s) a \<noteq> ram s a}"
    then have "\<not> (8 \<le> unat (a - 0xc0000920) \<and> 8 \<le> unat (a - 0xc0000928) \<and> 8 \<le> unat (a - 0xc0000930))"
      using write_desc_other unfolding tss_init_table by auto
    then have "unat (a - 0xc0000920) < 24"
      by unat_arith
    then show "a \<in> span 0xc0000920 24"
      using span_memI [of "unat (a - 0xc0000920)" 24 "0xc0000920"] by simp
  qed
  moreover have "desc_last (creat_gdt_desc 0 0xfffff x 0xc0) = 0xffffffff" for x
    using creat_gdt_desc_parts(2) [OF hi(2), of 0 "0xfffff" x] by (simp add: desc_last_def) (simp add: creat_gdt_desc_def Let_def)
  ultimately show ?thesis
    unfolding tss_init_segments
    by (simp add: creat_gdt_desc_parts hi tss_init_table desc_present_def desc_dpl_def desc_type_def)
qed

text \<open>
  The descriptor of the task state segment has the granularity bit set, so its limit counts pages: the segment
  ends at \<open>0x6bfff\<close>, not at its last byte 107, and the map of I/O permissions, whose offset 108 is meant to lie
  beyond the end, lies inside.
\<close>

theorem tss_io_map_inside:
  "\<exists>d. segment (tss_init s) SELECTOR_TSS = Some d \<and> desc_last d = 0x6bfff \<and> io_base (tss (tss_init s)) = sizeof_tss \<and> io_base (tss (tss_init s)) < desc_last d"
proof -
  have "desc_limit (creat_gdt_desc (tss_addr s) 107 0x89 0x80) = 107"
    by (subst creat_gdt_desc_parts(2)) simp_all
  then have "desc_last (creat_gdt_desc (tss_addr s) 107 0x89 0x80) = 0x6bfff"
    by (simp add: desc_last_def) (simp add: creat_gdt_desc_def Let_def)
  then show ?thesis
    unfolding tss_init_segments by (simp add: tss_init_table sizeof_tss_def)
qed

end
