(* ===== verification/Process.thy ===== *)
theory Process
  imports Tss
begin

text \<open>
  The start of user processes (\<open>userprog/process.c\<close>). \<open>start_process\<close> writes the frame \<open>struct intr_stack\<close> and jumps
  to \<open>intr_exit\<close> of \<open>kernel/interrupt_s.S\<close>, which pops it into the registers; \<open>process_activate\<close> loads the page
  directory of a task and, for a user process, the stack pointer for entries from user mode.
\<close>

section \<open>Operations\<close>

definition EFLAGS_MBS :: u32 where "EFLAGS_MBS = push_bit 1 1"
definition EFLAGS_IF_1 :: u32 where "EFLAGS_IF_1 = push_bit 9 1"
definition EFLAGS_IOPL_0 :: u32 where "EFLAGS_IOPL_0 = push_bit 12 0"

text \<open>Assignments to the words of a structure at \<open>p\<close>, in the order of the source.\<close>

definition stores :: "mem \<Rightarrow> u32 \<Rightarrow> (nat \<times> u32) list \<Rightarrow> mem" where
  "stores m p fs = fold (\<lambda>(i, v) m. write32 m (p + of_nat i) v) fs m"

text \<open>
  The offsets in \<open>struct intr_stack\<close>: edi 4, esi 8, ebp 12, esp\_old 16, ebx 20, edx 24, ecx 28, eax 32, gs 36, fs 40,
  es 44, ds 48, eip 56, cs 60, eflags 64, esp 68, ss 72. \<open>self_kernel_stack\<close> has type \<open>uint32_t *\<close>: adding
  \<open>sizeof(struct task_struct)\<close> moves it by four times as many bytes. The result is the new stack pointer.
\<close>

definition start_process :: "u32 \<Rightarrow> 'a mem_state_scheme \<Rightarrow> u32 \<times> 'a mem_state_scheme" where
  "start_process filename s =
     (let function = filename;
          cur_task = get_cur_task s;
          s = upd_task cur_task (self_kernel_stack_update (\<lambda>p. p + 4 * sizeof_task_struct)) s;
          proc_stack = self_kernel_stack (tasks s cur_task)
      in (proc_stack, s\<lparr>ram := stores (ram s) proc_stack
           [(4, 0), (8, 0), (12, 0), (16, 0),
            (32, 0), (28, 0), (24, 0), (20, 0),
            (36, 0),
            (40, SELECTOR_U_DATA), (44, SELECTOR_U_DATA), (48, SELECTOR_U_DATA),
            (56, function),
            (60, SELECTOR_U_CODE),
            (64, EFLAGS_IOPL_0 OR EFLAGS_MBS OR EFLAGS_IF_1),
            (72, SELECTOR_U_STACK)]\<rparr>))"

record cpu_context =
  c_edi :: u32
  c_esi :: u32
  c_ebp :: u32
  c_ebx :: u32
  c_edx :: u32
  c_ecx :: u32
  c_eax :: u32
  c_gs :: u32
  c_fs :: u32
  c_es :: u32
  c_ds :: u32
  c_eip :: u32
  c_cs :: u32
  c_eflags :: u32
  c_esp :: u32
  c_ss :: u32

text \<open>\<open>intr_exit\<close> with the frame at \<open>p\<close>: skip the vector, \<open>popad\<close> (which drops the saved esp), the segments, skip the error code, \<open>iretd\<close>.\<close>

definition intr_exit :: "mem \<Rightarrow> u32 \<Rightarrow> cpu_context" where
  "intr_exit m p = \<lparr>c_edi = read32 m (p + 4), c_esi = read32 m (p + 8), c_ebp = read32 m (p + 12), c_ebx = read32 m (p + 20),
     c_edx = read32 m (p + 24), c_ecx = read32 m (p + 28), c_eax = read32 m (p + 32), c_gs = read32 m (p + 36), c_fs = read32 m (p + 40),
     c_es = read32 m (p + 44), c_ds = read32 m (p + 48), c_eip = read32 m (p + 56), c_cs = read32 m (p + 60), c_eflags = read32 m (p + 64),
     c_esp = read32 m (p + 68), c_ss = read32 m (p + 72)\<rparr>"

definition page_dir_activate :: "u32 \<Rightarrow> 'a mem_state_scheme \<Rightarrow> 'a mem_state_scheme" where
  "page_dir_activate ptask s =
     (let phy_pde_addr = PAGE_DIR_TABLE;
          phy_pde_addr = (if pde_addr (tasks s ptask) \<noteq> NULL then pa (pde_addr (tasks s ptask)) else phy_pde_addr)
      in s\<lparr>cr3 := phy_pde_addr\<rparr>)"

definition process_activate :: "u32 \<Rightarrow> 'a seg_state_scheme \<Rightarrow> 'a seg_state_scheme option" where
  "process_activate ptask s = do {
     ASSERT (ptask \<noteq> NULL);
     let s = page_dir_activate ptask s;
     Some (if pde_addr (tasks s ptask) \<noteq> NULL then set_tss_esp0 ptask s else s)
   }"

section \<open>Lemmas\<close>

lemma stores_Cons: "stores m p ((i, v) # fs) = stores (write32 m (p + of_nat i) v) p fs"
  by (simp add: stores_def)

lemma read32_word:
  assumes "4 dvd unat p" and "unat p + n \<le> 4294967296" and "4 dvd i" and "i + 4 \<le> n" and "4 dvd j" and "j + 4 \<le> n"
  shows "read32 (write32 m (p + of_nat i) v) (p + of_nat j) = (if i = j then v else read32 m (p + of_nat j))"
proof -
  have at: "p + of_nat k = of_nat (unat p + k)" for k
    by simp
  show ?thesis
    using assms unfolding at by (subst read32_write32) simp_all
qed

text \<open>A word of a structure after a sequence of assignments: the last one to it wins.\<close>

lemma read32_stores:
  assumes "4 dvd unat p" and "unat p + n \<le> 4294967296" and "4 dvd j" and "j + 4 \<le> n"
  shows "list_all (\<lambda>(i, v). 4 dvd i \<and> i + 4 \<le> n) fs \<Longrightarrow>
    read32 (stores m p fs) (p + of_nat j) = (case map_of (rev fs) j of None \<Rightarrow> read32 m (p + of_nat j) | Some v \<Rightarrow> v)"
proof (induction fs arbitrary: m)
  case Nil
  show ?case
    by (simp add: stores_def)
next
  case (Cons f fs)
  obtain i v where f: "f = (i, v)"
    by force
  have "read32 (write32 m (p + of_nat i) v) (p + of_nat j) = (if i = j then v else read32 m (p + of_nat j))"
    using Cons.prems assms by (intro read32_word) (simp_all add: f)
  then show ?case
    using Cons.IH [of "write32 m (p + of_nat i) v"] Cons.prems by (auto simp: f stores_Cons map_add_def split: option.splits)
qed

lemma process_frame:
  assumes "4 dvd unat p" and "unat p + 76 \<le> 4294967296"
  shows "intr_exit (stores m p [(4, 0), (8, 0), (12, 0), (16, 0), (32, 0), (28, 0), (24, 0), (20, 0), (36, 0), (40, ds), (44, ds), (48, ds),
      (56, f), (60, cs), (64, fl), (72, st)]) p =
    \<lparr>c_edi = 0, c_esi = 0, c_ebp = 0, c_ebx = 0, c_edx = 0, c_ecx = 0, c_eax = 0, c_gs = 0, c_fs = ds, c_es = ds, c_ds = ds,
     c_eip = f, c_cs = cs, c_eflags = fl, c_esp = read32 m (p + 68), c_ss = st\<rparr>" (is "intr_exit (stores m p ?fs) p = _")
proof -
  have fs: "list_all (\<lambda>(i, v). 4 dvd i \<and> i + 4 \<le> 76) ?fs"
    by simp
  have r: "read32 (stores m p ?fs) (p + of_nat j) = (case map_of (rev ?fs) j of None \<Rightarrow> read32 m (p + of_nat j) | Some v \<Rightarrow> v)"
    if "4 dvd j" "j \<le> 72" for j
    using read32_stores [OF assms(1,2) that(1) _ fs, of m] that(2) by simp
  show ?thesis
    using r [of 4] r [of 8] r [of 12] r [of 20] r [of 24] r [of 28] r [of 32] r [of 36] r [of 40] r [of 44] r [of 48] r [of 56] r [of 60]
      r [of 64] r [of 68] r [of 72] by (simp add: intr_exit_def)
qed

lemma start_process_eq:
  assumes "self_kernel_stack (tasks s (current_task s)) + 800 = p"
  shows "fst (start_process f s) = p"
    and "ram (snd (start_process f s)) = stores (ram s) p [(4, 0), (8, 0), (12, 0), (16, 0), (32, 0), (28, 0), (24, 0), (20, 0), (36, 0),
      (40, 0x33), (44, 0x33), (48, 0x33), (56, f), (60, 0x2b), (64, 0x202), (72, 0x33)]"
  using assms by (simp_all add: start_process_def Let_def get_cur_task_def sizeof_task_struct_def EFLAGS_IOPL_0_def EFLAGS_MBS_def EFLAGS_IF_1_def upd_task_def)

section \<open>Properties\<close>

text \<open>
  C26: A process started by \<open>start_process\<close> runs its function in user mode: what \<open>intr_exit\<close> pops has the function
  as instruction pointer, the user segments of privilege 3, the interrupts on and no I/O privilege, and zero in the
  general registers. Its stack pointer is not set: it is the word the frame happens to lie on.
\<close>

theorem start_process_user_mode:
  assumes "unat (self_kernel_stack (tasks s (current_task s))) + 876 \<le> 4294967296" and "4 dvd unat (self_kernel_stack (tasks s (current_task s)))"
  shows "let (p, s') = start_process f s; c = intr_exit (ram s') p
    in c_eip c = f \<and> c_cs c = SELECTOR_U_CODE \<and> c_cs c AND 3 = RPL3 \<and> c_ds c = SELECTOR_U_DATA \<and> c_es c = SELECTOR_U_DATA \<and> c_fs c = SELECTOR_U_DATA \<and>
       c_ss c = SELECTOR_U_STACK \<and> c_ss c AND 3 = RPL3 \<and> c_eflags c AND EFLAGS_IF \<noteq> 0 \<and> c_eflags c AND 0x3000 = 0 \<and>
       {c_eax c, c_ebx c, c_ecx c, c_edx c, c_esi c, c_edi c, c_ebp c, c_gs c} = {0} \<and> c_esp c = read32 (ram s) (p + 68)"
proof -
  let ?k = "self_kernel_stack (tasks s (current_task s))"
  have u: "unat (?k + 800) = unat ?k + 800"
    using assms(1) by (subst unat_add_u32) simp_all
  have "4 dvd unat (?k + 800)" "unat (?k + 800) + 76 \<le> 4294967296"
    using assms by (simp_all add: u)
  note c = process_frame [OF this]
  show ?thesis
    by (simp add: case_prod_unfold Let_def start_process_eq [OF refl] c RPL3_def EFLAGS_IF_def)
qed

theorem start_process_user_mode_witness:
  "let (p, s') = start_process 0x8048000 (upd_task (current_task demo_thread) (self_kernel_stack_update (\<lambda>_. 0xc0090000)) demo_thread)
    in c_eip (intr_exit (ram s') p) = 0x8048000 \<and> c_cs (intr_exit (ram s') p) = 0x2b"
  using start_process_user_mode [of "upd_task (current_task demo_thread) (self_kernel_stack_update (\<lambda>_. 0xc0090000)) demo_thread" "0x8048000"]
  by (simp add: Let_def case_prod_unfold upd_task_def)

text \<open>
  C39: The frame of a new process lies above its stack. A thread made by \<open>thread_start\<close> has its stack below
  \<open>pthread + PCB_SIZE\<close> (counted in structures); when it runs \<open>start_process\<close>, the pointer moves by 800 bytes, past
  the 432 that \<open>thread_creat\<close> reserved, and the frame begins 368 bytes above the end of the stack.
\<close>

theorem process_frame_above_stack:
  assumes "threads_ok s rq ts" and "thread_room s ts w name cs"
  shows "\<exists>s'. thread_start name prio f arg s = Some (Returned (page_at s w), s') \<and>
    unat (fst (start_process g (s'\<lparr>current_task := page_at s w\<rparr>))) = unat (page_at s w) + unat (PCB_SIZE * sizeof_task_struct) + 368"
proof -
  let ?t = "page_at s w"
  obtain s' where s': "thread_start name prio f arg s = Some (Returned ?t, s')"
      "tasks s' = (tasks s)(?t := new_task (?t + 818768) cs prio (next_pid s + 1) TASK_READY)"
      and u: "unat ?t + 819200 \<le> 4294967296" "unat (?t + 818768) = unat ?t + 818768"
    by (rule thread_start_run [OF assms]) (rule that)
  have w: "w + 200 < bm_bits (kvm s)" and lay: "kpool_layout s"
    using assms(2) by (simp_all add: thread_room_def kpool_ok_def)
  have "unat ?t + 823296 \<le> 4294967296"
    using unat_page_at [OF lay, of w 0] lay w by (simp add: kpool_layout_def)
  then have "unat (?t + 818768 + 800) = unat ?t + 819568"
    using u(2) by (subst unat_add_u32) simp_all
  moreover have "fst (start_process g (s'\<lparr>current_task := ?t\<rparr>)) = ?t + 818768 + 800"
    using start_process_eq(1) [OF refl, of g "s'\<lparr>current_task := ?t\<rparr>"] by (simp add: s'(2) new_task_def)
  ultimately show ?thesis
    using s'(1) by (intro exI [of _ s']) (simp add: PCB_SIZE_def PAGE_SIZE_def sizeof_task_struct_def)
qed

theorem process_frame_above_stack_witness:
  "\<exists>s'. thread_start 0x200 31 0xc0003000 7 demo_thread = Some (Returned 0xc1000000, s') \<and>
    unat (fst (start_process 0x8048000 (s'\<lparr>current_task := 0xc1000000\<rparr>))) = 0xc10c8170"
  using process_frame_above_stack [OF demo_thread_room(1,2), of 31 "0xc0003000" 7 "0x8048000"]
  by (simp add: demo_thread_bits PCB_SIZE_def PAGE_SIZE_def sizeof_task_struct_def)

text \<open>
  \<open>process_activate\<close> gives the processor the address space of the task: a kernel thread gets the tables of the
  kernel and leaves the task state segment alone, a user process its own directory and the end of its page as the
  stack for entries from user mode. Nothing else changes; without a task it does not return.
\<close>

theorem process_activate_switches:
  "process_activate NULL s = None \<and>
   (ptask \<noteq> NULL \<longrightarrow> (\<exists>s'. process_activate ptask s = Some s' \<and>
     (pde_addr (tasks s ptask) = NULL \<longrightarrow> s' = s\<lparr>cr3 := PAGE_DIR_TABLE\<rparr>) \<and>
     (pde_addr (tasks s ptask) \<noteq> NULL \<longrightarrow> va (cr3 s') = pde_addr (tasks s ptask) \<and> esp0 (tss s') = ptask + PAGE_SIZE \<and>
        s' = s\<lparr>cr3 := cr3 s', tss := (tss s)\<lparr>esp0 := esp0 (tss s')\<rparr>\<rparr>)))"
  by (simp add: process_activate_def page_dir_activate_def set_tss_esp0_def Let_def va_def pa_def ASSERT_def)

definition demo_seg :: seg_state where
  "demo_seg = console_state.extend demo_console (seg_state.fields zero_tss 0xc0005000 0 0)"

theorem process_activate_switches_witness: "\<exists>s'. process_activate 0x1000 demo_seg = Some s' \<and> cr3 s' = PAGE_DIR_TABLE"
  using process_activate_switches [of demo_seg "0x1000"]
  by (simp add: demo_seg_def demo_console_def demo_thread_def demo_mm_def demo_task_def NULL_def seg_state.defs console_state.defs thread_state.defs mem_state.defs)

end
