(* ===== verification/Syscall.thy ===== *)
theory Syscall
  imports Process
begin

text \<open>
  System calls: the table of \<open>userprog/syscall_init.c\<close>, the entry \<open>syscall_handler\<close> of \<open>kernel/interrupt_s.S\<close> and
  the user side of \<open>lib/user/syscall.c\<close>. An entry of the table is the function whose address it holds; \<open>None\<close> is
  a null pointer. A call through a null pointer or through a word behind the table has no defined effect and is
  \<open>None\<close>. The gate clears the interrupt flag and \<open>iretd\<close> restores the flags of the caller. The registers a stub
  does not set are arguments of it.
\<close>

section \<open>Data\<close>

datatype sys_fun = Sys_getpid | Sys_write | Sys_malloc | Sys_free

definition SYSCALL_CNT :: nat where "SYSCALL_CNT = 32"
definition NR_getpid :: u32 where "NR_getpid = 0"
definition NR_write :: u32 where "NR_write = 1"
definition NR_malloc :: u32 where "NR_malloc = 2"
definition NR_free :: u32 where "NR_free = 3"

record sys_state = seg_state +
  syscall_table :: "sys_fun option list"

section \<open>The kernel side\<close>

definition register_syscall :: "u32 \<Rightarrow> sys_fun \<Rightarrow> 'a sys_state_scheme \<Rightarrow> 'a sys_state_scheme option" where
  "register_syscall no func s =
     (if unat no < length (syscall_table s) then Some (s\<lparr>syscall_table := (syscall_table s)[unat no := Some func]\<rparr>) else None)"

text \<open>\<open>pid_t\<close> is signed: the identifier is extended with its sign.\<close>

definition sys_getpid :: "'a sys_state_scheme \<Rightarrow> u32" where
  "sys_getpid s = scast (pid (tasks s (get_cur_task s)))"

definition sys_write :: "u32 \<Rightarrow> 'a sys_state_scheme \<Rightarrow> (u32 pool_result \<times> 'a sys_state_scheme) option" where
  "sys_write str s = and_then (console_str str s) (\<lambda>_ s. do { n \<leftarrow> strlen (ram s) str; Some (Returned n, s) })"

definition syscall_init :: "'a sys_state_scheme \<Rightarrow> 'a sys_state_scheme option" where
  "syscall_init s = do {
     let s = put_lit (''syscall initialization start\<newline>'') s;
     s \<leftarrow> register_syscall NR_getpid Sys_getpid s;
     s \<leftarrow> register_syscall NR_write Sys_write s;
     s \<leftarrow> register_syscall NR_malloc Sys_malloc s;
     s \<leftarrow> register_syscall NR_free Sys_free s;
     Some (put_lit (''syscall initialization complation\<newline>'') s)
   }"

text \<open>The function an entry names with the arguments on the stack; the value left in \<open>eax\<close>, unspecified for \<open>void\<close>.\<close>

fun call_sys :: "sys_fun \<Rightarrow> u32 \<Rightarrow> u32 \<Rightarrow> u32 \<Rightarrow> 'a sys_state_scheme \<Rightarrow> (u32 option pool_result \<times> 'a sys_state_scheme) option" where
  "call_sys Sys_getpid a b c s = Some (Returned (Some (sys_getpid s)), s)"
| "call_sys Sys_write a b c s = and_then (sys_write a s) (\<lambda>r s. Some (Returned (Some r), s))"
| "call_sys Sys_malloc a b c s = and_then (sys_malloc a s) (\<lambda>r s. Some (Returned (Some r), s))"
| "call_sys Sys_free a b c s = and_then (sys_free a s) (\<lambda>_ s. Some (Returned None, s))"

definition syscall_handler :: "u32 \<Rightarrow> u32 \<Rightarrow> u32 \<Rightarrow> u32 \<Rightarrow> 'a sys_state_scheme \<Rightarrow> (u32 option pool_result \<times> 'a sys_state_scheme) option" where
  "syscall_handler eax ebx ecx edx s =
     (if unat eax < length (syscall_table s)
      then (case syscall_table s ! unat eax of None \<Rightarrow> None | Some f \<Rightarrow> call_sys f ebx ecx edx s)
      else None)"

section \<open>The user side\<close>

text \<open>\<open>int $0x80\<close> through an interrupt gate, and the return.\<close>

definition int_0x80 :: "u32 \<Rightarrow> u32 \<Rightarrow> u32 \<Rightarrow> u32 \<Rightarrow> 'a sys_state_scheme \<Rightarrow> (u32 option pool_result \<times> 'a sys_state_scheme) option" where
  "int_0x80 eax ebx ecx edx s = and_then (syscall_handler eax ebx ecx edx (cli s)) (\<lambda>r s'. Some (Returned r, s'\<lparr>eflags := eflags s\<rparr>))"

definition syscall0 :: "u32 \<Rightarrow> u32 \<Rightarrow> u32 \<Rightarrow> u32 \<Rightarrow> 'a sys_state_scheme \<Rightarrow> (u32 option pool_result \<times> 'a sys_state_scheme) option" where
  "syscall0 NAME ebx ecx edx s = int_0x80 NAME ebx ecx edx s"

definition syscall1 :: "u32 \<Rightarrow> u32 \<Rightarrow> u32 \<Rightarrow> u32 \<Rightarrow> 'a sys_state_scheme \<Rightarrow> (u32 option pool_result \<times> 'a sys_state_scheme) option" where
  "syscall1 NAME ARG1 ecx edx s = int_0x80 NAME ARG1 ecx edx s"

definition syscall2 :: "u32 \<Rightarrow> u32 \<Rightarrow> u32 \<Rightarrow> u32 \<Rightarrow> 'a sys_state_scheme \<Rightarrow> (u32 option pool_result \<times> 'a sys_state_scheme) option" where
  "syscall2 NAME ARG1 ARG2 edx s = int_0x80 NAME ARG1 ARG2 edx s"

definition syscall3 :: "u32 \<Rightarrow> u32 \<Rightarrow> u32 \<Rightarrow> u32 \<Rightarrow> 'a sys_state_scheme \<Rightarrow> (u32 option pool_result \<times> 'a sys_state_scheme) option" where
  "syscall3 NAME ARG1 ARG2 ARG3 s = int_0x80 NAME ARG1 ARG2 ARG3 s"

text \<open>A stub returns what is in \<open>eax\<close>.\<close>

definition eax_value :: "u32 option \<Rightarrow> 'a sys_state_scheme \<Rightarrow> (u32 pool_result \<times> 'a sys_state_scheme) option" where
  "eax_value r s = (case r of None \<Rightarrow> None | Some v \<Rightarrow> Some (Returned v, s))"

definition user_getpid :: "u32 \<Rightarrow> u32 \<Rightarrow> u32 \<Rightarrow> 'a sys_state_scheme \<Rightarrow> (u32 pool_result \<times> 'a sys_state_scheme) option" where
  "user_getpid ebx ecx edx s = and_then (syscall0 NR_getpid ebx ecx edx s) eax_value"

definition user_write :: "u32 \<Rightarrow> u32 \<Rightarrow> u32 \<Rightarrow> 'a sys_state_scheme \<Rightarrow> (u32 pool_result \<times> 'a sys_state_scheme) option" where
  "user_write str ecx edx s = and_then (syscall1 NR_write str ecx edx s) eax_value"

definition user_malloc :: "u32 \<Rightarrow> u32 \<Rightarrow> u32 \<Rightarrow> 'a sys_state_scheme \<Rightarrow> (u32 pool_result \<times> 'a sys_state_scheme) option" where
  "user_malloc sz ecx edx s = and_then (syscall1 NR_malloc sz ecx edx s) eax_value"

definition user_free :: "u32 \<Rightarrow> u32 \<Rightarrow> u32 \<Rightarrow> 'a sys_state_scheme \<Rightarrow> (unit pool_result \<times> 'a sys_state_scheme) option" where
  "user_free ptr ecx edx s = and_then (syscall1 NR_free ptr ecx edx s) (\<lambda>_ s. Some (Returned (), s))"

section \<open>Lemmas\<close>

definition kernel_table :: "sys_fun option list" where
  "kernel_table = [Some Sys_getpid, Some Sys_write, Some Sys_malloc, Some Sys_free] @ replicate 28 None"

lemma syscall_init_table:
  assumes "syscall_table s = replicate SYSCALL_CNT None"
  obtains x where "syscall_init s = Some (s\<lparr>syscall_table := kernel_table, screen := x\<rparr>)"
proof -
  have "(replicate 32 None)[0 := Some Sys_getpid, 1 := Some Sys_write, 2 := Some Sys_malloc, 3 := Some Sys_free] = kernel_table"
    by (simp add: kernel_table_def numeral_nat)
  then show ?thesis
    using that assms by (simp add: syscall_init_def register_syscall_def put_lit_eq NR_getpid_def NR_write_def NR_malloc_def NR_free_def SYSCALL_CNT_def)
qed

lemma and_then_Returned [simp]: "and_then (Some (Returned r, s)) f = f r s"
  by (simp add: and_then_def)

lemma eax_value_Some [simp]: "eax_value (Some v) s = Some (Returned v, s)"
  by (simp add: eax_value_def)

text \<open>A number that is in the table reaches its function, with the interrupts off.\<close>

lemma int_0x80_dispatch:
  assumes "syscall_table s = kernel_table"
  shows "int_0x80 NR_getpid a b c s = Some (Returned (Some (sys_getpid s)), s)"
    and "sys_write a (cli s) = Some (Returned r, s') \<Longrightarrow> int_0x80 NR_write a b c s = Some (Returned (Some r), s'\<lparr>eflags := eflags s\<rparr>)"
    and "sys_malloc a (cli s) = Some (Returned r, s') \<Longrightarrow> int_0x80 NR_malloc a b c s = Some (Returned (Some r), s'\<lparr>eflags := eflags s\<rparr>)"
    and "sys_free a (cli s) = Some (Returned (), s') \<Longrightarrow> int_0x80 NR_free a b c s = Some (Returned None, s'\<lparr>eflags := eflags s\<rparr>)"
proof -
  have t: "syscall_table (cli s) = kernel_table"
    using assms by (simp add: cli_def)
  have at: "length kernel_table = 32" "kernel_table ! 0 = Some Sys_getpid" "kernel_table ! 1 = Some Sys_write" "kernel_table ! 2 = Some Sys_malloc" "kernel_table ! 3 = Some Sys_free"
    by (simp_all add: kernel_table_def nth_append)
  show "int_0x80 NR_getpid a b c s = Some (Returned (Some (sys_getpid s)), s)"
  proof -
    have "sys_getpid (cli s) = sys_getpid s" "(cli s)\<lparr>eflags := eflags s\<rparr> = s"
      by (simp_all add: sys_getpid_def get_cur_task_def cli_def)
    then show ?thesis
      by (simp add: int_0x80_def syscall_handler_def t at NR_getpid_def)
  qed
  show "sys_write a (cli s) = Some (Returned r, s') \<Longrightarrow> int_0x80 NR_write a b c s = Some (Returned (Some r), s'\<lparr>eflags := eflags s\<rparr>)"
    using at(3) by (simp add: int_0x80_def syscall_handler_def t at(1) NR_write_def)
  show "sys_malloc a (cli s) = Some (Returned r, s') \<Longrightarrow> int_0x80 NR_malloc a b c s = Some (Returned (Some r), s'\<lparr>eflags := eflags s\<rparr>)"
    by (simp add: int_0x80_def syscall_handler_def t at NR_malloc_def)
  show "sys_free a (cli s) = Some (Returned (), s') \<Longrightarrow> int_0x80 NR_free a b c s = Some (Returned None, s'\<lparr>eflags := eflags s\<rparr>)"
    by (simp add: int_0x80_def syscall_handler_def t at NR_free_def)
qed

text \<open>The heap does not depend on the flags of the processor.\<close>

lemma heap_eflags [simp]: "kernel_caller (s\<lparr>eflags := e\<rparr>) = kernel_caller s" "heap_inv (s\<lparr>eflags := e\<rparr>) U F = heap_inv s U F" "call_inv (s\<lparr>eflags := e\<rparr>, L) = call_inv (s, L)"
proof -
  show kc: "kernel_caller (s\<lparr>eflags := e\<rparr>) = kernel_caller s"
    by (simp add: kernel_caller_def lock_free_def)
  have kd: "kdesc (s\<lparr>eflags := e\<rparr>) = kdesc s"
    by (simp add: kdesc_def fun_eq_iff)
  then have fc: "free_cell (s\<lparr>eflags := e\<rparr>) = free_cell s"
    by (simp add: free_cell_def fun_eq_iff)
  have kp: "kpage_inv (s\<lparr>eflags := e\<rparr>, X) = kpage_inv (s, X)" for X
    by (simp add: kpage_inv.simps live_ok_def alloc_pages_def alloc_start_def kpool_layout_def kpool_ok_def page_at_def)
  show hi: "heap_inv (s\<lparr>eflags := e\<rparr>) U F = heap_inv s U F" for U F
    by (simp add: heap_inv_def kd fc kp descs_ok_def)
  show "call_inv (s\<lparr>eflags := e\<rparr>, L) = call_inv (s, L)"
    by (simp add: kc hi)
qed

section \<open>Properties\<close>

text \<open>The table is in place: \<open>s\<close> has the one that \<open>syscall_init\<close> left.\<close>

definition syscalls_on :: "'a sys_state_scheme \<Rightarrow> 'a sys_state_scheme \<Rightarrow> bool" where
  "syscalls_on boot s \<longleftrightarrow> syscall_table boot = replicate SYSCALL_CNT None \<and> (\<exists>s1. syscall_init boot = Some s1 \<and> syscall_table s = syscall_table s1)"

lemma syscalls_on_table: "syscalls_on boot s \<Longrightarrow> syscall_table s = kernel_table"
  unfolding syscalls_on_def by (elim conjE exE syscall_init_table) simp

text \<open>
  C25: The system calls \<open>getpid\<close> and \<open>write\<close> of a user program: once the table is set up, \<open>getpid\<close> returns the
  identifier of the running task and changes nothing, and \<open>write\<close> prints its string on the console and returns the
  length; both give the flags back.
\<close>

theorem syscall_getpid_write:
  assumes "syscalls_on boot s" and "lock_free (console_lock s) s" and "cstring (ram s) str cs" and "str \<noteq> NULL"
  shows "user_getpid ebx ecx edx s = Some (Returned (scast (pid (tasks s (current_task s)))), s) \<and>
    user_write str ecx edx s = Some (Returned (of_nat (length cs)), s\<lparr>screen := screen s @ cs\<rparr>)"
proof -
  note d = int_0x80_dispatch [OF syscalls_on_table [OF assms(1)]]
  have lk: "lock_free (console_lock (cli s)) (cli s)"
    using assms(2) by (simp add: cli_def lock_free_def)
  have "console_str str (cli s) = Some (Returned (), (cli s)\<lparr>screen := screen (cli s) @ cs\<rparr>)"
    by (rule console_str_eq [OF lk]) (use assms(3) in \<open>simp add: cli_def\<close>)
  then have "sys_write str (cli s) = Some (Returned (of_nat (length cs)), (cli s)\<lparr>screen := screen s @ cs\<rparr>)"
    using strlen_cstring [OF assms(3,4)] by (simp add: sys_write_def) (simp add: cli_def)
  from d(2) [OF this] d(1) show ?thesis
    by (simp add: user_getpid_def syscall0_def user_write_def syscall1_def sys_getpid_def get_cur_task_def) (simp add: cli_def)
qed

text \<open>
  A program that allocates through system calls: it calls \<open>malloc\<close>, calls \<open>free\<close> on a pointer it holds, or writes to a block it
  holds. Each call is the call of the kernel function with the interrupts off, and the flags come back.
\<close>

inductive user_step :: "'a sys_state_scheme \<times> (u32 \<times> u32) set \<Rightarrow> 'a sys_state_scheme \<times> (u32 \<times> u32) set \<Rightarrow> bool" where
  malloc: "user_malloc sz ecx edx s = Some (Returned p, s') \<Longrightarrow> p \<noteq> NULL \<Longrightarrow> user_step (s, L) (s', insert (p, sz) L)"
| free: "(p, sz) \<in> L \<Longrightarrow> user_free p ecx edx s = Some (Returned (), s') \<Longrightarrow> user_step (s, L) (s', L - {(p, sz)})"
| client: "(p, sz) \<in> L \<Longrightarrow> (\<forall>a. a \<notin> span p (unat sz) \<longrightarrow> m a = ram s a) \<Longrightarrow> user_step (s, L) (s\<lparr>ram := m\<rparr>, L)"

lemma and_then_done: "and_then r f = Some (Returned x, t) \<longleftrightarrow> (\<exists>y s. r = Some (Returned y, s) \<and> f y s = Some (Returned x, t))"
  by (auto simp: and_then_def split: Option.bind_split pool_result.splits)

lemma user_malloc_kernel:
  assumes "syscall_table s = kernel_table"
  shows "user_malloc sz ecx edx s = Some (Returned p, s') \<longleftrightarrow> (\<exists>t. sys_malloc sz (cli s) = Some (Returned p, t) \<and> s' = t\<lparr>eflags := eflags s\<rparr>)"
proof -
  have "syscall_table (cli s) = kernel_table" "length kernel_table = 32" "kernel_table ! 2 = Some Sys_malloc"
    using assms by (simp_all add: cli_def kernel_table_def nth_append)
  then show ?thesis
    by (auto simp: user_malloc_def syscall1_def int_0x80_def syscall_handler_def NR_malloc_def and_then_done eax_value_def)
qed

lemma user_free_kernel:
  assumes "syscall_table s = kernel_table"
  shows "user_free p ecx edx s = Some (Returned (), s') \<longleftrightarrow> (\<exists>t. sys_free p (cli s) = Some (Returned (), t) \<and> s' = t\<lparr>eflags := eflags s\<rparr>)"
proof -
  have "syscall_table (cli s) = kernel_table" "length kernel_table = 32" "kernel_table ! 3 = Some Sys_free"
    using assms by (simp_all add: cli_def kernel_table_def nth_append)
  then show ?thesis
    by (auto simp: user_free_def syscall1_def int_0x80_def syscall_handler_def NR_free_def and_then_done)
qed

lemma call_inv_cli: "call_inv (cli s, L) = call_inv (s, L)"
  unfolding cli_def by (rule heap_eflags)

lemma user_step_inv:
  "user_step c d \<Longrightarrow> call_inv c \<and> syscall_table (fst c) = kernel_table \<Longrightarrow> call_inv d \<and> syscall_table (fst d) = kernel_table"
proof (induction rule: user_step.induct)
  case (malloc sz ecx edx s p s' L)
  then obtain t where t: "sys_malloc sz (cli s) = Some (Returned p, t)" "s' = t\<lparr>eflags := eflags s\<rparr>"
    using user_malloc_kernel by fastforce
  have inv: "call_inv (cli s, L)"
    using malloc.prems by (simp only: call_inv_cli)
  then obtain U F where hi: "heap_inv (cli s) U F" "kernel_caller (cli s)"
    by auto
  obtain m h ar where "t = heap_upd m h ar (cli s)"
    using sys_malloc_block [OF hi t(1) malloc(2)] by blast
  moreover have "call_inv (t, insert (p, sz) L)"
    by (rule heap_step_inv [OF heap_step.malloc [OF t(1) malloc(2)] inv])
  ultimately show ?case
    using malloc.prems unfolding t(2) fst_conv heap_eflags by (simp add: heap_upd_def cli_def del: call_inv.simps)
next
  case (free p sz L ecx edx s s')
  then obtain t where t: "sys_free p (cli s) = Some (Returned (), t)" "s' = t\<lparr>eflags := eflags s\<rparr>"
    using user_free_kernel by fastforce
  have "call_inv (cli s, L)"
    using free.prems by (simp only: call_inv_cli)
  from sys_free_run [OF this free(1)] obtain m h ar where
      f: "sys_free p (cli s) = Some (Returned (), heap_upd m h ar (cli s))" "call_inv (heap_upd m h ar (cli s), L - {(p, sz)})"
    by blast
  have "t = heap_upd m h ar (cli s)"
    using f(1) t(1) by simp
  with f(2) have "t = heap_upd m h ar (cli s)" "call_inv (t, L - {(p, sz)})"
    by (simp_all only:)
  then show ?case
    using free.prems unfolding t(2) fst_conv heap_eflags by (simp add: heap_upd_def cli_def del: call_inv.simps)
next
  case (client p sz L m s)
  then show ?case
    using heap_step_inv [OF heap_step.client [OF client(1,2)]] by simp
qed

lemma user_steps_inv:
  assumes "user_step\<^sup>*\<^sup>* (s0, {}) (s, L)" and "syscall_table s0 = kernel_table" and "heap_ready s0"
  shows "call_inv (s, L)" and "syscall_table s = kernel_table"
proof -
  have "call_inv (s, L) \<and> syscall_table (fst (s, L)) = kernel_table"
    using assms(1) heap_ready_inv(2) [OF assms(3)] assms(2)
    by (induction rule: rtranclp_induct) (auto simp del: call_inv.simps dest: user_step_inv)
  then show "call_inv (s, L)" "syscall_table s = kernel_table"
    by simp_all
qed

text \<open>
  C24: Memory through system calls. A kernel thread allocates, writes and frees through the stubs of the user library, from a heap that is ready. Then
  whenever the pages it may need are free, \<open>malloc\<close> is the kernel's \<open>sys_malloc\<close> step and returns a
  block of zero bytes above the start of the kernel heap, disjoint from every block held; and \<open>free\<close> of any pointer then held is the step of
  \<open>sys_free\<close> that takes it back: the kernel call returns, its state is the one the program goes on in, and the pointer is
  held no more. The flags of the caller are always what they were.
\<close>

theorem syscall_malloc_free:
  assumes "syscalls_on boot s0" and "heap_ready s0" and "user_step\<^sup>*\<^sup>* (s0, {}) (s, L)" and "sz \<noteq> 0" and "sz \<le> pool_size (kernel_pool s)"
    and "bm_free (ram s) (kvm s) w (if sz \<le> 1024 then 1 else (unat sz + 4103) div 4096)"
    and "w + (if sz \<le> 1024 then 1 else (unat sz + 4103) div 4096) < bm_bits (kvm s)"
  shows "\<exists>p t s1. user_malloc sz ecx edx s = Some (Returned p, s1) \<and> s1 = t\<lparr>eflags := eflags s\<rparr> \<and>
    heap_step (cli s, L) (t, insert (p, sz) L) \<and> p \<noteq> NULL \<and> (\<forall>k < unat sz. ram s1 (p + of_nat k) = 0) \<and>
    unat (vm_start (kernel_vm_pool s)) < unat p \<and> (\<forall>x \<in> L. held_region x \<inter> held_region (p, sz) = {}) \<and>
    (\<forall>(q, z) \<in> insert (p, sz) L. \<exists>t2. user_free q ecx edx s1 = Some (Returned (), t2\<lparr>eflags := eflags s\<rparr>) \<and>
      sys_free q (cli s1) = Some (Returned (), t2) \<and> call_inv (t2, insert (p, sz) L - {(q, z)}) \<and>
      heap_step (cli s1, insert (p, sz) L) (t2, insert (p, sz) L - {(q, z)}))"
proof -
  note u = user_steps_inv [OF assms(3) syscalls_on_table [OF assms(1)] assms(2)]
  have inv0: "call_inv (cli s, L)"
    using u(1) by (simp only: call_inv_cli)
  then obtain U F where hi: "heap_inv (cli s) U F" and kc: "kernel_caller (cli s)"
    by auto
  obtain p t where m: "sys_malloc sz (cli s) = Some (Returned p, t)" "p \<noteq> NULL"
    by (rule sys_malloc_room [OF hi kc assms(4), of w]) (use assms(5-7) in \<open>simp_all add: cli_def\<close>)
  obtain mm h ar where t: "\<forall>k < unat sz. ram t (p + of_nat k) = 0" "t = heap_upd mm h ar (cli s)"
    using sys_malloc_block [OF hi kc m] by blast
  have st: "heap_step (cli s, L) (t, insert (p, sz) L)"
    by (rule heap_step.malloc [OF m])
  have inv1: "call_inv (t, insert (p, sz) L)"
    by (rule kheap.step_inv [OF st inv0])
  let ?s1 = "t\<lparr>eflags := eflags s\<rparr>"
  have mal: "user_malloc sz ecx edx s = Some (Returned p, ?s1)"
    using user_malloc_kernel [OF u(2)] m(1) by blast
  have "user_step (s, L) (?s1, insert (p, sz) L)"
    by (rule user_step.malloc [OF mal m(2)])
  then have "call_inv (?s1, insert (p, sz) L) \<and> syscall_table (fst (?s1, insert (p, sz) L)) = kernel_table"
    by (rule user_step_inv) (use u in \<open>simp del: call_inv.simps\<close>)
  then have tab: "call_inv (?s1, insert (p, sz) L)" "syscall_table ?s1 = kernel_table"
    by (simp_all only: fst_conv)
  have "\<exists>t2. user_free q ecx edx ?s1 = Some (Returned (), t2\<lparr>eflags := eflags s\<rparr>) \<and>
      sys_free q (cli ?s1) = Some (Returned (), t2) \<and> call_inv (t2, insert (p, sz) L - {(q, z)}) \<and>
      heap_step (cli ?s1, insert (p, sz) L) (t2, insert (p, sz) L - {(q, z)})" if x: "(q, z) \<in> insert (p, sz) L" for q z
  proof -
    have "call_inv (cli ?s1, insert (p, sz) L)"
      using tab(1) by (simp only: call_inv_cli)
    then obtain t2 where f: "sys_free q (cli ?s1) = Some (Returned (), t2)" "call_inv (t2, insert (p, sz) L - {(q, z)})"
      by (rule sys_free_inv [OF _ x])
    have "eflags ?s1 = eflags s"
      by simp
    then have "user_free q ecx edx ?s1 = Some (Returned (), t2\<lparr>eflags := eflags s\<rparr>)"
      using user_free_kernel [OF tab(2)] f(1) by metis
    then show ?thesis
      using f heap_step.free [OF x f(1)] by (intro exI [of _ t2] conjI)
  qed
  then have frees: "\<forall>(q, z) \<in> insert (p, sz) L. \<exists>t2. user_free q ecx edx ?s1 = Some (Returned (), t2\<lparr>eflags := eflags s\<rparr>) \<and>
      sys_free q (cli ?s1) = Some (Returned (), t2) \<and> call_inv (t2, insert (p, sz) L - {(q, z)}) \<and>
      heap_step (cli ?s1, insert (p, sz) L) (t2, insert (p, sz) L - {(q, z)})"
    by (intro ballI) (simp only: split_paired_all prod.case)
  have apart: "\<forall>x \<in> L. held_region x \<inter> held_region (p, sz) = {}"
  proof
    fix x assume x: "x \<in> L"
    have "fst x \<noteq> p"
      by (rule sys_malloc_fresh [OF inv0 m x])
    then have "x \<noteq> (p, sz)"
      by (cases x) simp
    then show "held_region x \<inter> held_region (p, sz) = {}"
      using kheap.apart [OF inv1, of x "(p, sz)"] x by blast
  qed
  obtain U' F' where o: "heap_inv t U' F'" "owns U' F' (p, sz)"
    using inv1 unfolding call_inv.simps by blast
  have low: "unat (vm_start (kernel_vm_pool t)) < unat p"
    by (rule owns_page [OF o])
  have low: "unat (vm_start (kernel_vm_pool s)) < unat p"
    using low by (simp add: t(2) heap_upd_def cli_def)
  have zero: "\<forall>k < unat sz. ram ?s1 (p + of_nat k) = 0"
    using t(1) by simp
  show ?thesis
    using mal st m(2) zero low apart frees by (intro exI conjI) (assumption | rule refl)+
qed

text \<open>
  The entry does not check the number: a number without a function calls a null pointer or whatever follows the
  table, so the call has no defined result.
\<close>

theorem syscall_number_unchecked:
  assumes "syscalls_on boot s" and "4 \<le> unat n"
  shows "syscall_handler n ebx ecx edx s = None"
proof (cases "unat n < 32")
  case True
  then have "kernel_table ! unat n = None"
    using assms(2) by (simp add: kernel_table_def nth_append)
  then show ?thesis
    using syscalls_on_table [OF assms(1)] by (simp add: syscall_handler_def)
next
  case False
  then show ?thesis
    using syscalls_on_table [OF assms(1)] by (simp add: syscall_handler_def kernel_table_def)
qed

section \<open>A concrete machine\<close>

text \<open>The machine of the heap with a console and a table of system calls; the running task is a kernel thread.\<close>

definition demo_sys0 :: sys_state where
  "demo_sys0 = seg_state.extend (console_state.extend (thread_state.extend (mem_state.extend (demo_heap\<lparr>ram := (ram demo_heap)(0x200 := 0x61)\<rparr>)
     (thread_state.fields 0x6070 0 0xc0002000 0xc0002100 0x200 0x200)) (console_state.fields 0x6090))
     (seg_state.fields zero_tss 0xc0005000 0 0)) (sys_state.fields (replicate SYSCALL_CNT None))"

definition demo_sys :: sys_state where
  "demo_sys = demo_sys0\<lparr>syscall_table := kernel_table\<rparr>"

lemma heap_ready_truncate: "heap_ready s \<longleftrightarrow> heap_ready (mem_state.truncate s)"
  by (simp add: heap_ready_def kernel_caller_def lock_free_def kpool_ok_def kpool_layout_def descs_ok_def kdesc_def free_cell_def mem_state.truncate_def)

lemma demo_sys_sel: "mem_state.truncate demo_sys = demo_heap\<lparr>ram := (ram demo_heap)(0x200 := 0x61)\<rparr>" "ram demo_sys = (ram demo_heap)(0x200 := 0x61)"
    "kernel_pool demo_sys = kernel_pool demo_heap" "kernel_vm_pool demo_sys = kernel_vm_pool demo_heap" "console_lock demo_sys = 0x6090" "screen demo_sys = []"
    "lock_free l demo_sys = lock_free l demo_heap" "tasks demo_sys = tasks demo_heap" "current_task demo_sys = current_task demo_heap"
  by (simp_all add: demo_sys_def demo_sys0_def demo_heap_screen sys_state.defs seg_state.defs console_state.defs thread_state.defs mem_state.defs lock_free_def)

lemma demo_sys_on: "syscalls_on demo_sys0 demo_sys"
proof -
  have t: "syscall_table demo_sys0 = replicate SYSCALL_CNT None"
    by (simp add: demo_sys0_def sys_state.defs seg_state.defs console_state.defs thread_state.defs mem_state.defs)
  obtain x where "syscall_init demo_sys0 = Some (demo_sys0\<lparr>syscall_table := kernel_table, screen := x\<rparr>)"
    by (rule syscall_init_table [OF t])
  then show ?thesis
    using t by (simp add: syscalls_on_def demo_sys_def)
qed

lemma demo_sys_ready: "heap_ready demo_sys" "lock_free l demo_sys" "cstring (ram demo_sys) 0x200 [0x61]"
    "bm_free (ram demo_sys) (kvm demo_sys) 0 1" "bm_bits (kvm demo_sys) = 16"
proof -
  obtain bd h where d: "demo_heap = demo_mm\<lparr>block_descs := bd, nodes := h\<rparr>"
    using demo_heap_mm by blast
  have r: "kpool_ok demo_heap" "kernel_caller demo_heap" "descs_ok demo_heap" "\<forall>i < 7. ring (nodes demo_heap) [free_cell demo_heap i]"
    using demo_heap_ready by (simp_all add: heap_ready_def)
  let ?h = "demo_heap\<lparr>ram := (ram demo_heap)(0x200 := 0x61)\<rparr>"
  have sp: "bm_span (kvm demo_heap) = {0xc0075000, 0xc0075001}" "bm_span (kpm demo_heap) = {0xc007e000, 0xc007e001}"
    unfolding d by (simp_all add: demo_mm_def bm_span_def span_2)
  have "kpool_ok (demo_heap\<lparr>ram := (ram demo_heap)(0x200 := 0x61), cr3 := cr3 demo_heap\<rparr>)"
    by (rule kpool_ok_ram [OF r(1)]) (auto simp: sp)
  then have "kpool_ok ?h"
    by simp
  moreover have kd: "kdesc ?h = kdesc demo_heap"
    by (simp add: kdesc_def fun_eq_iff)
  moreover have "kernel_caller ?h" "descs_ok ?h"
    using r(2,3) kd by (simp_all add: kernel_caller_def lock_free_def descs_ok_def)
  ultimately have "heap_ready ?h"
    using r(4) by (simp add: heap_ready_def free_cell_def)
  then show "heap_ready demo_sys"
    unfolding heap_ready_truncate [of demo_sys] demo_sys_sel(1) .
  show "lock_free l demo_sys"
    unfolding demo_sys_sel d by (simp add: lock_free_def demo_mm_def NULL_def)
  show "cstring (ram demo_sys) 0x200 [0x61]"
    unfolding demo_sys_sel d by (simp add: demo_mm_def)
  show "bm_free (ram demo_sys) (kvm demo_sys) 0 1" "bm_bits (kvm demo_sys) = 16"
    unfolding demo_sys_sel using demo_heap_facts(2) unfolding d by (simp_all add: bm_free_def bm_bit_def demo_mm_def)
qed

theorem syscall_getpid_write_witness: "user_write 0x200 0 0 demo_sys = Some (Returned 1, demo_sys\<lparr>screen := [0x61]\<rparr>)"
  using syscall_getpid_write [OF demo_sys_on demo_sys_ready(2,3), of 0 0 0] by (simp add: demo_sys_sel NULL_def)

theorem syscall_malloc_free_witness:
  "\<exists>p s1 s2. user_malloc 100 0 0 demo_sys = Some (Returned p, s1) \<and> p \<noteq> NULL \<and> ram s1 (p + 99) = 0 \<and> user_free p 0 0 s1 = Some (Returned (), s2)"
proof -
  have "(100 :: u32) \<le> pool_size (kernel_pool demo_sys)" "syscalls_on demo_sys0 demo_sys"
    using demo_sys_on by (simp_all add: demo_sys_sel demo_heap_facts)
  from syscall_malloc_free [OF this(2) demo_sys_ready(1) rtranclp.rtrancl_refl _ this(1), of 0 0 0]
  obtain p t where "user_malloc 100 0 0 demo_sys = Some (Returned p, t\<lparr>eflags := eflags demo_sys\<rparr>)" "p \<noteq> NULL"
      "\<forall>k < unat (100 :: u32). ram (t\<lparr>eflags := eflags demo_sys\<rparr>) (p + of_nat k) = 0"
      "\<exists>t2. user_free p 0 0 (t\<lparr>eflags := eflags demo_sys\<rparr>) = Some (Returned (), t2\<lparr>eflags := eflags demo_sys\<rparr>)"
    using demo_sys_ready(4,5) by (auto simp del: call_inv.simps)
  then show ?thesis
    by (auto dest: spec [of _ 99])
qed

theorem syscall_number_unchecked_witness: "syscall_handler 4 0 0 0 demo_sys = None"
  using syscall_number_unchecked [OF demo_sys_on, of 4] by simp

end
