(* ===== verification/Ide.thy ===== *)
theory Ide
  imports Syscall
begin

text \<open>
  The disk driver (\<open>device/ide.c\<close>, port access of \<open>include/asm/io.h\<close>). The disks are not part of the program: a
  \<open>device\<close> answers a read of a port as a function of all port accesses so far, \<open>io_log\<close>, newest first. Where the
  driver gives up the processor (a taken lock, a semaphore at 0, \<open>mil_sleep\<close>), the argument \<open>others\<close> is what the
  machine does until the driver runs again: other tasks and interrupts, that of the disk among them. A channel is
  named by its index in \<open>g_channels\<close>, a disk by the channel and its number there. A name is written by
  \<open>sprintf\<close>; the text is that of the specification \<open>render\<close>, which \<open>Stdio\<close> proves of \<open>vsprintf\<close>.
\<close>

section \<open>Data\<close>

datatype io_event = Out8 u16 u8 | In8 u16 | OutW u16 "u16 list" | InW u16 nat

record device =
  in_byte :: "io_event list \<Rightarrow> u16 \<Rightarrow> u8"
  in_word :: "io_event list \<Rightarrow> u16 \<Rightarrow> nat \<Rightarrow> u16"

record partition =
  start_lba :: u32
  sector_cnt :: u32
  part_disk :: "(nat \<times> nat) option"
  part_queue :: u32
  part_name :: "u8 list"
  part_sb :: u32
  block_bitmap :: bitmap
  inode_bitmap :: bitmap
  open_inodes_queue :: general_queue

record disk =
  disk_name :: "u8 list"
  disk_channel :: nat
  dev_no :: u8
  prim_parts :: "partition list"
  logic_parts :: "partition list"
  prim_cnt :: u8
  logic_cnt :: u8

text \<open>\<open>chan_lock\<close> and \<open>disk_ok\<close> are the addresses of the lock and of the semaphore in the channel.\<close>

record ide_channel =
  chan_name :: "u8 list"
  port_base :: u16
  irq_no :: u8
  chan_lock :: u32
  wait_intr :: bool
  disk_ok :: u32
  devices :: "nat \<Rightarrow> disk"

text \<open>
  The globals, the static variables of \<open>partition_scan\<close>, the table of interrupt handlers, and the addresses of
  the local buffers: \<open>scan_buf n\<close> in the frame of \<open>partition_scan\<close> at depth \<open>n\<close>, \<open>ide_info\<close> and \<open>info_buf\<close> in that of
  \<open>disk_identify\<close>.
\<close>

record ide_state = sys_state +
  io_log :: "io_event list"
  g_channel_cnt :: u8
  g_channels :: "nat \<Rightarrow> ide_channel"
  ext_lba_base :: u32
  p_no :: u8
  l_no :: u8
  irqaction :: "u32 list"
  hard_disk_addr :: u32
  scan_buf :: "nat \<Rightarrow> u32"
  ide_info :: u32
  info_buf :: u32

text \<open>The partition table entry \<open>i\<close> of a boot sector at \<open>p\<close>: sixteen bytes each, from byte 446 on.\<close>

definition pt_entry :: "u32 \<Rightarrow> nat \<Rightarrow> u32" where "pt_entry p i = p + 446 + 16 * of_nat i"
definition pt_fs_type :: "mem \<Rightarrow> u32 \<Rightarrow> u8" where "pt_fs_type m e = m (e + 4)"
definition pt_start_lba :: "mem \<Rightarrow> u32 \<Rightarrow> u32" where "pt_start_lba m e = read32 m (e + 8)"
definition pt_sector_cnt :: "mem \<Rightarrow> u32 \<Rightarrow> u32" where "pt_sector_cnt m e = read32 m (e + 12)"

definition reg_data :: "ide_channel \<Rightarrow> u16" where "reg_data ch = port_base ch + 0"
definition reg_sect_cnt :: "ide_channel \<Rightarrow> u16" where "reg_sect_cnt ch = port_base ch + 2"
definition reg_lba_l :: "ide_channel \<Rightarrow> u16" where "reg_lba_l ch = port_base ch + 3"
definition reg_lba_m :: "ide_channel \<Rightarrow> u16" where "reg_lba_m ch = port_base ch + 4"
definition reg_lba_h :: "ide_channel \<Rightarrow> u16" where "reg_lba_h ch = port_base ch + 5"
definition reg_dev :: "ide_channel \<Rightarrow> u16" where "reg_dev ch = port_base ch + 6"
definition reg_status :: "ide_channel \<Rightarrow> u16" where "reg_status ch = port_base ch + 7"
definition reg_cmd :: "ide_channel \<Rightarrow> u16" where "reg_cmd ch = reg_status ch"

definition BIT_ALT_STATUS_BSY :: u8 where "BIT_ALT_STATUS_BSY = 0x80"
definition BIT_ALT_STATUS_DRQ :: u8 where "BIT_ALT_STATUS_DRQ = 0x08"
definition BIT_DEV_MBS :: u8 where "BIT_DEV_MBS = 0xa0"
definition BIT_DEV_LBA :: u8 where "BIT_DEV_LBA = 0x40"
definition BIT_DEV_DEV :: u8 where "BIT_DEV_DEV = 0x10"
definition CMD_IDENTIFY :: u8 where "CMD_IDENTIFY = 0xec"
definition CMD_READ_SECTOR :: u8 where "CMD_READ_SECTOR = 0x20"
definition CMD_WRITE_SECTOR :: u8 where "CMD_WRITE_SECTOR = 0x10"

definition SECTOR_TO_BYTES :: "u8 \<Rightarrow> u32" where
  "SECTOR_TO_BYTES sec_cnt = (if sec_cnt = 0 then 256 * 512 else ucast sec_cnt * 512)"

section \<open>Ports\<close>

definition outb :: "u16 \<Rightarrow> u16 \<Rightarrow> 'a ide_state_scheme \<Rightarrow> 'a ide_state_scheme" where
  "outb port x s = s\<lparr>io_log := Out8 port (ucast x) # io_log s\<rparr>"

definition inb :: "device \<Rightarrow> u16 \<Rightarrow> 'a ide_state_scheme \<Rightarrow> u8 \<times> 'a ide_state_scheme" where
  "inb dv port s = (in_byte dv (io_log s) port, s\<lparr>io_log := In8 port # io_log s\<rparr>)"

primrec store_words :: "(nat \<Rightarrow> u16) \<Rightarrow> mem \<Rightarrow> u32 \<Rightarrow> nat \<Rightarrow> mem" where
  "store_words w m p 0 = m"
| "store_words w m p (Suc n) = (store_words w m p n)(p + 2 * of_nat n := ucast (w n), p + 2 * of_nat n + 1 := ucast (drop_bit 8 (w n)))"

definition load_word :: "mem \<Rightarrow> u32 \<Rightarrow> u16" where
  "load_word m p = ucast (m p) OR push_bit 8 (ucast (m (p + 1)))"

definition insw :: "device \<Rightarrow> u16 \<Rightarrow> u32 \<Rightarrow> u32 \<Rightarrow> 'a ide_state_scheme \<Rightarrow> 'a ide_state_scheme" where
  "insw dv port p word_cnt s =
     s\<lparr>ram := store_words (in_word dv (io_log s) port) (ram s) p (unat word_cnt), io_log := InW port (unat word_cnt) # io_log s\<rparr>"

definition outsw :: "u16 \<Rightarrow> u32 \<Rightarrow> u32 \<Rightarrow> 'a ide_state_scheme \<Rightarrow> 'a ide_state_scheme" where
  "outsw port p word_cnt s =
     s\<lparr>io_log := OutW port (map (\<lambda>i. load_word (ram s) (p + 2 * of_nat i)) [0 ..< unat word_cnt]) # io_log s\<rparr>"

section \<open>Waiting\<close>

text \<open>The calls that may give up the processor, run until they return.\<close>

partial_function (option) down_rest ::
  "('a ide_state_scheme \<Rightarrow> 'a ide_state_scheme option) \<Rightarrow> u32 \<Rightarrow> intr_status \<Rightarrow> down_result \<Rightarrow> 'a ide_state_scheme \<Rightarrow> 'a ide_state_scheme option" where
  "down_rest others p old r s =
     (case r of Acquired \<Rightarrow> Some s
      | Waiting i \<Rightarrow> do { s \<leftarrow> others s; (r, s) \<leftarrow> sema_down_resume p old i s; down_rest others p old r s })"

definition sema_wait :: "('a ide_state_scheme \<Rightarrow> 'a ide_state_scheme option) \<Rightarrow> u32 \<Rightarrow> 'a ide_state_scheme \<Rightarrow> 'a ide_state_scheme option" where
  "sema_wait others p s = do { (old, r, s) \<leftarrow> sema_down p s; down_rest others p old r s }"

definition lock_wait :: "('a ide_state_scheme \<Rightarrow> 'a ide_state_scheme option) \<Rightarrow> u32 \<Rightarrow> 'a ide_state_scheme \<Rightarrow> 'a ide_state_scheme option" where
  "lock_wait others l s = do {
     (w, s) \<leftarrow> lock_acquire l s;
     case w of
       None \<Rightarrow> Some s
     | Some (old, i) \<Rightarrow> do { s \<leftarrow> down_rest others (lock_semaphore l) old (Waiting i) s; lock_acquire_take l s }
   }"

partial_function (option) sleep_rest ::
  "('a ide_state_scheme \<Rightarrow> 'a ide_state_scheme option) \<Rightarrow> u32 \<Rightarrow> u32 \<Rightarrow> (intr_status \<times> 'a ide_state_scheme) option \<Rightarrow> 'a ide_state_scheme \<Rightarrow>
   'a ide_state_scheme option" where
  "sleep_rest others start sleep r s =
     (case r of None \<Rightarrow> Some s
      | Some (i, s) \<Rightarrow> do {
          s \<leftarrow> others s;
          let s = thread_yield_resume i s;
          r \<leftarrow> ticks_to_sleep_round start sleep s;
          sleep_rest others start sleep r s
        })"

definition sleep_wait :: "('a ide_state_scheme \<Rightarrow> 'a ide_state_scheme option) \<Rightarrow> u32 \<Rightarrow> 'a ide_state_scheme \<Rightarrow> 'a ide_state_scheme option" where
  "sleep_wait others ms s = do { (start, sleep, r) \<leftarrow> mil_sleep ms s; sleep_rest others start sleep r s }"

section \<open>Commands\<close>

definition upd_chan :: "nat \<Rightarrow> (ide_channel \<Rightarrow> ide_channel) \<Rightarrow> 'a ide_state_scheme \<Rightarrow> 'a ide_state_scheme" where
  "upd_chan ch f s = s\<lparr>g_channels := (g_channels s)(ch := f (g_channels s ch))\<rparr>"

definition the_disk :: "nat \<times> nat \<Rightarrow> 'a ide_state_scheme \<Rightarrow> disk" where
  "the_disk d s = devices (g_channels s (fst d)) (snd d)"

definition upd_disk :: "nat \<times> nat \<Rightarrow> (disk \<Rightarrow> disk) \<Rightarrow> 'a ide_state_scheme \<Rightarrow> 'a ide_state_scheme" where
  "upd_disk d f = upd_chan (fst d) (\<lambda>c. c\<lparr>devices := (devices c)(snd d := f (devices c (snd d)))\<rparr>)"

definition channel_of :: "nat \<times> nat \<Rightarrow> 'a ide_state_scheme \<Rightarrow> ide_channel" where
  "channel_of d s = g_channels s (disk_channel (the_disk d s))"

definition disk_select_hd :: "nat \<times> nat \<Rightarrow> 'a ide_state_scheme \<Rightarrow> 'a ide_state_scheme" where
  "disk_select_hd hd_disk s =
     (let reg_device = BIT_DEV_MBS OR BIT_DEV_LBA;
          reg_device = (if dev_no (the_disk hd_disk s) = 1 then reg_device OR BIT_DEV_DEV else reg_device)
      in outb (reg_dev (channel_of hd_disk s)) (ucast reg_device) s)"

definition disk_select_sector :: "device \<Rightarrow> nat \<times> nat \<Rightarrow> u32 \<Rightarrow> u8 \<Rightarrow> 'a ide_state_scheme \<Rightarrow> 'a ide_state_scheme" where
  "disk_select_sector dv hd_disk lba_base sec_cnt s =
     (let c = channel_of hd_disk s;
          s = outb (reg_sect_cnt c) (ucast sec_cnt) s;
          s = outb (reg_lba_l c) (ucast (drop_bit 0 lba_base)) s;
          s = outb (reg_lba_m c) (ucast (drop_bit 8 lba_base)) s;
          s = outb (reg_lba_h c) (ucast (drop_bit 16 lba_base)) s;
          (device_data, s) = inb dv (reg_dev c) s
      in outb (reg_dev c) (ucast (ucast device_data OR drop_bit 24 lba_base :: u32)) s)"

definition channel_control_cmd :: "nat \<Rightarrow> u8 \<Rightarrow> 'a ide_state_scheme \<Rightarrow> 'a ide_state_scheme" where
  "channel_control_cmd ch cmd s =
     (let s = upd_chan ch (wait_intr_update (\<lambda>_. True)) s
      in outb (reg_cmd (g_channels s ch)) (ucast cmd) s)"

definition disk_sector_to_buf :: "device \<Rightarrow> nat \<times> nat \<Rightarrow> u8 \<Rightarrow> u32 \<Rightarrow> 'a ide_state_scheme \<Rightarrow> 'a ide_state_scheme" where
  "disk_sector_to_buf dv hd_disk sec_cnt buf s =
     (let buf_bytes = (if sec_cnt = 0 then 256 * 512 else ucast sec_cnt * 512)
      in insw dv (reg_data (channel_of hd_disk s)) buf (buf_bytes div 2) s)"

definition disk_buf_to_sector :: "nat \<times> nat \<Rightarrow> u8 \<Rightarrow> u32 \<Rightarrow> 'a ide_state_scheme \<Rightarrow> 'a ide_state_scheme" where
  "disk_buf_to_sector hd_disk sec_cnt buf s =
     (let buf_bytes = SECTOR_TO_BYTES sec_cnt
      in outsw (reg_data (channel_of hd_disk s)) buf (buf_bytes div 2) s)"

partial_function (option) busy_wait_loop ::
  "device \<Rightarrow> ('a ide_state_scheme \<Rightarrow> 'a ide_state_scheme option) \<Rightarrow> nat \<times> nat \<Rightarrow> u16 \<Rightarrow> 'a ide_state_scheme \<Rightarrow> (bool \<times> 'a ide_state_scheme) option" where
  "busy_wait_loop dv others hd_disk time_limit s =
     (let time_limit = time_limit - 10
      in if time_limit > 0
         then (let (status, s) = inb dv (reg_status (channel_of hd_disk s)) s
               in if status AND BIT_ALT_STATUS_BSY = 0
                  then (let (status, s) = inb dv (reg_status (channel_of hd_disk s)) s
                        in Some (status AND BIT_ALT_STATUS_DRQ \<noteq> 0, s))
                  else do { s \<leftarrow> sleep_wait others 10 s; busy_wait_loop dv others hd_disk time_limit s })
         else Some (False, s))"

definition busy_wait :: "device \<Rightarrow> ('a ide_state_scheme \<Rightarrow> 'a ide_state_scheme option) \<Rightarrow> nat \<times> nat \<Rightarrow> 'a ide_state_scheme \<Rightarrow> (bool \<times> 'a ide_state_scheme) option" where
  "busy_wait dv others hd_disk s = busy_wait_loop dv others hd_disk (30 * 1000) s"

section \<open>Reading and writing\<close>

text \<open>\<open>sector_once\<close> of a round; a disk that is not ready ends in \<open>ASSERT_FAILED\<close>, which does not return.\<close>

definition sector_once :: "u32 \<Rightarrow> u32 \<Rightarrow> u32" where
  "sector_once sec_cnt sector_done = (if sec_cnt - sector_done \<ge> 256 then 256 else sec_cnt - sector_done)"

lemma sector_once_progress:
  assumes "sector_done < sec_cnt"
  shows "unat (sector_done + sector_once sec_cnt sector_done) = unat sector_done + unat (sector_once sec_cnt sector_done)"
    and "0 < unat (sector_once sec_cnt sector_done)" and "unat (sector_done + sector_once sec_cnt sector_done) \<le> unat sec_cnt"
    and "unat (sector_once sec_cnt sector_done) \<le> 256"
proof -
  have d: "unat (sec_cnt - sector_done) = unat sec_cnt - unat sector_done" "unat sector_done < unat sec_cnt"
    using assms by (simp_all add: unat_sub word_less_nat_alt word_le_nat_alt)
  have o: "unat (sector_once sec_cnt sector_done) = min 256 (unat sec_cnt - unat sector_done)"
    by (simp add: sector_once_def word_le_nat_alt d(1))
  have "unat sec_cnt < 4294967296"
    by (rule unat_lt_2p32)
  then show s: "unat (sector_done + sector_once sec_cnt sector_done) = unat sector_done + unat (sector_once sec_cnt sector_done)"
    using d(2) o by (intro unat_add_u32) linarith
  show "0 < unat (sector_once sec_cnt sector_done)" "unat (sector_done + sector_once sec_cnt sector_done) \<le> unat sec_cnt"
      "unat (sector_once sec_cnt sector_done) \<le> 256"
    using d(2) unfolding s o by simp_all
qed

lemma sector_once_decreases:
  "sector_done < sec_cnt \<Longrightarrow> unat sec_cnt - unat (sector_done + sector_once sec_cnt sector_done) < unat sec_cnt - unat sector_done"
  using sector_once_progress [of sector_done sec_cnt] by (simp add: word_less_nat_alt)

text \<open>The loop of both functions: \<open>round n m\<close> transfers \<open>m\<close> sectors after the first \<open>n\<close>.\<close>

function sector_loop :: "(u32 \<Rightarrow> u32 \<Rightarrow> 's \<Rightarrow> 's option) \<Rightarrow> u32 \<Rightarrow> u32 \<Rightarrow> 's \<Rightarrow> 's option" where
  "sector_loop round sec_cnt sector_done s =
     (if sector_done < sec_cnt
      then do {
        s \<leftarrow> round sector_done (sector_once sec_cnt sector_done) s;
        sector_loop round sec_cnt (sector_done + sector_once sec_cnt sector_done) s
      }
      else Some s)"
  by pat_completeness auto
termination
  by (relation "measure (\<lambda>(f, sects, dn, s). unat sects - unat dn)") (use sector_once_decreases in auto)

declare sector_loop.simps [simp del]

definition ide_read_round ::
  "device \<Rightarrow> ('a ide_state_scheme \<Rightarrow> 'a ide_state_scheme option) \<Rightarrow> nat \<times> nat \<Rightarrow> u32 \<Rightarrow> u32 \<Rightarrow> u32 \<Rightarrow> u32 \<Rightarrow> 'a ide_state_scheme \<Rightarrow>
   'a ide_state_scheme option" where
  "ide_read_round dv others hd_disk lba_base buf sector_done once s = do {
     let s = disk_select_sector dv hd_disk (lba_base + sector_done) (ucast once) s;
     let s = channel_control_cmd (disk_channel (the_disk hd_disk s)) CMD_READ_SECTOR s;
     s \<leftarrow> sema_wait others (disk_ok (channel_of hd_disk s)) s;
     (ok, s) \<leftarrow> busy_wait dv others hd_disk s;
     ASSERT ok;
     Some (disk_sector_to_buf dv hd_disk (ucast once) (buf + sector_done * 512) s)
   }"

definition ide_read ::
  "device \<Rightarrow> ('a ide_state_scheme \<Rightarrow> 'a ide_state_scheme option) \<Rightarrow> nat \<times> nat \<Rightarrow> u32 \<Rightarrow> u32 \<Rightarrow> u32 \<Rightarrow> 'a ide_state_scheme \<Rightarrow> 'a ide_state_scheme option" where
  "ide_read dv others hd_disk lba_base buf sec_cnt s = do {
     ASSERT (sec_cnt > 0);
     s \<leftarrow> lock_wait others (chan_lock (channel_of hd_disk s)) s;
     let s = disk_select_hd hd_disk s;
     s \<leftarrow> sector_loop (ide_read_round dv others hd_disk lba_base buf) sec_cnt 0 s;
     lock_release (chan_lock (channel_of hd_disk s)) s
   }"

definition ide_write_round ::
  "device \<Rightarrow> ('a ide_state_scheme \<Rightarrow> 'a ide_state_scheme option) \<Rightarrow> nat \<times> nat \<Rightarrow> u32 \<Rightarrow> u32 \<Rightarrow> u32 \<Rightarrow> u32 \<Rightarrow> 'a ide_state_scheme \<Rightarrow>
   'a ide_state_scheme option" where
  "ide_write_round dv others hd_disk lba_base buf sector_done once s = do {
     let s = disk_select_sector dv hd_disk (lba_base + sector_done) (ucast once) s;
     let s = channel_control_cmd (disk_channel (the_disk hd_disk s)) CMD_WRITE_SECTOR s;
     (ok, s) \<leftarrow> busy_wait dv others hd_disk s;
     ASSERT ok;
     let s = disk_buf_to_sector hd_disk (ucast once) (buf + sector_done * 512) s;
     sema_wait others (disk_ok (channel_of hd_disk s)) s
   }"

definition ide_write ::
  "device \<Rightarrow> ('a ide_state_scheme \<Rightarrow> 'a ide_state_scheme option) \<Rightarrow> nat \<times> nat \<Rightarrow> u32 \<Rightarrow> u32 \<Rightarrow> u32 \<Rightarrow> 'a ide_state_scheme \<Rightarrow> 'a ide_state_scheme option" where
  "ide_write dv others hd_disk lba_base buf sec_cnt s = do {
     ASSERT (sec_cnt > 0);
     s \<leftarrow> lock_wait others (chan_lock (channel_of hd_disk s)) s;
     let s = disk_select_hd hd_disk s;
     s \<leftarrow> sector_loop (ide_write_round dv others hd_disk lba_base buf) sec_cnt 0 s;
     lock_release (chan_lock (channel_of hd_disk s)) s
   }"

text \<open>The interrupt handler of both channels.\<close>

definition hard_disk_service :: "device \<Rightarrow> u8 \<Rightarrow> 'a ide_state_scheme \<Rightarrow> 'a ide_state_scheme option" where
  "hard_disk_service dv irq s = do {
     ASSERT (irq = 0x2e \<or> irq = 0x2f);
     let ch_no = unat (irq - 0x2e);
     ASSERT (irq_no (g_channels s ch_no) = irq);
     if wait_intr (g_channels s ch_no)
     then do {
       let s = upd_chan ch_no (wait_intr_update (\<lambda>_. False)) s;
       s \<leftarrow> sema_up (disk_ok (g_channels s ch_no)) s;
       Some (snd (inb dv (reg_status (g_channels s ch_no)) s))
     }
     else Some s
   }"

section \<open>Identification\<close>

text \<open>\<open>printk\<close> with the text of its format: it is printed under the lock of the console.\<close>

definition print_text :: "('a ide_state_scheme \<Rightarrow> 'a ide_state_scheme option) \<Rightarrow> string \<Rightarrow> farg list \<Rightarrow> 'a ide_state_scheme \<Rightarrow> 'a ide_state_scheme option" where
  "print_text others fmt args s = do {
     s \<leftarrow> lock_wait others (console_lock s) s;
     let s = fold put_char (render (map of_char fmt) args) s;
     lock_release (console_lock s) s
   }"

text \<open>A string argument read from memory.\<close>

definition mem_string :: "mem \<Rightarrow> u32 \<Rightarrow> u8 list option" where
  "mem_string m p = do { n \<leftarrow> strlen m p; Some (bytes_at m p (unat n)) }"

definition capacity_mb :: "u32 \<Rightarrow> u32" where
  "capacity_mb sec_cnt = sec_cnt * 512 div 1024 div 1024"

text \<open>The first 20 bytes of \<open>info_buf\<close> are copied, the rest of it is what the stack held.\<close>

definition disk_identify :: "device \<Rightarrow> ('a ide_state_scheme \<Rightarrow> 'a ide_state_scheme option) \<Rightarrow> nat \<times> nat \<Rightarrow> 'a ide_state_scheme \<Rightarrow> 'a ide_state_scheme option" where
  "disk_identify dv others hd_disk s = do {
     let s = disk_select_hd hd_disk s;
     let s = channel_control_cmd (disk_channel (the_disk hd_disk s)) CMD_IDENTIFY s;
     s \<leftarrow> sema_wait others (disk_ok (channel_of hd_disk s)) s;
     (ok, s) \<leftarrow> busy_wait dv others hd_disk s;
     ASSERT ok;
     let s = disk_sector_to_buf dv hd_disk 1 (ide_info s) s;
     m \<leftarrow> memcpy (ram s) (info_buf s) (ide_info s + 10 * 2) 20;
     let s = s\<lparr>ram := m\<rparr>;
     sn \<leftarrow> mem_string (ram s) (info_buf s);
     s \<leftarrow> print_text others (''    disk %s info:\<newline>    SN: %s\<newline>'') [FStr (disk_name (the_disk hd_disk s)), FStr sn] s;
     m \<leftarrow> memset (ram s) (info_buf s) 0 64;
     m \<leftarrow> memcpy m (info_buf s) (ide_info s + 27 * 2) 40;
     let s = s\<lparr>ram := m\<rparr>;
     md \<leftarrow> mem_string (ram s) (info_buf s);
     s \<leftarrow> print_text others (''    MODULE: %s\<newline>'') [FStr md] s;
     let sec_cnt = read32 (ram s) (ide_info s + 60 * 2);
     s \<leftarrow> print_text others (''    SECTORS: %d\<newline>'') [FInt sec_cnt] s;
     print_text others (''    CAPACITY: %dMB\<newline>'') [FInt (capacity_mb sec_cnt)] s
   }"

section \<open>Waiting for the disk\<close>

text \<open>
  While the driver waits, another task runs, the interrupt of the disk arrives (the gate clears the interrupt flag),
  and the time slice of that task ends.
\<close>

definition disk_interrupt :: "device \<Rightarrow> u8 \<Rightarrow> 'a ide_state_scheme \<Rightarrow> 'a ide_state_scheme option" where
  "disk_interrupt dv irq s = do { s \<leftarrow> hard_disk_service dv irq (cli s); schedule s }"

text \<open>A task that finds the semaphore at 0 joins its queue and the next ready task runs.\<close>

lemma sema_down_blocks:
  assumes ok: "sched_ok s (n # rq)" and sem: "semas s p = \<lparr>sem_value = 0, waiter_queue = queue_init\<rparr>"
  obtains h q w where
    "sema_down p s = Some (get_intr_status s, Waiting INTR_OFF,
       s\<lparr>eflags := eflags (cli s), nodes := h, tasks := (tasks s)(current_task s := (tasks s (current_task s))\<lparr>status := TASK_BLOCKED\<rparr>,
         n := (tasks s n)\<lparr>status := TASK_RUNNING\<rparr>), thread_ready_queue := q, current_task := n, semas := (semas s)(p := \<lparr>sem_value = 0, waiter_queue = w\<rparr>)\<rparr>)"
    and "queue_rep h q (map thread_dispatch_queue rq)" and "queue_rep h w [thread_dispatch_queue (current_task s)]"
proof -
  let ?c = "current_task s"
  note k = sched_okD [OF ok]
  have nc: "n \<noteq> ?c" "?c \<notin> set rq" "n \<notin> set rq"
    using k(3,6) by auto
  have rep0: "queue_rep (nodes s) queue_init []"
    by (simp add: queue_rep_Nil)
  obtain h1 w where in1: "queue_in (nodes s) queue_init (thread_dispatch_queue ?c) = Some (h1, w)" "queue_rep h1 w ([] @ [thread_dispatch_queue ?c])"
      "\<And>x. x \<notin> set [thread_dispatch_queue ?c] \<Longrightarrow> h1 x = nodes s x"
    by (rule queue_in_rep [OF rep0, of "thread_dispatch_queue ?c"]) (use k(4) in \<open>simp add: queue_fits_def\<close>, rule that)
  have find: "list_find_item (nodes s) (front queue_init) (thread_dispatch_queue ?c) = Some False"
    by (rule queue_rep_find [OF rep0]) simp
  let ?s1 = "upd_sema p (waiter_queue_update (\<lambda>_. w)) ((cli s)\<lparr>nodes := h1\<rparr>)"
  let ?s2 = "upd_task ?c (status_update (\<lambda>_. TASK_BLOCKED)) (cli ?s1)"
  have "queue_rep h1 (thread_ready_queue s) (map thread_dispatch_queue (n # rq))"
    by (rule queue_rep_cong [OF k(1)]) (use nc in \<open>auto intro!: in1(3)\<close>)
  then have "queue_rep (nodes ?s2) (thread_ready_queue ?s2) (map thread_dispatch_queue (n # rq))"
    by simp
  moreover have "status (tasks ?s2 (current_task ?s2)) \<noteq> TASK_RUNNING"
    by simp
  ultimately obtain h q where sw: "schedule ?s2 = Some (upd_task n (status_update (\<lambda>_. TASK_RUNNING)) ((cli ?s2)\<lparr>nodes := h, thread_ready_queue := q, current_task := n\<rparr>))"
      "queue_rep h q (map thread_dispatch_queue rq)" "\<And>x. x \<notin> thread_dispatch_queue ` set (n # rq) \<Longrightarrow> h x = nodes ?s2 x"
    by (rule schedule_switch) (rule that)
  have "h (thread_dispatch_queue ?c) = h1 (thread_dispatch_queue ?c)"
    using sw(3) [of "thread_dispatch_queue ?c"] nc by auto
  then have "queue_rep h w [thread_dispatch_queue ?c]"
    using queue_rep_cong [OF in1(2), of h] by simp
  moreover have "get_intr_status ?s1 = INTR_OFF"
    by (simp add: get_intr_status_eflags) (simp add: upd_sema_def cli_def and.assoc)
  moreover have "sema_down p s = Some (get_intr_status s, Waiting INTR_OFF, upd_task n (status_update (\<lambda>_. TASK_RUNNING)) ((cli ?s2)\<lparr>nodes := h, thread_ready_queue := q, current_task := n\<rparr>))"
    using find in1(1) sw(1) sem thread_block_eq [of TASK_BLOCKED ?s1] calculation(2)
    by (simp add: sema_down_def local_irq_disable_eq sema_down_round_def get_cur_task_def waiting_status_def Let_def)
  moreover have "upd_task n (status_update (\<lambda>_. TASK_RUNNING)) ((cli ?s2)\<lparr>nodes := h, thread_ready_queue := q, current_task := n\<rparr>) =
      s\<lparr>eflags := eflags (cli s), nodes := h, tasks := (tasks s)(?c := (tasks s ?c)\<lparr>status := TASK_BLOCKED\<rparr>,
         n := (tasks s n)\<lparr>status := TASK_RUNNING\<rparr>), thread_ready_queue := q, current_task := n, semas := (semas s)(p := \<lparr>sem_value = 0, waiter_queue = w\<rparr>)\<rparr>"
    using nc sem by (simp add: upd_task_def upd_sema_def cli_def and.assoc)
  ultimately show ?thesis
    using that sw(2) by simp
qed

text \<open>The interrupt of the disk wakes the task that waits, and the end of the time slice gives it the processor.\<close>

lemma disk_interrupt_wakes:
  assumes cur: "current_task s = n" "status (tasks s n) = TASK_RUNNING" "n \<notin> set rq" "thread_dispatch_queue n \<noteq> NULL"
    and rep: "queue_rep (nodes s) (thread_ready_queue s) (map thread_dispatch_queue rq)" and len: "length rq < 4294967293"
    and w: "semas s p = \<lparr>sem_value = 0, waiter_queue = w\<rparr>" "queue_rep (nodes s) w [thread_dispatch_queue c]"
    and c: "status (tasks s c) = TASK_BLOCKED" "c \<notin> set rq" "c \<noteq> n" "thread_dispatch_queue c \<noteq> NULL"
    and ch: "k < 2" "irq_no (g_channels s k) = 0x2e + of_nat k" "wait_intr (g_channels s k)" "disk_ok (g_channels s k) = p"
  obtains h q where
    "disk_interrupt dv (0x2e + of_nat k) s = Some (s\<lparr>eflags := eflags (cli s), nodes := h,
       tasks := (tasks s)(n := (tasks s n)\<lparr>ticks := ucast (priority (tasks s n)), status := TASK_READY\<rparr>, c := (tasks s c)\<lparr>status := TASK_RUNNING\<rparr>),
       thread_ready_queue := q, current_task := c, semas := (semas s)(p := \<lparr>sem_value = 1, waiter_queue = queue_init\<rparr>),
       g_channels := (g_channels s)(k := (g_channels s k)\<lparr>wait_intr := False\<rparr>), io_log := In8 (reg_status (g_channels s k)) # io_log s\<rparr>)"
    and "queue_rep h q (map thread_dispatch_queue (rq @ [n]))"
proof -
  let ?s1 = "upd_chan k (wait_intr_update (\<lambda>_. False)) (cli s)"
  obtain h1 w' where out: "queue_out (nodes s) w = (thread_dispatch_queue c, h1, w')" "queue_rep h1 w' []"
      "\<And>x. x \<notin> set [thread_dispatch_queue c] \<Longrightarrow> h1 x = nodes s x"
    by (rule queue_out_rep [OF w(2)]) (rule that)
  have w': "w' = queue_init"
    using out(2) by (simp add: queue_rep_Nil)
  have ne: "\<not> queue_empty w"
    using queue_rep_len [OF w(2)] by (simp add: queue_empty_def)
  let ?s2 = "upd_sema p (waiter_queue_update (\<lambda>_. w')) (?s1\<lparr>nodes := h1\<rparr>)"
  have "queue_rep h1 (thread_ready_queue s) (map thread_dispatch_queue rq)"
    by (rule queue_rep_cong [OF rep]) (use c(2) in \<open>auto intro!: out(3)\<close>)
  then have "queue_rep (nodes ?s2) (thread_ready_queue ?s2) (map thread_dispatch_queue rq)"
    by (simp add: upd_sema_def upd_chan_def)
  moreover have "waiting_status (status (tasks ?s2 c))"
    using c(1) by (simp add: upd_sema_def upd_chan_def waiting_status_def)
  ultimately obtain h2 q2 where ub: "thread_unblock c ?s2 = Some (upd_task c (status_update (\<lambda>_. TASK_READY)) (?s2\<lparr>nodes := h2, thread_ready_queue := q2\<rparr>))"
      "queue_rep h2 q2 (map thread_dispatch_queue (c # rq))" "\<And>x. x \<notin> thread_dispatch_queue ` set (c # rq) \<Longrightarrow> h2 x = nodes ?s2 x"
    using len by (elim thread_unblock_eq [OF _ _ c(2,4)]) auto
  let ?s3 = "upd_task c (status_update (\<lambda>_. TASK_READY)) (?s2\<lparr>nodes := h2, thread_ready_queue := q2\<rparr>)"
  let ?s4 = "upd_sema p (\<lambda>m. m\<lparr>sem_value := sem_value m + 1\<rparr>) ?s3"
  have off: "get_intr_status ?s1 = INTR_OFF" "cli ?s1 = ?s1" "set_intr_status INTR_OFF ?s4 = ?s4"
    by (simp_all add: get_intr_status_eflags set_intr_status_off) (simp_all add: upd_chan_def cli_def upd_sema_def upd_task_def and.assoc)
  have lep: "list_entry_dispatch (thread_dispatch_queue c) = c"
    by (simp add: list_entry_dispatch_def thread_dispatch_queue_def)
  have v: "semas ?s1 p = \<lparr>sem_value = 0, waiter_queue = w\<rparr>" "nodes ?s1 = nodes s" "sem_value (semas ?s4 p) = 1"
    using w(1) by (simp_all add: upd_chan_def upd_task_def cli_def)
  have "sema_up p ?s1 = Some ?s4"
    using out(1) ne ub(1) off lep v by (simp add: sema_up_def local_irq_disable_eq Let_def)
  moreover have "unat (0x2e + of_nat k - 0x2e :: u8) = k" "0x2e + of_nat k = (0x2e :: u8) \<or> 0x2e + of_nat k = (0x2f :: u8)"
    using ch(1) by (auto simp: less_2_cases_iff unat_of_nat)
  moreover have "g_channels (cli s) = g_channels s" "disk_ok (g_channels ?s1 k) = p"
    using ch(4) by (simp_all add: cli_def upd_chan_def)
  ultimately have service: "hard_disk_service dv (0x2e + of_nat k) (cli s) = Some (snd (inb dv (reg_status (g_channels ?s4 k)) ?s4))"
    using ch(2,3) by (simp add: hard_disk_service_def Let_def)
  let ?s5 = "snd (inb dv (reg_status (g_channels ?s4 k)) ?s4)"
  have cells: "current_task ?s5 = n" "nodes ?s5 = h2" "thread_ready_queue ?s5 = q2" "status (tasks ?s5 n) = TASK_RUNNING"
    using cur c(3) by (simp_all add: inb_def upd_sema_def upd_task_def upd_chan_def cli_def)
  obtain h q where sw: "schedule ?s5 = Some (upd_task c (status_update (\<lambda>_. TASK_RUNNING))
       (upd_task n (\<lambda>t. t\<lparr>ticks := ucast (priority t), status := TASK_READY\<rparr>) ((cli ?s5)\<lparr>nodes := h, thread_ready_queue := q, current_task := c\<rparr>)))"
      "queue_rep h q (map thread_dispatch_queue (rq @ [n]))"
    by (rule schedule_running [of ?s5 "c # rq" n c "rq @ [n]"]) (use cells ub(2) cur(3,4) c(3) len in \<open>simp_all\<close>)
  have "disk_interrupt dv (0x2e + of_nat k) s = schedule ?s5"
    using service by (simp add: disk_interrupt_def)
  also note sw(1)
  also have "upd_task c (status_update (\<lambda>_. TASK_RUNNING)) (upd_task n (\<lambda>t. t\<lparr>ticks := ucast (priority t), status := TASK_READY\<rparr>)
        ((cli ?s5)\<lparr>nodes := h, thread_ready_queue := q, current_task := c\<rparr>)) =
      s\<lparr>eflags := eflags (cli s), nodes := h,
       tasks := (tasks s)(n := (tasks s n)\<lparr>ticks := ucast (priority (tasks s n)), status := TASK_READY\<rparr>, c := (tasks s c)\<lparr>status := TASK_RUNNING\<rparr>),
       thread_ready_queue := q, current_task := c, semas := (semas s)(p := \<lparr>sem_value = 1, waiter_queue = queue_init\<rparr>),
       g_channels := (g_channels s)(k := (g_channels s k)\<lparr>wait_intr := False\<rparr>), io_log := In8 (reg_status (g_channels s k)) # io_log s\<rparr>"
    using w(1) w' c(3) by (simp add: inb_def upd_sema_def upd_task_def upd_chan_def cli_def and.assoc fun_upd_twist reg_status_def)
  finally show ?thesis
    by (rule that) (rule sw(2))
qed

lemma semas_id: "semas (s :: 'a ide_state_scheme) = x \<Longrightarrow> s\<lparr>semas := x\<rparr> = s"
  by (cases s) simp

lemma task_status_id: "status (r :: task_struct) = st \<Longrightarrow> r\<lparr>status := st\<rparr> = r"
  by (cases r) simp

text \<open>The driver waits and goes on: the task that ran meanwhile is ready again, the semaphore is as before.\<close>

lemma disk_wait_steps:
  assumes ok: "sched_ok s (n # rq)" and run: "status (tasks s (current_task s)) = TASK_RUNNING"
    and sem: "semas s p = \<lparr>sem_value = 0, waiter_queue = queue_init\<rparr>"
    and ch: "k < 2" "irq_no (g_channels s k) = 0x2e + of_nat k" "wait_intr (g_channels s k)" "disk_ok (g_channels s k) = p"
  obtains s1 s2 h q where
    "sema_down p s = Some (get_intr_status s, Waiting INTR_OFF, s1)" and "current_task s1 = n" and "status (tasks s1 (current_task s)) = TASK_BLOCKED"
    and "sem_value (semas s1 p) = 0"
    and "disk_interrupt dv (0x2e + of_nat k) s1 = Some s2" and "current_task s2 = current_task s" and "status (tasks s2 (current_task s)) = TASK_RUNNING"
    and "sem_value (semas s2 p) = 1"
    and "sema_down_resume p (get_intr_status s) INTR_OFF s2 = Some (Acquired, s\<lparr>nodes := h, tasks := (tasks s)(n := (tasks s n)\<lparr>ticks := ucast (priority (tasks s n))\<rparr>),
       thread_ready_queue := q, g_channels := (g_channels s)(k := (g_channels s k)\<lparr>wait_intr := False\<rparr>), io_log := In8 (reg_status (g_channels s k)) # io_log s\<rparr>)"
    and "queue_rep h q (map thread_dispatch_queue (rq @ [n]))"
proof -
  let ?c = "current_task s"
  note g = sched_okD [OF ok]
  have nc: "n \<noteq> ?c" "?c \<notin> set rq" "n \<notin> set rq" "thread_dispatch_queue n \<noteq> NULL" "status (tasks s n) = TASK_READY"
    using g(2) [of n] g(3,6) g(7) [of n] by auto
  have len: "length rq < 4294967293"
    using ok by (simp add: sched_ok_def)
  obtain h1 q1 w where 1: "sema_down p s = Some (get_intr_status s, Waiting INTR_OFF,
       s\<lparr>eflags := eflags (cli s), nodes := h1, tasks := (tasks s)(?c := (tasks s ?c)\<lparr>status := TASK_BLOCKED\<rparr>,
         n := (tasks s n)\<lparr>status := TASK_RUNNING\<rparr>), thread_ready_queue := q1, current_task := n, semas := (semas s)(p := \<lparr>sem_value = 0, waiter_queue = w\<rparr>)\<rparr>)"
      "queue_rep h1 q1 (map thread_dispatch_queue rq)" "queue_rep h1 w [thread_dispatch_queue ?c]"
    by (rule sema_down_blocks [OF ok sem]) (rule that)
  let ?s1 = "s\<lparr>eflags := eflags (cli s), nodes := h1, tasks := (tasks s)(?c := (tasks s ?c)\<lparr>status := TASK_BLOCKED\<rparr>,
         n := (tasks s n)\<lparr>status := TASK_RUNNING\<rparr>), thread_ready_queue := q1, current_task := n, semas := (semas s)(p := \<lparr>sem_value = 0, waiter_queue = w\<rparr>)\<rparr>"
  obtain h q where 2: "disk_interrupt dv (0x2e + of_nat k) ?s1 = Some (?s1\<lparr>eflags := eflags (cli ?s1), nodes := h,
       tasks := (tasks ?s1)(n := (tasks ?s1 n)\<lparr>ticks := ucast (priority (tasks ?s1 n)), status := TASK_READY\<rparr>, ?c := (tasks ?s1 ?c)\<lparr>status := TASK_RUNNING\<rparr>),
       thread_ready_queue := q, current_task := ?c, semas := (semas ?s1)(p := \<lparr>sem_value = 1, waiter_queue = queue_init\<rparr>),
       g_channels := (g_channels ?s1)(k := (g_channels ?s1 k)\<lparr>wait_intr := False\<rparr>), io_log := In8 (reg_status (g_channels ?s1 k)) # io_log ?s1\<rparr>)"
      "queue_rep h q (map thread_dispatch_queue (rq @ [n]))"
    by (rule disk_interrupt_wakes [of ?s1 n rq p w ?c k dv]) (use nc len 1(2,3) ch g(4) in \<open>simp_all\<close>)
  let ?t = "s\<lparr>nodes := h, tasks := (tasks s)(n := (tasks s n)\<lparr>ticks := ucast (priority (tasks s n))\<rparr>),
       thread_ready_queue := q, g_channels := (g_channels s)(k := (g_channels s k)\<lparr>wait_intr := False\<rparr>), io_log := In8 (reg_status (g_channels s k)) # io_log s\<rparr>"
  let ?s2 = "?t\<lparr>eflags := eflags (cli s), semas := (semas s)(p := \<lparr>sem_value = 1, waiter_queue = queue_init\<rparr>)\<rparr>"
  have "(tasks s ?c)\<lparr>status := TASK_RUNNING\<rparr> = tasks s ?c" "(tasks s n)\<lparr>ticks := x, status := TASK_READY\<rparr> = (tasks s n)\<lparr>ticks := x\<rparr>" for x
    using task_status_id [OF run] task_status_id [of "(tasks s n)\<lparr>ticks := x\<rparr>"] nc(5) by simp_all
  then have irq: "disk_interrupt dv (0x2e + of_nat k) ?s1 = Some ?s2"
    unfolding 2(1) using nc(1) by (simp add: cli_def and.assoc fun_upd_twist)
  have resume: "sema_down_resume p (get_intr_status s) INTR_OFF ?s2 = Some (Acquired, ?t)"
  proof -
    have "set_intr_status (get_intr_status s) (?t\<lparr>eflags := eflags (cli s)\<rparr>) = ?t"
      by (subst irq_restore_eflags) simp_all
    moreover have "upd_sema p (\<lambda>m. m\<lparr>sem_value := sem_value m - 1\<rparr>) (cli ?s2) = ?t\<lparr>eflags := eflags (cli s)\<rparr>"
    proof -
      have "upd_sema p (\<lambda>m. m\<lparr>sem_value := sem_value m - 1\<rparr>) (cli ?s2) =
          ?t\<lparr>eflags := eflags (cli s)\<rparr>\<lparr>semas := (semas s)(p := \<lparr>sem_value = 0, waiter_queue = queue_init\<rparr>)\<rparr>"
        by (simp add: upd_sema_def cli_def and.assoc)
      also have "\<dots> = ?t\<lparr>eflags := eflags (cli s)\<rparr>"
        by (rule semas_id) (use sem in auto)
      finally show ?thesis .
    qed
    ultimately show ?thesis
      using sem by (simp add: sema_down_resume_def thread_block_resume_def set_intr_status_off sema_down_round_def)
  qed
  show ?thesis
    by (rule that [OF 1(1) _ _ _ irq _ _ _ resume 2(2)]) (use nc(1) run in simp_all)
qed

lemma sema_wait_irq:
  assumes ok: "sched_ok s (n # rq)" and run: "status (tasks s (current_task s)) = TASK_RUNNING"
    and sem: "semas s p = \<lparr>sem_value = 0, waiter_queue = queue_init\<rparr>"
    and ch: "k < 2" "irq_no (g_channels s k) = 0x2e + of_nat k" "wait_intr (g_channels s k)" "disk_ok (g_channels s k) = p"
  obtains h q where
    "sema_wait (disk_interrupt dv (0x2e + of_nat k)) p s = Some (s\<lparr>nodes := h, tasks := (tasks s)(n := (tasks s n)\<lparr>ticks := ucast (priority (tasks s n))\<rparr>),
       thread_ready_queue := q, g_channels := (g_channels s)(k := (g_channels s k)\<lparr>wait_intr := False\<rparr>), io_log := In8 (reg_status (g_channels s k)) # io_log s\<rparr>)"
    and "queue_rep h q (map thread_dispatch_queue (rq @ [n]))"
proof (rule disk_wait_steps [OF assms])
  fix s1 s2 h q
  assume "sema_down p s = Some (get_intr_status s, Waiting INTR_OFF, s1)" "disk_interrupt dv (0x2e + of_nat k) s1 = Some s2"
      "sema_down_resume p (get_intr_status s) INTR_OFF s2 = Some (Acquired, s\<lparr>nodes := h, tasks := (tasks s)(n := (tasks s n)\<lparr>ticks := ucast (priority (tasks s n))\<rparr>),
       thread_ready_queue := q, g_channels := (g_channels s)(k := (g_channels s k)\<lparr>wait_intr := False\<rparr>), io_log := In8 (reg_status (g_channels s k)) # io_log s\<rparr>)"
      "queue_rep h q (map thread_dispatch_queue (rq @ [n]))"
  then show ?thesis
    by (intro that) (simp_all add: sema_wait_def down_rest.simps [of _ _ _ "Waiting INTR_OFF"] down_rest.simps [of _ _ _ Acquired])
qed

section \<open>What the disk sees\<close>

text \<open>The value written last to a port, and the sector address the registers hold.\<close>

fun last_out :: "io_event list \<Rightarrow> u16 \<Rightarrow> u8" where
  "last_out [] p = 0"
| "last_out (Out8 q v # l) p = (if q = p then v else last_out l p)"
| "last_out (_ # l) p = last_out l p"

definition lba_of :: "io_event list \<Rightarrow> u16 \<Rightarrow> u32" where
  "lba_of l b = ucast (last_out l (b + 3)) OR push_bit 8 (ucast (last_out l (b + 4))) OR push_bit 16 (ucast (last_out l (b + 5))) OR
     push_bit 24 (ucast (last_out l (b + 6) AND 0xf))"

text \<open>
  What a command block asks for: the command was the last thing written to the ports and no data was transferred since
  (\<open>fresh_cmd\<close>), the number of sectors (0 stands for 256), and the drive: bit 4 of the device register chooses the slave, bit 6 the
  addresses of 28 bits.
\<close>

fun fresh_cmd :: "io_event list \<Rightarrow> u16 \<Rightarrow> u8 \<Rightarrow> bool" where
  "fresh_cmd (In8 q # l) p c = fresh_cmd l p c"
| "fresh_cmd (Out8 q v # l) p c = (q = p \<and> v = c)"
| "fresh_cmd _ p c = False"

definition sect_count :: "io_event list \<Rightarrow> u16 \<Rightarrow> nat" where
  "sect_count l b = (if last_out l (b + 2) = 0 then 256 else unat (last_out l (b + 2)))"

definition drive_of :: "io_event list \<Rightarrow> u16 \<Rightarrow> bool \<Rightarrow> bool" where
  "drive_of l b slave \<longleftrightarrow> (bit (last_out l (b + 6)) 4 \<longleftrightarrow> slave) \<and> bit (last_out l (b + 6)) 6"

text \<open>
  A disk that obeys the interface of the controller and has all sectors of a command ready when it interrupts: the device register reads back,
  and right after a command to read for this drive it is not busy, requests the transfer of data, and hands over the words of as many sectors as the sector
  count register asks for, from the sector addressed. Nothing is promised of a word beyond them, of the other drive,
  or after data was transferred.
\<close>

definition ata_disk :: "device \<Rightarrow> u16 \<Rightarrow> bool \<Rightarrow> (nat \<Rightarrow> u16) \<Rightarrow> bool" where
  "ata_disk dv b slave content \<longleftrightarrow> (\<forall>l. in_byte dv l (b + 6) = last_out l (b + 6)) \<and>
     (\<forall>l. fresh_cmd l (b + 7) CMD_READ_SECTOR \<and> drive_of l b slave \<longrightarrow> in_byte dv l (b + 7) AND 0x80 = 0 \<and> in_byte dv l (b + 7) AND 0x08 \<noteq> 0 \<and>
       (\<forall>i < 256 * sect_count l b. in_word dv l b i = content (256 * unat (lba_of l b) + i)))"

lemma high_bits_clear:
  assumes "drop_bit 28 z = (0 :: u32)" and "28 \<le> j"
  shows "\<not> bit z j"
proof
  assume "bit z j"
  then have "bit (drop_bit 28 z) (j - 28)"
    using assms(2) by (simp add: bit_drop_bit_eq)
  then show False
    using assms(1) by simp
qed

text \<open>The registers hold the address of 28 bits, when the old contents of the device register do not disturb it.\<close>

lemma lba_registers:
  assumes "drop_bit 28 x = (0 :: u32)" and "(v OR ucast (drop_bit 24 x)) AND 0xf = (ucast (drop_bit 24 x) :: u8)"
  shows "ucast (ucast (ucast (drop_bit 0 x) :: u16) :: u8) OR push_bit 8 (ucast (ucast (ucast (drop_bit 8 x) :: u16) :: u8)) OR
    push_bit 16 (ucast (ucast (ucast (drop_bit 16 x) :: u16) :: u8)) OR
    push_bit 24 (ucast (ucast (ucast (ucast v OR drop_bit 24 x :: u32) :: u16) AND 0xf :: u8)) = (x :: u32)"
proof (rule bit_word_eqI)
  fix i assume i: "i < LENGTH(32)"
  note hi = high_bits_clear [OF assms(1)]
  have "ucast (ucast (ucast v OR drop_bit 24 x :: u32) :: u16) = (v OR ucast (drop_bit 24 x) :: u8)"
    by (rule bit_word_eqI) (auto simp: bit_simps)
  then have e: "(ucast (ucast (ucast v OR drop_bit 24 x :: u32) :: u16) AND 0xf :: u8) = ucast (drop_bit 24 x)"
    using assms(2) by simp
  have "i < 8 \<or> 8 \<le> i \<and> i < 16 \<or> 16 \<le> i \<and> i < 24 \<or> 24 \<le> i \<and> i < 32"
    using i by auto
  then show "bit (ucast (ucast (ucast (drop_bit 0 x) :: u16) :: u8) OR push_bit 8 (ucast (ucast (ucast (drop_bit 8 x) :: u16) :: u8)) OR
    push_bit 16 (ucast (ucast (ucast (drop_bit 16 x) :: u16) :: u8)) OR
    push_bit 24 (ucast (ucast (ucast (ucast v OR drop_bit 24 x :: u32) :: u16) AND 0xf :: u8)) :: u32) i = bit x i"
    unfolding e by (elim disjE) (auto simp: bit_simps hi)
qed

lemmas ports = reg_data_def reg_sect_cnt_def reg_lba_l_def reg_lba_m_def reg_lba_h_def reg_dev_def reg_status_def reg_cmd_def

text \<open>A device register that chooses the drive and whose low bits do not disturb the upper four bits of an address.\<close>

definition dev_clean :: "io_event list \<Rightarrow> u16 \<Rightarrow> bool \<Rightarrow> u32 \<Rightarrow> bool" where
  "dev_clean l b slave x \<longleftrightarrow> drive_of l b slave \<and> (last_out l (b + 6) OR ucast (drop_bit 24 x)) AND 0xf = ucast (drop_bit 24 x)"

lemma select_sector_lba:
  assumes dv: "\<And>l. in_byte dv l (b + 6) = last_out l (b + 6)" and b: "port_base (channel_of d s) = b" and x: "drop_bit 28 x = 0"
    and clean: "dev_clean (io_log s) b slave x"
  obtains l where "disk_select_sector dv d x n s = s\<lparr>io_log := l\<rparr>" and "lba_of l b = x"
    and "\<And>y. drop_bit 24 y = drop_bit 24 x \<Longrightarrow> dev_clean l b slave y" and "last_out l (b + 2) = n"
proof -
  let ?v = "last_out (io_log s) (b + 6)"
  obtain l where l: "disk_select_sector dv d x n s = s\<lparr>io_log := l\<rparr>"
      and l': "l = Out8 (b + 6) (ucast (ucast (ucast ?v OR drop_bit 24 x :: u32) :: u16)) # In8 (b + 6) #
       Out8 (b + 5) (ucast (ucast (drop_bit 16 x) :: u16)) # Out8 (b + 4) (ucast (ucast (drop_bit 8 x) :: u16)) #
       Out8 (b + 3) (ucast (ucast (drop_bit 0 x) :: u16)) # Out8 (b + 2) (ucast (ucast n :: u16)) # io_log s"
    by (simp add: disk_select_sector_def Let_def outb_def inb_def ports b dv)
  have v: "drive_of (io_log s) b slave" "(?v OR ucast (drop_bit 24 x)) AND 0xf = ucast (drop_bit 24 x)"
    using clean by (simp_all add: dev_clean_def)
  have "lba_of l b = x"
    unfolding lba_of_def using lba_registers [OF x v(2)] by (simp add: l')
  moreover have w: "ucast (ucast (ucast ?v OR drop_bit 24 x :: u32) :: u16) = (?v OR ucast (drop_bit 24 x) :: u8)"
    by (rule bit_word_eqI) (auto simp: bit_simps)
  have "\<not> bit x 28" "\<not> bit x 30"
    by (rule high_bits_clear [OF x], simp)+
  then have "drive_of l b slave"
    using v(1) by (simp add: drive_of_def l' w bit_simps)
  then have "dev_clean l b slave y" if "drop_bit 24 y = drop_bit 24 x" for y
    using v(2) by (simp add: dev_clean_def that l' w or.assoc)
  moreover have "ucast (ucast n :: u16) = n"
    by (rule bit_word_eqI) (auto simp: bit_simps)
  ultimately show ?thesis
    using that [OF l] by (simp add: l')
qed

end
