(* ===== verification/Disk.thy ===== *)
theory Disk
  imports Ide
begin

text \<open>
  What the disk driver of \<open>Ide\<close> achieves: a read returns the sectors asked for, the processor is free while the disk works,
  the wait for the status ends; and where it goes wrong: stale address bits, the command for writing, the capacity.
\<close>

section \<open>A read, sector by sector\<close>

text \<open>
  What the driver finds: it runs, another task is ready, nobody waits for the disk, and the channel has the interrupt
  line of its number. \<open>drv_frame\<close> says which parts of the state a wait for the disk changes.
\<close>

definition drv_ok :: "nat \<times> nat \<Rightarrow> nat \<Rightarrow> 'a ide_state_scheme \<Rightarrow> bool" where
  "drv_ok d k s \<longleftrightarrow> k < 2 \<and> disk_channel (the_disk d s) = k \<and> irq_no (g_channels s k) = 0x2e + of_nat k \<and>
     semas s (disk_ok (g_channels s k)) = \<lparr>sem_value = 0, waiter_queue = queue_init\<rparr> \<and>
     status (tasks s (current_task s)) = TASK_RUNNING \<and> (\<exists>n rq. sched_ok s (n # rq))"

definition drv_frame :: "nat \<Rightarrow> 'a ide_state_scheme \<Rightarrow> 'a ide_state_scheme \<Rightarrow> bool" where
  "drv_frame k s s' \<longleftrightarrow> (\<exists>h tk q l m. s' = s\<lparr>nodes := h, tasks := tk, thread_ready_queue := q,
     g_channels := (g_channels s)(k := (g_channels s k)\<lparr>wait_intr := False\<rparr>), io_log := l, ram := m\<rparr>)"

lemma drv_frame_trans: "drv_frame k s t \<Longrightarrow> drv_frame k t u \<Longrightarrow> drv_frame k s u"
  unfolding drv_frame_def by (elim exE) (simp, blast)

lemma the_disk_wait [simp]:
  "devices (((g_channels s)(k := (g_channels s k)\<lparr>wait_intr := x\<rparr>)) j) = devices (g_channels s j)"
  by simp

lemma store_words_cong: "(\<And>i. i < n \<Longrightarrow> v i = w i) \<Longrightarrow> store_words v m p n = store_words w m p n"
  by (induction n) simp_all

lemma store_words_add:
  "store_words w m p (i + j) = store_words (\<lambda>n. w (i + n)) (store_words w m p i) (p + 2 * of_nat i) j"
  by (induction j) (simp_all add: algebra_simps)

text \<open>The number of words of a transfer; 256 sectors are written 0 in the register.\<close>

lemma transfer_words:
  assumes "0 < unat n" and "unat n \<le> 256"
  shows "unat (((if (ucast n :: u8) = 0 then 256 * 512 else ucast (ucast n :: u8) * 512) div 2) :: u32) = 256 * unat (n :: u32)"
proof -
  have u: "unat (ucast n :: u8) = unat n mod 256"
    by (simp add: unsigned_ucast_eq take_bit_nat_def)
  then have z: "(ucast n :: u8) = 0 \<longleftrightarrow> unat n = 256"
    using assms by (auto simp: unat_eq_zero [symmetric])
  show ?thesis
  proof (cases "unat n = 256")
    case False
    then have "unat n < 256"
      using assms by simp
    then have "unat (ucast (ucast n :: u8) * 512 :: u32) = unat n * 512"
      by (subst unat_mult_lem [THEN iffD1]) (simp_all add: unsigned_ucast_eq unsigned_take_bit_eq take_bit_nat_def)
    then show ?thesis
      using False z by (simp add: unat_div)
  qed (use z in simp)
qed

lemma sched_ok_rotate:
  assumes "sched_ok s (r # rq)" and "queue_rep (nodes t) (thread_ready_queue t) (map thread_dispatch_queue (rq @ [r]))"
    and "current_task t = current_task s" and "\<And>x. status (tasks t x) = status (tasks s x)"
  shows "sched_ok t (rq @ [r])"
  using assms by (simp add: sched_ok_def)

lemma read_round:
  fixes s :: "'a ide_state_scheme"
  assumes ok: "drv_ok d k s" and b: "port_base (g_channels s k) = b" and ata: "ata_disk dv b slave content"
    and x: "drop_bit 28 (lba + n) = 0" and clean: "dev_clean (io_log s) b slave (lba + n)" and once: "0 < unat once" "unat once \<le> 256"
  obtains s' where "ide_read_round dv (disk_interrupt dv (0x2e + of_nat k)) d lba buf n once s = Some s'"
    and "drv_frame k s s'" and "drv_ok d k s'"
    and "ram s' = store_words (\<lambda>i. content (256 * unat (lba + n) + i)) (ram s) (buf + n * 512) (256 * unat once)"
    and "\<And>y. drop_bit 24 y = drop_bit 24 (lba + n) \<Longrightarrow> dev_clean (io_log s') b slave y"
proof -
  have k: "k < 2" "disk_channel (the_disk d s) = k" "irq_no (g_channels s k) = 0x2e + of_nat k"
      "semas s (disk_ok (g_channels s k)) = \<lparr>sem_value = 0, waiter_queue = queue_init\<rparr>" "status (tasks s (current_task s)) = TASK_RUNNING"
    using ok by (simp_all add: drv_ok_def)
  obtain r rq where sched: "sched_ok s (r # rq)"
    using ok by (auto simp: drv_ok_def)
  have c: "channel_of d s = g_channels s k"
    by (simp add: channel_of_def k(2))
  have dv: "\<And>l. in_byte dv l (b + 6) = last_out l (b + 6)"
    using ata by (simp add: ata_disk_def)
  obtain l where l: "disk_select_sector dv d (lba + n) (ucast once) s = s\<lparr>io_log := l\<rparr>" "lba_of l b = lba + n"
      "\<And>y. drop_bit 24 y = drop_bit 24 (lba + n) \<Longrightarrow> dev_clean l b slave y" "last_out l (b + 2) = ucast once"
    by (rule select_sector_lba [OF dv _ x clean, of d "ucast once"]) (simp add: c b, rule that)
  let ?s1 = "channel_control_cmd k CMD_READ_SECTOR (s\<lparr>io_log := l\<rparr>)"
  have s1: "?s1 = s\<lparr>g_channels := (g_channels s)(k := (g_channels s k)\<lparr>wait_intr := True\<rparr>), io_log := Out8 (b + 7) CMD_READ_SECTOR # l\<rparr>"
    by (simp add: channel_control_cmd_def upd_chan_def outb_def ports b CMD_READ_SECTOR_def)
  have d1: "disk_channel (the_disk d ?s1) = k" "disk_channel (the_disk d (s\<lparr>io_log := l\<rparr>)) = k"
    using k(2) by (auto simp: s1 the_disk_def)
  obtain h q where wait: "sema_wait (disk_interrupt dv (0x2e + of_nat k)) (disk_ok (g_channels s k)) ?s1 = Some (?s1\<lparr>nodes := h,
       tasks := (tasks ?s1)(r := (tasks ?s1 r)\<lparr>ticks := ucast (priority (tasks ?s1 r))\<rparr>), thread_ready_queue := q,
       g_channels := (g_channels ?s1)(k := (g_channels ?s1 k)\<lparr>wait_intr := False\<rparr>), io_log := In8 (reg_status (g_channels ?s1 k)) # io_log ?s1\<rparr>)"
      "queue_rep h q (map thread_dispatch_queue (rq @ [r]))"
    by (rule sema_wait_irq [of ?s1 r rq "disk_ok (g_channels s k)" k dv]) (use sched k in \<open>simp_all add: s1 sched_ok_def\<close>)
  let ?l2 = "In8 (b + 7) # Out8 (b + 7) CMD_READ_SECTOR # l"
  let ?s2 = "s\<lparr>nodes := h, tasks := (tasks s)(r := (tasks s r)\<lparr>ticks := ucast (priority (tasks s r))\<rparr>), thread_ready_queue := q,
       g_channels := (g_channels s)(k := (g_channels s k)\<lparr>wait_intr := False\<rparr>), io_log := ?l2\<rparr>"
  have wait': "sema_wait (disk_interrupt dv (0x2e + of_nat k)) (disk_ok (channel_of d ?s1)) ?s1 = Some ?s2"
    using wait(1) by (simp add: channel_of_def d1) (simp add: s1 ports b)
  have td: "the_disk d t = the_disk d s" if "g_channels t = g_channels ?s2" for t :: "'a ide_state_scheme"
    using that by (auto simp: the_disk_def)
  have port: "port_base (channel_of d t) = b" if "g_channels t = g_channels ?s2" for t :: "'a ide_state_scheme"
    using that by (simp add: channel_of_def td k(2) b)
  let ?l4 = "In8 (b + 7) # In8 (b + 7) # ?l2"
  have drive: "drive_of l b slave"
    using l(3) [of "lba + n"] by (simp add: dev_clean_def)
  have f: "in_byte dv l' (b + 7) AND 0x80 = 0 \<and> in_byte dv l' (b + 7) AND 0x08 \<noteq> 0 \<and>
      (\<forall>i < 256 * sect_count l' b. in_word dv l' b i = content (256 * unat (lba_of l' b) + i))"
    if "fresh_cmd l' (b + 7) CMD_READ_SECTOR" "drive_of l' b slave" for l'
    using ata that by (simp add: ata_disk_def)
  have cmd: "in_byte dv (?l2) (b + 7) AND 0x80 = 0" "in_byte dv (In8 (b + 7) # ?l2) (b + 7) AND 0x08 \<noteq> 0"
    using f [of ?l2] f [of "In8 (b + 7) # ?l2"] drive by (simp_all add: drive_of_def)
  have "sect_count ?l4 b = unat once"
  proof (cases "unat once = 256")
    case True
    then have "once = 256"
      by (simp add: word_unat_eq_iff)
    then show ?thesis
      using l(4) by (simp add: sect_count_def)
  next
    case False
    then have "unat (ucast once :: u8) = unat once"
      using once by (simp add: unsigned_ucast_eq take_bit_nat_def)
    then show ?thesis
      using l(4) once(1) by (auto simp: sect_count_def unat_eq_zero [symmetric])
  qed
  moreover have "lba_of ?l4 b = lba + n"
    using l(2) by (simp add: lba_of_def)
  ultimately have words_in: "store_words (in_word dv ?l4 b) m p (256 * unat once) =
      store_words (\<lambda>i. content (256 * unat (lba + n) + i)) m p (256 * unat once)" for m p
    using f [of ?l4] drive by (intro store_words_cong) (simp add: drive_of_def)
  have poll: "busy_wait dv (disk_interrupt dv (0x2e + of_nat k)) d ?s2 = Some (True, ?s2\<lparr>io_log := In8 (b + 7) # In8 (b + 7) # ?l2\<rparr>)"
    using cmd port by (simp add: busy_wait_def busy_wait_loop.simps [of _ _ _ 30000] Let_def inb_def ports BIT_ALT_STATUS_BSY_def BIT_ALT_STATUS_DRQ_def)
  have words: "unat (((if (ucast once :: u8) = 0 then 256 * 512 else ucast (ucast once :: u8) * 512) div 2) :: u32) = 256 * unat once"
    by (rule transfer_words) (use once in simp_all)
  let ?s3 = "?s2\<lparr>io_log := InW b (256 * unat once) # In8 (b + 7) # In8 (b + 7) # ?l2,
       ram := store_words (\<lambda>i. content (256 * unat (lba + n) + i)) (ram s) (buf + n * 512) (256 * unat once)\<rparr>"
  have "disk_sector_to_buf dv d (ucast once) (buf + n * 512) (?s2\<lparr>io_log := In8 (b + 7) # In8 (b + 7) # ?l2\<rparr>) = ?s3"
    by (simp only: disk_sector_to_buf_def Let_def insw_def words ports port) (simp add: words_in port)
  then have "ide_read_round dv (disk_interrupt dv (0x2e + of_nat k)) d lba buf n once s = Some ?s3"
    using wait' poll by (simp add: ide_read_round_def l(1) d1 Let_def)
  moreover have "drv_frame k s ?s3"
    unfolding drv_frame_def by (intro exI) simp
  moreover have "sched_ok ?s3 (rq @ [r])"
    by (rule sched_ok_rotate [OF sched]) (use wait(2) in simp_all)
  then have "drv_ok d k ?s3"
    using k td [of ?s3] by (cases rq) (auto simp: drv_ok_def)
  moreover have "ram ?s3 = store_words (\<lambda>i. content (256 * unat (lba + n) + i)) (ram s) (buf + n * 512) (256 * unat once)"
    by simp
  moreover have "dev_clean (io_log ?s3) b slave y" if "drop_bit 24 y = drop_bit 24 (lba + n)" for y
    using l(3) [OF that] by (simp add: dev_clean_def drive_of_def)
  ultimately show ?thesis
    by (rule that)
qed

text \<open>An address inside the region of \<open>2 ^ 24\<close> sectors that the request stays in.\<close>

lemma region_step:
  assumes "unat lba + unat sects \<le> 2 ^ 28" and "(unat lba + unat sects - 1) div 2 ^ 24 = unat lba div 2 ^ 24" and "unat n < unat sects"
  shows "drop_bit 28 (lba + n) = (0 :: u32)" and "drop_bit 24 (lba + n) = drop_bit 24 lba" and "unat (lba + n) = unat lba + unat n"
proof -
  show u: "unat (lba + n) = unat lba + unat n"
    using assms by (intro unat_add_u32) simp
  have d: "unat (drop_bit i w) = unat w div 2 ^ i" for i and w :: u32
    by (simp only: unat_drop_bit_eq) (simp only: drop_bit_eq_div)
  have "unat (drop_bit 28 (lba + n)) = 0"
    unfolding d u using assms by simp
  then show "drop_bit 28 (lba + n) = (0 :: u32)"
    by (simp add: unat_eq_zero)
  have "(unat lba + unat n) div 2 ^ 24 = unat lba div 2 ^ 24"
    by (rule antisym) (use div_le_mono [of "unat lba + unat n" "unat lba + unat sects - 1" "2 ^ 24"] assms in \<open>simp_all add: div_le_mono\<close>)
  then have "unat (drop_bit 24 (lba + n)) = unat (drop_bit 24 lba)"
    unfolding d u .
  then show "drop_bit 24 (lba + n) = drop_bit 24 lba"
    by (simp add: word_unat_eq_iff)
qed

lemma read_loop:
  fixes s :: "'a ide_state_scheme"
  assumes ata: "ata_disk dv b slave content" and req: "unat lba + unat sects \<le> 2 ^ 28" "(unat lba + unat sects - 1) div 2 ^ 24 = unat lba div 2 ^ 24"
    and n: "n < sects" and ok: "drv_ok d k s" and b: "port_base (g_channels s k) = b"
    and clean: "\<And>y. drop_bit 24 y = drop_bit 24 lba \<Longrightarrow> dev_clean (io_log s) b slave y"
  shows "\<exists>s'. sector_loop (ide_read_round dv (disk_interrupt dv (0x2e + of_nat k)) d lba buf) sects n s = Some s' \<and> drv_frame k s s' \<and> drv_ok d k s' \<and>
    ram s' = store_words (\<lambda>i. content (256 * (unat lba + unat n) + i)) (ram s) (buf + n * 512) (256 * (unat sects - unat n))"
  using n ok b clean
proof (induction "unat sects - unat n" arbitrary: n s rule: less_induct)
  case (less n s)
  let ?o = "sector_once sects n" and ?round = "ide_read_round dv (disk_interrupt dv (0x2e + of_nat k)) d lba buf"
  note once = sector_once_progress [OF less.prems(1)]
  have lt: "unat n < unat sects"
    using less.prems(1) by (simp add: word_less_nat_alt)
  note reg = region_step [OF req lt]
  obtain s1 where s1: "?round n ?o s = Some s1" "drv_frame k s s1" "drv_ok d k s1"
      "ram s1 = store_words (\<lambda>i. content (256 * unat (lba + n) + i)) (ram s) (buf + n * 512) (256 * unat ?o)"
      "\<And>y. drop_bit 24 y = drop_bit 24 (lba + n) \<Longrightarrow> dev_clean (io_log s1) b slave y"
    by (rule read_round [OF less.prems(2,3) ata reg(1) _ once(2,4)]) (use less.prems(4) reg(2) in simp, rule that)
  have step: "sector_loop ?round sects n s = sector_loop ?round sects (n + ?o) s1"
    using less.prems(1) s1(1) by (simp add: sector_loop.simps [of _ _ n])
  show ?case
  proof (cases "n + ?o < sects")
    case True
    have b1: "port_base (g_channels s1 k) = b"
      using s1(2) less.prems(3) by (auto simp: drv_frame_def)
    obtain s' where s': "sector_loop ?round sects (n + ?o) s1 = Some s'" "drv_frame k s1 s'" "drv_ok d k s'"
        "ram s' = store_words (\<lambda>i. content (256 * (unat lba + unat (n + ?o)) + i)) (ram s1) (buf + (n + ?o) * 512) (256 * (unat sects - unat (n + ?o)))"
      using less.hyps [OF sector_once_decreases [OF less.prems(1)] True s1(3) b1] s1(5) reg(2) by auto
    have len: "256 * (unat sects - unat n) = 256 * unat ?o + 256 * (unat sects - unat (n + ?o))"
      using once(1,3) by simp
    have p: "buf + n * 512 + 2 * of_nat (256 * unat ?o) = buf + (n + ?o) * 512"
      by (simp add: algebra_simps)
    have "ram s' = store_words (\<lambda>i. content (256 * (unat lba + unat n) + i)) (ram s) (buf + n * 512) (256 * (unat sects - unat n))"
      unfolding len store_words_add p s'(4) s1(4) reg(3) using once(1) by (simp add: algebra_simps)
    then show ?thesis
      using step s' drv_frame_trans [OF s1(2) s'(2)] by auto
  next
    case False
    then have e: "unat sects - unat n = unat ?o"
      using once(1,3) by (simp add: word_less_nat_alt)
    show ?thesis
      using step False s1(2,3) s1(4) by (simp add: sector_loop.simps [of _ _ "n + ?o"] e reg(3))
  qed
qed

text \<open>The words in memory.\<close>

lemma store_words_outside:
  assumes "2 * n \<le> unat (a - p)"
  shows "store_words w m p n a = m a"
  using assms
proof (induction n)
  case (Suc n)
  have "unat (a - p) < 2 ^ 32"
    using unat_lt_2p32 [of "a - p"] by simp
  then have u: "unat (of_nat (2 * n) :: u32) = 2 * n" "unat (of_nat (2 * n + 1) :: u32) = 2 * n + 1"
    using Suc.prems by (intro unat_of_nat_u32; simp)+
  have "a \<noteq> p + of_nat (2 * n)" "a \<noteq> p + of_nat (2 * n + 1)"
    using u Suc.prems by (auto simp del: of_nat_mult of_nat_add of_nat_Suc)
  then show ?case
    using Suc by (simp add: add.assoc) (simp add: add.commute)
qed simp

lemma load_store_words:
  assumes "2 * n \<le> 2 ^ 32" and "i < n"
  shows "load_word (store_words w m p n) (p + 2 * of_nat i) = w i"
  using assms
proof (induction n)
  case (Suc n)
  have ne: "p + of_nat x \<noteq> p + (of_nat y :: u32)" if "x < 2 * Suc n" "y < 2 * Suc n" "x \<noteq> y" for x y
    using of_nat_inj_u32 [of x y] that Suc.prems(1) by simp
  show ?case
  proof (cases "i = n")
    case True
    have "p + 2 * of_nat n \<noteq> p + 2 * of_nat n + 1"
      by simp
    moreover have "ucast (ucast (w n) :: u8) OR push_bit 8 (ucast (ucast (drop_bit 8 (w n)) :: u8)) = (w n :: u16)"
      by (rule bit_word_eqI) (auto simp: bit_simps)
    ultimately show ?thesis
      by (simp add: True load_word_def)
  next
    case False
    then have "i < n"
      using Suc.prems by simp
    have "p + 2 * of_nat i \<noteq> p + 2 * of_nat n" "p + 2 * of_nat i \<noteq> p + 2 * of_nat n + 1"
        "p + 2 * of_nat i + 1 \<noteq> p + 2 * of_nat n" "p + 2 * of_nat i + 1 \<noteq> p + 2 * of_nat n + 1"
      using ne [of "2 * i" "2 * n"] ne [of "2 * i" "2 * n + 1"] ne [of "2 * i + 1" "2 * n"] ne [of "2 * i + 1" "2 * n + 1"] \<open>i < n\<close>
      by (simp_all add: algebra_simps)
    then show ?thesis
      using Suc \<open>i < n\<close> by (simp add: load_word_def)
  qed
qed simp

text \<open>After the choice of the disk the low bits of the device register are clear.\<close>

lemma dev_select_clean:
  assumes "drop_bit 28 y = (0 :: u32)" and "v AND 0xf = (0 :: u8)"
  shows "(v OR ucast (drop_bit 24 y)) AND 0xf = ucast (drop_bit 24 y)"
proof -
  have "ucast (drop_bit 24 y) AND 0xf = (ucast (drop_bit 24 y) :: u8)"
  proof (rule bit_word_eqI)
    fix i assume i: "i < LENGTH(8)"
    have "\<not> bit y (24 + i)" if "4 \<le> i"
      using high_bits_clear [OF assms(1), of "24 + i"] that by simp
    moreover have "bit (0xf :: u8) i \<longleftrightarrow> i < 4"
      using i mask_eq_exp_minus_1 [of 4, where 'a = "8 word"] bit_mask_iff [of 4 i, where 'a = "8 word"] by simp
    ultimately show "bit (ucast (drop_bit 24 y) AND 0xf :: u8) i = bit (ucast (drop_bit 24 y) :: u8) i"
      using i by (auto simp: bit_simps)
  qed
  then show ?thesis
    using assms(2) by (simp add: bit.conj_disj_distrib2)
qed

lemma lock_held_ide:
  "lock_held l (s\<lparr>nodes := h, tasks := tk, thread_ready_queue := q, g_channels := g, io_log := lg, ram := m\<rparr>) =
   (lock_held l s)\<lparr>nodes := h, tasks := tk, thread_ready_queue := q, g_channels := g, io_log := lg, ram := m\<rparr>"
  by (simp add: lock_held_def upd_lock_def upd_sema_def)

text \<open>A read of any number of sectors.\<close>

lemma ide_read_sectors:
  fixes s :: "'a ide_state_scheme"
  assumes ata: "ata_disk dv (port_base (g_channels s k)) (dev_no (the_disk d s) = 1) content" and ok: "drv_ok d k s"
    and free: "lock_free (chan_lock (g_channels s k)) s" and ne: "disk_ok (g_channels s k) \<noteq> lock_semaphore (chan_lock (g_channels s k))"
    and req: "0 < sects" "unat lba + unat sects \<le> 2 ^ 28" "(unat lba + unat sects - 1) div 2 ^ 24 = unat lba div 2 ^ 24"
    and buf: "512 * unat sects \<le> 2 ^ 32"
  shows "\<exists>s'. ide_read dv (disk_interrupt dv (irq_no (g_channels s k))) d lba buf sects s = Some s' \<and>
    (\<forall>i < 256 * unat sects. load_word (ram s') (buf + 2 * of_nat i) = content (256 * unat lba + i)) \<and>
    (\<forall>a. unat (a - buf) \<ge> 512 * unat sects \<longrightarrow> ram s' a = ram s a) \<and>
    drv_frame k s s' \<and> drv_ok d k s' \<and> lock_free (chan_lock (g_channels s' k)) s'"
proof -
  let ?l = "chan_lock (g_channels s k)" and ?b = "port_base (g_channels s k)" and ?others = "disk_interrupt dv (irq_no (g_channels s k))"
  have k: "k < 2" "disk_channel (the_disk d s) = k" "irq_no (g_channels s k) = 0x2e + of_nat k"
    using ok by (simp_all add: drv_ok_def)
  have same: "channel_of d (t :: 'a ide_state_scheme) = g_channels s k" if "g_channels t = g_channels s" for t
    using that k(2) by (simp add: channel_of_def the_disk_def)
  let ?v = "if dev_no (the_disk d s) = 1 then 0xf0 else 0xe0 :: u8"
  let ?s1 = "(lock_held ?l s)\<lparr>io_log := Out8 (?b + 6) ?v # io_log s\<rparr>"
  have held: "g_channels (lock_held ?l s) = g_channels s" "io_log (lock_held ?l s) = io_log s" "ram (lock_held ?l s) = ram s"
    by (simp_all add: lock_held_def upd_lock_def upd_sema_def)
  have sel: "disk_select_hd d (lock_held ?l s) = ?s1"
    using held(1) by (simp add: disk_select_hd_def outb_def same held(2) the_disk_def ports BIT_DEV_MBS_def BIT_DEV_LBA_def BIT_DEV_DEV_def)
  have ok1: "drv_ok d k ?s1"
    using ok ne by (auto simp: drv_ok_def the_disk_def lock_held_def upd_lock_def upd_sema_def sched_ok_def)
  have "bit (0xf0 :: u8) 4" "bit (0xf0 :: u8) 6" "\<not> bit (0xe0 :: u8) 4" "bit (0xe0 :: u8) 6"
    by (simp_all add: bit_iff_odd)
  then have "drive_of (io_log ?s1) ?b (dev_no (the_disk d s) = 1)"
    by (simp add: drive_of_def)
  then have clean: "dev_clean (io_log ?s1) ?b (dev_no (the_disk d s) = 1) y" if "drop_bit 24 y = drop_bit 24 lba" for y
    using dev_select_clean [OF region_step(1) [OF req(2,3), of 0], of ?v] req(1) by (simp add: dev_clean_def that word_less_nat_alt)
  have g1: "port_base (g_channels ?s1 k) = ?b"
    by (simp add: held(1))
  obtain s3 where s3: "sector_loop (ide_read_round dv ?others d lba buf) sects 0 ?s1 = Some s3" "drv_frame k ?s1 s3" "drv_ok d k s3"
      "ram s3 = store_words (\<lambda>i. content (256 * unat lba + i)) (ram s) buf (256 * unat sects)"
    using read_loop [OF ata req(2,3) _ ok1 g1 clean, of 0 buf] req(1) by (auto simp: k(3) held(3))
  obtain h tk q lg m where "s3 = ?s1\<lparr>nodes := h, tasks := tk, thread_ready_queue := q,
     g_channels := (g_channels ?s1)(k := (g_channels ?s1 k)\<lparr>wait_intr := False\<rparr>), io_log := lg, ram := m\<rparr>"
    using s3(2) by (auto simp: drv_frame_def)
  then obtain s4 where s4: "s3 = lock_held ?l s4" "s4 = s\<lparr>nodes := h, tasks := tk, thread_ready_queue := q,
     g_channels := (g_channels s)(k := (g_channels s k)\<lparr>wait_intr := False\<rparr>), io_log := lg, ram := m\<rparr>"
    by (simp add: lock_held_ide held(1))
  have f4: "ram s4 = ram s3" "chan_lock (g_channels s3 k) = ?l" "drv_frame k s s4"
    by (simp_all add: s4 lock_held_ide held) (unfold drv_frame_def, intro exI, rule refl)
  have free4: "lock_free ?l s4"
    using free by (simp add: s4(2) lock_free_def)
  have c3: "chan_lock (channel_of d s3) = ?l"
    using s3(3) f4(2) by (simp add: drv_ok_def channel_of_def)
  have "ide_read dv ?others d lba buf sects s = Some s4"
    using req(1) klock.acquire_free [OF free] klock.release_held [OF free4] s3(1)
    by (simp add: ide_read_def lock_wait_def same sel c3 ASSERT_def) (simp add: s4(1))
  moreover have "drv_ok d k s4"
    using s3(3) ne unfolding s4(1) by (auto simp: drv_ok_def the_disk_def lock_held_def upd_lock_def upd_sema_def sched_ok_def s4(2))
  moreover have "lock_free (chan_lock (g_channels s4 k)) s4"
    using free4 by (simp add: s4(2))
  moreover have "load_word (ram s4) (buf + 2 * of_nat i) = content (256 * unat lba + i)" if "i < 256 * unat sects" for i
    using load_store_words [OF _ that] buf by (simp add: f4(1) s3(4))
  moreover have "ram s4 a = ram s a" if "512 * unat sects \<le> unat (a - buf)" for a
    using store_words_outside [of "256 * unat sects" a buf] that by (simp add: f4(1) s3(4))
  ultimately show ?thesis
    using f4(3) by blast
qed

text \<open>
  C5: Reading sectors. The disk obeys its interface (\<open>ata_disk\<close>: it answers only for its own drive and only as many sectors
  as the count register asks for, all of them ready after one interrupt), the lock of the channel is free, another task is ready to run while
  the driver waits, and the request stays in one region of \<open>2 ^ 24\<close> sectors (outside it the address goes wrong,
  \<open>stale_address_bits\<close>). Then \<open>ide_read\<close> returns: the buffer
  holds the words of the sectors \<open>lba ..< lba + sects\<close> of the drive chosen by \<open>dev_no\<close>, in order, whatever the number of transfers of at most 256
  sectors it took; no other byte of memory has changed, the lock is free again, and the driver can read again.
\<close>

theorem ide_read_reads:
  fixes s :: "'a ide_state_scheme"
  assumes ata: "ata_disk dv (port_base (g_channels s k)) (dev_no (the_disk d s) = 1) content" and ok: "drv_ok d k s"
    and free: "lock_free (chan_lock (g_channels s k)) s" and ne: "disk_ok (g_channels s k) \<noteq> lock_semaphore (chan_lock (g_channels s k))"
    and req: "0 < sects" "unat lba + unat sects \<le> 2 ^ 28" "(unat lba + unat sects - 1) div 2 ^ 24 = unat lba div 2 ^ 24"
    and buf: "512 * unat sects \<le> 2 ^ 32"
  shows "\<exists>s'. ide_read dv (disk_interrupt dv (irq_no (g_channels s k))) d lba buf sects s = Some s' \<and>
    (\<forall>i < 256 * unat sects. load_word (ram s') (buf + 2 * of_nat i) = content (256 * unat lba + i)) \<and>
    (\<forall>a. unat (a - buf) \<ge> 512 * unat sects \<longrightarrow> ram s' a = ram s a) \<and>
    drv_frame k s s' \<and> drv_ok d k s' \<and> lock_free (chan_lock (g_channels s' k)) s'"
  using ide_read_sectors [OF assms] by blast

text \<open>
  C18: Between the command and its interrupt the processor is free. \<open>sema_down\<close> blocks the driver and runs the first
  ready task \<open>n\<close>, with the semaphore still 0; the interrupt of the channel makes the semaphore 1, clears the flag,
  reads the status register and wakes the driver, which runs when the time slice of \<open>n\<close> ends; the driver then takes the semaphore and goes on
  with the interrupt flag it had, the semaphore is 0 again, and task \<open>n\<close> is ready behind the others.
\<close>

theorem disk_wait_hands_over:
  fixes s :: "'a ide_state_scheme"
  assumes ok: "drv_ok d k s" and wait: "wait_intr (g_channels s k)" and sched: "sched_ok s (n # rq)"
    and c: "current_task s = c" and p: "disk_ok (g_channels s k) = p"
  shows "\<exists>s1 s2 s3. sema_down p s = Some (get_intr_status s, Waiting INTR_OFF, s1) \<and> current_task s1 = n \<and> status (tasks s1 c) = TASK_BLOCKED \<and>
      sem_value (semas s1 p) = 0 \<and>
      disk_interrupt dv (irq_no (g_channels s k)) s1 = Some s2 \<and> current_task s2 = c \<and> status (tasks s2 c) = TASK_RUNNING \<and>
      sem_value (semas s2 p) = 1 \<and> sema_down_resume p (get_intr_status s) INTR_OFF s2 = Some (Acquired, s3) \<and> eflags s3 = eflags s \<and> semas s3 = semas s \<and>
      \<not> wait_intr (g_channels s3 k) \<and> io_log s3 = In8 (reg_status (g_channels s k)) # io_log s \<and> sched_ok s3 (rq @ [n])"
proof -
  have k: "k < 2" "irq_no (g_channels s k) = 0x2e + of_nat k" "semas s p = \<lparr>sem_value = 0, waiter_queue = queue_init\<rparr>" "status (tasks s (current_task s)) = TASK_RUNNING"
    using ok p by (simp_all add: drv_ok_def)
  obtain s1 s2 h q where w: "sema_down p s = Some (get_intr_status s, Waiting INTR_OFF, s1)" "current_task s1 = n" "status (tasks s1 c) = TASK_BLOCKED"
      "sem_value (semas s1 p) = 0" "disk_interrupt dv (0x2e + of_nat k) s1 = Some s2" "current_task s2 = c" "status (tasks s2 c) = TASK_RUNNING"
      "sem_value (semas s2 p) = 1"
      "sema_down_resume p (get_intr_status s) INTR_OFF s2 = Some (Acquired, s\<lparr>nodes := h, tasks := (tasks s)(n := (tasks s n)\<lparr>ticks := ucast (priority (tasks s n))\<rparr>),
       thread_ready_queue := q, g_channels := (g_channels s)(k := (g_channels s k)\<lparr>wait_intr := False\<rparr>), io_log := In8 (reg_status (g_channels s k)) # io_log s\<rparr>)"
      "queue_rep h q (map thread_dispatch_queue (rq @ [n]))"
    by (rule disk_wait_steps [OF sched k(4,3,1,2) wait p, of dv]) (rule that, simp_all only: c)
  have "sched_ok (s\<lparr>nodes := h, tasks := (tasks s)(n := (tasks s n)\<lparr>ticks := ucast (priority (tasks s n))\<rparr>),
       thread_ready_queue := q, g_channels := (g_channels s)(k := (g_channels s k)\<lparr>wait_intr := False\<rparr>), io_log := In8 (reg_status (g_channels s k)) # io_log s\<rparr>) (rq @ [n])"
    by (rule sched_ok_rotate [OF sched]) (use w(10) in simp_all)
  then show ?thesis
    using w by (intro exI conjI) (simp_all add: k(2))
qed

lemma busy_wait_loop_returns:
  fixes s :: "'a ide_state_scheme"
  assumes sleeps: "\<And>s. P s \<Longrightarrow> \<exists>s'. sleep_wait others 10 s = Some s' \<and> P s'" and stable: "\<And>s q. P s \<Longrightarrow> P (snd (inb dv q s))"
    and port: "\<And>s. P s \<Longrightarrow> reg_status (channel_of d s) = port"
    and t: "10 dvd unat t" "0 < unat t" and P: "P s"
  shows "\<exists>r s'. busy_wait_loop dv others d t s = Some (r, s') \<and> P s' \<and>
    (r \<longrightarrow> (\<exists>l. io_log s' = In8 port # In8 port # l \<and> in_byte dv l port AND 0x80 = 0 \<and> in_byte dv (In8 port # l) port AND 0x08 \<noteq> 0))"
  using t P
proof (induction "unat t" arbitrary: t s rule: less_induct)
  case (less t s)
  let ?p = "port"
  let ?s1 = "snd (inb dv port s)"
  have c0: "reg_status (channel_of d t) = port" if "g_channels t = g_channels s" for t :: "'a ide_state_scheme"
    using port [OF less.prems(3)] that by (simp add: channel_of_def the_disk_def)
  have u: "unat (t - 10) = unat t - 10" "unat (t - 10) < unat t"
    using less.prems(1,2) by (auto simp: unat_sub word_le_nat_alt dest: dvd_imp_le)
  have d: "10 dvd unat (t - 10)"
    using less.prems(1) unfolding u(1) by (rule dvd_diff_nat) simp
  have P1: "P ?s1"
    by (rule stable [OF less.prems(3)])
  consider "t - 10 = 0" | "t - 10 > 0" "in_byte dv (io_log s) ?p AND 0x80 = 0" | "t - 10 > 0" "in_byte dv (io_log s) ?p AND 0x80 \<noteq> 0"
    by (auto simp: word_gt_0)
  then show ?case
  proof cases
    case 1
    then show ?thesis
      using less.prems(3) by (subst busy_wait_loop.simps) auto
  next
    case 2
    let ?s2 = "snd (inb dv ?p ?s1)"
    have "busy_wait_loop dv others d t s = Some (in_byte dv (In8 ?p # io_log s) ?p AND 0x08 \<noteq> 0, ?s2)"
      using 2 by (subst busy_wait_loop.simps) (simp add: Let_def inb_def BIT_ALT_STATUS_BSY_def BIT_ALT_STATUS_DRQ_def c0)
    moreover have "io_log ?s2 = In8 ?p # In8 ?p # io_log s"
      by (simp add: inb_def)
    ultimately show ?thesis
      using 2(2) stable [OF P1, of ?p] by auto
  next
    case 3
    obtain s2 where s2: "sleep_wait others 10 ?s1 = Some s2" "P s2"
      using sleeps [OF P1] by blast
    have "busy_wait_loop dv others d t s = busy_wait_loop dv others d (t - 10) s2"
      using 3 s2(1) by (subst busy_wait_loop.simps) (simp add: Let_def inb_def BIT_ALT_STATUS_BSY_def c0)
    moreover have "0 < unat (t - 10)"
      using 3(1) by (simp add: word_less_nat_alt)
    ultimately show ?thesis
      using less.hyps [OF u(2) d _ s2(2)] by simp
  qed
qed

text \<open>
  \<open>slices m g\<close>: after the driver yielded, \<open>m\<close> tasks use up their time slices, in which the clock makes \<open>g\<close> ticks, and
  the driver runs again.
\<close>

definition slices :: "nat \<Rightarrow> u32 \<Rightarrow> 'a ide_state_scheme \<Rightarrow> 'a ide_state_scheme option" where
  "slices m g s = schedule_n m (s\<lparr>global_ticks := global_ticks s + g\<rparr>)"

definition at_turn :: "(nat \<Rightarrow> ide_channel) \<Rightarrow> u32 \<Rightarrow> nat \<Rightarrow> 'a ide_state_scheme \<Rightarrow> bool" where
  "at_turn g c m s \<longleftrightarrow> g_channels s = g \<and> current_task s = c \<and> status (tasks s c) = TASK_RUNNING \<and> (\<exists>rq. length rq = m \<and> sched_ok s rq)"

lemma ticks_of_more: "sched_state.more s' = sched_state.more s \<Longrightarrow> global_ticks s' = global_ticks (s :: 'a ide_state_scheme)"
  by (cases s; cases s') simp

lemma channels_of_more: "sched_state.more s' = sched_state.more s \<Longrightarrow> g_channels s' = g_channels (s :: 'a ide_state_scheme)"
  by (cases s; cases s') simp

lemma schedule_n_more:
  "sched_ok s rq \<Longrightarrow> status (tasks s (current_task s)) = TASK_RUNNING \<Longrightarrow> schedule_n k s = Some s' \<Longrightarrow> sched_state.more s' = sched_state.more s"
proof (induction k arbitrary: s rq)
  case (Suc k)
  obtain s1 where s1: "schedule s = Some s1" "sched_ok s1 (tl (rq @ [current_task s]))" "status (tasks s1 (current_task s1)) = TASK_RUNNING"
      "sched_state.more s1 = sched_state.more s"
    using schedule_rotates [OF Suc.prems(1,2)] by metis
  have "schedule_n k s1 = Some s'"
    using Suc.prems(3) s1(1) by simp
  from Suc.IH [OF s1(2,3) this] s1(4) show ?case
    by simp
qed simp

lemma yield_back:
  fixes s :: "'a ide_state_scheme"
  assumes "at_turn chs c m s"
  obtains i s1 s2 where "thread_yield s = Some (i, s1)" and "slices m g s1 = Some s2"
    and "at_turn chs c m (thread_yield_resume i s2)" and "global_ticks (thread_yield_resume i s2) = global_ticks s + g"
proof -
  obtain rq where s: "current_task s = c" "status (tasks s c) = TASK_RUNNING" "length rq = m" "sched_ok s rq" "g_channels s = chs"
    using assms by (auto simp: at_turn_def)
  obtain n rq' where nxt: "rq @ [current_task s] = n # rq'"
    by (cases rq) auto
  have len: "length rq' = m"
    using arg_cong [OF nxt, of length] s(3) by simp
  obtain s1 where y: "thread_yield s = Some (get_intr_status s, s1)" "current_task s1 = n" "sched_ok s1 rq'"
      "tasks s1 = (let ts = (tasks s)(current_task s := (tasks s (current_task s))\<lparr>status := TASK_READY\<rparr>) in ts(n := (ts n)\<lparr>status := TASK_RUNNING\<rparr>))"
      "sched_state.more s1 = sched_state.more s"
    by (rule thread_yield_tail [OF s(4) nxt]) (rule that)
  let ?s1 = "s1\<lparr>global_ticks := global_ticks s1 + g\<rparr>"
  have ok1: "sched_ok ?s1 rq'" "status (tasks ?s1 (current_task ?s1)) = TASK_RUNNING"
    using y(2,3,4) by (simp_all add: sched_ok_def Let_def)
  obtain s2 where s2: "schedule_n m ?s1 = Some s2" "current_task s2 = (n # rq') ! m" "sched_ok s2 (take m (n # rq'))"
      "status (tasks s2 (current_task s2)) = TASK_RUNNING"
    using schedule_n_nth [OF ok1, of m] len y(2) by auto
  have c2: "current_task s2 = c"
    unfolding s2(2) nxt [symmetric] using s(1,3) by (simp add: nth_append)
  have t2: "global_ticks s2 = global_ticks s + g"
    using ticks_of_more [OF schedule_n_more [OF ok1 s2(1)]] ticks_of_more [OF y(5)] by simp
  have g2: "g_channels s2 = chs"
    using channels_of_more [OF schedule_n_more [OF ok1 s2(1)]] channels_of_more [OF y(5)] s(5) by simp
  have "at_turn chs c m (thread_yield_resume (get_intr_status s) s2)"
    using s2(3,4) c2 g2 len by (cases "get_intr_status s")
      (auto simp: at_turn_def thread_yield_resume_def set_intr_status_def sched_ok_def local_irq_enable_def local_irq_disable_def sti_def cli_def Let_def intro!: exI [of _ "take m (n # rq')"])
  moreover have "global_ticks (thread_yield_resume (get_intr_status s) s2) = global_ticks s + g"
    using t2 by (cases "get_intr_status s") (simp_all add: thread_yield_resume_def set_intr_status_def local_irq_enable_def local_irq_disable_def sti_def cli_def Let_def)
  ultimately show ?thesis
    using that y(1) s2(1) by (simp add: slices_def)
qed

lemma sleep_rest_returns:
  fixes s :: "'a ide_state_scheme"
  assumes "0 < unat g" and "unat g \<le> 2 ^ 31" and "n < 2 ^ 31 + 100" and "at_turn chs c m s" and "global_ticks s = start + of_nat n"
  shows "\<exists>r s'. ticks_to_sleep_round start 100 s = Some r \<and> sleep_rest (slices m g) start 100 r s = Some s' \<and> at_turn chs c m s'"
  using assms
proof (induction "100 - n" arbitrary: n s rule: less_induct)
  case (less n s)
  have e: "global_ticks s - start < 100 \<longleftrightarrow> n < 100"
    using less.prems(3,5) by (simp add: word_less_nat_alt unat_of_nat_u32)
  show ?case
  proof (cases "n < 100")
    case False
    then show ?thesis
      using e less.prems(4) by (simp add: ticks_to_sleep_round_def sleep_rest.simps)
  next
    case True
    obtain i s1 s2 where y: "thread_yield s = Some (i, s1)" "slices m g s1 = Some s2"
        "at_turn chs c m (thread_yield_resume i s2)" "global_ticks (thread_yield_resume i s2) = global_ticks s + g"
      by (rule yield_back [OF less.prems(4), of g]) (rule that)
    let ?s3 = "thread_yield_resume i s2"
    have "global_ticks ?s3 = start + of_nat (n + unat g)"
      using y(4) less.prems(5) by simp
    moreover have "100 - (n + unat g) < 100 - n" "n + unat g < 2 ^ 31 + 100"
      using True less.prems(1,2) by simp_all
    ultimately obtain r s' where "ticks_to_sleep_round start 100 ?s3 = Some r" "sleep_rest (slices m g) start 100 r ?s3 = Some s'" "at_turn chs c m s'"
      using less.hyps [of "n + unat g" ?s3] less.prems(1,2) y(3) by blast
    moreover have "ticks_to_sleep_round start 100 s = Some (Some (i, s1))"
      using e True y(1) by (simp add: ticks_to_sleep_round_def)
    ultimately show ?thesis
      using y(2) by (simp add: sleep_rest.simps [of _ _ _ "Some (i, s1)"] Let_def)
  qed
qed

lemma sleep_wait_returns:
  fixes s :: "'a ide_state_scheme"
  assumes "0 < unat g" and "unat g \<le> 2 ^ 31" and "at_turn chs c m s"
  shows "\<exists>s'. sleep_wait (slices m g) 10 s = Some s' \<and> at_turn chs c m s'"
proof -
  have "mil_sleep_ticks 10 = Some 100"
    by (simp add: mil_sleep_ticks_def DIV_ROUND_UP_def millisecond_per_intr_def kdefs ASSERT_def)
  then show ?thesis
    using sleep_rest_returns [OF assms(1,2) _ assms(3), of 0 "global_ticks s"] by (auto simp: sleep_wait_def mil_sleep_def Let_def)
qed

text \<open>
  C17: The wait for the status ends. Whatever the disk answers, and whatever number of ticks (at most \<open>2 ^ 31\<close>) the other
  tasks use between two turns of the driver, \<open>busy_wait\<close> returns, because the limit is a multiple of the step; when it answers
  true, its last two port accesses read the status register of the channel of the disk, and showed a disk that is not busy and then one that is ready
  to transfer.
\<close>

theorem busy_wait_returns:
  fixes s :: "'a ide_state_scheme"
  assumes "sched_ok s rq" and "status (tasks s (current_task s)) = TASK_RUNNING" and "0 < unat g" and "unat g \<le> 2 ^ 31"
    and port: "port = port_base (channel_of d s) + 7"
  shows "\<exists>r s'. busy_wait dv (slices (length rq) g) d s = Some (r, s') \<and> current_task s' = current_task s \<and>
    (r \<longrightarrow> (\<exists>l. io_log s' = In8 port # In8 port # l \<and> in_byte dv l port AND 0x80 = 0 \<and> in_byte dv (In8 port # l) port AND 0x08 \<noteq> 0))"
proof -
  let ?P = "at_turn (g_channels s) (current_task s) (length rq) :: 'a ide_state_scheme \<Rightarrow> bool"
  have 1: "?P s"
    using assms(1,2) by (auto simp: at_turn_def)
  have 2: "\<And>q t. ?P t \<Longrightarrow> ?P (snd (inb dv q t))"
    by (auto simp: at_turn_def inb_def sched_ok_def)
  have 4: "\<And>t. ?P t \<Longrightarrow> reg_status (channel_of d t) = port"
    by (simp add: at_turn_def channel_of_def the_disk_def port reg_status_def)
  have 3: "\<And>t. ?P t \<Longrightarrow> \<exists>s'. sleep_wait (slices (length rq) g) 10 t = Some s' \<and> ?P s'"
    by (rule sleep_wait_returns [OF assms(3,4)])
  have "\<exists>r s'. busy_wait dv (slices (length rq) g) d s = Some (r, s') \<and> ?P s' \<and>
    (r \<longrightarrow> (\<exists>l. io_log s' = In8 port # In8 port # l \<and> in_byte dv l port AND 0x80 = 0 \<and> in_byte dv (In8 port # l) port AND 0x08 \<noteq> 0))"
    unfolding busy_wait_def by (rule busy_wait_loop_returns [of ?P, OF 3 2 4 _ _ 1]) simp_all
  then show ?thesis
    unfolding at_turn_def by blast
qed

text \<open>
  C38: The bits 24 to 27 of the address are ORed into the device register and never cleared. After the sectors from
  \<open>x\<close> on were selected, selecting those from \<open>y\<close> on addresses \<open>y\<close> with the upper bits of \<open>x\<close> added; the address is wrong
  exactly when \<open>x\<close> has an upper bit that \<open>y\<close> does not have.
\<close>

theorem stale_address_bits:
  fixes s :: "'a ide_state_scheme"
  assumes "\<And>l. in_byte dv l (b + 6) = last_out l (b + 6)" and "port_base (channel_of d s) = b"
    and "drop_bit 28 x = 0" and "drop_bit 28 y = 0" and "last_out (io_log s) (b + 6) AND 0xf = 0"
  shows "lba_of (io_log (disk_select_sector dv d y n (disk_select_sector dv d x m s))) b = y OR (x AND 0x0f000000)"
proof -
  let ?s = "disk_select_sector dv d x m s"
  have p: "port_base (channel_of d ?s) = b"
    using assms(2) by (simp add: disk_select_sector_def Let_def outb_def inb_def channel_of_def the_disk_def)
  have v: "last_out (io_log ?s) (b + 6) = last_out (io_log s) (b + 6) OR ucast (drop_bit 24 x)"
    by (simp add: disk_select_sector_def Let_def outb_def inb_def ports assms(1,2)) (rule bit_word_eqI, auto simp: bit_simps)
  have e: "last_out (io_log (disk_select_sector dv d y n ?s)) (b + i) = (if i = 6 then last_out (io_log ?s) (b + 6) OR ucast (drop_bit 24 y)
      else if i = 5 then ucast (drop_bit 16 y) else if i = 4 then ucast (drop_bit 8 y) else ucast y)" if "i \<in> {3, 4, 5, 6}" for i
    using that by (auto simp: disk_select_sector_def [of dv d y] Let_def outb_def inb_def ports assms(1) p) (rule bit_word_eqI, auto simp: bit_simps)+
  have m: "(0x0f000000 :: u32) = push_bit 24 (mask 4)" "(0xf :: u8) = mask 4"
    by (simp_all add: mask_eq_exp_minus_1 push_bit_eq_mult)
  have w: "lba_of (io_log (disk_select_sector dv d y n ?s)) b = ucast (ucast y :: u8) OR push_bit 8 (ucast (ucast (drop_bit 8 y) :: u8)) OR
      push_bit 16 (ucast (ucast (drop_bit 16 y) :: u8)) OR
      push_bit 24 (ucast ((last_out (io_log s) (b + 6) OR ucast (drop_bit 24 x) OR ucast (drop_bit 24 y)) AND 0xf :: u8))"
    unfolding lba_of_def by (simp add: e v or.assoc)
  have z: "(last_out (io_log s) (b + 6) OR ucast (drop_bit 24 x) OR ucast (drop_bit 24 y)) AND 0xf = (ucast (drop_bit 24 (x OR y)) AND mask 4 :: u8)"
    using assms(5) by (simp add: bit.conj_disj_distrib2 m(2)) (rule bit_word_eqI, auto simp: bit_simps)
  show ?thesis
  proof (rule bit_word_eqI)
    fix i assume i: "i < LENGTH(32)"
    then have "i < 8 \<or> 8 \<le> i \<and> i < 16 \<or> 16 \<le> i \<and> i < 24 \<or> 24 \<le> i \<and> i < 28 \<or> 28 \<le> i \<and> i < 32"
      by auto
    then show "bit (lba_of (io_log (disk_select_sector dv d y n ?s)) b) i = bit (y OR (x AND 0x0f000000)) i"
      unfolding w z m(1) by (elim disjE) (auto simp: bit_simps high_bits_clear [OF assms(3)] high_bits_clear [OF assms(4)])
  qed
qed

text \<open>
  The command \<open>ide_write\<close> sends is 0x10, which asks for no transfer of data (writing sectors is 0x30). On a disk that after this command is
  neither busy nor ready to transfer, \<open>ide_write\<close> ends in \<open>ASSERT_FAILED\<close>, whatever is written.
\<close>

theorem ide_write_fails:
  fixes s :: "'a ide_state_scheme"
  assumes dv: "\<And>l. last_out l (port_base (channel_of d s) + 7) = 0x10 \<Longrightarrow>
        in_byte dv l (port_base (channel_of d s) + 7) AND 0x80 = 0 \<and> in_byte dv l (port_base (channel_of d s) + 7) AND 0x08 = 0"
    and free: "lock_free (chan_lock (channel_of d s)) s" and req: "0 < sects"
  shows "ide_write dv others d lba buf sects s = None"
proof -
  let ?c = "channel_of d s" and ?b = "port_base (channel_of d s)" and ?l = "chan_lock (channel_of d s)"
  let ?s1 = "disk_select_hd d (lock_held ?l s)"
  let ?u = "disk_select_sector dv d lba (ucast (sector_once sects 0)) ?s1"
  let ?t = "channel_control_cmd (disk_channel (the_disk d ?u)) CMD_WRITE_SECTOR ?u"
  have "g_channels ?u = g_channels s"
    by (simp add: disk_select_hd_def disk_select_sector_def Let_def outb_def inb_def lock_held_def upd_lock_def upd_sema_def)
  then have u: "channel_of d ?u = ?c"
    by (simp add: channel_of_def the_disk_def)
  have cmd: "io_log (channel_control_cmd (disk_channel (the_disk d u)) CMD_WRITE_SECTOR u) = Out8 (port_base (channel_of d u) + 7) 0x10 # io_log u"
      "port_base (channel_of d (channel_control_cmd (disk_channel (the_disk d u)) CMD_WRITE_SECTOR u)) = port_base (channel_of d u)" for u :: "'a ide_state_scheme"
    by (simp_all add: channel_control_cmd_def upd_chan_def outb_def ports CMD_WRITE_SECTOR_def channel_of_def the_disk_def)
  note t = cmd [of ?u, unfolded u]
  have "in_byte dv (io_log ?t) (?b + 7) AND 0x80 = 0" "in_byte dv (In8 (?b + 7) # io_log ?t) (?b + 7) AND 0x08 = 0"
    using dv [of "io_log ?t"] dv [of "In8 (?b + 7) # io_log ?t"] t(1) by simp_all
  then have "busy_wait dv others d ?t = Some (False, snd (inb dv (?b + 7) (snd (inb dv (?b + 7) ?t))))"
    using t(2) by (subst busy_wait_def, subst busy_wait_loop.simps)
      (simp add: Let_def inb_def ports BIT_ALT_STATUS_BSY_def BIT_ALT_STATUS_DRQ_def channel_of_def the_disk_def)
  then have "ide_write_round dv others d lba buf 0 (sector_once sects 0) ?s1 = None"
    by (simp add: ide_write_round_def Let_def ASSERT_def)
  then show ?thesis
    using klock.acquire_free [OF free] req by (simp add: ide_write_def lock_wait_def ASSERT_def sector_loop.simps [of _ _ 0])
qed

text \<open>
  The capacity \<open>disk_identify\<close> prints: the product is computed modulo \<open>2 ^ 32\<close>, so it is right (in units of
  \<open>2 ^ 20\<close> bytes) below 4 GB and too small by a multiple of 4096 MB above.
\<close>

theorem capacity_wraps: "unat (capacity_mb n) = unat n div 2048 mod 4096"
proof -
  have "unat (n * 512) = 512 * (unat n mod 8388608)"
    by (simp add: unat_word_ariths mult.commute [of _ 512] mod_mult_mult1 [of 512 _ 8388608, simplified])
  then have "unat (capacity_mb n) = unat n mod 8388608 div 2048"
    by (simp add: capacity_mb_def unat_div div_mult2_eq [symmetric])
  also have "\<dots> = unat n div 2048 mod 4096"
    using mod_mult2_eq [of "unat n" 2048 4096] by simp
  finally show ?thesis .
qed

section \<open>A concrete disk\<close>

text \<open>
  The machine with a channel at port 0x1f0, the running driver at 0x1000, one ready task at 0x2000, and a master whose word
  \<open>i\<close> is the number \<open>i\<close> modulo \<open>2 ^ 16\<close>, and which answers no command of the slave and no word that was not asked for. \<open>dull_disk\<close> is never ready to transfer.
\<close>

definition demo_partition :: partition where
  "demo_partition = \<lparr>start_lba = 0, sector_cnt = 0, part_disk = None, part_queue = 0, part_name = [], part_sb = 0,
     block_bitmap = \<lparr>bitmap_bytes_len = 0, bitmap = 0\<rparr>, inode_bitmap = \<lparr>bitmap_bytes_len = 0, bitmap = 0\<rparr>, open_inodes_queue = queue_init\<rparr>"

definition demo_disk :: disk where
  "demo_disk = \<lparr>disk_name = [0x73, 0x64, 0x61], disk_channel = 0, dev_no = 0, prim_parts = replicate 4 demo_partition,
     logic_parts = replicate 8 demo_partition, prim_cnt = 0, logic_cnt = 0\<rparr>"

definition demo_channel :: ide_channel where
  "demo_channel = \<lparr>chan_name = [], port_base = 0x1f0, irq_no = 0x2e, chan_lock = 0x9000, wait_intr = False, disk_ok = 0x9100, devices = \<lambda>_. demo_disk\<rparr>"

definition demo_ide :: ide_state where
  "demo_ide = sys_state.extend (seg_state.extend (demo_seg\<lparr>nodes := (\<lambda>_. \<lparr>l_prev = 0, l_next = 0\<rparr>)(0x2034 := \<lparr>l_prev = 0x2034, l_next = 0x2034\<rparr>),
       thread_ready_queue := \<lparr>front = 0x2034, queue_len = 1\<rparr>, tasks := (\<lambda>_. demo_task TASK_READY)(0x1000 := demo_task TASK_RUNNING),
       semas := (semas demo_seg)(0x9100 := \<lparr>sem_value = 0, waiter_queue = queue_init\<rparr>)\<rparr>) (sys_state.fields []))
     (ide_state.fields [] 1 (\<lambda>_. demo_channel) 0 0 0 [] 0xc0003000 (\<lambda>n. 0xc0100000 - 512 * of_nat n) 0xc0101000 0xc0101200)"

definition master_disk :: "(nat \<Rightarrow> u16) \<Rightarrow> device" where
  "master_disk content = \<lparr>in_byte = \<lambda>l p. if p = 0x1f6 then last_out l p else if fresh_cmd l 0x1f7 CMD_READ_SECTOR \<and> drive_of l 0x1f0 False then 0x48 else 0x40,
     in_word = \<lambda>l p i. if fresh_cmd l 0x1f7 CMD_READ_SECTOR \<and> drive_of l 0x1f0 False \<and> i < 256 * sect_count l 0x1f0
       then content (256 * unat (lba_of l 0x1f0) + i) else 0xffff\<rparr>"

definition count_disk :: device where
  "count_disk = master_disk of_nat"

definition dull_disk :: device where
  "dull_disk = \<lparr>in_byte = \<lambda>l p. 0x40, in_word = \<lambda>l p i. 0\<rparr>"

lemma demo_ide_sel: "g_channels demo_ide = (\<lambda>_. demo_channel)" "current_task demo_ide = 0x1000" "eflags demo_ide = 0x202"
    "nodes demo_ide = (\<lambda>_. \<lparr>l_prev = 0, l_next = 0\<rparr>)(0x2034 := \<lparr>l_prev = 0x2034, l_next = 0x2034\<rparr>)"
    "thread_ready_queue demo_ide = \<lparr>front = 0x2034, queue_len = 1\<rparr>" "tasks demo_ide = (\<lambda>_. demo_task TASK_READY)(0x1000 := demo_task TASK_RUNNING)"
    "semas demo_ide = (\<lambda>_. \<lparr>sem_value = 1, waiter_queue = queue_init\<rparr>)(0x9100 := \<lparr>sem_value = 0, waiter_queue = queue_init\<rparr>)"
    "locks demo_ide = (\<lambda>_. \<lparr>holder = NULL, holder_repeat_cnt = 0\<rparr>)" "io_log demo_ide = []" "ram demo_ide = (\<lambda>_. 0)(0x200 := 0x61)"
    "ext_lba_base demo_ide = 0" "p_no demo_ide = 0" "l_no demo_ide = 0" "scan_buf demo_ide = (\<lambda>n. 0xc0100000 - 512 * of_nat n)"
  by (simp_all add: demo_ide_def demo_seg_def demo_console_def demo_thread_def demo_mm_def ide_state.defs sys_state.defs seg_state.defs console_state.defs thread_state.defs mem_state.defs)

lemma demo_ide_sched: "sched_ok demo_ide [0x2000]"
  by (simp add: sched_ok_def demo_ide_sel demo_task_def queue_rep_def thread_dispatch_queue_def NULL_def)

lemma demo_ide_ok: "drv_ok (0, 0) 0 demo_ide" "lock_free (chan_lock (g_channels demo_ide 0)) demo_ide"
    "channel_of (0, 0) demo_ide = demo_channel" "status (tasks demo_ide (current_task demo_ide)) = TASK_RUNNING"
  using demo_ide_sched by (auto simp: drv_ok_def the_disk_def channel_of_def lock_free_def demo_ide_sel demo_channel_def demo_disk_def demo_task_def lock_semaphore_def NULL_def)

lemma master_disk_ata: "ata_disk (master_disk content) 0x1f0 False content"
  by (simp add: ata_disk_def master_disk_def)

lemma demo_ata: "ata_disk count_disk (port_base (g_channels demo_ide 0)) (dev_no (the_disk (0, 0) demo_ide) = 1) of_nat"
  using master_disk_ata by (simp add: count_disk_def demo_ide_sel demo_channel_def the_disk_def demo_disk_def)

theorem ide_read_reads_witness:
  "\<exists>s'. ide_read count_disk (disk_interrupt count_disk 0x2e) (0, 0) 1000 0xc0200000 300 demo_ide = Some s' \<and>
     load_word (ram s') 0xc0200000 = 0xe800 \<and> load_word (ram s') (0xc0200000 + 2 * of_nat 76799) = of_nat 332799"
proof -
  have "disk_ok (g_channels demo_ide 0) \<noteq> lock_semaphore (chan_lock (g_channels demo_ide 0))"
    by (simp add: demo_ide_sel demo_channel_def lock_semaphore_def)
  from ide_read_reads [OF demo_ata demo_ide_ok(1,2) this, of 300 1000 "0xc0200000"]
  obtain s' where s': "ide_read count_disk (disk_interrupt count_disk 0x2e) (0, 0) 1000 0xc0200000 300 demo_ide = Some s'"
      "\<forall>i < 76800. load_word (ram s') (0xc0200000 + 2 * of_nat i) = of_nat (256000 + i)"
    by (auto simp: demo_ide_sel demo_channel_def)
  show ?thesis
    using s' s'(2) [rule_format, of 0] s'(2) [rule_format, of 76799] by auto
qed

theorem disk_wait_hands_over_witness:
  "\<exists>s1 s2. sema_down 0x9100 (demo_ide\<lparr>g_channels := \<lambda>_. demo_channel\<lparr>wait_intr := True\<rparr>\<rparr>) = Some (INTR_ON, Waiting INTR_OFF, s1) \<and> current_task s1 = 0x2000 \<and>
     disk_interrupt count_disk 0x2e s1 = Some s2 \<and> current_task s2 = 0x1000"
proof -
  let ?s = "demo_ide\<lparr>g_channels := \<lambda>_. demo_channel\<lparr>wait_intr := True\<rparr>\<rparr>"
  have "drv_ok (0, 0) 0 ?s" "sched_ok ?s [0x2000]" "get_intr_status ?s = INTR_ON"
    using demo_ide_ok(1) demo_ide_sched by (simp_all add: drv_ok_def the_disk_def sched_ok_def demo_ide_sel get_intr_status_def EFLAGS_IF_def)
  from disk_wait_hands_over [OF this(1) _ this(2) refl refl, of count_disk] this(3) show ?thesis
    by (auto simp: demo_ide_sel demo_channel_def)
qed

theorem busy_wait_returns_witness:
  "\<exists>r s'. busy_wait dull_disk (slices 1 10) (0, 0) demo_ide = Some (r, s') \<and> current_task s' = 0x1000"
  using busy_wait_returns [OF demo_ide_sched demo_ide_ok(4) _ _ refl, of 10 dull_disk "(0, 0)"] by (auto simp: demo_ide_sel)

theorem stale_address_bits_witness:
  "lba_of (io_log (disk_select_sector count_disk (0, 0) 0x2000000 0 (disk_select_sector count_disk (0, 0) 0x1ffff00 0 demo_ide))) 0x1f0 = 0x3000000"
  using stale_address_bits [of count_disk "0x1f0" "(0, 0)" demo_ide "0x1ffff00" "0x2000000" 0 0]
  by (simp add: count_disk_def master_disk_def demo_ide_ok(3) demo_channel_def demo_ide_sel drop_bit_eq_div)

theorem ide_write_fails_witness: "ide_write dull_disk (slices 1 10) (0, 0) 7 0x200 1 demo_ide = None"
  using ide_write_fails [of "(0, 0)" demo_ide dull_disk 1 "slices 1 10" 7 "0x200"] demo_ide_ok(2,3)
  by (simp add: dull_disk_def demo_ide_sel demo_channel_def)

end
