(* ===== verification/Partition.thy ===== *)
theory Partition
  imports Disk
begin

text \<open>
  The partitions and the start of the disks (\<open>device/ide.c\<close>: \<open>partition_scan\<close>, \<open>partition_info\<close>, \<open>ide_init\<close>). The specification is
  \<open>find_parts\<close>: it walks the partition tables of a disk given by the bytes of its sectors, without memory, buffers or driver. The
  locale \<open>sector_source\<close> says what the scan needs of the read of one sector; \<open>ide_read\<close> is an instance.
\<close>

section \<open>Partitions\<close>

text \<open>
  \<open>sprintf\<close> into a name of eight bytes; a longer text overwrites what follows and has no result here.
\<close>

definition name8 :: "string \<Rightarrow> farg list \<Rightarrow> u8 list option" where
  "name8 fmt args = (let cs = render (map of_char fmt) args in if length cs < 8 then Some cs else None)"

text \<open>One primary partition: entry \<open>p_no\<close> of the table of the disk.\<close>

definition add_primary :: "nat \<times> nat \<Rightarrow> u32 \<Rightarrow> u32 \<Rightarrow> 'a ide_state_scheme \<Rightarrow> 'a ide_state_scheme option" where
  "add_primary hd_disk lba sects s = do {
     let i = unat (p_no s);
     (if i < length (prim_parts (the_disk hd_disk s)) then Some () else None);
     nm \<leftarrow> name8 ''%s%d'' [FStr (disk_name (the_disk hd_disk s)), FInt (ucast (p_no s) + 1)];
     let s = upd_disk hd_disk (\<lambda>d. d\<lparr>prim_parts := (prim_parts d)[i := (prim_parts d ! i)\<lparr>start_lba := lba, sector_cnt := sects, part_disk := Some hd_disk, part_name := nm\<rparr>],
         prim_cnt := prim_cnt d + 1\<rparr>) s;
     let s = s\<lparr>p_no := p_no s + 1\<rparr>;
     ASSERT (p_no s < 4);
     Some s
   }"

text \<open>One logical partition; the result says whether the function returns because of \<open>l_no > 8\<close>.\<close>

definition add_logical :: "nat \<times> nat \<Rightarrow> u32 \<Rightarrow> u32 \<Rightarrow> 'a ide_state_scheme \<Rightarrow> (bool \<times> 'a ide_state_scheme) option" where
  "add_logical hd_disk lba sects s = do {
     let i = unat (l_no s);
     (if i < length (logic_parts (the_disk hd_disk s)) then Some () else None);
     nm \<leftarrow> name8 ''%s%d'' [FStr (disk_name (the_disk hd_disk s)), FInt (ucast (l_no s) + 5)];
     let s = upd_disk hd_disk (\<lambda>d. d\<lparr>logic_parts := (logic_parts d)[i := (logic_parts d ! i)\<lparr>start_lba := lba, sector_cnt := sects, part_disk := Some hd_disk, part_name := nm\<rparr>],
         logic_cnt := logic_cnt d + 1\<rparr>) s;
     let s = s\<lparr>l_no := l_no s + 1\<rparr>;
     Some (l_no s > 8, s)
   }"

text \<open>
  \<open>read lba buf s\<close> is the call of \<open>ide_read\<close> for one sector. \<open>scan_from depth ext_lba i\<close> is the loop from entry \<open>i\<close> on,
  with the boot sector in the buffer of the frame at \<open>depth\<close>; the recursive call of \<open>partition_scan\<close> clears and fills
  the next buffer and runs its own loop.
\<close>

definition scan_read :: "(u32 \<Rightarrow> u32 \<Rightarrow> 'a ide_state_scheme \<Rightarrow> 'a ide_state_scheme option) \<Rightarrow> nat \<Rightarrow> u32 \<Rightarrow> 'a ide_state_scheme \<Rightarrow> 'a ide_state_scheme option" where
  "scan_read read depth lba s = do {
     m \<leftarrow> memset (ram s) (scan_buf s depth) 0 512;
     read lba (scan_buf s depth) (s\<lparr>ram := m\<rparr>)
   }"

partial_function (option) scan_from ::
  "(u32 \<Rightarrow> u32 \<Rightarrow> 'a ide_state_scheme \<Rightarrow> 'a ide_state_scheme option) \<Rightarrow> nat \<times> nat \<Rightarrow> nat \<Rightarrow> u32 \<Rightarrow> nat \<Rightarrow> 'a ide_state_scheme \<Rightarrow> 'a ide_state_scheme option" where
  "scan_from read hd_disk depth ext_lba i s =
     (if i < 4
      then (let e = pt_entry (scan_buf s depth) i; fs = pt_fs_type (ram s) e; start = pt_start_lba (ram s) e; sects = pt_sector_cnt (ram s) e
            in if fs = 5
               then do {
                 let (child, s) = (if ext_lba_base s \<noteq> 0 then (start + ext_lba_base s, s) else (start, s\<lparr>ext_lba_base := start\<rparr>));
                 s \<leftarrow> scan_read read (Suc depth) child s;
                 s \<leftarrow> scan_from read hd_disk (Suc depth) child 0 s;
                 scan_from read hd_disk depth ext_lba (Suc i) s
               }
               else if fs \<noteq> 0
               then if ext_lba = 0
                    then do { s \<leftarrow> add_primary hd_disk (ext_lba + start) sects s; scan_from read hd_disk depth ext_lba (Suc i) s }
                    else do {
                      (stop, s) \<leftarrow> add_logical hd_disk (ext_lba + start) sects s;
                      if stop then Some s else scan_from read hd_disk depth ext_lba (Suc i) s
                    }
               else scan_from read hd_disk depth ext_lba (Suc i) s)
      else Some s)"

definition partition_scan :: "(u32 \<Rightarrow> u32 \<Rightarrow> 'a ide_state_scheme \<Rightarrow> 'a ide_state_scheme option) \<Rightarrow> nat \<times> nat \<Rightarrow> u32 \<Rightarrow> 'a ide_state_scheme \<Rightarrow> 'a ide_state_scheme option" where
  "partition_scan read hd_disk ext_lba s = do {
     s \<leftarrow> scan_read read 0 ext_lba s;
     scan_from read hd_disk 0 ext_lba 0 s
   }"

primrec print_parts :: "('a ide_state_scheme \<Rightarrow> 'a ide_state_scheme option) \<Rightarrow> partition list \<Rightarrow> 'a ide_state_scheme \<Rightarrow> 'a ide_state_scheme option" where
  "print_parts others [] s = Some s"
| "print_parts others (p # ps) s = do {
     s \<leftarrow> print_text others (''    %s start_lba:0x%x, sector_cnt:0x%x\<newline>'') [FStr (part_name p), FInt (start_lba p), FInt (sector_cnt p)] s;
     print_parts others ps s
   }"

definition partition_info :: "('a ide_state_scheme \<Rightarrow> 'a ide_state_scheme option) \<Rightarrow> nat \<times> nat \<Rightarrow> 'a ide_state_scheme \<Rightarrow> 'a ide_state_scheme option" where
  "partition_info others hd_disk s = do {
     let d = the_disk hd_disk s;
     s \<leftarrow> (if unat (prim_cnt d) \<le> length (prim_parts d) then print_parts others (take (unat (prim_cnt d)) (prim_parts d)) s else None);
     if unat (logic_cnt d) \<le> length (logic_parts d) then print_parts others (take (unat (logic_cnt d)) (logic_parts d)) s else None
   }"

section \<open>Initialisation\<close>

definition disk_init :: "device \<Rightarrow> ('a ide_state_scheme \<Rightarrow> 'a ide_state_scheme option) \<Rightarrow> nat \<Rightarrow> nat \<Rightarrow> 'a ide_state_scheme \<Rightarrow> 'a ide_state_scheme option" where
  "disk_init dv others channel_no dev s = do {
     let d = (channel_no, dev);
     let s = upd_disk d (\<lambda>d. d\<lparr>disk_channel := channel_no, dev_no := of_nat dev, prim_cnt := 0, logic_cnt := 0\<rparr>) s;
     nm \<leftarrow> name8 ''sd%c'' [FChar (97 + of_nat channel_no * 2 + of_nat dev)];
     let s = upd_disk d (disk_name_update (\<lambda>_. nm)) s;
     s \<leftarrow> disk_identify dv others d s;
     s \<leftarrow> partition_scan (\<lambda>lba buf. ide_read dv others d lba buf 1) d 0 s;
     partition_info others d s
   }"

definition channel_setup :: "nat \<Rightarrow> 'a ide_state_scheme \<Rightarrow> 'a ide_state_scheme option" where
  "channel_setup channel_no s = do {
     nm \<leftarrow> name8 ''ide%d'' [FInt (of_nat channel_no)];
     let s = upd_chan channel_no (chan_name_update (\<lambda>_. nm)) s;
     let s = (if channel_no = 0 then upd_chan channel_no (\<lambda>c. c\<lparr>port_base := 0x1f0, irq_no := 0x20 + 14\<rparr>) s
              else if channel_no = 1 then upd_chan channel_no (\<lambda>c. c\<lparr>port_base := 0x170, irq_no := 0x20 + 15\<rparr>) s
              else s);
     let s = upd_chan channel_no (wait_intr_update (\<lambda>_. False)) s;
     let s = lock_init (chan_lock (g_channels s channel_no)) s;
     let s = sema_init (disk_ok (g_channels s channel_no)) 0 s;
     irqs \<leftarrow> register_irq_handler (irqaction s) (irq_no (g_channels s channel_no)) (hard_disk_addr s);
     Some (s\<lparr>irqaction := irqs\<rparr>)
   }"

text \<open>\<open>g_channels\<close> has two elements; a third channel would be written behind them.\<close>

primrec channel_loop :: "device \<Rightarrow> ('a ide_state_scheme \<Rightarrow> 'a ide_state_scheme option) \<Rightarrow> nat \<Rightarrow> nat \<Rightarrow> 'a ide_state_scheme \<Rightarrow> 'a ide_state_scheme option" where
  "channel_loop dv others channel_no 0 s = Some s"
| "channel_loop dv others channel_no (Suc n) s = do {
     (if channel_no < 2 then Some () else None);
     s \<leftarrow> channel_setup channel_no s;
     s \<leftarrow> disk_init dv others channel_no 0 s;
     s \<leftarrow> disk_init dv others channel_no 1 s;
     channel_loop dv others (Suc channel_no) n s
   }"

definition ide_init :: "device \<Rightarrow> ('a ide_state_scheme \<Rightarrow> 'a ide_state_scheme option) \<Rightarrow> 'a ide_state_scheme \<Rightarrow> 'a ide_state_scheme option" where
  "ide_init dv others s = do {
     s \<leftarrow> print_text others (''ide initialization start\<newline>'') [] s;
     let hd_cnt = (ucast (read32 (ram s) 0xc0000475) :: u8);
     ASSERT (hd_cnt > 0);
     let s = s\<lparr>g_channel_cnt := ucast (DIV_ROUND_UP (ucast hd_cnt) 2)\<rparr>;
     s \<leftarrow> channel_loop dv others 0 (unat (g_channel_cnt s)) s;
     print_text others (''ide initialization complete\<newline>'') [] s
   }"

section \<open>What a scan finds\<close>

text \<open>An entry of the table in the bytes of a sector: type, first sector, number of sectors.\<close>

definition le32 :: "(nat \<Rightarrow> u8) \<Rightarrow> nat \<Rightarrow> u32" where
  "le32 b j = ucast (b j) OR push_bit 8 (ucast (b (j + 1))) OR push_bit 16 (ucast (b (j + 2))) OR push_bit 24 (ucast (b (j + 3)))"

definition table_entry :: "(nat \<Rightarrow> u8) \<Rightarrow> nat \<Rightarrow> u8 \<times> u32 \<times> u32" where
  "table_entry b i = (b (450 + 16 * i), le32 b (454 + 16 * i), le32 b (458 + 16 * i))"

type_synonym extent = "u32 \<times> u32"

text \<open>
  The base of the extended partition (0 before it is met), the primary and the logical partitions. \<open>find_parts n sec ext i\<close>
  goes on with entry \<open>i\<close> of the table in sector \<open>ext\<close>; \<open>n\<close> bounds the steps. There is no result for a fourth primary or a
  ninth logical partition, nor for a table outside of what 28 bits address.
\<close>

primrec find_parts :: "nat \<Rightarrow> (u32 \<Rightarrow> nat \<Rightarrow> u8) \<Rightarrow> u32 \<Rightarrow> nat \<Rightarrow> u32 \<times> extent list \<times> extent list \<Rightarrow> (u32 \<times> extent list \<times> extent list) option" where
  "find_parts 0 sec ext i a = None"
| "find_parts (Suc n) sec ext i a =
     (if 4 \<le> i then Some a
      else (case table_entry (sec ext) i of (fs, start, sects) \<Rightarrow> case a of (base, ps, ls) \<Rightarrow>
        if fs = 5
        then if unat (base + start) < 2 ^ 28
             then find_parts n sec (base + start) 0 (if base = 0 then start else base, ps, ls) \<bind> find_parts n sec ext (Suc i)
             else None
        else if fs = 0 then find_parts n sec ext (Suc i) a
        else if ext = 0 then if length ps < 3 then find_parts n sec ext (Suc i) (base, ps @ [(start, sects)], ls) else None
        else if length ls < 8 then find_parts n sec ext (Suc i) (base, ps, ls @ [(ext + start, sects)]) else None))"

text \<open>The record of a disk holds what was found: number \<open>n\<close> is the one in the name of the partition.\<close>

definition is_part :: "nat \<times> nat \<Rightarrow> disk \<Rightarrow> partition \<Rightarrow> extent \<Rightarrow> nat \<Rightarrow> bool" where
  "is_part d D p e n \<longleftrightarrow> start_lba p = fst e \<and> sector_cnt p = snd e \<and> part_disk p = Some d \<and> part_name p = disk_name D @ digits 10 n"

definition parts_rep :: "nat \<times> nat \<Rightarrow> 'a ide_state_scheme \<Rightarrow> u32 \<times> extent list \<times> extent list \<Rightarrow> bool" where
  "parts_rep d s a \<longleftrightarrow> (case a of (base, ps, ls) \<Rightarrow> let D = the_disk d s in
     ext_lba_base s = base \<and> p_no s = of_nat (length ps) \<and> l_no s = of_nat (length ls) \<and> length ps \<le> 3 \<and> length ls \<le> 8 \<and>
     length (prim_parts D) = 4 \<and> length (logic_parts D) = 8 \<and> prim_cnt D = of_nat (length ps) \<and> logic_cnt D = of_nat (length ls) \<and>
     length (disk_name D) \<le> 5 \<and> (\<forall>j < length ps. is_part d D (prim_parts D ! j) (ps ! j) (j + 1)) \<and>
     (\<forall>j < length ls. is_part d D (logic_parts D ! j) (ls ! j) (j + 5)))"

section \<open>One partition\<close>

lemma of_nat_u8: "n < 256 \<Longrightarrow> unat (of_nat n :: u8) = n"
  by (simp add: unsigned_of_nat take_bit_nat_def)

lemma part_number:
  assumes "k < 9" and "b < 10"
  shows "decimal (ucast (of_nat k :: u8) + of_nat b) = digits 10 (k + b)"
proof -
  have "ucast (of_nat k :: u8) = (of_nat k :: u32)"
    using assms by (intro word_unat_eq_iff [THEN iffD2]) (simp add: unsigned_ucast_eq unsigned_take_bit_eq of_nat_u8 unat_of_nat_u32 take_bit_nat_def)
  then have e: "ucast (of_nat k :: u8) + of_nat b = (of_nat (k + b) :: u32)"
    by simp
  have u: "unat (of_nat (k + b) :: u32) = k + b"
    using assms by (intro unat_of_nat_u32) simp
  have "uint (of_nat (k + b) :: u32) = int (k + b)"
    using u by (metis of_nat_unat)
  then have "sint (of_nat (k + b) :: u32) = int (k + b)"
    unfolding sint_uint using assms by (simp add: signed_take_bit_int_eq_self del: of_nat_add)
  then have "\<not> (of_nat (k + b) :: u32) <s 0"
    by (simp add: word_sless_alt del: of_nat_add)
  then show ?thesis
    unfolding e by (simp add: decimal_def u del: of_nat_add)
qed

lemma name8_part:
  assumes "length nm \<le> 5" and "k < 9" and "b < 10"
  shows "name8 ''%s%d'' [FStr nm, FInt (ucast (of_nat k :: u8) + of_nat b)] = Some (nm @ digits 10 (k + b))"
proof -
  have "length (digits 10 (k + b)) \<le> 2"
    by (rule digits_bounds) (use assms in simp_all)
  then show ?thesis
    using assms(1) by (simp add: name8_def Let_def part_number [OF assms(2,3)])
qed

lemma the_disk_upd: "the_disk d (upd_disk d f s) = f (the_disk d s)"
  by (simp add: the_disk_def upd_disk_def upd_chan_def)

lemma add_primary_rep:
  assumes "parts_rep d s (base, ps, ls)" and "length ps < 3"
  obtains f x where "add_primary d lba sects s = Some ((upd_disk d f s)\<lparr>p_no := x\<rparr>)"
    and "\<And>D. disk_channel (f D) = disk_channel D \<and> dev_no (f D) = dev_no D"
    and "parts_rep d ((upd_disk d f s)\<lparr>p_no := x\<rparr>) (base, ps @ [(lba, sects)], ls)"
proof -
  let ?D = "the_disk d s" and ?n = "length ps"
  have r: "ext_lba_base s = base" "p_no s = of_nat ?n" "l_no s = of_nat (length ls)" "length ls \<le> 8"
      "length (prim_parts ?D) = 4" "length (logic_parts ?D) = 8" "prim_cnt ?D = of_nat ?n" "logic_cnt ?D = of_nat (length ls)" "length (disk_name ?D) \<le> 5"
      "\<forall>j < ?n. is_part d ?D (prim_parts ?D ! j) (ps ! j) (j + 1)" "\<forall>j < length ls. is_part d ?D (logic_parts ?D ! j) (ls ! j) (j + 5)"
    using assms(1) by (simp_all add: parts_rep_def Let_def)
  let ?nm = "disk_name ?D @ digits 10 (?n + 1)"
  let ?f = "\<lambda>d'. d'\<lparr>prim_parts := (prim_parts d')[?n := (prim_parts d' ! ?n)\<lparr>start_lba := lba, sector_cnt := sects, part_disk := Some d, part_name := ?nm\<rparr>],
      prim_cnt := prim_cnt d' + 1\<rparr>"
  let ?s = "(upd_disk d ?f s)\<lparr>p_no := of_nat (Suc ?n)\<rparr>"
  have u: "unat (of_nat ?n :: u8) = ?n" "unat (of_nat (Suc ?n) :: u8) = Suc ?n"
    using assms(2) by (intro of_nat_u8; simp)+
  have lt: "(of_nat (Suc ?n) :: u8) < 4"
    using assms(2) u(2) by (simp add: word_less_nat_alt del: of_nat_Suc)
  have nm: "name8 ''%s%d'' [FStr (disk_name ?D), FInt (ucast (of_nat ?n :: u8) + 1)] = Some ?nm"
    using name8_part [OF r(9), of ?n 1] assms(2) by simp
  have inc: "p_no (upd_disk d ?f s) + 1 = of_nat (Suc ?n)"
    using r(2) by (simp add: upd_disk_def upd_chan_def add.commute)
  have "add_primary d lba sects s = Some ?s"
    unfolding add_primary_def Let_def r(2) u(1) nm using assms(2) lt r(5) inc by (simp add: add.commute ASSERT_def)
  moreover have "the_disk d ?s = ?f ?D"
    by (simp add: the_disk_def upd_disk_def upd_chan_def)
  then have "parts_rep d ?s (base, ps @ [(lba, sects)], ls)"
    using r assms(2) unfolding parts_rep_def by (auto simp: Let_def is_part_def nth_append upd_disk_def upd_chan_def less_Suc_eq nth_list_update)
  ultimately show ?thesis
    by (intro that) simp_all
qed

lemma add_logical_rep:
  assumes "parts_rep d s (base, ps, ls)" and "length ls < 8"
  obtains f x where "add_logical d lba sects s = Some (False, (upd_disk d f s)\<lparr>l_no := x\<rparr>)"
    and "\<And>D. disk_channel (f D) = disk_channel D \<and> dev_no (f D) = dev_no D"
    and "parts_rep d ((upd_disk d f s)\<lparr>l_no := x\<rparr>) (base, ps, ls @ [(lba, sects)])"
proof -
  let ?D = "the_disk d s" and ?n = "length ls"
  have r: "ext_lba_base s = base" "p_no s = of_nat (length ps)" "l_no s = of_nat ?n" "length ps \<le> 3"
      "length (prim_parts ?D) = 4" "length (logic_parts ?D) = 8" "prim_cnt ?D = of_nat (length ps)" "logic_cnt ?D = of_nat ?n" "length (disk_name ?D) \<le> 5"
      "\<forall>j < length ps. is_part d ?D (prim_parts ?D ! j) (ps ! j) (j + 1)" "\<forall>j < ?n. is_part d ?D (logic_parts ?D ! j) (ls ! j) (j + 5)"
    using assms(1) by (simp_all add: parts_rep_def Let_def)
  let ?nm = "disk_name ?D @ digits 10 (?n + 5)"
  let ?f = "\<lambda>d'. d'\<lparr>logic_parts := (logic_parts d')[?n := (logic_parts d' ! ?n)\<lparr>start_lba := lba, sector_cnt := sects, part_disk := Some d, part_name := ?nm\<rparr>],
      logic_cnt := logic_cnt d' + 1\<rparr>"
  let ?s = "(upd_disk d ?f s)\<lparr>l_no := of_nat (Suc ?n)\<rparr>"
  have u: "unat (of_nat ?n :: u8) = ?n" "unat (of_nat (Suc ?n) :: u8) = Suc ?n"
    using assms(2) by (intro of_nat_u8; simp)+
  have lt: "\<not> (of_nat (Suc ?n) :: u8) > 8"
    using assms(2) u(2) by (simp add: word_less_nat_alt del: of_nat_Suc)
  have nm: "name8 ''%s%d'' [FStr (disk_name ?D), FInt (ucast (of_nat ?n :: u8) + 5)] = Some ?nm"
    using name8_part [OF r(9), of ?n 5] assms(2) by simp
  have inc: "l_no (upd_disk d ?f s) + 1 = of_nat (Suc ?n)"
    using r(3) by (simp add: upd_disk_def upd_chan_def add.commute)
  have "add_logical d lba sects s = Some (False, ?s)"
    unfolding add_logical_def Let_def r(3) u(1) nm using assms(2) lt r(6) inc by (simp add: add.commute)
  moreover have "the_disk d ?s = ?f ?D"
    by (simp add: the_disk_def upd_disk_def upd_chan_def)
  then have "parts_rep d ?s (base, ps, ls @ [(lba, sects)])"
    using r assms(2) unfolding parts_rep_def by (auto simp: Let_def is_part_def nth_append upd_disk_def upd_chan_def less_Suc_eq nth_list_update)
  ultimately show ?thesis
    by (intro that) simp_all
qed

section \<open>The scan\<close>

text \<open>The entries, read from a buffer that holds the sector.\<close>

lemma buffer_entry:
  assumes "\<forall>j < 512. m (p + of_nat j) = b j" and "i < 4"
  shows "table_entry b i = (pt_fs_type m (pt_entry p i), pt_start_lba m (pt_entry p i), pt_sector_cnt m (pt_entry p i))"
proof -
  have "m (p + of_nat (450 + 16 * i + c)) = b (450 + 16 * i + c)" if "c < 12" for c
    using assms that by (simp del: of_nat_add of_nat_mult of_nat_numeral)
  from this [of 0] this [of 4] this [of 5] this [of 6] this [of 7] this [of 8] this [of 9] this [of 10] this [of 11]
  show ?thesis
    by (simp add: table_entry_def le32_def pt_fs_type_def pt_start_lba_def pt_sector_cnt_def pt_entry_def read32_def add.assoc add.commute [of p] add.left_commute [of p])
qed

text \<open>What reading a sector keeps, and the buffers of the first \<open>N\<close> frames, which do not overlap.\<close>

definition keeps :: "nat \<times> nat \<Rightarrow> 'a ide_state_scheme \<Rightarrow> 'a ide_state_scheme \<Rightarrow> bool" where
  "keeps d s s' \<longleftrightarrow> the_disk d s' = the_disk d s \<and> ext_lba_base s' = ext_lba_base s \<and> p_no s' = p_no s \<and> l_no s' = l_no s \<and> scan_buf s' = scan_buf s"

lemma parts_rep_keeps: "keeps d s s' \<Longrightarrow> parts_rep d s' a = parts_rep d s a"
  by (simp add: keeps_def parts_rep_def)

definition bufs_ok :: "(nat \<Rightarrow> u32) \<Rightarrow> nat \<Rightarrow> bool" where
  "bufs_ok bufs N \<longleftrightarrow> (\<forall>j < N. bufs j \<noteq> NULL) \<and> (\<forall>i < N. \<forall>j < N. i \<noteq> j \<longrightarrow> span (bufs i) 512 \<inter> span (bufs j) 512 = {})"

text \<open>Memory differs in the buffers of deeper frames only.\<close>

definition below_same :: "(nat \<Rightarrow> u32) \<Rightarrow> nat \<Rightarrow> nat \<Rightarrow> mem \<Rightarrow> mem \<Rightarrow> bool" where
  "below_same bufs depth N m m' \<longleftrightarrow> (\<forall>x. (\<forall>j. depth < j \<and> j < N \<longrightarrow> x \<notin> span (bufs j) 512) \<longrightarrow> m' x = m x)"

lemma below_same_refl [simp]: "below_same bufs depth N m m"
  by (simp add: below_same_def)

lemma below_same_trans: "below_same bufs i N m1 m2 \<Longrightarrow> below_same bufs j N m2 m3 \<Longrightarrow> depth \<le> i \<Longrightarrow> depth \<le> j \<Longrightarrow> below_same bufs depth N m1 m3"
  by (auto simp: below_same_def)

lemma below_same_buffer:
  assumes "bufs_ok bufs N" and "depth < N" and "below_same bufs depth N m m'" and "j < 512"
  shows "m' (bufs depth + of_nat j) = m (bufs depth + of_nat j)"
proof -
  have "bufs depth + of_nat j \<in> span (bufs depth) 512"
    by (rule span_memI [OF assms(4)])
  then have "bufs depth + of_nat j \<notin> span (bufs i) 512" if "depth < i" "i < N" for i
    using assms(1,2) that unfolding bufs_ok_def by (metis disjoint_iff nat_neq_iff)
  then show ?thesis
    using assms(3) by (simp add: below_same_def)
qed

locale sector_source =
  fixes read :: "u32 \<Rightarrow> u32 \<Rightarrow> 'a ide_state_scheme \<Rightarrow> 'a ide_state_scheme option"
    and d :: "nat \<times> nat"
    and ready :: "'a ide_state_scheme \<Rightarrow> bool"
    and sec :: "u32 \<Rightarrow> nat \<Rightarrow> u8"
  assumes read_sector: "ready s \<Longrightarrow> unat lba < 2 ^ 28 \<Longrightarrow> \<exists>s'. read lba p s = Some s' \<and> ready s' \<and> keeps d s s' \<and>
      (\<forall>j < 512. ram s' (p + of_nat j) = sec lba j) \<and> (\<forall>a. a \<notin> span p 512 \<longrightarrow> ram s' a = ram s a)"
    and ready_ram: "ready s \<Longrightarrow> ready (s\<lparr>ram := m\<rparr>)"
    and ready_base: "ready s \<Longrightarrow> ready (s\<lparr>ext_lba_base := x\<rparr>)"
    and ready_p_no: "ready s \<Longrightarrow> ready (s\<lparr>p_no := y\<rparr>)"
    and ready_l_no: "ready s \<Longrightarrow> ready (s\<lparr>l_no := y\<rparr>)"
    and ready_disk: "ready s \<Longrightarrow> (\<And>D. disk_channel (f D) = disk_channel D \<and> dev_no (f D) = dev_no D) \<Longrightarrow> ready (upd_disk d f s)"
begin

lemma scan_read_ok:
  assumes "ready s" and "unat lba < 2 ^ 28" and "scan_buf s n \<noteq> NULL"
  obtains s' where "scan_read read n lba s = Some s'" and "ready s'" and "keeps d s s'"
    and "\<forall>j < 512. ram s' (scan_buf s n + of_nat j) = sec lba j" and "\<And>a. a \<notin> span (scan_buf s n) 512 \<Longrightarrow> ram s' a = ram s a"
proof -
  let ?m = "\<lambda>a. if a \<in> span (scan_buf s n) 512 then 0 else ram s a"
  have ms: "memset (ram s) (scan_buf s n) 0 512 = Some ?m"
    using memset_eq [OF assms(3), of "ram s" 0 512] by simp
  obtain s' where "read lba (scan_buf s n) (s\<lparr>ram := ?m\<rparr>) = Some s'" "ready s'" "keeps d (s\<lparr>ram := ?m\<rparr>) s'"
      "\<forall>j < 512. ram s' (scan_buf s n + of_nat j) = sec lba j" "\<forall>a. a \<notin> span (scan_buf s n) 512 \<longrightarrow> ram s' a = ram (s\<lparr>ram := ?m\<rparr>) a"
    using read_sector [OF ready_ram [OF assms(1)] assms(2)] by blast
  then show ?thesis
    using ms by (intro that [of s']) (simp_all add: scan_read_def keeps_def the_disk_def)
qed

lemma scan_from_finds:
  assumes "find_parts n sec ext i a = Some a'" and "ready s" and "parts_rep d s a" and "bufs_ok (scan_buf s) N" and "depth + n < N"
    and "\<forall>j < 512. ram s (scan_buf s depth + of_nat j) = sec ext j"
  shows "\<exists>s'. scan_from read d depth ext i s = Some s' \<and> ready s' \<and> parts_rep d s' a' \<and> scan_buf s' = scan_buf s \<and>
    below_same (scan_buf s) depth N (ram s) (ram s')"
  using assms
proof (induction n arbitrary: ext i a a' s depth)
  case (Suc n)
  show ?case
  proof (cases "4 \<le> i")
    case True
    then show ?thesis
      using Suc.prems(1,2,3) by (subst scan_from.simps) simp
  next
    case False
    let ?e = "pt_entry (scan_buf s depth) i"
    obtain base ps ls where a: "a = (base, ps, ls)"
      by (cases a) auto
    have base: "ext_lba_base s = base"
      using Suc.prems(3) by (simp add: parts_rep_def a Let_def)
    obtain fs start sects where e: "table_entry (sec ext) i = (fs, start, sects)" "pt_fs_type (ram s) ?e = fs" "pt_start_lba (ram s) ?e = start"
        "pt_sector_cnt (ram s) ?e = sects"
      using buffer_entry [OF Suc.prems(6)] False by simp
    have step: "scan_from read d depth ext i s = (if fs = 5
               then do {
                 let (child, s) = (if base \<noteq> 0 then (start + base, s) else (start, s\<lparr>ext_lba_base := start\<rparr>));
                 s \<leftarrow> scan_read read (Suc depth) child s;
                 s \<leftarrow> scan_from read d (Suc depth) child 0 s;
                 scan_from read d depth ext (Suc i) s
               }
               else if fs \<noteq> 0
               then if ext = 0
                    then do { s \<leftarrow> add_primary d (ext + start) sects s; scan_from read d depth ext (Suc i) s }
                    else do {
                      (stop, s) \<leftarrow> add_logical d (ext + start) sects s;
                      if stop then Some s else scan_from read d depth ext (Suc i) s
                    }
               else scan_from read d depth ext (Suc i) s)"
      using False by (subst scan_from.simps) (simp only: Let_def e(2-4) base, simp)
    have find: "(if fs = 5
        then if unat (base + start) < 2 ^ 28
             then find_parts n sec (base + start) 0 (if base = 0 then start else base, ps, ls) \<bind> find_parts n sec ext (Suc i)
             else None
        else if fs = 0 then find_parts n sec ext (Suc i) (base, ps, ls)
        else if ext = 0 then if length ps < 3 then find_parts n sec ext (Suc i) (base, ps @ [(start, sects)], ls) else None
        else if length ls < 8 then find_parts n sec ext (Suc i) (base, ps, ls @ [(ext + start, sects)]) else None) = Some a'"
      using Suc.prems(1) False by (simp only: find_parts.simps a e(1) prod.case if_False)
    have next_entry: "\<exists>s'. scan_from read d depth ext (Suc i) t = Some s' \<and> ready s' \<and> parts_rep d s' a' \<and> scan_buf s' = scan_buf s \<and>
        below_same (scan_buf s) depth N (ram s) (ram s')"
      if "find_parts n sec ext (Suc i) b = Some a'" "ready t" "parts_rep d t b" "scan_buf t = scan_buf s" "below_same (scan_buf s) depth N (ram s) (ram t)" for b t
    proof -
      note t = that
      have buf: "\<forall>j < 512. ram t (scan_buf s depth + of_nat j) = sec ext j"
        using below_same_buffer [OF Suc.prems(4) _ t(5)] Suc.prems(5,6) by simp
      obtain s' where "scan_from read d depth ext (Suc i) t = Some s'" "ready s'" "parts_rep d s' a'" "scan_buf s' = scan_buf s"
          "below_same (scan_buf s) depth N (ram t) (ram s')"
        using Suc.IH [OF t(1-3), of depth] Suc.prems(4,5) buf unfolding t(4) by auto
      then show ?thesis
        using below_same_trans [OF t(5)] by blast
    qed
    consider "fs = 5" | "fs = 0" | "fs \<notin> {0, 5}" "ext = 0" | "fs \<notin> {0, 5}" "ext \<noteq> 0"
      by blast
    then show ?thesis
    proof cases
      case 1
      let ?base = "if base = 0 then start else base" and ?s1 = "if base \<noteq> 0 then s else s\<lparr>ext_lba_base := start\<rparr>"
      obtain a1 where f: "unat (base + start) < 2 ^ 28" "find_parts n sec (base + start) 0 (?base, ps, ls) = Some a1" "find_parts n sec ext (Suc i) a1 = Some a'"
        using find 1 by (auto split: if_splits Option.bind_splits)
      have s1: "ready ?s1" "scan_buf ?s1 = scan_buf s" "ram ?s1 = ram s" "parts_rep d ?s1 (?base, ps, ls)"
        using Suc.prems(2,3) by (auto simp: ready_base parts_rep_def a Let_def the_disk_def)
      have "scan_buf ?s1 (Suc depth) \<noteq> NULL"
        using Suc.prems(4,5) unfolding s1(2) by (simp add: bufs_ok_def)
      then obtain s2 where s2: "scan_read read (Suc depth) (base + start) ?s1 = Some s2" "ready s2" "keeps d ?s1 s2"
          "\<forall>j < 512. ram s2 (scan_buf s (Suc depth) + of_nat j) = sec (base + start) j" "\<And>a. a \<notin> span (scan_buf s (Suc depth)) 512 \<Longrightarrow> ram s2 a = ram s a"
        using scan_read_ok [OF s1(1) f(1)] unfolding s1(2,3) by metis
      have b2: "scan_buf s2 = scan_buf s" "parts_rep d s2 (?base, ps, ls)"
        using s2(3) s1(2,4) parts_rep_keeps [OF s2(3)] by (simp_all add: keeps_def)
      obtain s3 where s3: "scan_from read d (Suc depth) (base + start) 0 s2 = Some s3" "ready s3" "parts_rep d s3 a1" "scan_buf s3 = scan_buf s"
          "below_same (scan_buf s) (Suc depth) N (ram s2) (ram s3)"
        using Suc.IH [OF f(2) s2(2) b2(2), of "Suc depth"] Suc.prems(4,5) s2(4) unfolding b2(1) by auto
      have "below_same (scan_buf s) depth N (ram s) (ram s2)"
        using s2(5) Suc.prems(5) by (auto simp: below_same_def)
      then have "below_same (scan_buf s) depth N (ram s) (ram s3)"
        using below_same_trans [OF _ s3(5)] by simp
      then show ?thesis
        using next_entry [OF f(3) s3(2-4)] s2(1) s3(1) unfolding step by (simp add: 1 add.commute split: if_splits)
    next
      case 2
      then show ?thesis
        using next_entry [of "(base, ps, ls)" s] find Suc.prems(2,3) a unfolding step by simp
    next
      case 3
      then have f: "length ps < 3" "find_parts n sec ext (Suc i) (base, ps @ [(start, sects)], ls) = Some a'"
        using find by (auto split: if_splits)
      obtain f x where add: "add_primary d start sects s = Some ((upd_disk d f s)\<lparr>p_no := x\<rparr>)" "\<And>D. disk_channel (f D) = disk_channel D \<and> dev_no (f D) = dev_no D"
          "parts_rep d ((upd_disk d f s)\<lparr>p_no := x\<rparr>) (base, ps @ [(start, sects)], ls)"
        by (rule add_primary_rep [OF Suc.prems(3) [unfolded a] f(1)]) (rule that)
      have "ready ((upd_disk d f s)\<lparr>p_no := x\<rparr>)"
        by (rule ready_p_no [OF ready_disk [OF Suc.prems(2) add(2)]])
      then show ?thesis
        using next_entry [OF f(2) _ add(3)] add(1) 3 unfolding step by (simp add: upd_disk_def upd_chan_def)
    next
      case 4
      then have f: "length ls < 8" "find_parts n sec ext (Suc i) (base, ps, ls @ [(ext + start, sects)]) = Some a'"
        using find by (auto split: if_splits)
      obtain f x where add: "add_logical d (ext + start) sects s = Some (False, (upd_disk d f s)\<lparr>l_no := x\<rparr>)" "\<And>D. disk_channel (f D) = disk_channel D \<and> dev_no (f D) = dev_no D"
          "parts_rep d ((upd_disk d f s)\<lparr>l_no := x\<rparr>) (base, ps, ls @ [(ext + start, sects)])"
        by (rule add_logical_rep [OF Suc.prems(3) [unfolded a] f(1)]) (rule that)
      have "ready ((upd_disk d f s)\<lparr>l_no := x\<rparr>)"
        by (rule ready_l_no [OF ready_disk [OF Suc.prems(2) add(2)]])
      then show ?thesis
        using next_entry [OF f(2) _ add(3)] add(1) 4 unfolding step by (simp add: upd_disk_def upd_chan_def)
    qed
  qed
qed simp

lemma partition_scan_ok:
  assumes "find_parts n sec 0 0 (0, [], []) = Some a" and "ready s" and "parts_rep d s (0, [], [])" and "bufs_ok (scan_buf s) N" and "n < N"
  shows "\<exists>s'. partition_scan read d 0 s = Some s' \<and> ready s' \<and> parts_rep d s' a"
proof -
  have nz: "scan_buf s 0 \<noteq> NULL"
    using assms(4,5) by (simp add: bufs_ok_def)
  obtain s1 where s1: "scan_read read 0 0 s = Some s1" "ready s1" "keeps d s s1" "\<forall>j < 512. ram s1 (scan_buf s 0 + of_nat j) = sec 0 j"
    by (rule scan_read_ok [OF assms(2) _ nz, of 0]) (simp, rule that)
  have b: "scan_buf s1 = scan_buf s"
    using s1(3) by (simp add: keeps_def)
  have "parts_rep d s1 (0, [], [])"
    using parts_rep_keeps [OF s1(3)] assms(3) by blast
  then show ?thesis
    using scan_from_finds [OF assms(1) s1(2), of N 0] assms(4,5) s1(1,4) by (auto simp: partition_scan_def b)
qed

text \<open>A table whose first entry links to the table itself is read for ever, each time one frame deeper.\<close>

lemma scan_from_cycle:
  assumes run: "scan_from read d depth ext 0 s = Some s'" and ready: "ready s" and base: "ext_lba_base s = ext" "ext \<noteq> 0" "unat ext < 2 ^ 28"
    and buf: "\<forall>j < 512. ram s (scan_buf s depth + of_nat j) = sec ext j" and entry: "table_entry (sec ext) 0 = (5, 0, n)"
  shows False
proof -
  let ?hyp = "\<lambda>rd hd_disk depth e i s. rd = read \<and> hd_disk = d \<and> e = ext \<and> i = (0 :: nat) \<and> ready s \<and> ext_lba_base s = ext \<and>
    (\<forall>j < 512. ram s (scan_buf s depth + of_nat j) = sec ext j)"
  have "\<not> ?hyp read d depth ext 0 s"
  proof (rule scan_from.raw_induct [where P = "\<lambda>rd hd_disk depth e i s r. \<not> ?hyp rd hd_disk depth e i s", OF _ run], rule notI, elim conjE)
    fix f rd hd_disk depth e i s r
    assume IH: "\<And>rd hd_disk depth e i s r. f rd hd_disk depth e i s = Some r \<Longrightarrow> \<not> ?hyp rd hd_disk depth e i s"
      and step: "(if i < 4
      then (let en = pt_entry (scan_buf s depth) i; fs = pt_fs_type (ram s) en; start = pt_start_lba (ram s) en; sects = pt_sector_cnt (ram s) en
            in if fs = 5
               then do {
                 let (child, s) = (if ext_lba_base s \<noteq> 0 then (start + ext_lba_base s, s) else (start, s\<lparr>ext_lba_base := start\<rparr>));
                 s \<leftarrow> scan_read rd (Suc depth) child s;
                 s \<leftarrow> f rd hd_disk (Suc depth) child 0 s;
                 f rd hd_disk depth e (Suc i) s
               }
               else if fs \<noteq> 0
               then if e = 0
                    then do { s \<leftarrow> add_primary hd_disk (e + start) sects s; f rd hd_disk depth e (Suc i) s }
                    else do {
                      (stop, s) \<leftarrow> add_logical hd_disk (e + start) sects s;
                      if stop then Some s else f rd hd_disk depth e (Suc i) s
                    }
               else f rd hd_disk depth e (Suc i) s)
      else Some s) = Some r"
      and h: "rd = read" "hd_disk = d" "e = ext" "i = 0" "ready s" "ext_lba_base s = ext" "\<forall>j < 512. ram s (scan_buf s depth + of_nat j) = sec ext j"
    have "pt_fs_type (ram s) (pt_entry (scan_buf s depth) 0) = 5" "pt_start_lba (ram s) (pt_entry (scan_buf s depth) 0) = 0"
      using buffer_entry [OF h(7), of 0] entry by simp_all
    then obtain s1 s2 where s1: "scan_read read (Suc depth) ext s = Some s1" "f read d (Suc depth) ext 0 s1 = Some s2"
      using step base(2) by (auto simp: h(1-4,6) Let_def split: Option.bind_splits)
    have "scan_buf s (Suc depth) \<noteq> NULL"
      using s1(1) by (auto simp: scan_read_def memset_def ASSERT_def)
    then obtain s1' where "scan_read read (Suc depth) ext s = Some s1'" "ready s1'" "keeps d s s1'"
        "\<forall>j < 512. ram s1' (scan_buf s (Suc depth) + of_nat j) = sec ext j"
      by (rule scan_read_ok [OF h(5) base(3)]) (rule that)
    then have "?hyp read d (Suc depth) ext 0 s1"
      using s1(1) h(6) by (simp add: keeps_def)
    then show False
      using IH [OF s1(2)] by blast
  qed
  then show False
    using ready base(1) buf by simp
qed

lemma partition_scan_cycle:
  assumes "ready s" and "ext_lba_base s = 0" and "table_entry (sec 0) 0 = (5, base, m)" and "table_entry (sec base) 0 = (5, 0, n)"
    and "base \<noteq> 0" and "unat base < 2 ^ 28"
  shows "partition_scan read d 0 s = None"
proof (rule ccontr)
  assume "partition_scan read d 0 s \<noteq> None"
  then obtain r s1 where s1: "scan_read read 0 0 s = Some s1" "scan_from read d 0 0 0 s1 = Some r"
    by (auto simp: partition_scan_def split: Option.bind_splits)
  have nz: "scan_buf s 0 \<noteq> NULL"
    using s1(1) by (auto simp: scan_read_def memset_def ASSERT_def)
  have k: "ready s1" "keeps d s s1" "\<forall>j < 512. ram s1 (scan_buf s1 0 + of_nat j) = sec 0 j"
    by (rule scan_read_ok [OF assms(1) _ nz, of 0]; use s1(1) in \<open>simp add: keeps_def\<close>)+
  have "pt_fs_type (ram s1) (pt_entry (scan_buf s1 0) 0) = 5" "pt_start_lba (ram s1) (pt_entry (scan_buf s1 0) 0) = base"
    using buffer_entry [OF k(3), of 0] assms(3) by simp_all
  moreover have "ext_lba_base s1 = 0"
    using k(2) assms(2) by (simp add: keeps_def)
  ultimately obtain s2 s3 where s2: "scan_read read 1 base (s1\<lparr>ext_lba_base := base\<rparr>) = Some s2" "scan_from read d 1 base 0 s2 = Some s3"
    using s1(2) by (subst (asm) scan_from.simps) (auto simp: Let_def split: Option.bind_splits)
  let ?s1 = "s1\<lparr>ext_lba_base := base\<rparr>"
  have nz: "scan_buf ?s1 1 \<noteq> NULL"
    using s2(1) by (auto simp: scan_read_def memset_def ASSERT_def)
  have "ready s2" "keeps d ?s1 s2" "\<forall>j < 512. ram s2 (scan_buf ?s1 1 + of_nat j) = sec base j"
    by (rule scan_read_ok [OF ready_base [OF k(1)] assms(6) nz]; use s2(1) in simp)+
  then show False
    using scan_from_cycle [OF s2(2) _ _ assms(5,6) _ assms(4)] by (simp add: keeps_def)
qed

end

text \<open>The byte \<open>j\<close> of a sector, in the words of the disk.\<close>

definition sector_byte :: "(nat \<Rightarrow> u16) \<Rightarrow> u32 \<Rightarrow> nat \<Rightarrow> u8" where
  "sector_byte content lba j = (let w = content (256 * unat lba + j div 2) in if even j then ucast w else ucast (drop_bit 8 w))"

definition disk_ready :: "device \<Rightarrow> nat \<Rightarrow> (nat \<Rightarrow> u16) \<Rightarrow> nat \<times> nat \<Rightarrow> 'a ide_state_scheme \<Rightarrow> bool" where
  "disk_ready dv k content d s \<longleftrightarrow> ata_disk dv (port_base (g_channels s k)) (dev_no (the_disk d s) = 1) content \<and> drv_ok d k s \<and>
     lock_free (chan_lock (g_channels s k)) s \<and> disk_ok (g_channels s k) \<noteq> lock_semaphore (chan_lock (g_channels s k))"

lemma load_word_bytes: "load_word m p = w \<Longrightarrow> m p = ucast w \<and> m (p + 1) = ucast (drop_bit 8 w)"
proof -
  have "\<not> bit (m p) (8 + n)" for n
    using bit_imp_le_length [of "m p" "8 + n"] by auto
  then show "load_word m p = w \<Longrightarrow> m p = ucast w \<and> m (p + 1) = ucast (drop_bit 8 w)"
    unfolding load_word_def by (auto intro!: bit_word_eqI simp: bit_simps)
qed

lemma ide_read_sector:
  fixes s :: "'a ide_state_scheme"
  assumes "disk_ready dv k content d s" and "unat lba < 2 ^ 28"
  shows "\<exists>s'. ide_read dv (disk_interrupt dv (0x2e + of_nat k)) d lba p 1 s = Some s' \<and> disk_ready dv k content d s' \<and> keeps d s s' \<and>
      (\<forall>j < 512. ram s' (p + of_nat j) = sector_byte content lba j) \<and> (\<forall>a. a \<notin> span p 512 \<longrightarrow> ram s' a = ram s a)"
proof -
  have r: "ata_disk dv (port_base (g_channels s k)) (dev_no (the_disk d s) = 1) content" "drv_ok d k s" "lock_free (chan_lock (g_channels s k)) s"
      "disk_ok (g_channels s k) \<noteq> lock_semaphore (chan_lock (g_channels s k))" "irq_no (g_channels s k) = 0x2e + of_nat k"
    using assms(1) by (simp_all add: disk_ready_def drv_ok_def)
  have q: "0 < (1 :: u32)" "unat lba + unat (1 :: u32) \<le> 2 ^ 28" "(unat lba + unat (1 :: u32) - 1) div 2 ^ 24 = unat lba div 2 ^ 24" "512 * unat (1 :: u32) \<le> 2 ^ 32"
    using assms(2) by simp_all
  obtain s' where s': "ide_read dv (disk_interrupt dv (0x2e + of_nat k)) d lba p 1 s = Some s'"
      "\<forall>i < 256 * unat (1 :: u32). load_word (ram s') (p + 2 * of_nat i) = content (256 * unat lba + i)"
      "\<forall>a. unat (a - p) \<ge> 512 * unat (1 :: u32) \<longrightarrow> ram s' a = ram s a" "drv_frame k s s'" "drv_ok d k s'" "lock_free (chan_lock (g_channels s' k)) s'"
    using ide_read_sectors [OF r(1-4) q, of p] unfolding r(5) by blast
  have "disk_ready dv k content d s'" "keeps d s s'"
    using r s'(4-6) by (auto simp: disk_ready_def drv_frame_def keeps_def the_disk_def)
  moreover have "ram s' (p + of_nat j) = sector_byte content lba j" if "j < 512" for j
  proof -
    have "j div 2 < 256" "j = 2 * (j div 2) \<or> j = 2 * (j div 2) + 1"
      using that by auto
    then obtain i where i: "i < 256" "j = 2 * i \<or> j = 2 * i + 1"
      by blast
    then have "ram s' (p + 2 * of_nat i) = ucast (content (256 * unat lba + i)) \<and> ram s' (p + 2 * of_nat i + 1) = ucast (drop_bit 8 (content (256 * unat lba + i)))"
      using s'(2) by (intro load_word_bytes) simp
    then show ?thesis
      using i(2) by (auto simp: sector_byte_def Let_def add.assoc add.commute [of 1])
  qed
  moreover have "ram s' a = ram s a" if "a \<notin> span p 512" for a
  proof -
    have "512 \<le> unat (a - p)"
    proof (rule ccontr)
      assume "\<not> 512 \<le> unat (a - p)"
      then have "p + of_nat (unat (a - p)) \<in> span p 512"
        by (intro span_memI) simp
      then show False
        using that by simp
    qed
    then show ?thesis
      using s'(3) by simp
  qed
  ultimately show ?thesis
    using s'(1) by blast
qed

interpretation ide_source: sector_source "\<lambda>lba buf. ide_read dv (disk_interrupt dv (0x2e + of_nat k)) d lba buf 1" d "disk_ready dv k content d" "sector_byte content"
  for dv k content d
proof unfold_locales
  fix s :: "'a ide_state_scheme" and lba p :: u32
  assume "disk_ready dv k content d s" "unat lba < 2 ^ 28"
  then show "\<exists>s'. ide_read dv (disk_interrupt dv (0x2e + of_nat k)) d lba p 1 s = Some s' \<and> disk_ready dv k content d s' \<and> keeps d s s' \<and>
      (\<forall>j < 512. ram s' (p + of_nat j) = sector_byte content lba j) \<and> (\<forall>a. a \<notin> span p 512 \<longrightarrow> ram s' a = ram s a)"
    by (rule ide_read_sector)
next
  fix s :: "'a ide_state_scheme" and f :: "disk \<Rightarrow> disk"
  assume "disk_ready dv k content d s" and f: "\<And>D. disk_channel (f D) = disk_channel D \<and> dev_no (f D) = dev_no D"
  then show "disk_ready dv k content d (upd_disk d f s)"
    by (auto simp: disk_ready_def drv_ok_def the_disk_def upd_disk_def upd_chan_def lock_free_def sched_ok_def)
qed (auto simp: disk_ready_def drv_ok_def the_disk_def lock_free_def sched_ok_def)

text \<open>What \<open>printk\<close> of these functions does when the console is free.\<close>

lemma print_text_eq:
  fixes s :: "'a ide_state_scheme"
  assumes "lock_free (console_lock s) s" and "0 \<notin> set (render (map of_char fmt) args)"
  shows "print_text others fmt args s = Some (s\<lparr>screen := screen s @ render (map of_char fmt) args\<rparr>)"
proof -
  let ?s' = "s\<lparr>screen := screen s @ render (map of_char fmt) args\<rparr>"
  have "lock_free (console_lock s) ?s'"
    using assms(1) by simp
  note klock.release_held [OF this]
  moreover have f: "fold put_char (render (map of_char fmt) args) t = t\<lparr>screen := screen t @ render (map of_char fmt) args\<rparr>" for t :: "'a ide_state_scheme"
    by (rule fold_put_char [OF assms(2)])
  ultimately show ?thesis
    using klock.acquire_free [OF assms(1)] f by (simp add: print_text_def lock_wait_def Let_def) (simp add: lock_held_def upd_lock_def upd_sema_def)
qed

lemma channels_of_disks: "unat (ucast (DIV_ROUND_UP (ucast n) 2) :: u8) = (unat (n :: u8) + 1) div 2"
proof -
  have n: "unat n < 256"
    using unsigned_less [of n] by simp
  have "unat (1 + ucast n :: u32) = Suc (unat n)"
    using n by (subst unat_add_u32) (simp_all add: unsigned_ucast_eq take_bit_nat_def)
  then have "unat (DIV_ROUND_UP (ucast n) 2) = (unat n + 1) div 2"
    by (simp add: DIV_ROUND_UP_def unat_div)
  then show ?thesis
    using n by (simp add: unsigned_ucast_eq unsigned_take_bit_eq take_bit_nat_def)
qed

section \<open>Properties\<close>

text \<open>
  C6: The scan of the first disk refines \<open>find_parts\<close>. The disk obeys its interface, the driver can read, the static
  counters are 0 and the buffers of the first \<open>N\<close> frames do not overlap. When the walk over the tables of the disk finds
  something in fewer than \<open>N\<close> steps, \<open>partition_scan\<close> returns, and the record of the disk holds the partitions found, in order,
  each with its first sector, size, disk and name (\<open>sda1\<close> to \<open>sda3\<close> for primary ones, \<open>sda5\<close> and on for logical ones).
\<close>

theorem partition_scan_finds:
  assumes "find_parts n (sector_byte content) 0 0 (0, [], []) = Some (base, ps, ls)" and "disk_ready dv k content d s"
    and "parts_rep d s (0, [], [])" and "bufs_ok (scan_buf s) N" and "n < N"
  shows "\<exists>s'. partition_scan (\<lambda>lba buf. ide_read dv (disk_interrupt dv (0x2e + of_nat k)) d lba buf 1) d 0 s = Some s' \<and>
    disk_ready dv k content d s' \<and> length ps \<le> 3 \<and> length ls \<le> 8 \<and>
    prim_cnt (the_disk d s') = of_nat (length ps) \<and> logic_cnt (the_disk d s') = of_nat (length ls) \<and>
    (\<forall>j < length ps. is_part d (the_disk d s') (prim_parts (the_disk d s') ! j) (ps ! j) (j + 1)) \<and>
    (\<forall>j < length ls. is_part d (the_disk d s') (logic_parts (the_disk d s') ! j) (ls ! j) (j + 5))"
  using ide_source.partition_scan_ok [OF assms] by (auto simp: parts_rep_def Let_def)

text \<open>
  C36: Nothing ends the walk along the chain of extended tables but the chain itself. When the first table links to an extended
  partition whose table links to itself, \<open>partition_scan\<close> does not return: it reads the same sector again, each time one frame deeper.
\<close>

theorem cyclic_chain_hangs:
  assumes "disk_ready dv k content d s" and "ext_lba_base s = 0"
    and "table_entry (sector_byte content 0) 0 = (5, base, m)" and "table_entry (sector_byte content base) 0 = (5, 0, n)"
    and "base \<noteq> 0" and "unat base < 2 ^ 28"
  shows "partition_scan (\<lambda>lba buf. ide_read dv (disk_interrupt dv (0x2e + of_nat k)) d lba buf 1) d 0 s = None"
  by (rule ide_source.partition_scan_cycle [OF assms])

text \<open>
  The fourth primary partition and the ninth logical one are fatal. The assertion \<open>p_no < 4\<close> is tested after the increment, so with three primary partitions
  recorded another entry of the first table ends in \<open>ASSERT\<close>, although the array has four elements; the limit of logical partitions is tested after the
  element behind the array was written.
\<close>

theorem too_many_partitions:
  "(p_no s = 3 \<longrightarrow> add_primary d lba sects s = None) \<and>
   (length (logic_parts (the_disk d s)) \<le> unat (l_no s) \<longrightarrow> add_logical d lba sects s = None)"
  by (auto simp: add_primary_def add_logical_def Let_def ASSERT_def upd_disk_def upd_chan_def split: Option.bind_split)

text \<open>
  The counters are static and not reset for the next disk. When the disks before have \<open>q > 0\<close> primary partitions, the first one
  of the next disk is written to element \<open>q\<close> while \<open>prim_cnt\<close> becomes 1: element 0, the one \<open>partition_info\<close> prints, is not it.
\<close>

theorem second_disk_misplaced:
  assumes "p_no s = of_nat q" and "0 < q" and "q < 3" and "length (prim_parts (the_disk d s)) = 4" and "prim_cnt (the_disk d s) = 0" and "length (disk_name (the_disk d s)) \<le> 5"
  shows "\<exists>s'. add_primary d lba sects s = Some s' \<and> prim_cnt (the_disk d s') = 1 \<and> prim_parts (the_disk d s') ! 0 = prim_parts (the_disk d s) ! 0 \<and>
    is_part d (the_disk d s') (prim_parts (the_disk d s') ! q) (lba, sects) (q + 1)"
proof -
  let ?D = "the_disk d s"
  have u: "unat (of_nat q :: u8) = q" "unat (of_nat (Suc q) :: u8) = Suc q"
    using assms(3) by (intro of_nat_u8; simp)+
  have lt: "of_nat (Suc q) < (4 :: u8)"
    using assms(3) u(2) by (simp add: word_less_nat_alt del: of_nat_Suc)
  have nm: "name8 ''%s%d'' [FStr (disk_name ?D), FInt (ucast (of_nat q :: u8) + 1)] = Some (disk_name ?D @ digits 10 (q + 1))"
    using name8_part [OF assms(6), of q 1] assms(3) by simp
  show ?thesis
    unfolding add_primary_def Let_def assms(1) u(1) nm using assms(2-5) lt
    by (simp add: ASSERT_def the_disk_upd is_part_def) (simp add: the_disk_def upd_disk_def upd_chan_def assms(1) add.commute)
qed

text \<open>
  The set-up of a channel makes the driver's state: the ports and the line of the channel, the handler in the table, the
  lock free, the semaphore 0 and no wait for an interrupt.
\<close>

theorem channel_setup_ready:
  assumes "k < 2" and "length (irqaction s) = 129" and "hard_disk_addr s \<noteq> NULL" and "current_task s \<noteq> NULL"
    and "disk_ok (g_channels s k) \<noteq> lock_semaphore (chan_lock (g_channels s k))"
  shows "\<exists>s'. channel_setup k s = Some s' \<and> port_base (g_channels s' k) = (if k = 0 then 0x1f0 else 0x170) \<and> irq_no (g_channels s' k) = 0x2e + of_nat k \<and>
    irqaction s' ! unat (irq_no (g_channels s' k)) = hard_disk_addr s \<and> chan_name (g_channels s' k) = map of_char (''ide'' @ [CHR ''0'', CHR ''1''] ! k # []) \<and>
    \<not> wait_intr (g_channels s' k) \<and> lock_free (chan_lock (g_channels s' k)) s' \<and> semas s' (disk_ok (g_channels s' k)) = \<lparr>sem_value = 0, waiter_queue = queue_init\<rparr>"
proof -
  have d: "decimal 0 = [48]" "decimal 1 = [49]"
    by (simp_all add: decimal_def digits.simps digit_char_def word_sless_alt)
  have n: "name8 ''ide%d'' [FInt (of_nat k)] = Some (map of_char (''ide'' @ [CHR ''0'', CHR ''1''] ! k # []))"
    using assms(1) by (auto simp: name8_def Let_def d less_2_cases_iff)
  show ?thesis
  proof (cases "k = 0")
    case True
    show ?thesis
      using assms(2-5) n by (simp add: True channel_setup_def Let_def upd_chan_def register_irq_handler_def ASSERT_def lock_init_eq sema_init_def upd_sema_def lock_free_def)
  next
    case False
    then have k: "k = 1"
      using assms(1) by simp
    show ?thesis
      using assms(2-5) n by (simp add: k channel_setup_def Let_def upd_chan_def register_irq_handler_def ASSERT_def lock_init_eq sema_init_def upd_sema_def lock_free_def)
  qed
qed

text \<open>
  \<open>ide_init\<close> takes the number of disks from the BIOS as it is: with none it ends in \<open>ASSERT\<close>, with more than four it goes on
  to a third channel, behind the array \<open>g_channels\<close>.
\<close>

theorem ide_init_disk_count:
  assumes "unat (ucast (read32 (ram s) 0xc0000475) :: u8) = 0 \<or> unat (ucast (read32 (ram s) 0xc0000475) :: u8) > 4"
    and "lock_free (console_lock s) s"
  shows "ide_init dv others s = None"
proof -
  obtain n :: u8 where n: "ucast (read32 (ram s) 0xc0000475) = n"
    by blast
  have three: "channel_loop dv others 0 (Suc (Suc (Suc m))) t = None" for m and t :: "'a ide_state_scheme"
    by (simp split: Option.bind_split)
  have start: "print_text others (''ide initialization start\<newline>'') [] s = Some (s\<lparr>screen := screen s @ map of_char (''ide initialization start\<newline>'')\<rparr>)"
    using print_text_eq [OF assms(2), of "''ide initialization start\<newline>''" "[]" others] by simp
  have init: "ide_init dv others s = None" if "\<And>t. 0 < n \<Longrightarrow> channel_loop dv others 0 (unat (ucast (DIV_ROUND_UP (ucast n) 2) :: u8)) t = None"
    using that by (simp add: ide_init_def start Let_def n ASSERT_def del: of_char_eq_iff)
  show ?thesis
  proof (rule init)
    fix t :: "'a ide_state_scheme"
    assume "0 < n"
    then have "4 < unat n"
      using assms(1) by (auto simp: n word_less_nat_alt)
    then obtain m where m: "(unat n + 1) div 2 = Suc (Suc (Suc m))"
      by (intro that [of "(unat n + 1) div 2 - 3"]) simp
    show "channel_loop dv others 0 (unat (ucast (DIV_ROUND_UP (ucast n) 2) :: u8)) t = None"
      unfolding channels_of_disks m by (rule three)
  qed
qed

section \<open>A concrete disk with partitions\<close>

text \<open>
  A primary partition in sectors 1 to 99 and an extended one from 100 on with two logical partitions. \<open>table_words i e\<close> are the
  words of entry \<open>i\<close>.
\<close>

definition table_words :: "nat \<Rightarrow> u16 \<Rightarrow> u16 \<Rightarrow> u16 \<Rightarrow> nat \<rightharpoonup> u16" where
  "table_words i fs start sects = [225 + 8 * i \<mapsto> fs, 227 + 8 * i \<mapsto> start, 229 + 8 * i \<mapsto> sects]"

definition demo_content :: "nat \<Rightarrow> u16" where
  "demo_content w = (let t = (if w div 256 = 0 then table_words 0 0x83 1 99 ++ table_words 1 5 100 100
       else if w div 256 = 100 then table_words 0 0x83 1 49 ++ table_words 1 5 50 50
       else if w div 256 = 150 then table_words 0 0x83 1 30 else Map.empty)
     in case t (w mod 256) of Some x \<Rightarrow> x | None \<Rightarrow> 0)"

definition part_dev :: device where
  "part_dev = master_disk demo_content"

lemma words_entry:
  "table_entry (sector_byte content lba) i = (let w = \<lambda>n. content (256 * unat lba + (n + 8 * i)) in
     (ucast (w 225), ucast (w 227) OR push_bit 16 (ucast (w 228)), ucast (w 229) OR push_bit 16 (ucast (w 230))))"
proof -
  have w: "ucast (ucast x :: u8) OR push_bit 8 (ucast (ucast (drop_bit 8 x) :: u8)) OR push_bit 16 (ucast (ucast y :: u8)) OR
      push_bit 24 (ucast (ucast (drop_bit 8 y) :: u8)) = (ucast x OR push_bit 16 (ucast y) :: u32)" for x y :: u16
  proof (rule bit_word_eqI)
    fix n assume n: "n < LENGTH(32)"
    have l: "\<not> bit z k" if "16 \<le> k" for z :: u16 and k
      using bit_imp_le_length [of z k] that by auto
    have "n < 8 \<or> 8 \<le> n \<and> n < 16 \<or> 16 \<le> n \<and> n < 24 \<or> 24 \<le> n \<and> n < 32"
      using n by auto
    then show "bit (ucast (ucast x :: u8) OR push_bit 8 (ucast (ucast (drop_bit 8 x) :: u8)) OR push_bit 16 (ucast (ucast y :: u8)) OR
        push_bit 24 (ucast (ucast (drop_bit 8 y) :: u8)) :: u32) n = bit (ucast x OR push_bit 16 (ucast y) :: u32) n"
      by (elim disjE) (auto simp: bit_simps l)
  qed
  have d: "(450 + 16 * i) div 2 = 225 + 8 * i" "(454 + 16 * i) div 2 = 227 + 8 * i" "(455 + 16 * i) div 2 = 227 + 8 * i"
      "(456 + 16 * i) div 2 = 228 + 8 * i" "(457 + 16 * i) div 2 = 228 + 8 * i" "(458 + 16 * i) div 2 = 229 + 8 * i"
      "(459 + 16 * i) div 2 = 229 + 8 * i" "(460 + 16 * i) div 2 = 230 + 8 * i" "(461 + 16 * i) div 2 = 230 + 8 * i"
    by simp_all
  show ?thesis
    by (simp add: table_entry_def le32_def sector_byte_def Let_def d w)
qed

lemma find_parts_numeral:
  "find_parts (numeral k) sec ext i a =
     (if 4 \<le> i then Some a
      else (case table_entry (sec ext) i of (fs, start, sects) \<Rightarrow> case a of (base, ps, ls) \<Rightarrow>
        if fs = 5
        then if unat (base + start) < 2 ^ 28
             then find_parts (pred_numeral k) sec (base + start) 0 (if base = 0 then start else base, ps, ls) \<bind> find_parts (pred_numeral k) sec ext (Suc i)
             else None
        else if fs = 0 then find_parts (pred_numeral k) sec ext (Suc i) a
        else if ext = 0 then if length ps < 3 then find_parts (pred_numeral k) sec ext (Suc i) (base, ps @ [(start, sects)], ls) else None
        else if length ls < 8 then find_parts (pred_numeral k) sec ext (Suc i) (base, ps, ls @ [(ext + start, sects)]) else None))"
  by (simp add: numeral_eq_Suc)

lemma demo_entries:
  "table_entry (sector_byte demo_content 0) 0 = (0x83, 1, 99)" "table_entry (sector_byte demo_content 0) (Suc 0) = (5, 100, 100)"
  "table_entry (sector_byte demo_content 0) (Suc (Suc 0)) = (0, 0, 0)" "table_entry (sector_byte demo_content 0) (Suc (Suc (Suc 0))) = (0, 0, 0)"
  "table_entry (sector_byte demo_content 100) 0 = (0x83, 1, 49)" "table_entry (sector_byte demo_content 100) (Suc 0) = (5, 50, 50)"
  "table_entry (sector_byte demo_content 100) (Suc (Suc 0)) = (0, 0, 0)" "table_entry (sector_byte demo_content 100) (Suc (Suc (Suc 0))) = (0, 0, 0)"
  "table_entry (sector_byte demo_content 150) 0 = (0x83, 1, 30)" "table_entry (sector_byte demo_content 150) (Suc 0) = (0, 0, 0)"
  "table_entry (sector_byte demo_content 150) (Suc (Suc 0)) = (0, 0, 0)" "table_entry (sector_byte demo_content 150) (Suc (Suc (Suc 0))) = (0, 0, 0)"
  by (simp_all add: words_entry demo_content_def table_words_def)

lemma demo_ide_globals: "hard_disk_addr demo_ide = 0xc0003000" "console_lock demo_ide = 0x6090"
  by (simp_all add: demo_ide_def demo_seg_def demo_console_def demo_thread_def ide_state.defs sys_state.defs seg_state.defs console_state.defs thread_state.defs mem_state.defs)

lemma demo_find: "find_parts 20 (sector_byte demo_content) 0 0 (0, [], []) = Some (100, [(1, 99)], [(101, 49), (151, 30)])"
  by (simp add: find_parts_numeral demo_entries)

lemma demo_bufs: "bufs_ok (scan_buf demo_ide) 21"
proof -
  have "scan_buf demo_ide n \<noteq> NULL" if "n < 21" for n
    using of_nat_inj_u32 [of "512 * n" "0xc0100000"] that by (auto simp: demo_ide_sel NULL_def)
  moreover have "span (scan_buf demo_ide i) 512 \<inter> span (scan_buf demo_ide j) 512 = {}" if "i < 21" "j < 21" "i \<noteq> j" for i j
  proof (rule ccontr)
    assume "span (scan_buf demo_ide i) 512 \<inter> span (scan_buf demo_ide j) 512 \<noteq> {}"
    then obtain k l where kl: "k < 512" "l < 512" "0xc0100000 - 512 * of_nat i + of_nat k = (0xc0100000 - 512 * of_nat j + of_nat l :: u32)"
      by (auto simp: span_def demo_ide_sel)
    then have "of_nat (512 * j + k) = (of_nat (512 * i + l) :: u32)"
      by (simp add: algebra_simps)
    then have "512 * j + k = 512 * i + l"
      using kl(1,2) that by (subst (asm) of_nat_inj_u32) simp_all
    then have "(512 * j + k) div 512 = (512 * i + l) div 512"
      by simp
    then show False
      using kl(1,2) that(3) by simp
  qed
  ultimately show ?thesis
    by (simp add: bufs_ok_def)
qed

theorem partition_scan_finds_witness:
  "\<exists>s'. partition_scan (\<lambda>lba buf. ide_read part_dev (disk_interrupt part_dev 0x2e) (0, 0) lba buf 1) (0, 0) 0 demo_ide = Some s' \<and>
    prim_cnt (the_disk (0, 0) s') = 1 \<and> logic_cnt (the_disk (0, 0) s') = 2 \<and> start_lba (logic_parts (the_disk (0, 0) s') ! 1) = 151"
proof -
  have "disk_ready part_dev 0 demo_content (0, 0) demo_ide"
    using demo_ide_ok(1,2) master_disk_ata [of demo_content] by (simp add: disk_ready_def part_dev_def the_disk_def demo_ide_sel demo_channel_def demo_disk_def lock_semaphore_def)
  moreover have "parts_rep (0, 0) demo_ide (0, [], [])"
    by (simp add: parts_rep_def the_disk_def demo_ide_sel demo_channel_def demo_disk_def)
  ultimately show ?thesis
    using partition_scan_finds [OF demo_find _ _ demo_bufs, of part_dev 0 "(0, 0)"] by (auto simp: is_part_def less_2_cases_iff)
qed

definition cycle_content :: "nat \<Rightarrow> u16" where
  "cycle_content w = (let t = (if w div 256 = 0 then table_words 0 5 100 100 else if w div 256 = 100 then table_words 0 5 0 100 else Map.empty)
     in case t (w mod 256) of Some x \<Rightarrow> x | None \<Rightarrow> 0)"

definition cycle_dev :: device where
  "cycle_dev = master_disk cycle_content"

theorem cyclic_chain_hangs_witness:
  "partition_scan (\<lambda>lba buf. ide_read cycle_dev (disk_interrupt cycle_dev 0x2e) (0, 0) lba buf 1) (0, 0) 0 demo_ide = None"
proof -
  have "disk_ready cycle_dev 0 cycle_content (0, 0) demo_ide"
    using demo_ide_ok(1,2) master_disk_ata [of cycle_content] by (simp add: disk_ready_def cycle_dev_def the_disk_def demo_ide_sel demo_channel_def demo_disk_def lock_semaphore_def)
  moreover have "table_entry (sector_byte cycle_content 0) 0 = (5, 100, 100)" "table_entry (sector_byte cycle_content 100) 0 = (5, 0, 100)"
    by (simp_all add: words_entry cycle_content_def table_words_def)
  ultimately show ?thesis
    using cyclic_chain_hangs [of cycle_dev 0 cycle_content "(0, 0)" demo_ide 100 100 100] by (simp add: demo_ide_sel)
qed

theorem too_many_partitions_witness: "add_primary (0, 0) 5 6 (demo_ide\<lparr>p_no := 3\<rparr>) = None \<and> add_logical (0, 0) 5 6 (demo_ide\<lparr>l_no := 8\<rparr>) = None"
  using too_many_partitions [of "demo_ide\<lparr>p_no := 3\<rparr>" "(0, 0)" 5 6] too_many_partitions [of "demo_ide\<lparr>l_no := 8\<rparr>" "(0, 0)" 5 6]
  by (simp add: the_disk_def demo_ide_sel demo_channel_def demo_disk_def)

theorem second_disk_misplaced_witness:
  "\<exists>s'. add_primary (0, 1) 5 6 (demo_ide\<lparr>p_no := 1\<rparr>) = Some s' \<and> prim_cnt (the_disk (0, 1) s') = 1 \<and>
     start_lba (prim_parts (the_disk (0, 1) s') ! 0) = 0 \<and> start_lba (prim_parts (the_disk (0, 1) s') ! 1) = 5"
  using second_disk_misplaced [of "demo_ide\<lparr>p_no := 1\<rparr>" 1 "(0, 1)" 5 6]
  by (auto simp: the_disk_def demo_ide_sel demo_channel_def demo_disk_def demo_partition_def is_part_def)

theorem channel_setup_ready_witness:
  "\<exists>s'. channel_setup 1 (demo_ide\<lparr>irqaction := replicate 129 0\<rparr>) = Some s' \<and> irq_no (g_channels s' 1) = 0x2f \<and> port_base (g_channels s' 1) = 0x170"
  using channel_setup_ready [of 1 "demo_ide\<lparr>irqaction := replicate 129 0\<rparr>"]
  by (auto simp: demo_ide_sel demo_ide_globals demo_channel_def lock_semaphore_def NULL_def)

theorem ide_init_disk_count_witness: "ide_init count_disk (slices 1 10) demo_ide = None"
  using ide_init_disk_count [of demo_ide count_disk "slices 1 10"]
  by (simp add: demo_ide_sel demo_ide_globals lock_free_def lock_semaphore_def read32_def NULL_def)

end
