(* ===== verification/Boot.thy ===== *)
theory Boot
  imports Keyboard Partition
begin

text \<open>
  The start of the kernel (\<open>kernel/init.c\<close>, \<open>kernel/main.c\<close> and the initialisation routine of \<open>kernel/interrupt.c\<close>): \<open>init_os\<close>
  calls the initialisation of every part in turn. \<open>init_kernel\<close> is the part of it before the disks. Its theorem \<open>init_kernel_ready\<close> composes what
  the theories of the parts prove about each call.
\<close>

section \<open>Data\<close>

text \<open>
  The interrupt tables and the register for them, the table of entry points the assembler writes, the address of the table,
  and the addresses of handlers and of the strings of \<open>main\<close>.
\<close>

record boot_state = ide_state +
  idt :: "gate_descr list"
  trap_name :: "string list"
  idtr :: u64
  idt_base :: u32
  intr_entry_table :: "nat \<Rightarrow> u32"
  syscall_entry :: u32
  ignore_intr_handler_addr :: u32
  keyboard_service_addr :: u32
  clock_service_addr :: u32
  pfunc_a :: u32
  thread_a_name :: u32
  thread_a_arg :: u32
  main_text :: u32

section \<open>Operations\<close>

primrec out_ports :: "(u16 \<times> u8) list \<Rightarrow> 'a boot_state_scheme \<Rightarrow> 'a boot_state_scheme" where
  "out_ports [] s = s"
| "out_ports (x # xs) s = out_ports xs (outb (fst x) (ucast (snd x)) s)"

definition interrupt_init :: "'a boot_state_scheme \<Rightarrow> 'a boot_state_scheme" where
  "interrupt_init s =
     (let s = put_lit (''Interrupt initialization start\<newline>'') s;
          s = s\<lparr>idt := idt_init (intr_entry_table s) (syscall_entry s)\<rparr>;
          s = put_lit (''    idt initialization completion\<newline>'') s;
          s = s\<lparr>irqaction := trap_init_actions (ignore_intr_handler_addr s), trap_name := trap_init_names\<rparr>;
          s = out_ports pic_8259A_init s;
          s = put_lit (''    PIC initialization completion\<newline>'') s;
          s = s\<lparr>idtr := idt_addr (idt_base s)\<rparr>
      in put_lit (''Interrupt initialization completion\<newline>'') s)"

definition keyboard_boot :: "'a boot_state_scheme \<Rightarrow> 'a boot_state_scheme option" where
  "keyboard_boot s = do {
     let s = put_lit (''Keyboard initialization start\<newline>'') s;
     irqs \<leftarrow> keyboard_init (keyboard_service_addr s) (irqaction s);
     Some (put_lit (''Keyboard initialization completion\<newline>'') (s\<lparr>irqaction := irqs\<rparr>))
   }"

definition timer_boot :: "'a boot_state_scheme \<Rightarrow> 'a boot_state_scheme option" where
  "timer_boot s = do {
     (io, irqs) \<leftarrow> timer_init (clock_service_addr s) (irqaction s);
     let s = out_ports io s;
     Some (put_lit (''register clock interruption service done\<newline>'') (s\<lparr>irqaction := irqs\<rparr>))
   }"

text \<open>\<open>init_os\<close> up to the call of \<open>ide_init\<close>, and all of it.\<close>

definition init_kernel :: "'a boot_state_scheme \<Rightarrow> (unit pool_result \<times> 'a boot_state_scheme) option" where
  "init_kernel s = do {
     let s = put_lit (''Start Initialize System\<newline>'') s;
     let s = interrupt_init s;
     s \<leftarrow> keyboard_boot s;
     s \<leftarrow> mem_init s;
     s \<leftarrow> timer_boot s;
     and_then (thread_init s) (\<lambda>_ s. do {
       let s = console_init s;
       let s = tss_init s;
       s \<leftarrow> syscall_init s;
       Some (Returned (), s)
     })
   }"

definition init_os :: "device \<Rightarrow> ('a boot_state_scheme \<Rightarrow> 'a boot_state_scheme option) \<Rightarrow> 'a boot_state_scheme \<Rightarrow> (unit pool_result \<times> 'a boot_state_scheme) option" where
  "init_os dv others s = and_then (init_kernel s) (\<lambda>_ s. do { s \<leftarrow> ide_init dv others s; Some (Returned (), s) })"

text \<open>\<open>main\<close> up to its loop, and one round of the loop.\<close>

definition main_start :: "device \<Rightarrow> ('a boot_state_scheme \<Rightarrow> 'a boot_state_scheme option) \<Rightarrow> 'a boot_state_scheme \<Rightarrow> (unit pool_result \<times> 'a boot_state_scheme) option" where
  "main_start dv others s =
     (let s = put_lit ''total memory: 0x'' s;
          s = put_hex (read32 (ram s) 0xb00) s;
          s = put_char 10 s
      in and_then (init_os dv others s) (\<lambda>_ s.
         and_then (thread_start (thread_a_name s) 2 (pfunc_a s) (thread_a_arg s) s) (\<lambda>_ s.
         Some (Returned (), snd (local_irq_enable s)))))"

definition main_round :: "('a boot_state_scheme \<Rightarrow> 'a boot_state_scheme option) \<Rightarrow> 'a boot_state_scheme \<Rightarrow> (unit pool_result \<times> 'a boot_state_scheme) option" where
  "main_round others s = and_then (console_str (main_text s) s) (\<lambda>_ s. do { s \<leftarrow> sleep_wait others 1000 s; Some (Returned (), s) })"

section \<open>Output of the kernel about itself\<close>

text \<open>
  The default handler of interrupts: what is on the screen when it spins (\<open>cr2\<close> is the register with the address of a page
  fault). It returns, without output, for the two spurious vectors only (\<open>ignore_intr_handler\<close>).
\<close>

definition ignore_intr_report :: "u32 \<Rightarrow> u8 \<Rightarrow> 'a boot_state_scheme \<Rightarrow> 'a boot_state_scheme option" where
  "ignore_intr_report cr2 ver_n s =
     (if ver_n = 0x27 \<or> ver_n = 0x2f then Some s
      else do {
        let s = (if ver_n = 14 then put_hex cr2 (put_lit (''\<newline>Page Fault CR2: 0x'') s) else s);
        let s = put_char 10 s;
        let s = put_hex (ucast ver_n) s;
        if unat ver_n < length (trap_name s) then Some (put_lit (trap_name s ! unat ver_n) s) else None
      })"

definition print_bitmap :: "'a boot_state_scheme \<Rightarrow> 'a boot_state_scheme" where
  "print_bitmap s =
     (let s = put_lit (''\<newline>bitmap: 0x'') s;
          s = put_hex (ucast (ram s (bitmap (vm_bitmap (kernel_vm_pool s))))) s
      in put_char 10 s)"

definition BREAK_POINT :: "u32 \<Rightarrow> 'a boot_state_scheme \<Rightarrow> 'a boot_state_scheme" where
  "BREAK_POINT n s = put_char 10 (put_hex n (put_lit (''\<newline>check_point '') s))"

section \<open>Each call\<close>

lemma out_ports_eq: "out_ports xs s = s\<lparr>io_log := map (\<lambda>(p, v). Out8 p v) (rev xs) @ io_log s\<rparr>"
proof (induction xs arbitrary: s)
  case (Cons x xs)
  have "ucast (ucast (snd x) :: u16) = (snd x :: u8)"
    by (rule bit_word_eqI) (auto simp: bit_simps)
  then show ?case
    by (simp add: Cons.IH outb_def case_prod_unfold)
qed simp

lemma interrupt_init_eq:
  "interrupt_init s = s\<lparr>idt := idt_init (intr_entry_table s) (syscall_entry s), irqaction := replicate 0x81 (ignore_intr_handler_addr s),
     trap_name := trap_init_names, idtr := idt_addr (idt_base s), io_log := map (\<lambda>(p, v). Out8 p v) (rev pic_8259A_init) @ io_log s,
     screen := screen s @ lit_text (''Interrupt initialization start\<newline>'') @ lit_text (''    idt initialization completion\<newline>'') @
       lit_text (''    PIC initialization completion\<newline>'') @ lit_text (''Interrupt initialization completion\<newline>'')\<rparr>"
  unfolding interrupt_init_def Let_def put_lit_text out_ports_eq by (simp add: trap_init_actions_def IDT_DESC_CNT_def)

text \<open>What the heap needs of a state, whatever task runs, and that it depends on the pools, the bitmaps, and the block descriptors only.\<close>

definition heap_base :: "'a mem_state_scheme \<Rightarrow> bool" where
  "heap_base s \<longleftrightarrow> kpool_ok s \<and> descs_ok s \<and> (\<forall>i < 7. ring (nodes s) [free_cell s i])"

definition heap_area :: "'a mem_state_scheme \<Rightarrow> 'a mem_state_scheme \<Rightarrow> bool" where
  "heap_area s s' \<longleftrightarrow> kernel_pool s' = kernel_pool s \<and> user_pool s' = user_pool s \<and> kernel_vm_pool s' = kernel_vm_pool s \<and>
     kernel_block_desc_array s' = kernel_block_desc_array s \<and> (\<forall>i < 7. block_descs s' (kdesc s i) = block_descs s (kdesc s i)) \<and>
     (\<forall>i < 7. nodes s' (free_cell s i) = nodes s (free_cell s i))"

lemma heap_base_frame:
  assumes "heap_base s" and "heap_area s s'" and "kpool_ok s'"
  shows "heap_base s'"
proof -
  have e: "kernel_pool s' = kernel_pool s" "kernel_vm_pool s' = kernel_vm_pool s" "kernel_block_desc_array s' = kernel_block_desc_array s"
      "\<And>i. i < 7 \<Longrightarrow> block_descs s' (kdesc s i) = block_descs s (kdesc s i)" "\<And>i. i < 7 \<Longrightarrow> nodes s' (free_cell s i) = nodes s (free_cell s i)"
    using assms(2) by (simp_all add: heap_area_def)
  have k: "kdesc s' i = kdesc s i" "free_cell s' i = free_cell s i" for i
    by (simp_all add: kdesc_def free_cell_def e)
  have "descs_ok s'"
    using assms(1) unfolding heap_base_def descs_ok_def k e(1-3) by (simp add: e(4))
  moreover have "ring (nodes s') [free_cell s' i]" if "i < 7" for i
    unfolding k using assms(1) e(5) [OF that] that by (auto simp: heap_base_def intro: ring_cong simp del: ring.simps)
  ultimately show ?thesis
    using assms(3) by (simp add: heap_base_def del: ring.simps)
qed

lemma heap_ready_base:
  "heap_base s \<Longrightarrow> pde_addr (tasks s (current_task s)) = NULL \<Longrightarrow> lock_free (pool_lock (kernel_pool s)) s \<Longrightarrow>
   KERNEL_HEAP_BASE \<le> vm_start (kernel_vm_pool s) \<Longrightarrow> heap_ready s"
  by (simp add: heap_ready_def heap_base_def kernel_caller_def del: ring.simps)

section \<open>What the kernel finds\<close>

text \<open>
  The kernel image lies between \<open>0xc0001000\<close> and the bitmap at \<open>0xc0075000\<close>, and in it the block descriptors, the head of the
  list of threads, and the names of the first two threads; the loader found at least 34 MB of memory.
\<close>

definition in_image :: "u32 \<Rightarrow> nat \<Rightarrow> bool" where
  "in_image p n \<longleftrightarrow> 0xc0001000 \<le> unat p \<and> unat p + n \<le> 0xc0075000"

definition kernel_image :: "'a boot_state_scheme \<Rightarrow> u8 list \<Rightarrow> u8 list \<Rightarrow> bool" where
  "kernel_image s mcs ics \<longleftrightarrow> 35651584 \<le> unat (read32 (ram s) 0xb00) \<and> in_image (kernel_block_desc_array s) 112 \<and> in_image (thread_total_list s) 8 \<and>
     unat (thread_total_list s) \<notin> {unat (kernel_block_desc_array s) ..< unat (kernel_block_desc_array s) + 112} \<and>
     cstring (ram s) (main_name s) mcs \<and> length mcs < 32 \<and> in_image (main_name s) (Suc (length mcs)) \<and>
     cstring (ram s) (cpu_idle_name s) ics \<and> length ics < 32 \<and> in_image (cpu_idle_name s) (Suc (length ics)) \<and>
     keyboard_service_addr s \<noteq> NULL \<and> clock_service_addr s \<noteq> NULL \<and> syscall_table s = replicate SYSCALL_CNT None"

lemma in_imageD:
  assumes "in_image p n"
  shows "p \<noteq> NULL" and "a \<in> span p n \<longleftrightarrow> unat p \<le> unat a \<and> unat a < unat p + n"
  using assms by (auto simp: in_image_def NULL_def span_interval)

text \<open>The block descriptors and their free lists are cells of the image.\<close>

lemma desc_cells:
  assumes "in_image (kernel_block_desc_array s) 112" and "i < 7"
  shows "unat (kdesc s i) = unat (kernel_block_desc_array s) + 16 * i" and "unat (free_cell s i) = unat (kernel_block_desc_array s) + 16 * i + 8"
proof -
  have b: "unat (kernel_block_desc_array s) + 16 * i + 16 \<le> 0xc0075000"
    using assms by (simp add: in_image_def)
  have m: "unat (16 * of_nat i :: u32) = 16 * i"
    using assms(2) by (subst unat_mult_lem [THEN iffD1]) (simp_all add: unat_of_nat_u32)
  show d: "unat (kdesc s i) = unat (kernel_block_desc_array s) + 16 * i"
    unfolding kdesc_def desc_at_def using b m by (subst unat_add_u32) simp_all
  show "unat (free_cell s i) = unat (kernel_block_desc_array s) + 16 * i + 8"
    unfolding free_cell_def free_list_def using b d by (subst unat_add_u32) simp_all
qed

lemma unat_diff_below: "unat a < unat p \<Longrightarrow> unat (a - p) = 4294967296 + unat a - unat p" for a p :: u32
  using unat_lt_2p32 [of p] by (simp add: unat_sub_if')

text \<open>The screen is not part of what the heap and the threads need.\<close>

lemma screen_frames [simp]:
  "heap_base (s\<lparr>screen := x\<rparr>) = heap_base s" "boot_room (s\<lparr>screen := x\<rparr>) w mcs ics = boot_room s w mcs ics"
  "lock_free l (s\<lparr>screen := x\<rparr>) = lock_free l s" "threads_ok (s\<lparr>screen := x\<rparr>) rq ts = threads_ok s rq ts"
proof -
  have k: "kpool_ok (s\<lparr>screen := x\<rparr>) = kpool_ok s"
    by (simp add: kpool_ok_def kpool_layout_def)
  show "heap_base (s\<lparr>screen := x\<rparr>) = heap_base s"
    unfolding heap_base_def k by (simp add: descs_ok_def kdesc_def free_cell_def del: ring.simps)
  show "boot_room (s\<lparr>screen := x\<rparr>) w mcs ics = boot_room s w mcs ics"
    unfolding boot_room_def k by (simp add: lock_free_def page_at_def)
  show "lock_free l (s\<lparr>screen := x\<rparr>) = lock_free l s" "threads_ok (s\<lparr>screen := x\<rparr>) rq ts = threads_ok s rq ts"
    by (simp_all add: lock_free_def threads_ok_def sched_ok_def)
qed

lemma kernel_frames_34M:
  assumes "35651584 \<le> tot"
  shows "200 < 8 * (kernel_frames tot div 8)"
proof -
  have "256 \<le> kernel_frames tot"
  proof (cases "2147483648 \<le> tot")
    case False
    have "35651584 div 2 \<le> tot div 2"
      using assms by (rule div_le_mono)
    then have "1048576 div 4096 \<le> (tot div 2 - 16777216) div 4096"
      by (intro div_le_mono) simp
    then show ?thesis
      using False by (simp add: kernel_frames_def)
  qed (simp add: kernel_frames_def)
  then have "256 div 8 \<le> kernel_frames tot div 8"
    by (rule div_le_mono)
  then show ?thesis
    by simp
qed

lemma mem_boot_run:
  assumes img: "kernel_image s mcs ics"
  obtains s' where "mem_init s = Some s'" and "boot_room s' 0 mcs ics" and "heap_base s'" and "cr3 s' = PAGE_DIR_TABLE" and "vm_start (kernel_vm_pool s') = KERNEL_HEAP_BASE"
    and "\<And>a. a \<in> bm_span (kvm s') \<union> bm_span (kpm s') \<Longrightarrow> 0xc0075000 \<le> unat a \<and> unat a < 0xc009e000"
    and "\<And>a. 0xc0000000 \<le> unat a \<Longrightarrow> unat a < 0xc0075000 \<Longrightarrow> ram s' a = ram s a"
    and "\<exists>m kp up vm se lo c bd h x. s' = s\<lparr>ram := m, kernel_pool := kp, user_pool := up, kernel_vm_pool := vm, semas := se, locks := lo, cr3 := c,
       block_descs := bd, nodes := h, screen := x\<rparr>"
proof -
  have i: "35651584 \<le> unat (read32 (ram s) 0xb00)" "in_image (kernel_block_desc_array s) 112" "in_image (thread_total_list s) 8"
      "cstring (ram s) (main_name s) mcs" "length mcs < 32" "in_image (main_name s) (Suc (length mcs))"
      "cstring (ram s) (cpu_idle_name s) ics" "length ics < 32" "in_image (cpu_idle_name s) (Suc (length ics))"
    using img by (simp_all add: kernel_image_def)
  have p: "33554432 \<le> unat (read32 (ram s) 0xb00)" "kernel_block_desc_array s \<noteq> NULL" "unat (kernel_block_desc_array s) + 112 \<le> unat KERNEL_HEAP_BASE"
    using i(1,2) in_imageD(1) [OF i(2)] by (simp_all add: in_image_def KERNEL_HEAP_BASE_def)
  obtain t where t: "mem_init s = Some t" "cr3 t = PAGE_DIR_TABLE" "kpool_ok t" "descs_ok t" "\<And>i. i < 7 \<Longrightarrow> ring (nodes t) [free_cell t i]"
      "\<And>u. u \<noteq> NULL \<Longrightarrow> lock_free (pool_lock (kernel_pool t)) (t\<lparr>current_task := u\<rparr>)" "vm_start (kernel_vm_pool t) = KERNEL_HEAP_BASE"
      "bm_bits (kvm t) = 8 * (kernel_frames (unat (read32 (ram s) 0xb00)) div 8)"
      "\<And>a. a \<in> bm_span (kvm t) \<union> bm_span (kpm t) \<Longrightarrow> 0xc0075000 \<le> unat a \<and> unat a < 0xc009e000 \<and> ram t a = 0"
      "\<And>a. 0xc0000000 \<le> unat a \<Longrightarrow> unat a < 0xc0075000 \<Longrightarrow> ram t a = ram s a"
      "\<exists>m kp up vm se lo c bd h x. t = s\<lparr>ram := m, kernel_pool := kp, user_pool := up, kernel_vm_pool := vm, semas := se, locks := lo, cr3 := c, block_descs := bd, nodes := h, screen := x\<rparr>"
    by (rule mem_init_run [OF p]) (rule that)
  have sel: "thread_total_list t = thread_total_list s" "main_name t = main_name s" "cpu_idle_name t = cpu_idle_name s"
    using t(11) by auto
  have hb: "heap_base t"
    using t(3-5) by (simp add: heap_base_def del: ring.simps)
  have pg: "page_at t 0 = 0xc1000000"
    by (simp add: page_at_def t(7) KERNEL_HEAP_BASE_def)
  have um: "unat main_pcb = 0xc009e000"
    by (simp add: main_pcb_def)
  have str: "cstring (ram t) p cs = cstring (ram s) p cs" if "in_image p (Suc (length cs))" for p cs
    using that t(10) by (intro cstring_cong) (auto simp: in_imageD(2) [OF that] in_image_def)
  have low: "span p n \<inter> span main_pcb 200 = {}" "span p n \<inter> span 0xc1000000 4096 = {}" "span p n \<inter> (bm_span (kvm t) \<union> bm_span (kpm t)) = {}"
    if "in_image p n" for p n
    using t(9) by (auto simp: in_imageD(2) [OF that] span_interval um) (use that in \<open>force simp: in_image_def\<close>)+
  have "lock_free (pool_lock (kernel_pool t)) (t\<lparr>current_task := main_pcb\<rparr>)"
    by (rule t(6)) (simp add: main_pcb_def NULL_def)
  moreover have "\<forall>a \<in> bm_span (kvm t) \<union> bm_span (kpm t). a < main_pcb"
    using t(9) by (auto simp: word_less_nat_alt um)
  moreover have bits: "200 < bm_bits (kvm t)"
    unfolding t(8) by (rule kernel_frames_34M) (rule i(1))
  moreover have "bm_free (ram t) (kvm t) 0 1"
    using t(9) [of "bitmap (kvm t) + of_nat (0 div 8)"] bm_byte_in_span [OF kpool_layoutD(1) [OF kpool_okD(1) [OF t(3)]], of 0] bits by (simp add: bm_free_def bm_bit_def)
  moreover have "unat (thread_total_list s) \<notin> task_range main_pcb" "unat (thread_total_list s) \<notin> {unat (0xc1000000 :: u32) ..< unat (0xc1000000 :: u32) + 4096}"
    using i(3) by (auto simp: in_image_def task_range_def um)
  ultimately have "boot_room t 0 mcs ics"
    unfolding boot_room_def sel pg using t(3,7) i(4-9) low in_imageD(1) [OF i(3)] in_imageD(1) [OF i(6)] in_imageD(1) [OF i(9)] str [OF i(6)] str [OF i(9)]
    by (simp add: Int_Un_distrib)
  then show ?thesis
    by (rule that [OF t(1) _ hb t(2,7)]) (use t(9-11) in \<open>blast, simp_all\<close>)
qed

lemma table_frames [simp]:
  "heap_base (s\<lparr>irqaction := i, io_log := l, screen := x\<rparr>) = heap_base s"
  "boot_room (s\<lparr>irqaction := i, io_log := l, screen := x\<rparr>) w mcs ics = boot_room s w mcs ics"
proof -
  have k: "kpool_ok (s\<lparr>irqaction := i, io_log := l, screen := x\<rparr>) = kpool_ok s"
    by (simp add: kpool_ok_def kpool_layout_def)
  show "heap_base (s\<lparr>irqaction := i, io_log := l, screen := x\<rparr>) = heap_base s"
    unfolding heap_base_def k by (simp add: descs_ok_def kdesc_def free_cell_def del: ring.simps)
  show "boot_room (s\<lparr>irqaction := i, io_log := l, screen := x\<rparr>) w mcs ics = boot_room s w mcs ics"
    unfolding boot_room_def k by (simp add: lock_free_def page_at_def)
qed

lemma keyboard_boot_eq:
  assumes "keyboard_service_addr s \<noteq> NULL" and "length (irqaction s) = 0x81"
  shows "keyboard_boot s = Some (s\<lparr>irqaction := (irqaction s)[0x21 := keyboard_service_addr s],
     screen := screen s @ lit_text (''Keyboard initialization start\<newline>'') @ lit_text (''Keyboard initialization completion\<newline>'')\<rparr>)"
  using assms by (simp add: keyboard_boot_def put_lit_text keyboard_init_def register_irq_handler_def KEYBOARD_VECTOR_def ASSERT_def Let_def)

lemma timer_boot_eq:
  assumes "clock_service_addr s \<noteq> NULL" and "length (irqaction s) = 0x81"
  shows "timer_boot s = Some (s\<lparr>irqaction := (irqaction s)[0x20 := clock_service_addr s], io_log := [Out8 0x40 0, Out8 0x40 0x9b, Out8 0x43 0x34] @ io_log s,
     screen := screen s @ lit_text (''register clock interruption service done\<newline>'')\<rparr>)"
proof -
  have "frequency_set CONTRER0_PORT COUNTER0_NO READ_WRITE_LATCH COUNTER_MODE (ucast COUNTER0_VALUE) = [(0x43, 0x34), (0x40, 0x9B), (0x40, 0)]"
    by code_simp
  then show ?thesis
    using assms by (simp add: timer_boot_def put_lit_text timer_init_def register_irq_handler_def CLOCK_VECTOR_def ASSERT_def Let_def out_ports_eq)
qed

lemma tss_init_shape:
  obtains m where "tss_init s = s\<lparr>tss := zero_tss\<lparr>ss0 := SELECTOR_K_STACK, io_base := 108\<rparr>, ram := m, gdtr := gdtr (tss_init s), tr := 0x20, screen := screen (tss_init s)\<rparr>"
    and "\<And>a. unat a < 0xc0000920 \<or> 0xc0000938 \<le> unat a \<Longrightarrow> m a = ram s a"
proof -
  have "tss_init s = s\<lparr>tss := zero_tss\<lparr>ss0 := SELECTOR_K_STACK, io_base := 108\<rparr>, ram := ram (tss_init s), gdtr := gdtr (tss_init s), tr := 0x20, screen := screen (tss_init s)\<rparr>"
    by (simp add: tss_init_def Let_def put_lit_text sizeof_tss_def)
  moreover have "ram (tss_init s) a = ram s a" if "unat a < 0xc0000920 \<or> 0xc0000938 \<le> unat a" for a
  proof -
    have "8 \<le> unat (a - 0xc0000920)" "8 \<le> unat (a - 0xc0000928)" "8 \<le> unat (a - 0xc0000930)"
      using that by (auto simp: unat_sub_if')
    then show ?thesis
      by (simp add: tss_init_table write_desc_other)
  qed
  ultimately show ?thesis
    by (rule that)
qed

lemma lock_free_init: "current_task s \<noteq> NULL \<Longrightarrow> lock_free l (lock_init l s)" "lock_free l s \<Longrightarrow> lock_free l (lock_init l' s)"
  by (auto simp: lock_free_def lock_init_eq)

section \<open>The calls together\<close>

lemma early_boot:
  assumes img: "kernel_image s mcs ics"
  obtains s2 where "keyboard_boot (interrupt_init (put_lit (''Start Initialize System\<newline>'') s)) = Some s2" and "kernel_image s2 mcs ics"
    and "irqaction s2 = (replicate 0x81 (ignore_intr_handler_addr s))[0x21 := keyboard_service_addr s]"
    and "io_log s2 = map (\<lambda>(p, v). Out8 p v) (rev pic_8259A_init) @ io_log s"
    and "\<exists>i n d l t x. s2 = s\<lparr>irqaction := i, trap_name := n, idt := idt_init (intr_entry_table s) (syscall_entry s), io_log := l, idtr := idt_addr (idt_base s), screen := x\<rparr>"
proof -
  let ?s1 = "interrupt_init (put_lit (''Start Initialize System\<newline>'') s)"
  obtain x where s1: "?s1 = s\<lparr>idt := idt_init (intr_entry_table s) (syscall_entry s), irqaction := replicate 0x81 (ignore_intr_handler_addr s),
     trap_name := trap_init_names, idtr := idt_addr (idt_base s), io_log := map (\<lambda>(p, v). Out8 p v) (rev pic_8259A_init) @ io_log s, screen := x\<rparr>"
    unfolding interrupt_init_eq put_lit_text by simp
  obtain y where y: "keyboard_boot ?s1 = Some (?s1\<lparr>irqaction := (irqaction ?s1)[0x21 := keyboard_service_addr ?s1], screen := y\<rparr>)"
    using keyboard_boot_eq [of ?s1] img unfolding s1 by (simp add: kernel_image_def)
  let ?s2 = "s\<lparr>idt := idt_init (intr_entry_table s) (syscall_entry s), irqaction := (replicate 0x81 (ignore_intr_handler_addr s))[0x21 := keyboard_service_addr s],
     trap_name := trap_init_names, idtr := idt_addr (idt_base s), io_log := map (\<lambda>(p, v). Out8 p v) (rev pic_8259A_init) @ io_log s, screen := y\<rparr>"
  have "keyboard_boot ?s1 = Some ?s2"
    using y unfolding s1 by simp
  moreover have "kernel_image ?s2 mcs ics"
    using img by (simp add: kernel_image_def)
  moreover have "?s2 = s\<lparr>irqaction := irqaction ?s2, trap_name := trap_init_names, idt := idt_init (intr_entry_table s) (syscall_entry s), io_log := io_log ?s2,
      idtr := idt_addr (idt_base s), screen := y\<rparr>"
    by simp
  then have "\<exists>i n d l t x. ?s2 = s\<lparr>irqaction := i, trap_name := n, idt := idt_init (intr_entry_table s) (syscall_entry s), io_log := l, idtr := idt_addr (idt_base s), screen := x\<rparr>"
    by blast
  ultimately show ?thesis
    by (intro that [of ?s2]) simp_all
qed

text \<open>The threads are started on a heap, and the heap stays.\<close>

lemma thread_boot_run:
  assumes room: "boot_room s 0 mcs ics" and heap: "heap_base s" and vm: "vm_start (kernel_vm_pool s) = KERNEL_HEAP_BASE"
    and arr: "in_image (kernel_block_desc_array s) 112" "in_image (thread_total_list s) 8"
      "unat (thread_total_list s) \<notin> {unat (kernel_block_desc_array s) ..< unat (kernel_block_desc_array s) + 112}"
    and sp: "\<And>a. a \<in> bm_span (kvm s) \<union> bm_span (kpm s) \<Longrightarrow> 0xc0075000 \<le> unat a \<and> unat a < 0xc009e000"
  obtains s' where "thread_init s = Some (Returned (), s')" and "threads_ok s' [KERNEL_HEAP_BASE] [KERNEL_HEAP_BASE, main_pcb]" and "heap_base s'"
    and "tasks s' = (tasks s)(main_pcb := new_task (main_pcb + 819200) mcs 1 (next_pid s + 1) TASK_RUNNING,
       KERNEL_HEAP_BASE := new_task (KERNEL_HEAP_BASE + 818768) ics 1 (next_pid s + 2) TASK_READY)"
    and "main_thread s' = main_pcb" and "current_task s' = main_pcb" and "idle_thread s' = KERNEL_HEAP_BASE"
    and "\<And>j. j < bm_bits (kvm s) \<Longrightarrow> bm_bit (ram s') (kvm s) j = (j = 0 \<or> bm_bit (ram s) (kvm s) j)"
    and "lock_free (pool_lock (kernel_pool s)) s'" and "lock_free (pid_lock s) s'"
    and "\<And>a. 0xc0000000 \<le> unat a \<Longrightarrow> unat a < 0xc0075000 \<Longrightarrow> ram s' a = ram s a"
    and "\<exists>m h ar bd tk q n se lo c mt it x. s' = s\<lparr>ram := m, nodes := h, arenas := ar, block_descs := bd, tasks := tk, thread_ready_queue := q, next_pid := n,
      semas := se, locks := lo, current_task := c, main_thread := mt, idle_thread := it, screen := x\<rparr>"
proof -
  have pg: "page_at s 0 = KERNEL_HEAP_BASE"
    by (simp add: page_at_def vm)
  have lf: "lock_free (pool_lock (kernel_pool s)) (s\<lparr>current_task := main_pcb\<rparr>)"
    using room by (simp add: boot_room_def)
  obtain t where t: "thread_init s = Some (Returned (), t)" "threads_ok t [KERNEL_HEAP_BASE] [KERNEL_HEAP_BASE, main_pcb]"
      "tasks t = (tasks s)(main_pcb := new_task (main_pcb + 819200) mcs 1 (next_pid s + 1) TASK_RUNNING,
       KERNEL_HEAP_BASE := new_task (KERNEL_HEAP_BASE + 818768) ics 1 (next_pid s + 2) TASK_READY)"
      "main_thread t = main_pcb" "current_task t = main_pcb" "idle_thread t = KERNEL_HEAP_BASE" "kpool_ok t"
      "\<And>j. j < bm_bits (kvm s) \<Longrightarrow> bm_bit (ram t) (kvm s) j = (j = 0 \<or> bm_bit (ram s) (kvm s) j)"
      "\<And>l. lock_free l (s\<lparr>current_task := main_pcb\<rparr>) \<Longrightarrow> lock_free l t" "lock_free (pid_lock s) t"
      "\<And>a. a \<notin> span main_pcb 200 \<union> span KERNEL_HEAP_BASE 4096 \<union> span (KERNEL_HEAP_BASE + 818768) 32 \<union> bm_span (kvm s) \<union> bm_span (kpm s) \<Longrightarrow> ram t a = ram s a"
      "\<And>a. unat a \<notin> task_range main_pcb \<Longrightarrow> unat a \<notin> {unat KERNEL_HEAP_BASE ..< unat KERNEL_HEAP_BASE + 4096} \<Longrightarrow> a \<noteq> thread_total_list s \<Longrightarrow> nodes t a = nodes s a"
      "\<And>a. 200 < unat (a - main_pcb) + 16 \<Longrightarrow> 200 < unat (a - KERNEL_HEAP_BASE) + 16 \<Longrightarrow> block_descs t a = block_descs s a"
      "\<exists>m h ar bd tk q n se lo c mt it x. t = s\<lparr>ram := m, nodes := h, arenas := ar, block_descs := bd, tasks := tk, thread_ready_queue := q, next_pid := n,
        semas := se, locks := lo, current_task := c, main_thread := mt, idle_thread := it, screen := x\<rparr>"
    by (rule thread_init_run [OF room, unfolded pg]) (rule that)
  have um: "unat main_pcb = 0xc009e000" "unat KERNEL_HEAP_BASE = 0xc1000000"
    by (simp_all add: main_pcb_def KERNEL_HEAP_BASE_def)
  have cells: "unat (kdesc s i) < 0xc0075000" "unat (free_cell s i) < 0xc0075000" "free_cell s i \<noteq> thread_total_list s" if "i < 7" for i
    using desc_cells [OF arr(1) that] arr(1,3) that by (auto simp: in_image_def)
  have same: "kernel_pool t = kernel_pool s" "user_pool t = user_pool s" "kernel_vm_pool t = kernel_vm_pool s" "kernel_block_desc_array t = kernel_block_desc_array s"
    using t(14) by auto
  have "nodes t (free_cell s i) = nodes s (free_cell s i)" if "i < 7" for i
    using t(12) [of "free_cell s i"] cells [OF that] by (simp add: task_range_def um)
  moreover have "block_descs t (kdesc s i) = block_descs s (kdesc s i)" if "i < 7" for i
    using t(13) [of "kdesc s i"] cells(1) [OF that] by (simp add: unat_diff_below um)
  ultimately have "heap_area s t"
    using same by (simp add: heap_area_def)
  then have hb: "heap_base t"
    by (rule heap_base_frame [OF heap _ t(7)])
  have ram: "ram t a = ram s a" if "0xc0000000 \<le> unat a" "unat a < 0xc0075000" for a
  proof -
    have "unat (KERNEL_HEAP_BASE + 818768) = 0xc1000000 + 818768"
      by (simp add: KERNEL_HEAP_BASE_def)
    then show ?thesis
      using t(11) [of a] sp [of a] that by (auto simp: span_interval um)
  qed
  have lf1: "lock_free (pool_lock (kernel_pool s)) t"
    by (rule t(9)) (rule lf)
  show ?thesis
    by (rule that [OF t(1,2) hb t(3-6,8) lf1 t(10) ram t(14)])
qed

text \<open>Console, segments and system calls.\<close>

lemma late_boot:
  assumes heap: "heap_base s" and lf: "lock_free (pool_lock (kernel_pool s)) s" "lock_free (pid_lock s) s" and cur: "current_task s \<noteq> NULL"
    and ok: "threads_ok s rq ts" and tab: "syscall_table s = replicate SYSCALL_CNT None"
    and sp: "\<And>a. a \<in> bm_span (kvm s) \<union> bm_span (kpm s) \<Longrightarrow> 0xc0075000 \<le> unat a \<and> unat a < 0xc009e000"
  obtains s' where "syscall_init (tss_init (console_init s)) = Some s'" and "heap_base s'" and "lock_free (pool_lock (kernel_pool s)) s'" and "lock_free (pid_lock s) s'"
    and "lock_free (console_lock s) s'" and "threads_ok s' rq ts" and "syscall_table s' = kernel_table"
    and "segment s' SELECTOR_TSS = Some (creat_gdt_desc (tss_addr s) 107 TSS_ATTR_LOW TSS_ATTR_HIGH)" and "tr s' = 0x20"
    and "\<And>a. unat a < 0xc0000920 \<or> 0xc0000938 \<le> unat a \<Longrightarrow> ram s' a = ram s a"
    and "\<exists>se lo ts m g tr tb x. s' = s\<lparr>semas := se, locks := lo, tss := ts, ram := m, gdtr := g, tr := tr, syscall_table := tb, screen := x\<rparr>"
proof -
  let ?s1 = "lock_init (console_lock s) s"
  obtain m where t: "tss_init ?s1 = ?s1\<lparr>tss := zero_tss\<lparr>ss0 := SELECTOR_K_STACK, io_base := 108\<rparr>, ram := m, gdtr := gdtr (tss_init ?s1), tr := 0x20, screen := screen (tss_init ?s1)\<rparr>"
      and m: "\<And>a. unat a < 0xc0000920 \<or> 0xc0000938 \<le> unat a \<Longrightarrow> m a = ram ?s1 a"
    by (rule tss_init_shape) (rule that)
  have "syscall_table (tss_init ?s1) = replicate SYSCALL_CNT None"
    by (subst t) (simp add: lock_init_eq tab)
  then obtain x where x: "syscall_init (tss_init ?s1) = Some ((tss_init ?s1)\<lparr>syscall_table := kernel_table, screen := x\<rparr>)"
    by (rule syscall_init_table) (rule that)
  let ?r = "(tss_init ?s1)\<lparr>syscall_table := kernel_table, screen := x\<rparr>"
  have r: "?r = s\<lparr>semas := semas ?s1, locks := locks ?s1, tss := zero_tss\<lparr>ss0 := SELECTOR_K_STACK, io_base := 108\<rparr>, ram := m, gdtr := gdtr (tss_init ?s1), tr := 0x20,
      syscall_table := kernel_table, screen := x\<rparr>"
    by (subst t) (simp add: lock_init_eq)
  have lk: "lock_free l ?r = lock_free l ?s1" for l
    unfolding r by (simp add: lock_free_def lock_init_eq)
  have seg: "segment ?r SELECTOR_TSS = Some (creat_gdt_desc (tss_addr s) 107 TSS_ATTR_LOW TSS_ATTR_HIGH)"
  proof -
    have "segment ?r SELECTOR_TSS = segment (tss_init ?s1) SELECTOR_TSS"
      by (simp only: segment_def) simp
    moreover have "tss_addr ?s1 = tss_addr s"
      by (simp add: lock_init_eq)
    ultimately show ?thesis
      using tss_init_segments(1) [of ?s1] by (simp only:)
  qed
  have ram: "ram ?r a = ram s a" if "unat a < 0xc0000920 \<or> 0xc0000938 \<le> unat a" for a
    unfolding r using m [OF that] by (simp add: lock_init_eq)
  have same: "kernel_pool ?r = kernel_pool s" "user_pool ?r = user_pool s" "kernel_vm_pool ?r = kernel_vm_pool s" "kernel_block_desc_array ?r = kernel_block_desc_array s"
      "block_descs ?r = block_descs s" "nodes ?r = nodes s" "thread_ready_queue ?r = thread_ready_queue s" "thread_total_list ?r = thread_total_list s"
      "current_task ?r = current_task s" "tasks ?r = tasks s"
    unfolding r by simp_all
  have sp': "ram ?r a = ram s a" if "a \<in> bm_span (kvm s) \<union> bm_span (kpm s)" for a
    using sp [OF that] by (intro ram) simp
  have "kpool_ok s"
    using heap by (simp add: heap_base_def del: ring.simps)
  from kpool_ok_frame(1) [OF this same(1-3) sp'] have kp: "kpool_ok ?r" .
  have "heap_area s ?r"
    unfolding heap_area_def same by simp
  from heap_base_frame [OF heap this kp] have hb: "heap_base ?r" .
  have ok': "threads_ok ?r rq ts"
    by (rule threads_ok_cong [OF ok]) (simp_all only: same)
  have run: "syscall_init (tss_init (console_init s)) = Some ?r"
    using x by (simp only: console_init_def)
  have free: "lock_free (pool_lock (kernel_pool s)) ?r" "lock_free (pid_lock s) ?r" "lock_free (console_lock s) ?r"
    unfolding lk by (rule lock_free_init(2) [OF lf(1)] lock_free_init(2) [OF lf(2)] lock_free_init(1) [OF cur])+
  have regs: "syscall_table ?r = kernel_table" "tr ?r = 0x20"
    unfolding r by simp_all
  have "\<exists>se lo ts m g tr tb x. ?r = s\<lparr>semas := se, locks := lo, tss := ts, ram := m, gdtr := g, tr := tr, syscall_table := tb, screen := x\<rparr>"
    using r by blast
  then show ?thesis
    using ram by (intro that [OF run hb free ok' regs(1) seg regs(2)])
qed

text \<open>The state \<open>init_kernel\<close> leaves.\<close>

lemma init_kernel_run:
  assumes img: "kernel_image s mcs ics"
  obtains s' where "init_kernel s = Some (Returned (), s')" and "cr3 s' = PAGE_DIR_TABLE" and "heap_ready s'"
    and "threads_ok s' [KERNEL_HEAP_BASE] [KERNEL_HEAP_BASE, main_pcb]"
    and "tasks s' = (tasks s)(main_pcb := new_task (main_pcb + 819200) mcs 1 (next_pid s + 1) TASK_RUNNING,
       KERNEL_HEAP_BASE := new_task (KERNEL_HEAP_BASE + 818768) ics 1 (next_pid s + 2) TASK_READY)"
    and "current_task s' = main_pcb" and "idle_thread s' = KERNEL_HEAP_BASE" and "lock_free (console_lock s') s'" and "lock_free (pid_lock s') s'"
    and "idt s' = idt_init (intr_entry_table s) (syscall_entry s)" and "idtr s' = idt_addr (idt_base s)"
    and "irqaction s' = (replicate 0x81 (ignore_intr_handler_addr s))[0x21 := keyboard_service_addr s, 0x20 := clock_service_addr s]"
    and "syscall_table s' = kernel_table" and "segment s' SELECTOR_TSS = Some (creat_gdt_desc (tss_addr s) 107 TSS_ATTR_LOW TSS_ATTR_HIGH)" and "tr s' = 0x20"
    and "io_log s' = map (\<lambda>(p, v). Out8 p v) (rev (pic_8259A_init @ [(0x43, 0x34), (0x40, 0x9b), (0x40, 0)])) @ io_log s" and "eflags s' = eflags s"
    and "\<And>a. 0xc0000000 \<le> unat a \<Longrightarrow> unat a < 0xc0075000 \<Longrightarrow> unat a < 0xc0000920 \<or> 0xc0000938 \<le> unat a \<Longrightarrow> ram s' a = ram s a"
    and "thread_a_name s' = thread_a_name s"
proof -
  let ?s1 = "interrupt_init (put_lit (''Start Initialize System\<newline>'') s)"
  obtain s2 where s2: "keyboard_boot ?s1 = Some s2" "kernel_image s2 mcs ics"
      "irqaction s2 = (replicate 0x81 (ignore_intr_handler_addr s))[0x21 := keyboard_service_addr s]"
      "io_log s2 = map (\<lambda>(p, v). Out8 p v) (rev pic_8259A_init) @ io_log s"
      "\<exists>i n d l t x. s2 = s\<lparr>irqaction := i, trap_name := n, idt := idt_init (intr_entry_table s) (syscall_entry s), io_log := l, idtr := idt_addr (idt_base s), screen := x\<rparr>"
    by (rule early_boot [OF img]) (rule that)
  have e2: "tasks s2 = tasks s" "next_pid s2 = next_pid s" "idt s2 = idt_init (intr_entry_table s) (syscall_entry s)" "idtr s2 = idt_addr (idt_base s)"
      "clock_service_addr s2 = clock_service_addr s" "tss_addr s2 = tss_addr s" "eflags s2 = eflags s" "ram s2 = ram s" "thread_a_name s2 = thread_a_name s"
    using s2(5) by auto
  have img2: "in_image (kernel_block_desc_array s2) 112" "in_image (thread_total_list s2) 8"
      "unat (thread_total_list s2) \<notin> {unat (kernel_block_desc_array s2) ..< unat (kernel_block_desc_array s2) + 112}"
      "syscall_table s2 = replicate SYSCALL_CNT None" "clock_service_addr s2 \<noteq> NULL"
    using s2(2) by (simp_all add: kernel_image_def)
  obtain s3 where s3: "mem_init s2 = Some s3" "boot_room s3 0 mcs ics" "heap_base s3" "cr3 s3 = PAGE_DIR_TABLE" "vm_start (kernel_vm_pool s3) = KERNEL_HEAP_BASE"
      "\<And>a. a \<in> bm_span (kvm s3) \<union> bm_span (kpm s3) \<Longrightarrow> 0xc0075000 \<le> unat a \<and> unat a < 0xc009e000"
      "\<And>a. 0xc0000000 \<le> unat a \<Longrightarrow> unat a < 0xc0075000 \<Longrightarrow> ram s3 a = ram s2 a"
      "\<exists>m kp up vm se lo c bd h x. s3 = s2\<lparr>ram := m, kernel_pool := kp, user_pool := up, kernel_vm_pool := vm, semas := se, locks := lo, cr3 := c,
         block_descs := bd, nodes := h, screen := x\<rparr>"
    by (rule mem_boot_run [OF s2(2)]) (rule that)
  have e3: "tasks s3 = tasks s2" "next_pid s3 = next_pid s2" "idt s3 = idt s2" "idtr s3 = idtr s2" "irqaction s3 = irqaction s2" "io_log s3 = io_log s2"
      "clock_service_addr s3 = clock_service_addr s2" "tss_addr s3 = tss_addr s2" "eflags s3 = eflags s2" "syscall_table s3 = syscall_table s2"
      "kernel_block_desc_array s3 = kernel_block_desc_array s2" "thread_total_list s3 = thread_total_list s2" "thread_a_name s3 = thread_a_name s2"
    using s3(8) by auto
  let ?s4 = "s3\<lparr>irqaction := (irqaction s3)[0x20 := clock_service_addr s3], io_log := [Out8 0x40 0, Out8 0x40 0x9b, Out8 0x43 0x34] @ io_log s3,
     screen := screen s3 @ lit_text (''register clock interruption service done\<newline>'')\<rparr>"
  have s4: "timer_boot s3 = Some ?s4"
    by (rule timer_boot_eq) (use img2(5) s2(3) e3 in simp_all)
  obtain s5 where s5: "thread_init ?s4 = Some (Returned (), s5)" "threads_ok s5 [KERNEL_HEAP_BASE] [KERNEL_HEAP_BASE, main_pcb]" "heap_base s5"
      "tasks s5 = (tasks ?s4)(main_pcb := new_task (main_pcb + 819200) mcs 1 (next_pid ?s4 + 1) TASK_RUNNING,
       KERNEL_HEAP_BASE := new_task (KERNEL_HEAP_BASE + 818768) ics 1 (next_pid ?s4 + 2) TASK_READY)"
      "main_thread s5 = main_pcb" "current_task s5 = main_pcb" "idle_thread s5 = KERNEL_HEAP_BASE"
      "lock_free (pool_lock (kernel_pool ?s4)) s5" "lock_free (pid_lock ?s4) s5"
      "\<And>a. 0xc0000000 \<le> unat a \<Longrightarrow> unat a < 0xc0075000 \<Longrightarrow> ram s5 a = ram ?s4 a"
      "\<exists>m h ar bd tk q n se lo c mt it x. s5 = ?s4\<lparr>ram := m, nodes := h, arenas := ar, block_descs := bd, tasks := tk, thread_ready_queue := q, next_pid := n,
      semas := se, locks := lo, current_task := c, main_thread := mt, idle_thread := it, screen := x\<rparr>"
    by (rule thread_boot_run [of ?s4 mcs ics]) (use s3(2,3,5,6) img2 e3 in \<open>simp_all only: table_frames, simp_all\<close>)
  have e5: "cr3 s5 = cr3 s3" "idt s5 = idt s3" "idtr s5 = idtr s3" "irqaction s5 = irqaction ?s4" "io_log s5 = io_log ?s4" "tss_addr s5 = tss_addr s3" "eflags s5 = eflags s3"
      "syscall_table s5 = syscall_table s3" "kernel_pool s5 = kernel_pool s3" "kernel_vm_pool s5 = kernel_vm_pool s3" "pid_lock s5 = pid_lock s3" "thread_a_name s5 = thread_a_name s3"
    using s5(11) by auto
  have p: "lock_free (pool_lock (kernel_pool s5)) s5" "lock_free (pid_lock s5) s5" "current_task s5 \<noteq> NULL" "syscall_table s5 = replicate SYSCALL_CNT None"
    using s5(6,8,9) e5 e3 img2(4) by (simp_all add: main_pcb_def NULL_def)
  have sp: "0xc0075000 \<le> unat a \<and> unat a < 0xc009e000" if "a \<in> bm_span (kvm s5) \<union> bm_span (kpm s5)" for a
    using s3(6) [of a] that unfolding e5 by simp
  obtain s' where s': "syscall_init (tss_init (console_init s5)) = Some s'" "heap_base s'" "lock_free (pool_lock (kernel_pool s5)) s'" "lock_free (pid_lock s5) s'"
      "lock_free (console_lock s5) s'" "threads_ok s' [KERNEL_HEAP_BASE] [KERNEL_HEAP_BASE, main_pcb]" "syscall_table s' = kernel_table"
      "segment s' SELECTOR_TSS = Some (creat_gdt_desc (tss_addr s5) 107 TSS_ATTR_LOW TSS_ATTR_HIGH)" "tr s' = 0x20"
      "\<And>a. unat a < 0xc0000920 \<or> 0xc0000938 \<le> unat a \<Longrightarrow> ram s' a = ram s5 a"
      "\<exists>se lo ts m g tr tb x. s' = s5\<lparr>semas := se, locks := lo, tss := ts, ram := m, gdtr := g, tr := tr, syscall_table := tb, screen := x\<rparr>"
    by (rule late_boot [OF s5(3) p(1-3) s5(2) p(4) sp]) (assumption, rule that)
  have e: "cr3 s' = cr3 s5" "idt s' = idt s5" "idtr s' = idtr s5" "irqaction s' = irqaction s5" "io_log s' = io_log s5" "eflags s' = eflags s5" "tasks s' = tasks s5"
      "current_task s' = current_task s5" "idle_thread s' = idle_thread s5" "kernel_pool s' = kernel_pool s5" "kernel_vm_pool s' = kernel_vm_pool s5"
      "console_lock s' = console_lock s5" "pid_lock s' = pid_lock s5" "thread_a_name s' = thread_a_name s5"
    using s'(11) by auto
  have run: "init_kernel s = Some (Returned (), s')"
    unfolding init_kernel_def by (simp only: Let_def s2(1) s3(1) s4 s5(1) s'(1) Option.bind.simps and_then_simps)
  have tk: "tasks s' = (tasks s)(main_pcb := new_task (main_pcb + 819200) mcs 1 (next_pid s + 1) TASK_RUNNING,
       KERNEL_HEAP_BASE := new_task (KERNEL_HEAP_BASE + 818768) ics 1 (next_pid s + 2) TASK_READY)"
    unfolding e s5(4) by (simp add: e3 e2)
  have "main_pcb \<noteq> KERNEL_HEAP_BASE"
    by (simp add: main_pcb_def KERNEL_HEAP_BASE_def)
  then have "pde_addr (tasks s' (current_task s')) = NULL"
    unfolding tk e s5(6) by (simp add: new_task_def)
  moreover have "KERNEL_HEAP_BASE \<le> vm_start (kernel_vm_pool s')"
    unfolding e e5 s3(5) by simp
  ultimately have hr: "heap_ready s'"
    using s'(3) by (intro heap_ready_base [OF s'(2)]) (simp_all only: e)
  have ram: "ram s' a = ram s a" if "0xc0000000 \<le> unat a" "unat a < 0xc0075000" "unat a < 0xc0000920 \<or> 0xc0000938 \<le> unat a" for a
    using s'(10) [OF that(3)] s5(10) [of a] s3(7) [of a] that e2(8) by simp
  show ?thesis
    by (rule that [OF run _ hr s'(6) tk _ _ _ _ _ _ _ s'(7) _ s'(9) _ _ ram])
      (use s3(4) s5(6,7) s'(4,5,8) e e5 e3 e2 s2(3,4) in simp_all)
qed

text \<open>
  The start of the kernel. From the state the loader leaves, with 34 MB of memory or more, the calls of \<open>init_os\<close> before
  \<open>ide_init\<close> all return, and together they leave a consistent kernel: the page directory is the new one and a heap is ready
  for every kernel thread; \<open>main\<close> runs and \<open>cpu_idle\<close> is the one ready thread, each with its structure and identifier; the
  console is free; the interrupt table, the handlers of clock and keyboard, the system calls and the task state segment are in
  place, and the interrupt controller and the timer got exactly their programs; the interrupt flag is as it was.
\<close>

theorem init_kernel_ready:
  assumes "kernel_image s mcs ics"
  shows "\<exists>s'. init_kernel s = Some (Returned (), s') \<and> cr3 s' = PAGE_DIR_TABLE \<and> heap_ready s' \<and>
    threads_ok s' [KERNEL_HEAP_BASE] [KERNEL_HEAP_BASE, main_pcb] \<and> current_task s' = main_pcb \<and> idle_thread s' = KERNEL_HEAP_BASE \<and>
    tasks s' = (tasks s)(main_pcb := new_task (main_pcb + 819200) mcs 1 (next_pid s + 1) TASK_RUNNING,
       KERNEL_HEAP_BASE := new_task (KERNEL_HEAP_BASE + 818768) ics 1 (next_pid s + 2) TASK_READY) \<and>
    lock_free (console_lock s') s' \<and>
    idt s' = idt_init (intr_entry_table s) (syscall_entry s) \<and> idtr s' = idt_addr (idt_base s) \<and>
    irqaction s' = (replicate 0x81 (ignore_intr_handler_addr s))[0x21 := keyboard_service_addr s, 0x20 := clock_service_addr s] \<and>
    syscall_table s' = kernel_table \<and> segment s' SELECTOR_TSS = Some (creat_gdt_desc (tss_addr s) 107 TSS_ATTR_LOW TSS_ATTR_HIGH) \<and> tr s' = 0x20 \<and>
    io_log s' = map (\<lambda>(p, v). Out8 p v) (rev (pic_8259A_init @ [(0x43, 0x34), (0x40, 0x9b), (0x40, 0)])) @ io_log s \<and>
    get_intr_status s' = get_intr_status s"
proof -
  obtain s' where s': "init_kernel s = Some (Returned (), s')" "cr3 s' = PAGE_DIR_TABLE" "heap_ready s'" "threads_ok s' [KERNEL_HEAP_BASE] [KERNEL_HEAP_BASE, main_pcb]"
      "tasks s' = (tasks s)(main_pcb := new_task (main_pcb + 819200) mcs 1 (next_pid s + 1) TASK_RUNNING,
         KERNEL_HEAP_BASE := new_task (KERNEL_HEAP_BASE + 818768) ics 1 (next_pid s + 2) TASK_READY)"
      "current_task s' = main_pcb" "idle_thread s' = KERNEL_HEAP_BASE" "lock_free (console_lock s') s'"
      "idt s' = idt_init (intr_entry_table s) (syscall_entry s)" "idtr s' = idt_addr (idt_base s)"
      "irqaction s' = (replicate 0x81 (ignore_intr_handler_addr s))[0x21 := keyboard_service_addr s, 0x20 := clock_service_addr s]"
      "syscall_table s' = kernel_table" "segment s' SELECTOR_TSS = Some (creat_gdt_desc (tss_addr s) 107 TSS_ATTR_LOW TSS_ATTR_HIGH)" "tr s' = 0x20"
      "io_log s' = map (\<lambda>(p, v). Out8 p v) (rev (pic_8259A_init @ [(0x43, 0x34), (0x40, 0x9b), (0x40, 0)])) @ io_log s" "eflags s' = eflags s"
    by (rule init_kernel_run [OF assms]) (rule that)
  have "get_intr_status s' = get_intr_status s"
    using s'(16) by (simp add: get_intr_status_def)
  then show ?thesis
    using s'(1-15) by blast
qed

text \<open>
  The kernel does not start without a disk, nor with more than four: \<open>init_os\<close> (and with it \<open>main\<close>) then does not return,
  although every initialisation before the disks has succeeded; without a disk it stops in an \<open>ASSERT\<close>.
\<close>

theorem boot_needs_disks:
  assumes "kernel_image s mcs ics" and "ucast (read32 (ram s) 0xc0000475) = (n :: u8)" and "unat n = 0 \<or> 4 < unat n"
  shows "init_os dv others s = None \<and> main_start dv others s = None"
proof -
  have none: "init_os dv others t = None" if t: "kernel_image t mcs ics" "ram t = ram s" for t :: "'a boot_state_scheme"
  proof -
    obtain s' where s': "init_kernel t = Some (Returned (), s')" "lock_free (console_lock s') s'"
        "\<And>a. 0xc0000000 \<le> unat a \<Longrightarrow> unat a < 0xc0075000 \<Longrightarrow> unat a < 0xc0000920 \<or> 0xc0000938 \<le> unat a \<Longrightarrow> ram s' a = ram t a"
      by (rule init_kernel_run [OF t(1)]) (rule that)
    have "read32 (ram s') 0xc0000475 = read32 (ram s) 0xc0000475"
      by (simp add: read32_def s'(3) t(2))
    then have "ide_init dv others s' = None"
      using assms(2,3) s'(2) by (intro ide_init_disk_count) simp_all
    then show ?thesis
      by (simp add: init_os_def s'(1))
  qed
  obtain x where x: "put_char 10 (put_hex (read32 (ram (put_lit ''total memory: 0x'' s)) 0xb00) (put_lit ''total memory: 0x'' s)) = s\<lparr>screen := x\<rparr>"
    unfolding put_hex_prints put_lit_text put_char_def by simp
  have "kernel_image (s\<lparr>screen := x\<rparr>) mcs ics"
    using assms(1) by (simp add: kernel_image_def)
  then have "main_start dv others s = None"
    using none [of "s\<lparr>screen := x\<rparr>"] by (simp add: main_start_def Let_def x)
  then show ?thesis
    using none [OF assms(1)] by simp
qed

text \<open>
  After the start the default handler reports each of its vectors: it prints a new line, the number in hexadecimal, and the name
  of the exception, which every vector of the table has.
\<close>

theorem default_handler_reports:
  assumes "trap_name s = trap_init_names" and "unat v < IDT_DESC_CNT" and "v \<notin> {14, 0x27, 0x2f}"
  shows "ignore_intr_handler v = None \<and>
    ignore_intr_report cr2 v s = Some (s\<lparr>screen := screen s @ [10] @ digits 16 (unat v) @ lit_text (trap_init_names ! unat v)\<rparr>)"
proof -
  have n: "length trap_init_names = IDT_DESC_CNT"
    by (simp add: trap_init_names_def)
  have v: "unat (ucast v :: u32) = unat v"
  proof -
    have "unat v < 256"
      using unsigned_less [of v] by simp
    then show ?thesis
      by (simp add: unsigned_ucast_eq take_bit_nat_eq_self)
  qed
  show ?thesis
    using assms n by (simp add: ignore_intr_handler_def ignore_intr_report_def Let_def put_char_def put_hex_prints put_lit_text v)
qed

section \<open>A concrete machine\<close>

text \<open>64 MB of memory; the variables and the one-letter names ``a'' lie in the image; the BIOS has found no disk.\<close>

definition demo_boot :: boot_state where
  "demo_boot = ide_state.extend (demo_ide\<lparr>ram := (write32 (\<lambda>_. 0) 0xb00 0x4000000)(0xc0002000 := 0x61), main_name := 0xc0002000, cpu_idle_name := 0xc0002000,
       kernel_block_desc_array := 0xc0003000, thread_total_list := 0xc0003100, syscall_table := replicate SYSCALL_CNT None\<rparr>)
     (boot_state.fields [] [] 0 0xc0004000 (\<lambda>i. 0xc0005000 + 16 * of_nat i) 0xc0006000 0xc0006100 0xc0006200 0xc0006300 0xc0006400 0xc0002000 0 0xc0002000)"

lemma demo_boot_ram: "ram demo_boot = (write32 (\<lambda>_. 0) 0xb00 0x4000000)(0xc0002000 := 0x61)"
  by (simp add: demo_boot_def ide_state.defs boot_state.defs)

lemma demo_boot_image: "kernel_image demo_boot [0x61] [0x61]"
proof -
  note r = demo_boot_ram
  have w: "write32 (\<lambda>_. 0) 0xb00 0x4000000 0xc0002001 = 0"
    by (simp add: write32_def)
  have m: "read32 (ram demo_boot) 0xb00 = 0x4000000"
    using read32_write32_same [of "\<lambda>_. 0" "0xb00" "0x4000000"] by (simp add: r read32_def)
  show ?thesis
    unfolding kernel_image_def m by (simp add: r w demo_boot_def ide_state.defs boot_state.defs in_image_def NULL_def)
qed

theorem init_kernel_ready_witness:
  "\<exists>s'. init_kernel demo_boot = Some (Returned (), s') \<and> heap_ready s' \<and> current_task s' = 0xc009e000 \<and> idle_thread s' = 0xc1000000 \<and>
    irqaction s' ! 0x21 = 0xc0006200"
proof -
  have k: "keyboard_service_addr demo_boot = 0xc0006200"
    by (simp add: demo_boot_def ide_state.defs boot_state.defs)
  obtain s' where "init_kernel demo_boot = Some (Returned (), s')" "heap_ready s'" "current_task s' = main_pcb" "idle_thread s' = KERNEL_HEAP_BASE"
      "irqaction s' = (replicate 0x81 (ignore_intr_handler_addr demo_boot))[0x21 := keyboard_service_addr demo_boot, 0x20 := clock_service_addr demo_boot]"
    using init_kernel_ready [OF demo_boot_image] by blast
  then show ?thesis
    by (intro exI [of _ s']) (simp add: main_pcb_def KERNEL_HEAP_BASE_def k)
qed

theorem default_handler_reports_witness:
  "ignore_intr_report 0 13 (demo_boot\<lparr>trap_name := trap_init_names\<rparr>) = Some (demo_boot\<lparr>trap_name := trap_init_names,
     screen := screen demo_boot @ [10] @ digits 16 13 @ lit_text (trap_init_names ! 13)\<rparr>)"
  using default_handler_reports [of "demo_boot\<lparr>trap_name := trap_init_names\<rparr>" 13 0] by (simp add: IDT_DESC_CNT_def)

theorem boot_needs_disks_witness: "main_start dull_disk (slices 1 10) demo_boot = None"
proof -
  have "ram demo_boot a = 0" if "a \<in> {0xc0000475, 0xc0000476, 0xc0000477, 0xc0000478}" for a
    using that unfolding demo_boot_ram by (auto simp: write32_def)
  then have "read32 (ram demo_boot) 0xc0000475 = 0"
    by (simp add: read32_def)
  then have "ucast (read32 (ram demo_boot) 0xc0000475) = (0 :: u8)"
    by simp
  moreover have "unat (0 :: u8) = 0 \<or> 4 < unat (0 :: u8)"
    by simp
  ultimately show ?thesis
    by (rule conjunct2 [OF boot_needs_disks [OF demo_boot_image]])
qed

end
