(* ===== verification/Spec2Isabelle.thy ===== *)
theory Spec2Isabelle
  imports Cstring Bitmap Klist Interrupt Sched Timer Sync Ioqueue Keyboard Stdio Pool Paging Heap Thread Console Tss Process Syscall Ide Disk Partition Print Boot
begin

text \<open>
  Verification of simos, a small x86 teaching kernel written in C (with some assembly). One theory models one part of
  the program; each opens with its state, its data and its operations, one definition for each C function, and then
  proves what makes the part correct. The names of functions, fields and constants are those of the source.

  \<^bold>\<open>The program.\<close> The loader puts the kernel at 3 GB and jumps to \<open>main\<close> (\<open>kernel/main.c\<close>), which calls \<open>init_os\<close>
  (\<open>kernel/init.c\<close>): interrupt tables, keyboard, memory pools and page tables, timer, the main and the idle thread,
  console, segments, system calls, disks. After that the clock interrupt drives a round-robin scheduler; threads use
  semaphores and locks, which block through the scheduler; the keyboard interrupt feeds a character queue; \<open>sys_malloc\<close>
  cuts pages into blocks; user code reaches \<open>sys_write\<close>, \<open>sys_malloc\<close>, \<open>sys_free\<close> and \<open>sys_getpid\<close> by \<open>int 0x80\<close>; the
  disk driver sends commands to ports and sleeps until the interrupt of the disk.

  \<^bold>\<open>Modelling.\<close> Integers are words of their width, so \<open>+\<close> wraps. Bytes live in one memory \<open>ram\<close>; task structures, list
  cells, semaphores, locks, arenas and block descriptors are typed heaps from addresses (a routine that clears raw
  memory over such objects resets the heap there as well). State is passed explicitly; the records extend one another
  along the order of the theories: \<open>screen_state\<close>, \<open>cpu_state\<close>, \<open>sched_state\<close>, \<open>timer_state\<close>, \<open>sync_state\<close>, then \<open>mem_state\<close>,
  \<open>thread_state\<close>, \<open>console_state\<close>, \<open>seg_state\<close>, \<open>sys_state\<close>, \<open>ide_state\<close>, \<open>boot_state\<close>, and beside them \<open>ioq_state\<close> and
  \<open>kbd_state\<close>. Output is part of the state (\<open>screen\<close>), so a routine that prints does so in its definition. \<open>None\<close> is the result of a call that does not return or has none in C: a failed \<open>ASSERT\<close> (it prints with
  interrupts off and spins, \<open>debug_out\<close> in \<open>Console\<close>), a loop that never ends (\<open>partial_function\<close>), an access outside
  an object. Every property about success therefore states \<open>Some\<close>. A function that gives up the processor in the middle
  is split there: \<open>schedule\<close> returns in the state in which the next task runs, \<open>Waiting\<close> and \<open>In_lock\<close> say where the
  caller stopped, and a function with \<open>_resume\<close> or \<open>_rest\<close> in its name is the code after it got the processor back.
  Interleavings are sequences of these steps.

  \<^bold>\<open>Theories and sources.\<close>
  \<^item> \<open>Prelude\<close>: types, \<open>ASSERT\<close>, reading and writing 32 bit values, lemmas on words, the collections \<open>kdefs\<close> and
    \<open>kframe\<close>.
  \<^item> \<open>Print\<close> (\<open>lib/kernel/print.S\<close>): the screen as a sequence of characters, \<open>put_char\<close>, \<open>put_hex\<close>, \<open>put_str\<close> of a literal.
  \<^item> \<open>Cstring\<close> (\<open>lib/string.c\<close>): raw memory and strings; \<open>span\<close> and \<open>cstring\<close> are the vocabulary of all later frames.
  \<^item> \<open>Bitmap\<close> (\<open>lib/kernel/bitmap.c\<close>): what the search loops find, first fit, where it does not return.
  \<^item> \<open>Klist\<close> (\<open>lib/kernel/list.c\<close>): rings of cells refine sequences; the locale \<open>node_queue\<close> is the contract of a queue.
  \<^item> \<open>Interrupt\<close> (\<open>kernel/interrupt.c\<close>): the interrupt flag, the descriptor table, handlers, the interrupt controller.
  \<^item> \<open>Sched\<close>, \<open>Timer\<close> (\<open>thread/thread.c\<close>, \<open>device/timer.c\<close>): the ready queue as a sequence of tasks, the task state machine
    \<open>sched_step\<close> with its invariant, round robin, time slices, sleeping.
  \<^item> \<open>Sync\<close> (\<open>thread/sync.c\<close>): semaphores and locks, every interleaving of lock operations, preemption and idling
    (\<open>lock_step\<close>), mutual exclusion; the locale \<open>mutex\<close> is what clients of a lock use.
  \<^item> \<open>Ioqueue\<close>, \<open>Keyboard\<close> (\<open>device/ioqueue.c\<close>, \<open>device/keyboard.c\<close>): the ring buffer refines a bounded queue (locale
    \<open>bounded_fifo\<close>), blocking and hand-over, scan codes and modifier keys.
  \<^item> \<open>Stdio\<close> (\<open>lib/stdio.c\<close>, \<open>lib/kernel/kstdio.c\<close>): \<open>vsprintf\<close> writes the text of the specification \<open>render\<close>.
  \<^item> \<open>Pool\<close>, \<open>Paging\<close>, \<open>Heap\<close> (\<open>mm/memory.c\<close>): pages and frames, kernel page tables, arenas and blocks. The locale
    \<open>region_allocator\<close> is the contract of an allocator in any run of calls (live regions are disjoint); pages and heap
    blocks are its two instances.
  \<^item> \<open>Thread\<close> (\<open>thread/thread.c\<close>): creation of threads, identifiers, the first two threads.
  \<^item> \<open>Console\<close> (\<open>device/console.c\<close>, \<open>kernel/debug.c\<close>): output under the console lock, strings in memory, a failed assertion.
  \<^item> \<open>Tss\<close>, \<open>Process\<close> (\<open>userprog/tss.c\<close>, \<open>userprog/process.c\<close>): descriptors, the entry into user mode, address spaces.
  \<^item> \<open>Syscall\<close> (\<open>userprog/syscall_init.c\<close>, \<open>lib/user/syscall.c\<close>, \<open>kernel/interrupt_s.S\<close>): the table and the gate; \<open>user_step\<close> is
    what a program does with its memory.
  \<^item> \<open>Ide\<close>, \<open>Disk\<close>, \<open>Partition\<close> (\<open>device/ide.c\<close>, \<open>include/asm/io.h\<close>): the driver, what it achieves against a disk that
    obeys its interface, the scan of the partition tables. The disks are a parameter (\<open>device\<close>, a function of all port
    accesses so far), as is what other tasks do while the driver waits; the locale \<open>sector_source\<close> is what the scan needs
    of a read.
  \<^item> \<open>Boot\<close> (\<open>kernel/init.c\<close>, \<open>kernel/main.c\<close>, \<open>interrupt_init\<close>): the calls of \<open>init_os\<close> and \<open>main\<close> in their order, with what they
    print. \<open>init_kernel_ready\<close> composes the theorems about the parts: what one initialisation leaves is what the next one and
    the properties of the running kernel (heap, threads, console, system calls) ask for.

  \<^bold>\<open>Lemmas.\<close> Each theory proves an invariant (\<open>ring\<close>, \<open>queue_rep\<close>, \<open>sched_ok\<close>, \<open>sync_inv\<close>, \<open>ioq_inv\<close>, \<open>kpool_ok\<close>,
  \<open>heap_inv\<close>, \<open>threads_ok\<close>, \<open>drv_ok\<close>, \<open>parts_rep\<close>) and that every operation keeps it, an equation or an \<open>obtains\<close> rule
  for each operation on each branch, and frame facts. The properties follow in a few steps and are numbered. Refinements
  relate the code to sequences (lists, queues, the character queue), to a rendered text, and to a walk over the tables of
  a disk. Theorems named \<open>_witness\<close> apply a property to a concrete machine.

  \<^bold>\<open>Bounds and fuel.\<close> Loops that end are recursions on lists, on naturals or with a measure (\<open>sector_loop\<close>: sectors left);
  loops that may not end are partial functions, and properties that something returns say so. The loops over a list in
  memory take the number of cells as fuel where the list may be broken; on a ring, which the invariants give, this is
  enough. \<open>find_parts\<close> takes a number of steps; the property asks that it finds a result within it, and that there are as
  many buffers.

  \<^bold>\<open>Assumptions on the hardware and on code outside the sources.\<close> Interrupts are delivered between steps. The interrupt
  table \<open>intr_entry_table\<close> and the addresses of functions and strings are fields or arguments; the buffers of local variables
  are at given addresses. The disk is an arbitrary function of the port accesses so far. Where a property needs more of it, it
  assumes \<open>ata_disk\<close>: directly after a command to read, and only for its own drive, it hands over the words of as many sectors
  as the sector count register says, from the addressed sector on; all of them are ready after the one interrupt the driver
  waits for. The words of one transfer are a function of the port history before it.

  \<^bold>\<open>Limits of the memory model.\<close> Physical and virtual addresses index one \<open>ram\<close> without translation. The page tables are in
  \<open>ram\<close>, and \<open>Paging\<close> shows that they map the kernel as the other theories take for granted, up to 2040 MB; from 2 GB on the theorems on
  pages and blocks ignore the pages that are not mapped (\<open>kernel_pool_mapped\<close>). Task structures, list links, arena headers, semaphores and
  locks are typed cells beside the bytes of \<open>ram\<close>: \<open>memset\<close> over them clears both, but an ordinary write of a client
  changes bytes only, so a client that writes into a block it does not hold is outside the model. A client that
  writes into its own blocks is in it (the step \<open>client\<close> of \<open>heap_step\<close>). The runs of the heap are those of kernel threads
  (\<open>kernel_caller\<close>), whose blocks come from the kernel pool.

  \<^bold>\<open>Not modelled.\<close> The boot loader, \<open>switch.S\<close> (a switch is the change of \<open>current_task\<close>) and the assembly entry points of
  interrupts other than the system call; the video memory and the cursor behind \<open>put_char\<close>; the macro \<open>PRINT_ADDR\<close>, which nothing
  uses; the bodies of the test threads of \<open>kernel/main.c\<close> (the one that is started only spins).
\<close>

end
